(* ===== verification/Prelude.thy ===== *)
theory Prelude
  imports Main "HOL-Library.Word" "HOL-Library.Multiset"
begin

unbundle bit_operations_syntax

text \<open>
  Shared vocabulary of the development: the faults a C routine can end in, results that
  carry a fault or a value, block moves on arrays (\<open>memmove\<close>), and the generic lemmas on
  lists that the component theories share.

  Conventions used in every theory.
  \<^item> A status code is a \<open>bool\<close>: \<open>SUCCEED\<close> is \<open>True\<close>, \<open>FAIL\<close> is \<open>False\<close>.
  \<^item> A routine that may call \<open>exit(EXIT_FAILURE)\<close>, follow a null pointer, index an array out of
    bounds or divide by zero returns \<open>fault + 'a\<close>; \<open>Inl\<close> is the fault.
  \<^item> A \<open>void *\<close> is an \<open>option\<close>; \<open>None\<close> is \<open>NULL\<close>.
\<close>

subsection \<open>Status codes and faults\<close>

abbreviation (input) SUCCEED :: bool where "SUCCEED \<equiv> True"

abbreviation (input) FAIL :: bool where "FAIL \<equiv> False"

text \<open>\<open>FAIL\<close> where it is returned in place of an index or a count.\<close>

definition FAIL_value :: int where
  "FAIL_value = -1"

datatype fault = Exit_Failure | Null_Deref | Out_Of_Bounds | Div_By_Zero | Int_Overflow

type_synonym 'a res = "fault + 'a"

fun rbind :: "'a res \<Rightarrow> ('a \<Rightarrow> 'b res) \<Rightarrow> 'b res" where
  "rbind (Inl e) f = Inl e"
| "rbind (Inr x) f = f x"

lemma rbind_eq_Inr [simp]: "rbind r f = Inr y \<longleftrightarrow> (\<exists>x. r = Inr x \<and> f x = Inr y)"
  by (cases r) auto

subsection \<open>Machine integers\<close>

type_synonym u8 = "8 word"

type_synonym u32 = "32 word"

type_synonym u64 = "64 word"

lemma unat_ucast_up:
  fixes w :: "'a::len word"
  assumes "LENGTH('a) \<le> LENGTH('b::len)"
  shows "unat (ucast w :: 'b word) = unat w"
proof -
  have "unat w < 2 ^ LENGTH('a)" by simp
  also have "(2::nat) ^ LENGTH('a) \<le> 2 ^ LENGTH('b)" using assms by (simp add: power_increasing)
  finally show ?thesis by (simp add: unsigned_ucast_eq take_bit_nat_eq_self)
qed

lemma unat_push_bit: "unat (push_bit k w) = unat w * 2 ^ k mod 2 ^ LENGTH('a)" for w :: "'a::len word"
  by (subst unsigned_push_bit_eq) (simp only: push_bit_eq_mult take_bit_eq_mod)

lemma unat_drop_bit: "unat (drop_bit k w) = unat w div 2 ^ k" for w :: "'a::len word"
  by (subst unat_drop_bit_eq) (simp only: drop_bit_eq_div)

lemma unat_or_1: "even (unat w) \<Longrightarrow> unat (w OR 1) = unat w + 1" for w :: "'a::len word"
  by (subst unsigned_or_eq) (simp add: or_Suc_0_eq)

subsection \<open>Lemma collections\<close>

named_theorems inv_intros \<open>introduction rules for the representation invariants\<close>

named_theorems abs_simps \<open>abstraction of an operation's result\<close>

subsection \<open>Block moves\<close>

text \<open>
  \<open>memmove_list xs dst src n\<close> is the array \<open>xs\<close> after
  \<open>memmove(xs + dst, xs + src, n)\<close>; both blocks have to lie inside the array.
\<close>

definition memmove_list :: "'a list \<Rightarrow> nat \<Rightarrow> nat \<Rightarrow> nat \<Rightarrow> 'a list" where
  "memmove_list xs dst src n = take dst xs @ take n (drop src xs) @ drop (dst + n) xs"

lemma length_memmove_list [simp]:
  "dst + n \<le> length xs \<Longrightarrow> src + n \<le> length xs \<Longrightarrow> length (memmove_list xs dst src n) = length xs"
  by (simp add: memmove_list_def)

lemma nth_memmove_list:
  assumes "dst + n \<le> length xs" "src + n \<le> length xs" "i < length xs"
  shows "memmove_list xs dst src n ! i =
    (if dst \<le> i \<and> i < dst + n then xs ! (src + (i - dst)) else xs ! i)"
  using assms by (auto simp: memmove_list_def nth_append)

subsection \<open>Segments of an array\<close>

text \<open>\<open>seg xs a b\<close> is the list of the cells \<open>a, ..., b - 1\<close> of the array \<open>xs\<close>.\<close>

definition seg :: "'a list \<Rightarrow> nat \<Rightarrow> nat \<Rightarrow> 'a list" where
  "seg xs a b = take (b - a) (drop a xs)"

lemma length_seg [simp]: "b \<le> length xs \<Longrightarrow> length (seg xs a b) = b - a"
  by (simp add: seg_def)

lemma nth_seg [simp]: "b \<le> length xs \<Longrightarrow> i < b - a \<Longrightarrow> seg xs a b ! i = xs ! (a + i)"
  by (simp add: seg_def)

lemma seg_eqI:
  assumes "b \<le> length xs" "d \<le> length ys" "b - a = d - c"
    and "\<And>i. i < b - a \<Longrightarrow> xs ! (a + i) = ys ! (c + i)"
  shows "seg xs a b = seg ys c d"
  by (rule nth_equalityI) (use assms in auto)

lemma seg_empty [simp]: "b \<le> a \<Longrightarrow> seg xs a b = []"
  by (simp add: seg_def)

lemma seg_eq_Nil [simp]: "b \<le> length xs \<Longrightarrow> seg xs a b = [] \<longleftrightarrow> b \<le> a"
  by (auto simp: seg_def)

lemma seg_all: "seg xs 0 (length xs) = xs"
  by (simp add: seg_def)

lemma seg_snoc: "a \<le> b \<Longrightarrow> b < length xs \<Longrightarrow> seg xs a (Suc b) = seg xs a b @ [xs ! b]"
  by (simp add: seg_def Suc_diff_le take_Suc_conv_app_nth)

lemma seg_Cons: "a < b \<Longrightarrow> b \<le> length xs \<Longrightarrow> seg xs a b = xs ! a # seg xs (Suc a) b"
  by (rule nth_equalityI) (auto simp: nth_Cons')

lemma seg_append: "a \<le> b \<Longrightarrow> b \<le> c \<Longrightarrow> c \<le> length xs \<Longrightarrow> seg xs a c = seg xs a b @ seg xs b c"
  by (rule nth_equalityI) (auto simp: nth_append add.commute)

lemma seg_update_other [simp]: "i < a \<or> b \<le> i \<Longrightarrow> seg (xs[i := x]) a b = seg xs a b"
  by (rule nth_equalityI) (auto simp: seg_def)

lemma seg_append1 [simp]: "b \<le> length xs \<Longrightarrow> seg (xs @ ys) a b = seg xs a b"
  by (simp add: seg_def)

lemma set_seg: "b \<le> length xs \<Longrightarrow> set (seg xs a b) = {xs ! i | i. a \<le> i \<and> i < b}"
proof
  assume b: "b \<le> length xs"
  show "set (seg xs a b) \<subseteq> {xs ! i | i. a \<le> i \<and> i < b}"
    using b by (auto simp: set_conv_nth)
  show "{xs ! i | i. a \<le> i \<and> i < b} \<subseteq> set (seg xs a b)"
  proof clarify
    fix i assume i: "a \<le> i" "i < b"
    then have "seg xs a b ! (i - a) \<in> set (seg xs a b)"
      using b by (intro nth_mem) simp
    then show "xs ! i \<in> set (seg xs a b)"
      using b i by simp
  qed
qed

subsection \<open>Lists\<close>

lemma remove1_distinct_filter: "distinct xs \<Longrightarrow> remove1 v xs = filter (\<lambda>x. x \<noteq> v) xs"
  by (induction xs) (auto intro!: filter_True [symmetric])

lemma filter_notin_id: "v \<notin> set xs \<Longrightarrow> filter (\<lambda>x. x \<noteq> v) xs = xs"
  by (auto intro!: filter_True)

end
