(* ===== verification/C_String.thy ===== *)
theory C_String
  imports Prelude
begin

text \<open>
  C strings: a string is the list of its characters before the terminator, so a pointer into it is a
  suffix, and \<open>*p\<close> is its first character or the terminator. Character classes are those of the C
  locale.
\<close>

subsection \<open>Characters\<close>

abbreviation (input) NUL :: char where "NUL \<equiv> CHR 0x00"

definition code :: "char \<Rightarrow> nat" where
  "code c = of_char c"

definition isdigit :: "char \<Rightarrow> bool" where
  "isdigit c \<longleftrightarrow> 48 \<le> code c \<and> code c \<le> 57"

definition isxdigit :: "char \<Rightarrow> bool" where
  "isxdigit c \<longleftrightarrow> isdigit c \<or> (65 \<le> code c \<and> code c \<le> 70) \<or> (97 \<le> code c \<and> code c \<le> 102)"

definition isalpha :: "char \<Rightarrow> bool" where
  "isalpha c \<longleftrightarrow> (65 \<le> code c \<and> code c \<le> 90) \<or> (97 \<le> code c \<and> code c \<le> 122)"

definition digit_value :: "char \<Rightarrow> nat" where
  "digit_value c = code c - 48"

definition hex_value :: "char \<Rightarrow> nat" where
  "hex_value c = (if isdigit c then code c - 48 else if 97 \<le> code c then 10 + (code c - 97) else 10 + (code c - 65))"

text \<open>\<open>*p\<close> and \<open>p[i]\<close>.\<close>

fun cur :: "string \<Rightarrow> char" where
  "cur [] = NUL"
| "cur (c # s) = c"

definition cat :: "string \<Rightarrow> nat \<Rightarrow> char" where
  "cat s i = (if i < length s then s ! i else NUL)"

lemma code_simps [simp]:
  "code (CHR ''0'') = 48" "code (CHR ''.'') = 46" "code (CHR ''-'') = 45" "code (CHR ''+'') = 43"
  "code (CHR ''e'') = 101" "code (CHR ''E'') = 69" "code (CHR '' '') = 32" "code NUL = 0"
  by (simp_all add: code_def)

lemma isdigit_simps [simp]:
  "\<not> isdigit NUL" "\<not> isdigit (CHR ''.'')" "\<not> isdigit (CHR ''-'')" "\<not> isdigit (CHR ''+'')"
  "\<not> isdigit (CHR ''e'')" "\<not> isdigit (CHR ''E'')" "\<not> isdigit (CHR '' '')"
  by (simp_all add: isdigit_def)

lemma isxdigit_NUL [simp]: "\<not> isxdigit NUL"
  by (simp add: isxdigit_def)

lemma cat_0 [simp]: "cat s 0 = cur s"
  by (cases s) (simp_all add: cat_def)

lemma digit_value_less: "isdigit c \<Longrightarrow> digit_value c < 10"
  unfolding isdigit_def digit_value_def by arith

lemma hex_value_less: "isxdigit c \<Longrightarrow> hex_value c < 16"
  unfolding isxdigit_def hex_value_def isdigit_def by (simp split: if_split) arith

text \<open>The parts of a text with a separator between them.\<close>

fun join_with :: "char \<Rightarrow> string list \<Rightarrow> string" where
  "join_with c [] = []"
| "join_with c [s] = s"
| "join_with c (s # ss) = s @ c # join_with c ss"

subsection \<open>Positional notation\<close>

definition num_value :: "nat \<Rightarrow> ('c \<Rightarrow> nat) \<Rightarrow> nat \<Rightarrow> 'c list \<Rightarrow> nat" where
  "num_value b d v s = foldl (\<lambda>v c. v * b + d c) v s"

lemma num_value_Nil [simp]: "num_value b d v [] = v"
  by (simp add: num_value_def)

lemma num_value_Cons [simp]: "num_value b d v (c # s) = num_value b d (v * b + d c) s"
  by (simp add: num_value_def)

lemma num_value_append: "num_value b d v (s @ t) = num_value b d (num_value b d v s) t"
  by (simp add: num_value_def)

lemma num_value_ge: "0 < b \<Longrightarrow> v \<le> num_value b d v s"
proof (induction s arbitrary: v)
  case (Cons c s)
  have "v \<le> v * b + d c" using Cons.prems by (simp add: trans_le_add1)
  also have "\<dots> \<le> num_value b d (v * b + d c) s" using Cons by blast
  finally show ?case by simp
qed simp

abbreviation dec_value :: "string \<Rightarrow> nat" where
  "dec_value \<equiv> num_value 10 digit_value 0"

end
