(* ===== verification/Param.thy ===== *)
theory Param
  imports C_String
begin

text \<open>
  Parameter lists of item keys, \<open>src/src/libs/zbxparam/param.c\<close>: the scanner that takes a parameter out of a list, the
  length that its buffer needs, the number of parameters, and quoting. A scan is at a suffix of its text;
  the states of the scanners are 0 before a parameter, 1 inside quotes, 2 inside an unquoted parameter.
\<close>

subsection \<open>Reading a parameter\<close>

datatype zbx_request_parameter_type_t =
  REQUEST_PARAMETER_TYPE_UNDEFINED | REQUEST_PARAMETER_TYPE_STRING | REQUEST_PARAMETER_TYPE_ARRAY

text \<open>What the call leaves behind: the buffer that was filled, its terminator when it was written, the type when a
  place for it was given, and the return value.\<close>

record get_state =
  gbuf :: string
  gterm :: bool
  gtype :: "zbx_request_parameter_type_t option"

text \<open>\<open>ZBX_ASSIGN_PARAM\<close>: \<open>None\<close> is the return on a full buffer.\<close>

definition assign_param :: "nat \<Rightarrow> char \<Rightarrow> get_state \<Rightarrow> get_state option" where
  "assign_param max_len c g = (if length (gbuf g) = max_len then None else Some (g\<lparr>gbuf := gbuf g @ [c]\<rparr>))"

definition set_type :: "zbx_request_parameter_type_t \<Rightarrow> get_state \<Rightarrow> get_state" where
  "set_type t g = (if gtype g = Some REQUEST_PARAMETER_TYPE_UNDEFINED then g\<lparr>gtype := Some t\<rparr> else g)"

definition skip_spaces :: "string \<Rightarrow> string" where
  "skip_spaces p = dropWhile (\<lambda>c. c = CHR '' '') p"

text \<open>What may follow a closing quote or bracket.\<close>

definition ends_param :: "nat \<Rightarrow> string \<Rightarrow> bool" where
  "ends_param array p \<longleftrightarrow> \<not> (cur p \<noteq> CHR '','' \<and> cur p \<noteq> NUL \<and> (array = 0 \<or> cur p \<noteq> CHR '']''))"

lemma length_skip_spaces: "length (skip_spaces p) \<le> length p"
  by (simp add: skip_spaces_def length_dropWhile_le)

text \<open>The loop at the suffix \<open>p\<close>. \<open>p[1]\<close> is the head of the rest, and \<open>p--\<close> before the \<open>p++\<close> of the
  loop leaves the suffix as it is.\<close>

function get_param_loop :: "nat \<Rightarrow> nat \<Rightarrow> nat \<Rightarrow> nat \<Rightarrow> nat \<Rightarrow> get_state \<Rightarrow> string \<Rightarrow> get_state \<times> nat" where
  "get_param_loop num max_len state array idx g p =
     (let finish = (\<lambda>(_ :: unit). if state = 1 then (g, 1)
            else if array \<noteq> 0 then (g, 1)
            else (g\<lparr>gterm := True\<rparr>, if idx \<ge> num then 0 else 1))
      in case p of
        [] \<Rightarrow> finish ()
      | c # p1 \<Rightarrow>
          if \<not> idx \<le> num then finish ()
          else if state = 0 then
            if c = CHR '','' then
              if array = 0 then get_param_loop num max_len 0 array (idx + 1) g p1
              else if idx = num then
                (case assign_param max_len c g of None \<Rightarrow> (g, 1) | Some g \<Rightarrow> get_param_loop num max_len 0 array idx g p1)
              else get_param_loop num max_len 0 array idx g p1
            else if c = CHR 0x22 then
              if idx = num then
                let g = set_type REQUEST_PARAMETER_TYPE_STRING g in
                if array \<noteq> 0 then
                  (case assign_param max_len c g of None \<Rightarrow> (g, 1) | Some g \<Rightarrow> get_param_loop num max_len 1 array idx g p1)
                else get_param_loop num max_len 1 array idx g p1
              else get_param_loop num max_len 1 array idx g p1
            else if c = CHR ''['' then
              if idx = num then
                let g = set_type REQUEST_PARAMETER_TYPE_ARRAY g in
                if array \<noteq> 0 then
                  (case assign_param max_len c g of None \<Rightarrow> (g, 1) | Some g \<Rightarrow> get_param_loop num max_len 0 (array + 1) idx g p1)
                else get_param_loop num max_len 0 (array + 1) idx g p1
              else get_param_loop num max_len 0 (array + 1) idx g p1
            else if c = CHR '']'' \<and> array \<noteq> 0 then
              (case (if array - 1 \<noteq> 0 \<and> idx = num then assign_param max_len c g else Some g) of
                 None \<Rightarrow> (g, 1)
               | Some g \<Rightarrow>
                   let p1 = skip_spaces p1 in
                   if \<not> ends_param (array - 1) p1 then (g, 1)
                   else get_param_loop num max_len 0 (array - 1) idx g p1)
            else if c \<noteq> CHR '' '' then
              if idx = num then
                let g = set_type REQUEST_PARAMETER_TYPE_STRING g in
                (case assign_param max_len c g of None \<Rightarrow> (g, 1) | Some g \<Rightarrow> get_param_loop num max_len 2 array idx g p1)
              else get_param_loop num max_len 2 array idx g p1
            else get_param_loop num max_len 0 array idx g p1
          else if state = 1 then
            if c = CHR 0x22 then
              (case (if array \<noteq> 0 \<and> idx = num then assign_param max_len c g else Some g) of
                 None \<Rightarrow> (g, 1)
               | Some g \<Rightarrow>
                   let p1 = skip_spaces p1 in
                   if \<not> ends_param array p1 then (g, 1)
                   else get_param_loop num max_len 0 array idx g p1)
            else if c = CHR 0x5C \<and> cur p1 = CHR 0x22 then
              (case (if idx = num \<and> array \<noteq> 0 then assign_param max_len c g else Some g) of
                 None \<Rightarrow> (g, 1)
               | Some g \<Rightarrow>
                   (case (if idx = num then assign_param max_len (cur p1) g else Some g) of
                      None \<Rightarrow> (g, 1)
                    | Some g \<Rightarrow> get_param_loop num max_len 1 array idx g (tl p1)))
            else if idx = num then
              (case assign_param max_len c g of None \<Rightarrow> (g, 1) | Some g \<Rightarrow> get_param_loop num max_len 1 array idx g p1)
            else get_param_loop num max_len 1 array idx g p1
          else
            if c = CHR '','' \<or> (c = CHR '']'' \<and> array \<noteq> 0) then get_param_loop num max_len 0 array idx g p
            else if idx = num then
              (case assign_param max_len c g of None \<Rightarrow> (g, 1) | Some g \<Rightarrow> get_param_loop num max_len 2 array idx g p1)
            else get_param_loop num max_len 2 array idx g p1)"
  by pat_completeness auto
termination
  by (relation "measures [\<lambda>(num, max_len, state, array, idx, g, p). length p, \<lambda>(num, max_len, state, array, idx, g, p). if state = 0 then 0 else 1]")
    (auto simp: le_imp_less_Suc length_skip_spaces intro: le_trans [OF diff_le_self])

declare get_param_loop.simps [simp del]

definition zbx_get_param ::
  "string \<Rightarrow> nat \<Rightarrow> nat \<Rightarrow> zbx_request_parameter_type_t option \<Rightarrow> get_state \<times> nat" where
  "zbx_get_param p num max_len ty =
     (let g = \<lparr>gbuf = [], gterm = False, gtype = map_option (\<lambda>_. REQUEST_PARAMETER_TYPE_UNDEFINED) ty\<rparr>
      in if max_len = 0 then (g, 1) else get_param_loop num (max_len - 1) 0 0 1 g p)"

subsection \<open>The length of a parameter\<close>

function param_len_loop :: "nat \<Rightarrow> nat \<Rightarrow> nat \<Rightarrow> nat \<Rightarrow> nat \<Rightarrow> string \<Rightarrow> nat \<times> nat" where
  "param_len_loop num state array idx sz p =
     (let finish = (\<lambda>(_ :: unit). if state = 1 then (sz, 1) else if array \<noteq> 0 then (sz, 1) else (sz, if idx \<ge> num then 0 else 1 :: nat))
      in case p of
        [] \<Rightarrow> finish ()
      | c # p1 \<Rightarrow>
          if \<not> idx \<le> num then finish ()
          else if state = 0 then
            if c = CHR '','' then
              if array = 0 then param_len_loop num 0 array (idx + 1) sz p1
              else if idx = num then param_len_loop num 0 array idx (sz + 1) p1
              else param_len_loop num 0 array idx sz p1
            else if c = CHR 0x22 then
              param_len_loop num 1 array idx (if array \<noteq> 0 \<and> idx = num then sz + 1 else sz) p1
            else if c = CHR ''['' then
              param_len_loop num 0 (array + 1) idx (if array \<noteq> 0 \<and> idx = num then sz + 1 else sz) p1
            else if c = CHR '']'' \<and> array \<noteq> 0 then
              let sz = (if array - 1 \<noteq> 0 \<and> idx = num then sz + 1 else sz);
                  p1 = skip_spaces p1
              in if \<not> ends_param (array - 1) p1 then (sz, 1)
                 else param_len_loop num 0 (array - 1) idx sz p1
            else if c \<noteq> CHR '' '' then
              param_len_loop num 2 array idx (if idx = num then sz + 1 else sz) p1
            else param_len_loop num 0 array idx sz p1
          else if state = 1 then
            if c = CHR 0x22 then
              let sz = (if array \<noteq> 0 \<and> idx = num then sz + 1 else sz);
                  p1 = skip_spaces p1
              in if \<not> ends_param array p1 then (sz, 1)
                 else param_len_loop num 0 array idx sz p1
            else if c = CHR 0x5C \<and> cur p1 = CHR 0x22 then
              let sz = (if idx = num \<and> array \<noteq> 0 then sz + 1 else sz);
                  sz = (if idx = num then sz + 1 else sz)
              in param_len_loop num 1 array idx sz (tl p1)
            else if idx = num then param_len_loop num 1 array idx (sz + 1) p1
            else param_len_loop num 1 array idx sz p1
          else
            if c = CHR '','' \<or> (c = CHR '']'' \<and> array \<noteq> 0) then param_len_loop num 0 array idx sz p
            else if idx = num then param_len_loop num 2 array idx (sz + 1) p1
            else param_len_loop num 2 array idx sz p1)"
  by pat_completeness auto
termination
  by (relation "measures [\<lambda>(num, state, array, idx, sz, p). length p, \<lambda>(num, state, array, idx, sz, p). if state = 0 then 0 else 1]")
    (auto simp: le_imp_less_Suc length_skip_spaces intro: le_trans [OF diff_le_self])

declare param_len_loop.simps [simp del]

text \<open>The size that is stored, and the return value.\<close>

definition get_param_len :: "string \<Rightarrow> nat \<Rightarrow> nat \<times> nat" where
  "get_param_len p num = param_len_loop num 0 0 1 0 p"

definition zbx_get_param_dyn :: "string \<Rightarrow> nat \<Rightarrow> zbx_request_parameter_type_t option \<Rightarrow> string option" where
  "zbx_get_param_dyn p num ty =
     (case get_param_len p num of
        (sz, ret) \<Rightarrow>
          if ret \<noteq> 0 then None
          else (case zbx_get_param p num (sz + 1) ty of (g, ret) \<Rightarrow> if ret \<noteq> 0 then None else Some (gbuf g)))"

subsection \<open>The number of parameters\<close>

function num_param_loop :: "nat \<Rightarrow> nat \<Rightarrow> nat \<Rightarrow> string \<Rightarrow> nat" where
  "num_param_loop state array ret p =
     (case p of
        [] \<Rightarrow> if state = 1 then 0 else if array \<noteq> 0 then 0 else ret
      | c # p1 \<Rightarrow>
          if state = 0 then
            if c = CHR '','' then num_param_loop 0 array (if array = 0 then ret + 1 else ret) p1
            else if c = CHR 0x22 then num_param_loop 1 array ret p1
            else if c = CHR ''['' then (if array = 0 then num_param_loop 0 1 ret p1 else 0)
            else if c = CHR '']'' \<and> array \<noteq> 0 then
              let p1 = skip_spaces p1
              in if cur p1 \<noteq> CHR '','' \<and> cur p1 \<noteq> NUL then 0 else num_param_loop 0 0 ret p1
            else if c = CHR '']'' \<and> array = 0 then 0
            else if c \<noteq> CHR '' '' then num_param_loop 2 array ret p1
            else num_param_loop 0 array ret p1
          else if state = 1 then
            if c = CHR 0x22 then
              let p1 = skip_spaces p1
              in if \<not> ends_param array p1 then 0 else num_param_loop 0 array ret p1
            else if c = CHR 0x5C \<and> cur p1 = CHR 0x22 then num_param_loop 1 array ret (tl p1)
            else num_param_loop 1 array ret p1
          else
            if c = CHR '','' \<or> (c = CHR '']'' \<and> array \<noteq> 0) then num_param_loop 0 array ret p
            else if c = CHR '']'' \<and> array = 0 then 0
            else num_param_loop 2 array ret p1)"
  by pat_completeness auto
termination
  by (relation "measures [\<lambda>(state, array, ret, p). length p, \<lambda>(state, array, ret, p). if state = 0 then 0 else 1]")
    (auto simp: le_imp_less_Suc length_skip_spaces intro: le_trans [OF diff_le_self])

declare num_param_loop.simps [simp del]

definition zbx_num_param :: "string option \<Rightarrow> nat" where
  "zbx_num_param p = (case p of None \<Rightarrow> 0 | Some p \<Rightarrow> num_param_loop 0 0 1 p)"

subsection \<open>Parameters of a key\<close>

text \<open>\<open>strchr\<close> and \<open>strrchr\<close>, as indices.\<close>

definition strchr :: "string \<Rightarrow> char \<Rightarrow> nat option" where
  "strchr s c = (let n = length (takeWhile (\<lambda>x. x \<noteq> c) s) in if n < length s then Some n else None)"

definition strrchr :: "string \<Rightarrow> char \<Rightarrow> nat option" where
  "strrchr s c = (case strchr (rev s) c of None \<Rightarrow> None | Some n \<Rightarrow> Some (length s - 1 - n))"

lemma strchr_None: "strchr s c = None \<longleftrightarrow> c \<notin> set s"
proof -
  have "length (takeWhile (\<lambda>x. x \<noteq> c) s) < length s \<longleftrightarrow> c \<in> set s" by (induction s) auto
  then show ?thesis by (simp add: strchr_def Let_def)
qed

lemma strchr_prefix: "c \<notin> set u \<Longrightarrow> strchr (u @ c # v) c = Some (length u)"
proof -
  assume "c \<notin> set u"
  then have "takeWhile (\<lambda>x. x \<noteq> c) (u @ c # v) = u" by (induction u) auto
  then show ?thesis by (simp add: strchr_def Let_def)
qed

text \<open>The text between the first opening and the last closing bracket.\<close>

definition zbx_get_key_param :: "string \<Rightarrow> nat \<Rightarrow> nat \<Rightarrow> get_state \<times> nat" where
  "zbx_get_key_param param num max_len =
     (case (strchr param (CHR ''[''), strrchr param (CHR '']'')) of
        (Some pl, Some pr) \<Rightarrow>
          if pl > pr then (\<lparr>gbuf = [], gterm = False, gtype = None\<rparr>, 1)
          else zbx_get_param (drop (pl + 1) (take pr param)) num max_len None
      | _ \<Rightarrow> (\<lparr>gbuf = [], gterm = False, gtype = None\<rparr>, 1))"

definition zbx_num_key_param :: "string option \<Rightarrow> nat" where
  "zbx_num_key_param param =
     (case param of
        None \<Rightarrow> 0
      | Some param \<Rightarrow>
          (case (strchr param (CHR ''[''), strrchr param (CHR '']'')) of
             (Some pl, Some pr) \<Rightarrow> if pl > pr then 0 else zbx_num_param (Some (drop (pl + 1) (take pr param)))
           | _ \<Rightarrow> 0))"

subsection \<open>Quoting\<close>

text \<open>The characters that the loop of \<open>zbx_unquote_key_param\<close> keeps; the store after the loop then cuts off the last one,
  and writes to the byte in front of the text when there is none.\<close>

fun unquote_loop :: "string \<Rightarrow> string" where
  "unquote_loop [] = []"
| "unquote_loop (c # p) = (if c = CHR 0x5C \<and> cur p = CHR 0x22 then unquote_loop p else c # unquote_loop p)"

definition zbx_unquote_key_param :: "string \<Rightarrow> string res" where
  "zbx_unquote_key_param param =
     (if cur param \<noteq> CHR 0x22 then Inr param
      else (let kept = unquote_loop (tl param) in if kept = [] then Inl Out_Of_Bounds else Inr (butlast kept)))"

text \<open>\<open>zbx_get_escape_string_len\<close> counts the characters of the set once more.\<close>

fun zbx_get_escape_string_len :: "string \<Rightarrow> string \<Rightarrow> nat" where
  "zbx_get_escape_string_len [] charlist = 0"
| "zbx_get_escape_string_len (c # src) charlist =
     (if strchr charlist c \<noteq> None then zbx_get_escape_string_len src charlist + 2
      else zbx_get_escape_string_len src charlist + 1)"

text \<open>The loop from the end of the source: \<open>acc\<close> is what has been written, and \<open>sz_dst\<close> bytes are left in front of it.\<close>

fun quote_loop :: "string \<Rightarrow> nat \<Rightarrow> string \<Rightarrow> (nat \<times> string) res" where
  "quote_loop [] sz_dst acc = Inr (sz_dst, acc)"
| "quote_loop (c # src) sz_dst acc =
     (if sz_dst = 0 then Inl Out_Of_Bounds
      else if c = CHR 0x22 then
        (if sz_dst - 1 = 0 then Inl Out_Of_Bounds else quote_loop src (sz_dst - 2) (CHR 0x5C # c # acc))
      else quote_loop src (sz_dst - 1) (c # acc))"

definition needs_quotes :: "string \<Rightarrow> bool" where
  "needs_quotes param \<longleftrightarrow> cur param = CHR 0x22 \<or> cur param = CHR '' '' \<or> cur param = CHR ''['' \<or>
     strchr param (CHR '','') \<noteq> None \<or> strchr param (CHR '']'') \<noteq> None"

definition zbx_quote_key_param :: "string \<Rightarrow> nat \<Rightarrow> (string \<times> bool) res" where
  "zbx_quote_key_param param forced =
     (let req = needs_quotes param; sz_src = length param
      in if \<not> req \<and> forced = 0 then Inr (param, SUCCEED)
         else if sz_src \<noteq> 0 \<and> param ! (sz_src - 1) = CHR 0x5C then
           (if \<not> req \<and> forced \<noteq> 2 then Inr (param, SUCCEED) else Inr (param, FAIL))
         else
           let sz_dst = zbx_get_escape_string_len param [CHR 0x22] + 3 in
           case quote_loop (rev param) (sz_dst - 2) [CHR 0x22] of
             Inl e \<Rightarrow> Inl e
           | Inr (sz_dst, acc) \<Rightarrow> if sz_dst \<noteq> 1 then Inl Out_Of_Bounds else Inr (CHR 0x22 # acc, SUCCEED))"

end
