(* ===== verification/Param_Spec.thy ===== *)
theory Param_Spec
  imports Param
begin

text \<open>
  The scanners of parameter lists against a reference that writes out the characters of the selected
  parameter: the length that is computed first is the one the buffer needs, and a list of quoted
  parameters is read back.
\<close>

subsection \<open>The characters of a parameter\<close>

definition emit :: "bool \<Rightarrow> char \<Rightarrow> string \<times> nat \<Rightarrow> string \<times> nat" where
  "emit b c r = (if b then (c # fst r, snd r) else r)"

definition scan_end :: "nat \<Rightarrow> nat \<Rightarrow> nat \<Rightarrow> nat \<Rightarrow> nat" where
  "scan_end num state array idx = (if state = 1 \<or> array \<noteq> 0 \<or> idx < num then 1 else 0)"

function param_out :: "nat \<Rightarrow> nat \<Rightarrow> nat \<Rightarrow> nat \<Rightarrow> string \<Rightarrow> string \<times> nat" where
  "param_out num state array idx [] = ([], scan_end num state array idx)"
| "param_out num state array idx (c # p) =
     (if num < idx then ([], scan_end num state array idx)
      else if state = 0 then
        if c = CHR '','' then
          (if array = 0 then param_out num 0 array (idx + 1) p else emit (idx = num) c (param_out num 0 array idx p))
        else if c = CHR 0x22 then emit (array \<noteq> 0 \<and> idx = num) c (param_out num 1 array idx p)
        else if c = CHR ''['' then emit (array \<noteq> 0 \<and> idx = num) c (param_out num 0 (array + 1) idx p)
        else if c = CHR '']'' \<and> array \<noteq> 0 then
          emit (array - 1 \<noteq> 0 \<and> idx = num) c
            (if ends_param (array - 1) (skip_spaces p) then param_out num 0 (array - 1) idx (skip_spaces p) else ([], 1))
        else if c = CHR '' '' then param_out num 0 array idx p
        else emit (idx = num) c (param_out num 2 array idx p)
      else if state = 1 then
        if c = CHR 0x22 then
          emit (array \<noteq> 0 \<and> idx = num) c
            (if ends_param array (skip_spaces p) then param_out num 0 array idx (skip_spaces p) else ([], 1))
        else if c = CHR 0x5C \<and> cur p = CHR 0x22 then
          emit (array \<noteq> 0 \<and> idx = num) c (emit (idx = num) (cur p) (param_out num 1 array idx (tl p)))
        else emit (idx = num) c (param_out num 1 array idx p)
      else
        if c = CHR '','' \<or> (c = CHR '']'' \<and> array \<noteq> 0) then param_out num 0 array idx (c # p)
        else emit (idx = num) c (param_out num 2 array idx p))"
  by pat_completeness auto
termination
  by (relation "measures [\<lambda>(num, state, array, idx, p). length p, \<lambda>(num, state, array, idx, p). if state = 0 then 0 else 1]")
    (auto simp: le_imp_less_Suc length_skip_spaces)

declare param_out.simps(2) [simp del]

lemma emit_simps [simp]: "emit False c r = r" "fst (emit True c r) = c # fst r" "snd (emit b c r) = snd r"
  by (simp_all add: emit_def)

lemma shorter [simp]: "length (skip_spaces p) < Suc (length p)" "length p - Suc 0 < Suc (length p)"
  using length_skip_spaces [of p] by simp_all

lemma param_len_out:
  "param_len_loop num state array idx sz p = (sz + length (fst (param_out num state array idx p)), snd (param_out num state array idx p))"
proof (induction "length p" arbitrary: state array idx sz p rule: less_induct)
  case less
  show ?case
  proof (cases p)
    case Nil
    then show ?thesis by (simp add: param_len_loop.simps [of _ _ _ _ _ "[]"] scan_end_def)
  next
    case (Cons c p1)
    note IH = less.hyps [unfolded Cons, simplified]
    have low: "param_len_loop num state array idx sz (c # p1) =
        (sz + length (fst (param_out num state array idx (c # p1))), snd (param_out num state array idx (c # p1)))"
      if "state < 2" for state array idx sz
      unfolding param_out.simps(2) [of num state array idx c p1] param_len_loop.simps [of num state array idx sz "c # p1"]
      using that by (simp add: Let_def scan_end_def emit_def IH)
    show ?thesis
    proof (cases "state < 2")
      case True
      then show ?thesis unfolding Cons by (rule low)
    next
      case False
      then show ?thesis
        unfolding Cons param_out.simps(2) [of num state array idx c p1] param_len_loop.simps [of num state array idx sz "c # p1"]
        by (simp add: Let_def scan_end_def emit_def IH low)
    qed
  qed
qed

text \<open>What a bounded buffer of which \<open>gbuf g\<close> is filled makes of the characters \<open>out\<close>.\<close>

definition served :: "nat \<Rightarrow> get_state \<Rightarrow> string \<times> nat \<Rightarrow> get_state \<times> nat \<Rightarrow> bool" where
  "served m g out r \<longleftrightarrow>
     (if snd out = 0 \<and> length (gbuf g) + length (fst out) \<le> m
      then snd r = 0 \<and> gterm (fst r) \<and> gbuf (fst r) = gbuf g @ fst out else snd r = 1)"

lemma gbuf_set_type [simp]: "gbuf (set_type t g) = gbuf g"
  by (simp add: set_type_def)

lemma served_set_type [simp]: "served m (set_type t g) out r = served m g out r"
  by (simp add: served_def)

lemma served_stop [simp]: "snd out \<noteq> 0 \<Longrightarrow> served m g out (g', Suc 0)"
  by (simp add: served_def)

lemma served_end: "length (gbuf g) \<le> m \<Longrightarrow> served m g ([], 0) (g\<lparr>gterm := True\<rparr>, 0)"
  by (simp add: served_def)

lemma served_emit:
  assumes "\<And>g'. length (gbuf g') \<le> m \<Longrightarrow> served m g' out (f g')" "length (gbuf g) \<le> m"
  shows "served m g (emit True c out) (case assign_param m c g of None \<Rightarrow> (g'', 1) | Some g \<Rightarrow> f g)"
proof (cases "length (gbuf g) = m")
  case True
  then show ?thesis by (simp add: assign_param_def served_def emit_def)
next
  case False
  then show ?thesis using assms(1) [of "g\<lparr>gbuf := gbuf g @ [c]\<rparr>"] assms(2) by (simp add: assign_param_def served_def emit_def)
qed

lemma served_emit_if:
  assumes "\<And>g'. length (gbuf g') \<le> m \<Longrightarrow> served m g' out (f g')" "length (gbuf g) \<le> m"
  shows "served m g (emit b c out) (case (if b then assign_param m c g else Some g) of None \<Rightarrow> (g'', 1) | Some g \<Rightarrow> f g)"
  using served_emit [OF assms] assms by (cases b) simp_all

lemma served_emit_type:
  assumes "\<And>g'. length (gbuf g') \<le> m \<Longrightarrow> served m g' out (f g')" "length (gbuf g) \<le> m"
  shows "served m g (emit True c out) (case assign_param m c (set_type t g) of None \<Rightarrow> (g'', 1) | Some g \<Rightarrow> f g)"
  using served_emit [of m out f "set_type t g" c g''] assms by simp

lemma get_param_out:
  "length (gbuf g) \<le> m \<Longrightarrow> served m g (param_out num state array idx p) (get_param_loop num m state array idx g p)"
proof (induction "length p" arbitrary: state array idx g p rule: less_induct)
  case less
  have fin: "served m g ([], scan_end num state array idx)
      (if state = 1 then (g, 1) else if array \<noteq> 0 then (g, 1) else (g\<lparr>gterm := True\<rparr>, if num \<le> idx then 0 else 1))"
    if "length (gbuf g) \<le> m" for g state array idx using that by (simp add: served_def scan_end_def)
  show ?case
  proof (cases p)
    case Nil
    then show ?thesis using fin less.prems by (simp add: get_param_loop.simps [of _ _ _ _ _ _ "[]"])
  next
    case (Cons c p1)
    note IH = less.hyps [unfolded Cons, simplified]
    have IH_type: "served m g (param_out num state array idx p') (get_param_loop num m state array idx (set_type t g) p')"
      if "length p' < length (c # p1)" "length (gbuf g) \<le> m" for p' state array idx t g
      using less.hyps [of p' "set_type t g" state array idx] that Cons by simp
    have low: "served m g (param_out num state array idx (c # p1)) (get_param_loop num m state array idx g (c # p1))"
      if s: "state < 2" and l: "length (gbuf g) \<le> m" for state array idx g
    proof (cases "idx = num")
      case True
      show ?thesis
      proof (cases array)
        case 0
        show ?thesis
          unfolding True 0 param_out.simps(2) [of num state 0 num c p1] get_param_loop.simps [of num m state 0 num g "c # p1"]
          using s l fin [OF l, of state 0 num] by (simp add: Let_def served_emit served_emit_type IH IH_type)
      next
        case (Suc a)
        show ?thesis
          unfolding True Suc param_out.simps(2) [of num state "Suc a" num c p1] get_param_loop.simps [of num m state "Suc a" num g "c # p1"]
          using s l fin [OF l, of state "Suc a" num] by (simp add: Let_def served_emit served_emit_type IH IH_type)
      qed
    next
      case False
      show ?thesis
        unfolding param_out.simps(2) [of num state array idx c p1] get_param_loop.simps [of num m state array idx g "c # p1"]
        using False s l fin [OF l, of state array idx] by (simp add: Let_def IH)
    qed
    show ?thesis
    proof (cases "state < 2")
      case True
      then show ?thesis unfolding Cons using low less.prems by blast
    next
      case False
      show ?thesis
      proof (cases "idx = num")
        case True
        then show ?thesis
          unfolding True Cons param_out.simps(2) [of num state array num c p1] get_param_loop.simps [of num m state array num g "c # p1"]
          using False less.prems fin [OF less.prems, of state array num] by (simp add: Let_def served_emit IH low)
      next
        case other: False
        then show ?thesis
          unfolding Cons param_out.simps(2) [of num state array idx c p1] get_param_loop.simps [of num m state array idx g "c # p1"]
          using False less.prems fin [OF less.prems, of state array idx] by (simp add: Let_def IH low)
      qed
    qed
  qed
qed

subsection \<open>The length and the buffer\<close>

lemma get_param_facts:
  assumes "param_out num 0 0 1 p = (out, r)"
  shows "get_param_len p num = (length out, r)"
    "case zbx_get_param p num m ty of (g, ret) \<Rightarrow>
      if r = 0 \<and> length out < m then ret = 0 \<and> gterm g \<and> gbuf g = out else ret = 1"
    "zbx_get_param_dyn p num ty = (if r = 0 then Some out else None)"
proof -
  note o = assms [simplified]
  show len: "get_param_len p num = (length out, r)"
    using param_len_out [of num 0 0 1 0 p] by (simp add: get_param_len_def o)
  show get: "case zbx_get_param p num m ty of (g, ret) \<Rightarrow>
      if r = 0 \<and> length out < m then ret = 0 \<and> gterm g \<and> gbuf g = out else ret = 1" for m
  proof (cases m)
    case (Suc k)
    let ?g = "\<lparr>gbuf = [], gterm = False, gtype = map_option (\<lambda>_. REQUEST_PARAMETER_TYPE_UNDEFINED) ty\<rparr>"
    have "served k ?g (out, r) (get_param_loop num k 0 0 1 ?g p)" using get_param_out [of ?g k num 0 0 1 p] by (simp add: o)
    then show ?thesis by (auto simp: zbx_get_param_def served_def Suc split: if_splits)
  qed (simp add: zbx_get_param_def)
  show "zbx_get_param_dyn p num ty = (if r = 0 then Some out else None)"
    using get [of "length out + 1"] by (cases "r = 0") (auto simp: zbx_get_param_dyn_def len split: prod.splits)
qed


subsection \<open>Quoting\<close>

fun escape :: "string \<Rightarrow> string" where
  "escape [] = []"
| "escape (c # s) = (if c = CHR 0x22 then CHR 0x5C # c # escape s else c # escape s)"

lemma escape_append: "escape (s @ t) = escape s @ escape t"
  by (induction s) simp_all

lemma escape_len: "zbx_get_escape_string_len s [CHR 0x22] = length (escape s)"
  by (induction s) (simp_all add: strchr_def Let_def)

lemma quote_loop_escape: "quote_loop (rev s) (length (escape s) + k) acc = Inr (k, escape s @ acc)"
proof (induction s arbitrary: k acc rule: rev_induct)
  case (snoc c s)
  show ?case using snoc.IH [of k "CHR 0x5C # CHR 0x22 # acc"] snoc.IH [of k "c # acc"]
    by (simp add: escape_append)
qed simp

definition quoted :: "string \<Rightarrow> string" where
  "quoted s = CHR 0x22 # escape s @ [CHR 0x22]"

definition ends_in_backslash :: "string \<Rightarrow> bool" where
  "ends_in_backslash s \<longleftrightarrow> s \<noteq> [] \<and> last s = CHR 0x5C"

lemma quote_key_param_eq:
  "zbx_quote_key_param s forced =
    (if \<not> needs_quotes s \<and> (forced = 0 \<or> ends_in_backslash s \<and> forced \<noteq> 2) then Inr (s, SUCCEED)
     else if ends_in_backslash s then Inr (s, FAIL) else Inr (quoted s, SUCCEED))"
  using quote_loop_escape [of s 1 "[CHR 0x22]"]
  by (auto simp: zbx_quote_key_param_def Let_def escape_len ends_in_backslash_def last_conv_nth quoted_def)

lemma unquote_loop_escape: "\<not> ends_in_backslash s \<Longrightarrow> unquote_loop (escape s @ [CHR 0x22]) = s @ [CHR 0x22]"
proof (induction s)
  case (Cons c s)
  have "\<not> ends_in_backslash s" using Cons.prems by (auto simp: ends_in_backslash_def)
  moreover have "cur (escape s @ [CHR 0x22]) \<noteq> CHR 0x22" if "c = CHR 0x5C"
    using that Cons.prems by (cases s) (auto simp: ends_in_backslash_def)
  ultimately show ?case using Cons.IH by (auto simp: neq_Nil_conv)
qed simp

text \<open>C36: Quoting never leaves the memory it allocates; it is refused exactly for a text that ends in a backslash and
  would have to be quoted, and whatever it returns otherwise is unquoted to the original text.\<close>

theorem quote_unquote_key_param:
  "if ends_in_backslash s \<and> (needs_quotes s \<or> forced = 2) then zbx_quote_key_param s forced = Inr (s, FAIL)
   else \<exists>q. zbx_quote_key_param s forced = Inr (q, SUCCEED) \<and> zbx_unquote_key_param q = Inr s"
proof -
  have plain: "zbx_unquote_key_param s = Inr s" if "\<not> needs_quotes s"
    using that by (simp add: zbx_unquote_key_param_def needs_quotes_def)
  have "zbx_unquote_key_param (quoted s) = Inr s" if "\<not> ends_in_backslash s"
    using unquote_loop_escape [OF that] by (simp add: zbx_unquote_key_param_def quoted_def)
  then show ?thesis using plain unfolding quote_key_param_eq by auto
qed

subsection \<open>Lists of quoted parameters\<close>

definition select :: "bool \<Rightarrow> string \<Rightarrow> string \<times> nat \<Rightarrow> string \<times> nat" where
  "select b s r = (if b then (s @ fst r, snd r) else r)"

definition at_comma :: "string \<Rightarrow> bool" where
  "at_comma rest \<longleftrightarrow> rest = [] \<or> hd rest = CHR '',''"

lemma at_comma_skip: "at_comma rest \<Longrightarrow> skip_spaces rest = rest"
  by (cases rest) (simp_all add: at_comma_def skip_spaces_def)

lemma at_comma_ends: "at_comma rest \<Longrightarrow> ends_param k rest"
  by (cases rest) (simp_all add: at_comma_def ends_param_def)

lemma emit_select [simp]: "emit b c (select b s r) = select b (c # s) r"
  by (simp add: emit_def select_def)

lemma select_Nil [simp]: "select b [] r = r"
  by (simp add: select_def)

lemma cur_escape: "cur (escape s @ CHR 0x22 # t) = CHR 0x22 \<longleftrightarrow> s = []"
  by (cases s) simp_all

lemma param_out_inside:
  "\<lbrakk>idx \<le> num; at_comma rest; \<not> ends_in_backslash s\<rbrakk> \<Longrightarrow>
   param_out num 1 0 idx (escape s @ CHR 0x22 # rest) = select (idx = num) s (param_out num 0 0 idx rest)"
proof (induction s)
  case Nil
  then show ?case by (simp add: param_out.simps(2) at_comma_skip at_comma_ends)
next
  case (Cons c s)
  have s: "\<not> ends_in_backslash s" using Cons.prems(3) by (auto simp: ends_in_backslash_def)
  have "s \<noteq> []" if "c = CHR 0x5C" using that Cons.prems(3) by (auto simp: ends_in_backslash_def)
  then show ?case using Cons.IH [OF Cons.prems(1,2) s] Cons.prems(1) cur_escape [of s rest]
    by (auto simp: param_out.simps(2))
qed

lemma param_out_plain:
  "\<lbrakk>idx \<le> num; at_comma rest; CHR '','' \<notin> set s; CHR '']'' \<notin> set s\<rbrakk> \<Longrightarrow>
   param_out num 2 0 idx (s @ rest) = select (idx = num) s (param_out num 0 0 idx rest)"
proof (induction s)
  case Nil
  then show ?case by (cases rest) (auto simp: param_out.simps(2) [of _ 2] at_comma_def scan_end_def)
qed (auto simp: param_out.simps(2))

definition well_quoted :: "string \<Rightarrow> string \<Rightarrow> bool" where
  "well_quoted s q \<longleftrightarrow> q = s \<and> \<not> needs_quotes s \<or> q = quoted s \<and> \<not> ends_in_backslash s"

lemma well_quotedI: "zbx_quote_key_param s forced = Inr (q, SUCCEED) \<Longrightarrow> well_quoted s q"
  unfolding quote_key_param_eq well_quoted_def by (auto split: if_splits)

lemma param_out_one:
  assumes "idx \<le> num" "at_comma rest" "well_quoted s q"
  shows "param_out num 0 0 idx (q @ rest) = select (idx = num) s (param_out num 0 0 idx rest)"
  using assms(3) unfolding well_quoted_def
proof
  assume q: "q = quoted s \<and> \<not> ends_in_backslash s"
  then show ?thesis using param_out_inside [OF assms(1,2)] assms(1) by (simp add: quoted_def param_out.simps(2))
next
  assume q: "q = s \<and> \<not> needs_quotes s"
  show ?thesis
  proof (cases s)
    case (Cons c s')
    have c: "c \<noteq> CHR '','' \<and> c \<noteq> CHR 0x22 \<and> c \<noteq> CHR ''['' \<and> c \<noteq> CHR '' ''" "CHR '','' \<notin> set s'" "CHR '']'' \<notin> set s'"
      using q by (auto simp: Cons needs_quotes_def strchr_None)
    show ?thesis using q c(1) assms(1) param_out_plain [OF assms(1,2) c(2,3)] by (simp add: Cons param_out.simps(2) [of _ 0])
  qed (use q in simp)
qed

lemma at_comma_simps [simp]: "at_comma []" "at_comma (CHR '','' # s)"
  by (simp_all add: at_comma_def)

lemma param_out_list:
  "\<lbrakk>list_all2 well_quoted ss qs; ss \<noteq> []; idx \<le> num; num < idx + length ss\<rbrakk> \<Longrightarrow>
   param_out num 0 0 idx (join_with (CHR '','') qs) = (ss ! (num - idx), 0)"
proof (induction ss qs arbitrary: idx rule: list_all2_induct)
  case (Cons s ss q qs)
  have qs: "ss = [] \<longleftrightarrow> qs = []" using Cons.hyps(2) by auto
  show ?case
  proof (cases qs)
    case Nil
    then have "idx = num" using Cons.prems qs by simp
    then show ?thesis using param_out_one [of num num "[]" s q] Cons.hyps(1) Nil by (simp add: select_def scan_end_def)
  next
    case (Cons q' qs')
    define rest where "rest = CHR '','' # join_with (CHR '','') qs"
    have j: "join_with (CHR '','') (q # qs) = q @ rest" by (simp add: Cons rest_def)
    have o: "param_out num 0 0 idx (q @ rest) = select (idx = num) s (param_out num 0 0 idx rest)"
      by (rule param_out_one) (use Cons.prems Cons.hyps in \<open>simp_all add: rest_def\<close>)
    have r: "param_out num 0 0 idx rest = param_out num 0 0 (idx + 1) (join_with (CHR '','') qs)"
      using Cons.prems(2) by (simp add: rest_def param_out.simps(2) [of _ 0])
    show ?thesis
    proof (cases "idx = num")
      case True
      have "param_out num 0 0 (num + 1) p = ([], 0)" for p by (cases p) (simp_all add: param_out.simps(2) scan_end_def)
      then show ?thesis using True j o r by (simp add: select_def)
    next
      case False
      have "ss \<noteq> []" using qs Cons by simp
      from Cons.IH [OF this, of "idx + 1"] show ?thesis
        using False Cons.prems j o r by (simp add: select_def nth_Cons' Suc_diff_Suc)
    qed
  qed
qed simp

subsection \<open>Counting the parameters\<close>

lemma num_param_inside:
  "\<lbrakk>at_comma rest; \<not> ends_in_backslash s\<rbrakk> \<Longrightarrow> num_param_loop 1 0 k (escape s @ CHR 0x22 # rest) = num_param_loop 0 0 k rest"
proof (induction s)
  case Nil
  then show ?case by (simp add: num_param_loop.simps [of "Suc 0"] at_comma_skip at_comma_ends)
next
  case (Cons c s)
  have s: "\<not> ends_in_backslash s" using Cons.prems(2) by (auto simp: ends_in_backslash_def)
  have "s \<noteq> []" if "c = CHR 0x5C" using that Cons.prems(2) by (auto simp: ends_in_backslash_def)
  then show ?case using Cons.IH [OF Cons.prems(1) s] cur_escape [of s rest]
    by (auto simp: num_param_loop.simps [of "Suc 0" _ _ "_ # _"])
qed

lemma num_param_plain:
  "\<lbrakk>at_comma rest; CHR '','' \<notin> set s; CHR '']'' \<notin> set s\<rbrakk> \<Longrightarrow> num_param_loop 2 0 k (s @ rest) = num_param_loop 0 0 k rest"
proof (induction s)
  case Nil
  then show ?case by (cases rest) (simp_all add: num_param_loop.simps [of 2] num_param_loop.simps [of 0 0 k "[]"] at_comma_def)
qed (auto simp: num_param_loop.simps [of 2 _ _ "_ # _"])

lemma num_param_one:
  assumes "at_comma rest" "well_quoted s q"
  shows "num_param_loop 0 0 k (q @ rest) = num_param_loop 0 0 k rest"
  using assms(2) unfolding well_quoted_def
proof
  assume q: "q = quoted s \<and> \<not> ends_in_backslash s"
  then show ?thesis using num_param_inside [OF assms(1)] by (simp add: quoted_def num_param_loop.simps [of 0 _ _ "_ # _"])
next
  assume q: "q = s \<and> \<not> needs_quotes s"
  show ?thesis
  proof (cases s)
    case (Cons c s')
    have c: "c \<noteq> CHR '','' \<and> c \<noteq> CHR 0x22 \<and> c \<noteq> CHR ''['' \<and> c \<noteq> CHR '' '' \<and> c \<noteq> CHR '']''" "CHR '','' \<notin> set s'" "CHR '']'' \<notin> set s'"
      using q by (auto simp: Cons needs_quotes_def strchr_None)
    show ?thesis using q c(1) num_param_plain [OF assms(1) c(2,3)] by (simp add: Cons num_param_loop.simps [of 0 _ _ "_ # _"])
  qed (use q in simp)
qed

lemma num_param_list:
  "\<lbrakk>list_all2 well_quoted ss qs; ss \<noteq> []\<rbrakk> \<Longrightarrow> num_param_loop 0 0 k (join_with (CHR '','') qs) = k + length ss - 1"
proof (induction ss qs arbitrary: k rule: list_all2_induct)
  case (Cons s ss q qs)
  show ?case
  proof (cases qs)
    case Nil
    then show ?thesis using num_param_one [of "[]" s q k] Cons.hyps by (simp add: num_param_loop.simps [of 0 0 k "[]"])
  next
    case (Cons q' qs')
    then have "ss \<noteq> []" using Cons.hyps(2) by auto
    from Cons.IH [OF this, of "k + 1"] show ?thesis
      using num_param_one [of "CHR '','' # join_with (CHR '','') qs" s q k] Cons.hyps(1) Cons
      by (simp add: num_param_loop.simps [of 0 0 k "_ # _"])
  qed
qed simp

text \<open>C34: Any texts that can be quoted, joined with commas, are counted and read back one by one, whatever commas,
  quotes, brackets, spaces or backslashes they contain.\<close>

theorem param_list_roundtrip:
  assumes "list_all2 (\<lambda>s q. zbx_quote_key_param s forced = Inr (q, SUCCEED)) ss qs" "ss \<noteq> []" "i < length ss"
  shows "zbx_num_param (Some (join_with (CHR '','') qs)) = length ss \<and>
    zbx_get_param_dyn (join_with (CHR '','') qs) (i + 1) ty = Some (ss ! i)"
proof -
  have q: "list_all2 well_quoted ss qs" using assms(1) by (rule list_all2_mono) (rule well_quotedI)
  define p where "p = join_with (CHR '','') qs"
  have o: "param_out (i + 1) 0 0 1 p = (ss ! i, 0)"
    using param_out_list [OF q assms(2), of 1 "i + 1"] assms(3) by (simp add: p_def)
  have "zbx_get_param_dyn p (i + 1) ty = Some (ss ! i)" using get_param_facts(3) [OF o, of ty] by simp
  moreover have "zbx_num_param (Some p) = length ss"
    using num_param_list [OF q assms(2), of 1] by (simp add: zbx_num_param_def p_def)
  ultimately show ?thesis by (simp add: p_def)
qed

theorem param_list_roundtrip_witness:
  "zbx_get_param_dyn (join_with (CHR '','') [''a b'', quoted ''x,]y'', quoted (CHR 0x22 # ''['')]) 3 None = Some (CHR 0x22 # ''['')"
proof -
  have "list_all2 (\<lambda>s q. zbx_quote_key_param s 0 = Inr (q, SUCCEED)) [''a b'', ''x,]y'', CHR 0x22 # ''['']
      [''a b'', quoted ''x,]y'', quoted (CHR 0x22 # ''['')]"
    by (simp add: quote_key_param_eq needs_quotes_def strchr_None ends_in_backslash_def)
  from param_list_roundtrip [OF this, of 2 None] show ?thesis by simp
qed

end
