(* ===== verification/Numbers.thy ===== *)
theory Numbers
  imports C_String
begin

text \<open>
  The number recognisers of \<open>src/src/libs/zbxnum/num.c\<close> and the unit suffixes of \<open>misc.c\<close>. Floating
  point (\<open>zbx_double_compare\<close>, \<open>strtod\<close>, \<open>zbx_print_double\<close>) is not modelled; the syntax check before
  \<open>strtod\<close> is. The counter \<open>len\<close> of \<open>zbx_is_hex_n_range\<close> is unbounded.
\<close>

subsection \<open>Storing the result\<close>

text \<open>The object representation of a value on a host of either byte order, and the copy of its \<open>size\<close>
  low bytes that starts at the offset found in the first byte of a short.\<close>

definition uint64_bytes :: "bool \<Rightarrow> u64 \<Rightarrow> u8 list" where
  "uint64_bytes big_endian v =
     (let bs = map (\<lambda>i. ucast (drop_bit (8 * i) v)) [0..<8] in if big_endian then rev bs else bs)"

definition first_byte :: "bool \<Rightarrow> 16 word \<Rightarrow> u8" where
  "first_byte big_endian w = (if big_endian then ucast (drop_bit 8 w) else ucast w)"

definition store_uint64 :: "bool \<Rightarrow> nat \<Rightarrow> u64 \<Rightarrow> u8 list" where
  "store_uint64 big_endian size' v =
     (let value_offset = push_bit 8 (of_nat (8 - size') :: 16 word)
      in take size' (drop (unat (first_byte big_endian value_offset)) (uint64_bytes big_endian v)))"

subsection \<open>Unsigned integers\<close>

fun is_uint_loop :: "string \<Rightarrow> nat \<Rightarrow> u64 \<Rightarrow> u64 option" where
  "is_uint_loop [] n value_uint64 = Some value_uint64"
| "is_uint_loop (ch # str) n value_uint64 =
     (if n = 0 then Some value_uint64
      else if \<not> isdigit ch then None
      else
        let c = of_nat (code ch - 48) :: u64 in
        if (NOT 0 - c) div 10 < value_uint64 then None
        else is_uint_loop str (n - 1) (value_uint64 * 10 + c))"

text \<open>The result is the return code and the bytes written to \<open>value\<close>, which is null unless \<open>value\<close>.\<close>

definition zbx_is_uint_n_range :: "bool \<Rightarrow> string option \<Rightarrow> nat \<Rightarrow> bool \<Rightarrow> nat \<Rightarrow> u64 \<Rightarrow> u64 \<Rightarrow> bool \<times> u8 list" where
  "zbx_is_uint_n_range big_endian str n value' size' mn mx =
     (case str of
        None \<Rightarrow> (FAIL, [])
      | Some str \<Rightarrow>
          if str = [] \<or> n = 0 \<or> 8 < size' \<or> (size' = 0 \<and> value') then (FAIL, [])
          else
            case is_uint_loop str n 0 of
              None \<Rightarrow> (FAIL, [])
            | Some v \<Rightarrow>
                if v < mn \<or> mx < v then (FAIL, [])
                else (SUCCEED, if value' then store_uint64 big_endian size' v else []))"

fun is_hex_loop :: "string \<Rightarrow> nat \<Rightarrow> u64 \<Rightarrow> nat \<Rightarrow> u64 option" where
  "is_hex_loop [] n value_uint64 len = Some value_uint64"
| "is_hex_loop (ch # str) n value_uint64 len =
     (if n = 0 then Some value_uint64
      else
        case (if 48 \<le> code ch \<and> code ch \<le> 57 then Some (of_nat (code ch - 48) :: u64)
              else if 97 \<le> code ch \<and> code ch \<le> 102 then Some (10 + of_nat (code ch - 97))
              else if 65 \<le> code ch \<and> code ch \<le> 70 then Some (10 + of_nat (code ch - 65))
              else None) of
          None \<Rightarrow> None
        | Some c \<Rightarrow>
            let len = len + 1 in
            if 16 < len \<and> drop_bit 4 (NOT 0) < value_uint64 then None
            else is_hex_loop str (n - 1) (push_bit 4 value_uint64 + c) len)"

definition zbx_is_hex_n_range :: "bool \<Rightarrow> string \<Rightarrow> nat \<Rightarrow> bool \<Rightarrow> nat \<Rightarrow> u64 \<Rightarrow> u64 \<Rightarrow> bool \<times> u8 list" where
  "zbx_is_hex_n_range big_endian str n value' size' mn mx =
     (if str = [] \<or> n = 0 \<or> 8 < size' \<or> (size' = 0 \<and> value') then (FAIL, [])
      else
        case is_hex_loop str n 0 0 of
          None \<Rightarrow> (FAIL, [])
        | Some v \<Rightarrow>
            if v < mn \<or> mx < v then (FAIL, [])
            else (SUCCEED, if value' then store_uint64 big_endian size' v else []))"

text \<open>The macros \<open>zbx_is_uint64_n\<close> and \<open>zbx_is_uint31\<close>: the value stored on success.\<close>

definition ZBX_SIZE_T_MAX :: nat where
  "ZBX_SIZE_T_MAX = 2 ^ 64 - 1"

text \<open>The typed reading of the buffer at the call: the integer of which it is the representation.\<close>

definition host_value :: "bool \<Rightarrow> u8 list \<Rightarrow> nat" where
  "host_value big_endian bs = num_value 256 unat 0 (if big_endian then bs else rev bs)"

definition zbx_is_uint64_n :: "bool \<Rightarrow> string \<Rightarrow> nat \<Rightarrow> u64 option" where
  "zbx_is_uint64_n big_endian str n =
     (case zbx_is_uint_n_range big_endian (Some str) n True 8 0 0xFFFFFFFFFFFFFFFF of
        (ret, bs) \<Rightarrow> if ret then Some (of_nat (host_value big_endian bs)) else None)"

definition zbx_is_uint31 :: "bool \<Rightarrow> string \<Rightarrow> u32 option" where
  "zbx_is_uint31 big_endian str =
     (case zbx_is_uint_n_range big_endian (Some str) ZBX_SIZE_T_MAX True 4 0 0x7FFFFFFF of
        (ret, bs) \<Rightarrow> if ret then Some (of_nat (host_value big_endian bs)) else None)"

definition zbx_is_int :: "bool \<Rightarrow> string \<Rightarrow> int option" where
  "zbx_is_int big_endian str =
     (let (ptr, sign) = (if cur str = CHR ''-'' then (tl str, -1) else (str, 1 :: int)) in
      case zbx_is_uint31 big_endian ptr of
        None \<Rightarrow> None
      | Some value_ui32 \<Rightarrow> Some (sint value_ui32 * sign))"

definition suffix2factor :: "char \<Rightarrow> u64" where
  "suffix2factor c =
     (if c = CHR ''K'' then 1024
      else if c = CHR ''M'' then 1048576
      else if c = CHR ''G'' then 1073741824
      else if c = CHR ''T'' then 1099511627776
      else if c = CHR ''s'' then 1
      else if c = CHR ''m'' then 60
      else if c = CHR ''h'' then 3600
      else if c = CHR ''d'' then 86400
      else if c = CHR ''w'' then 604800
      else 1)"

text \<open>On an empty string \<open>p\<close> points before the buffer. \<open>strchr\<close> also finds the terminator, but the last
  character of a string is not one.\<close>

definition zbx_str2uint64 :: "bool \<Rightarrow> string \<Rightarrow> string \<Rightarrow> u64 option res" where
  "zbx_str2uint64 big_endian str suffixes =
     (if str = [] then Inl Out_Of_Bounds
      else
        let sz = length str;
            p = last str;
            (factor, sz) = (if p \<in> set suffixes then (suffix2factor p, sz - 1) else (1, sz))
        in case zbx_is_uint64_n big_endian str sz of
             Some v \<Rightarrow> Inr (Some (v * factor))
           | None \<Rightarrow> Inr None)"

subsection \<open>Floating point syntax\<close>

text \<open>The exponent, with \<open>number\<close> behind the letter.\<close>

definition number_parse_exponent :: "string \<Rightarrow> nat \<Rightarrow> nat \<Rightarrow> nat \<Rightarrow> bool \<times> nat" where
  "number_parse_exponent number len digits dots =
     (let (number, len) = (if cur number = CHR ''-'' \<or> cur number = CHR ''+'' then (tl number, len + 1)
                           else (number, len)) in
      if \<not> isdigit (cur number) then (FAIL, len)
      else
        let len = len + length (takeWhile isdigit number);
            number = dropWhile isdigit number
        in if cur number = CHR ''.'' \<or> cur number = CHR ''e'' \<or> cur number = CHR ''E'' then (FAIL, len)
           else if digits < 1 \<or> 1 < dots then (FAIL, len)
           else (SUCCEED, len))"

fun number_parse_loop :: "string \<Rightarrow> nat \<Rightarrow> nat \<Rightarrow> nat \<Rightarrow> bool \<times> nat" where
  "number_parse_loop [] len digits dots = (if digits < 1 \<or> 1 < dots then (FAIL, len) else (SUCCEED, len))"
| "number_parse_loop (c # number) len digits dots =
     (if isdigit c then number_parse_loop number (len + 1) (digits + 1) dots
      else if c = CHR ''.'' then number_parse_loop number (len + 1) digits (dots + 1)
      else if c = CHR ''e'' \<or> c = CHR ''E'' then number_parse_exponent number (len + 1) digits dots
      else if digits < 1 \<or> 1 < dots then (FAIL, len)
      else (SUCCEED, len))"

definition zbx_number_parse :: "string \<Rightarrow> bool \<times> nat" where
  "zbx_number_parse number = number_parse_loop number 0 0 0"

definition is_double_valid_syntax :: "string \<Rightarrow> bool" where
  "is_double_valid_syntax str =
     (let str = (if cur str = CHR ''-'' \<or> cur str = CHR ''+'' then tl str else str) in
      case zbx_number_parse str of
        (ret, len) \<Rightarrow> if \<not> ret then FAIL else cat str len = NUL)"

subsection \<open>Trimming and dumps\<close>

function trim_left :: "string \<Rightarrow> nat \<Rightarrow> nat" where
  "trim_left str left = (if cat str left = CHR '' '' then trim_left str (left + 1) else left)"
  by pat_completeness auto
termination
  by (relation "measure (\<lambda>(str, left). length str - left)") (auto simp: cat_def split: if_splits)

declare trim_left.simps [simp del]

fun trim_right :: "string \<Rightarrow> nat \<Rightarrow> nat \<Rightarrow> nat" where
  "trim_right str left 0 = 0"
| "trim_right str left (Suc right) =
     (if cat str (Suc right) = CHR '' '' \<and> left < Suc right then trim_right str left right else Suc right)"

text \<open>The forward copy within the buffer.\<close>

function trim_copy :: "string \<Rightarrow> nat \<Rightarrow> nat \<Rightarrow> nat \<Rightarrow> string" where
  "trim_copy buf str left right =
     (if left \<le> right then trim_copy (buf[str := cat buf left]) (str + 1) (left + 1) right
      else take str buf)"
  by pat_completeness auto
termination
  by (relation "measure (\<lambda>(buf, str, left, right). Suc right - left)") auto

declare trim_copy.simps [simp del]

text \<open>The pointers as offsets; \<open>right\<close> stays at or behind the first character.\<close>

definition zbx_trim_number :: "string \<Rightarrow> bool \<Rightarrow> string" where
  "zbx_trim_number str strip_plus_sign =
     (if str = [] then str
      else
        let left = trim_left str 0;
            right = trim_right str left (length str - 1);
            (left, right) = (if cat str left = CHR 0x22 \<and> cat str right = CHR 0x22 \<and> left < right
                             then (left + 1, right - 1) else (left, right));
            left = (if strip_plus_sign \<and> cat str left = CHR ''+'' then left + 1 else left)
        in if right < left then []
           else if 0 < left then trim_copy str 0 left right
           else take (right + 1) str)"

definition zbx_trim_integer :: "string \<Rightarrow> string" where
  "zbx_trim_integer str = zbx_trim_number str True"

definition zbx_trim_float :: "string \<Rightarrow> string" where
  "zbx_trim_float str = zbx_trim_number str False"

fun hex_string_loop :: "string \<Rightarrow> bool" where
  "hex_string_loop [] = SUCCEED"
| "hex_string_loop (a # str) =
     (if \<not> isxdigit a then FAIL
      else case str of
        [] \<Rightarrow> FAIL
      | b # str \<Rightarrow>
          if \<not> isxdigit b then FAIL
          else case str of
            [] \<Rightarrow> SUCCEED
          | c # str \<Rightarrow> if c \<noteq> CHR '' '' \<and> c \<noteq> CHR 0x0A then FAIL else hex_string_loop str)"

definition zbx_is_hex_string :: "string \<Rightarrow> bool" where
  "zbx_is_hex_string str = (if str = [] then FAIL else hex_string_loop str)"

subsection \<open>The stored representation\<close>

lemma num_value_acc: "num_value b d v s = v * b ^ length s + num_value b d 0 s"
proof (induction s arbitrary: v)
  case (Cons c s)
  show ?case using Cons [of "v * b + d c"] Cons [of "d c"] by (simp add: algebra_simps)
qed simp

lemma low_bytes_value:
  "num_value 256 unat 0 (rev (map (\<lambda>i. ucast (drop_bit (8 * i) v) :: u8) [0..<k])) = unat v mod 256 ^ k"
  for v :: u64
proof (induction k)
  case (Suc k)
  have "unat (ucast (drop_bit (8 * k) v) :: u8) = unat v div 256 ^ k mod 256"
    by (simp add: unsigned_ucast_eq take_bit_eq_mod unat_drop_bit power_mult)
  moreover have "unat v mod 256 ^ Suc k = 256 ^ k * (unat v div 256 ^ k mod 256) + unat v mod 256 ^ k"
    using mod_mult2_eq [of "unat v" "256 ^ k" 256] by (simp add: mult.commute)
  moreover have "num_value 256 unat 0 (rev (map (\<lambda>i. ucast (drop_bit (8 * i) v) :: u8) [0..<Suc k])) =
      unat (ucast (drop_bit (8 * k) v) :: u8) * 256 ^ k + unat v mod 256 ^ k"
    using num_value_acc [of 256 unat "unat (ucast (drop_bit (8 * k) v) :: u8)"
      "rev (map (\<lambda>i. ucast (drop_bit (8 * i) v) :: u8) [0..<k])"] Suc by simp
  ultimately show ?case by (simp add: mult.commute)
qed simp

lemma first_byte_offset:
  assumes "size' \<le> 8"
  shows "unat (first_byte big_endian (push_bit 8 (of_nat (8 - size')))) = (if big_endian then 8 - size' else 0)"
proof -
  have "size' \<in> {0, 1, 2, 3, 4, 5, 6, 7, 8}" using assms by auto
  then show ?thesis by (cases big_endian) (auto simp: first_byte_def push_bit_eq_mult drop_bit_eq_div)
qed

lemma store_uint64_value:
  assumes "size' \<le> 8"
  shows "length (store_uint64 big_endian size' v) = size'"
    and "host_value big_endian (store_uint64 big_endian size' v) = unat v mod 256 ^ size'"
proof -
  let ?bs = "map (\<lambda>i. ucast (drop_bit (8 * i) v) :: u8) [0..<8]"
  have t: "take size' ?bs = map (\<lambda>i. ucast (drop_bit (8 * i) v)) [0..<size']"
    using assms by (simp add: take_map del: upt_rec_numeral)
  have "store_uint64 big_endian size' v = (if big_endian then rev (take size' ?bs) else take size' ?bs)"
    unfolding store_uint64_def Let_def first_byte_offset [OF assms] uint64_bytes_def
    using assms by (simp add: drop_rev take_rev del: upt_rec_numeral)
  then have e: "store_uint64 big_endian size' v = (if big_endian then rev (map (\<lambda>i. ucast (drop_bit (8 * i) v)) [0..<size'])
      else map (\<lambda>i. ucast (drop_bit (8 * i) v)) [0..<size'])"
    by (simp only: t)
  show "length (store_uint64 big_endian size' v) = size'" by (simp add: e)
  show "host_value big_endian (store_uint64 big_endian size' v) = unat v mod 256 ^ size'"
    by (simp add: e host_value_def low_bytes_value)
qed

subsection \<open>The digit loops\<close>

lemma unat_max_u64: "unat (NOT 0 :: u64) = 2 ^ 64 - 1"
  using unsigned_minus_1_eq_mask [where 'a = nat and 'b = 64] by (simp add: mask_eq_exp_minus_1)

lemma unat_less_u64: "unat (v :: u64) < 2 ^ 64"
  using unsigned_less [of v, where 'a = nat] by simp

lemma unat_of_nat_u64: "n < 2 ^ 64 \<Longrightarrow> unat (of_nat n :: u64) = n"
  by (simp add: unat_of_nat)

lemma decimal_overflow_guard:
  fixes v :: u64
  assumes "d < 10"
  shows "(NOT 0 - of_nat d) div 10 < v \<longleftrightarrow> 2 ^ 64 \<le> unat v * 10 + d"
proof -
  have "unat (of_nat d :: u64) = d" using assms by (simp add: unat_of_nat)
  then have "unat (NOT 0 - of_nat d :: u64) = 2 ^ 64 - 1 - d"
    using assms unat_max_u64 by (subst unat_sub) (simp_all add: word_le_nat_alt)
  then have "(NOT 0 - of_nat d) div 10 < v \<longleftrightarrow> (2 ^ 64 - 1 - d) div 10 < unat v"
    by (simp add: word_less_nat_alt unat_div)
  also have "\<dots> \<longleftrightarrow> 2 ^ 64 \<le> unat v * 10 + d"
    using assms by (simp add: div_less_iff_less_mult) arith
  finally show ?thesis .
qed

lemma decimal_step:
  fixes v :: u64
  shows "v * 10 + of_nat d = of_nat (unat v * 10 + d)"
  by (simp add: unat_of_nat)

lemma is_uint_loop_correct:
  "is_uint_loop s n v =
     (if (\<forall>c \<in> set (take n s). isdigit c) \<and> num_value 10 digit_value (unat v) (take n s) < 2 ^ 64
      then Some (of_nat (num_value 10 digit_value (unat v) (take n s))) else None)"
proof (induction s n v rule: is_uint_loop.induct)
  case (1 n v)
  have "unat v < 2 ^ 64" by (rule unat_less_u64)
  then show ?case by simp
next
  case (2 ch str n v)
  show ?case
  proof (cases "n \<noteq> 0 \<and> isdigit ch")
    case False
    have "unat v < 2 ^ 64" by (rule unat_less_u64)
    then show ?thesis using False by (cases n) auto
  next
    case True
    then obtain m where m: "n = Suc m" by (cases n) auto
    have d: "code ch - 48 = digit_value ch" "digit_value ch < 10"
      using True digit_value_less by (simp_all add: digit_value_def)
    show ?thesis
    proof (cases "2 ^ 64 \<le> unat v * 10 + digit_value ch")
      case over: True
      then have "\<not> num_value 10 digit_value (unat v * 10 + digit_value ch) (take m str) < 2 ^ 64"
        using num_value_ge [of 10 "unat v * 10 + digit_value ch" digit_value "take m str"] by linarith
      moreover have "(NOT 0 - of_nat (digit_value ch)) div 10 < v" using decimal_overflow_guard [OF d(2)] over by blast
      ultimately show ?thesis using True m by (simp add: d(1) Let_def)
    next
      case False
      then have u: "unat (v * 10 + of_nat (digit_value ch)) = unat v * 10 + digit_value ch"
        unfolding decimal_step by (intro unat_of_nat_u64) linarith
      have g: "\<not> (NOT 0 - of_nat (code ch - 48)) div 10 < v"
        using decimal_overflow_guard [OF d(2), of v] False unfolding d(1) by blast
      have "is_uint_loop (ch # str) n v = is_uint_loop str m (v * 10 + of_nat (digit_value ch))"
        using True m g by (simp add: d(1) Let_def)
      then show ?thesis using "2.IH" [OF _ _ refl, of] True m g u by (simp add: d(1))
    qed
  qed
qed

definition hex_digit :: "char \<Rightarrow> u64 option" where
  "hex_digit ch =
     (if 48 \<le> code ch \<and> code ch \<le> 57 then Some (of_nat (code ch - 48))
      else if 97 \<le> code ch \<and> code ch \<le> 102 then Some (10 + of_nat (code ch - 97))
      else if 65 \<le> code ch \<and> code ch \<le> 70 then Some (10 + of_nat (code ch - 65))
      else None)"

lemma hex_digit_eq: "hex_digit ch = (if isxdigit ch then Some (of_nat (hex_value ch)) else None)"
  by (auto simp: hex_digit_def isxdigit_def isdigit_def hex_value_def)

lemma hex_step:
  fixes v :: u64
  shows "push_bit 4 v + of_nat d = of_nat (unat v * 16 + d)"
  by (simp add: push_bit_eq_mult unat_of_nat)

lemma hex_overflow_guard:
  fixes v :: u64
  assumes "d < 16"
  shows "drop_bit 4 (NOT 0) < v \<longleftrightarrow> 2 ^ 64 \<le> unat v * 16 + d"
proof -
  have "unat (drop_bit 4 (NOT 0) :: u64) = (2 ^ 64 - 1) div 16"
    by (simp only: unat_drop_bit unat_max_u64) simp
  then show ?thesis using assms by (simp add: word_less_nat_alt) arith
qed

lemma is_hex_loop_correct:
  "len \<le> 16 \<and> unat v < 16 ^ len \<or> 16 < len \<Longrightarrow>
   is_hex_loop s n v len =
     (if (\<forall>c \<in> set (take n s). isxdigit c) \<and> num_value 16 hex_value (unat v) (take n s) < 2 ^ 64
      then Some (of_nat (num_value 16 hex_value (unat v) (take n s))) else None)"
proof (induction s arbitrary: n v len)
  case Nil
  show ?case using unat_less_u64 [of v] by simp
next
  case (Cons ch str)
  show ?case
  proof (cases "n \<noteq> 0 \<and> isxdigit ch")
    case False
    then show ?thesis using unat_less_u64 [of v]
      by (cases n) (auto simp: hex_digit_def [symmetric] hex_digit_eq)
  next
    case True
    then obtain m where m: "n = Suc m" by (cases n) auto
    define d where "d = hex_value ch"
    have d: "d < 16" using True hex_value_less by (simp add: d_def)
    have hd: "hex_digit ch = Some (of_nat d)" using True by (simp add: hex_digit_eq d_def)
    define stop where "stop \<longleftrightarrow> 16 < len + 1 \<and> drop_bit 4 (NOT 0) < v"
    have step: "is_hex_loop (ch # str) n v len =
        (if stop then None else is_hex_loop str m (push_bit 4 v + of_nat d) (len + 1))"
      using m hd unfolding is_hex_loop.simps hex_digit_def [symmetric] stop_def by (simp add: Let_def)
    have grow: "unat v * 16 + d < 16 ^ (len + 1)" if "len < 16"
    proof -
      have "unat v + 1 \<le> 16 ^ len" using Cons.prems that by simp
      then have "(unat v + 1) * 16 \<le> 16 ^ len * 16" by (rule mult_le_mono1)
      then show ?thesis using d by simp
    qed
    show ?thesis
    proof (cases "2 ^ 64 \<le> unat v * 16 + d")
      case over: True
      have "\<not> len < 16"
      proof
        assume l: "len < 16"
        then have "(16::nat) ^ (len + 1) \<le> 16 ^ 16" by (intro power_increasing) simp_all
        then show False using grow [OF l] over by simp
      qed
      moreover have "drop_bit 4 (NOT 0) < v" using hex_overflow_guard [OF d] over by blast
      ultimately have "stop" by (simp add: stop_def)
      moreover have "\<not> num_value 16 hex_value (unat v * 16 + d) (take m str) < 2 ^ 64"
        using num_value_ge [of 16 "unat v * 16 + d" hex_value "take m str"] over by linarith
      ultimately show ?thesis using True m by (subst step) (simp add: d_def)
    next
      case False
      then have u: "unat (push_bit 4 v + of_nat d) = unat v * 16 + d"
        unfolding hex_step by (intro unat_of_nat_u64) linarith
      have "\<not> stop" using hex_overflow_guard [OF d, of v] False by (simp add: stop_def)
      moreover have "len + 1 \<le> 16 \<and> unat (push_bit 4 v + of_nat d) < 16 ^ (len + 1) \<or> 16 < len + 1"
        using grow u by (cases "len < 16") auto
      ultimately show ?thesis
        using Cons.IH [of "len + 1" "push_bit 4 v + of_nat d" m] True m u by (subst step) (simp add: d_def)
    qed
  qed
qed

text \<open>What both recognisers promise: the first \<open>n\<close> characters are digits of the base and their value is
  in the range.\<close>

definition in_range_number :: "nat \<Rightarrow> (char \<Rightarrow> bool) \<Rightarrow> (char \<Rightarrow> nat) \<Rightarrow> string \<Rightarrow> u64 \<Rightarrow> u64 \<Rightarrow> bool" where
  "in_range_number b isd d t mn mx \<longleftrightarrow>
     t \<noteq> [] \<and> (\<forall>c \<in> set t. isd c) \<and> unat mn \<le> num_value b d 0 t \<and> num_value b d 0 t \<le> unat mx"

lemma in_range_number_less: "in_range_number b isd d t mn mx \<Longrightarrow> num_value b d 0 t < 2 ^ 64"
  using unat_less_u64 [of mx] by (simp add: in_range_number_def)

lemma range_check:
  "r < 2 ^ 64 \<Longrightarrow> (of_nat r < mn \<or> mx < of_nat r) \<longleftrightarrow> \<not> (unat mn \<le> r \<and> r \<le> unat mx)" for mn mx :: u64
  by (auto simp: word_less_nat_alt unat_of_nat_u64)

lemma is_uint_n_range_eq:
  "zbx_is_uint_n_range big_endian (Some s) n w size' mn mx =
     (if size' \<le> 8 \<and> \<not> (size' = 0 \<and> w) \<and> in_range_number 10 isdigit digit_value (take n s) mn mx
      then (SUCCEED, if w then store_uint64 big_endian size' (of_nat (dec_value (take n s))) else [])
      else (FAIL, []))"
proof (cases "s = [] \<or> n = 0 \<or> 8 < size' \<or> (size' = 0 \<and> w)")
  case True
  then show ?thesis by (auto simp: zbx_is_uint_n_range_def in_range_number_def)
next
  case False
  let ?r = "dec_value (take n s)"
  show ?thesis
  proof (cases "(\<forall>c \<in> set (take n s). isdigit c) \<and> ?r < 2 ^ 64")
    case True
    then show ?thesis
      using False range_check [of ?r mn mx]
      by (auto simp: zbx_is_uint_n_range_def is_uint_loop_correct in_range_number_def)
  next
    case bad: False
    then have "\<not> in_range_number 10 isdigit digit_value (take n s) mn mx"
      using in_range_number_less unfolding in_range_number_def by blast
    then show ?thesis using False bad by (simp add: zbx_is_uint_n_range_def is_uint_loop_correct)
  qed
qed

lemma is_hex_n_range_eq:
  "zbx_is_hex_n_range big_endian s n w size' mn mx =
     (if size' \<le> 8 \<and> \<not> (size' = 0 \<and> w) \<and> in_range_number 16 isxdigit hex_value (take n s) mn mx
      then (SUCCEED, if w then store_uint64 big_endian size' (of_nat (num_value 16 hex_value 0 (take n s))) else [])
      else (FAIL, []))"
proof (cases "s = [] \<or> n = 0 \<or> 8 < size' \<or> (size' = 0 \<and> w)")
  case True
  then show ?thesis by (auto simp: zbx_is_hex_n_range_def in_range_number_def)
next
  case False
  let ?r = "num_value 16 hex_value 0 (take n s)"
  have loop: "is_hex_loop s n 0 0 = (if (\<forall>c \<in> set (take n s). isxdigit c) \<and> ?r < 2 ^ 64 then Some (of_nat ?r) else None)"
    using is_hex_loop_correct [of 0 0 s n] by simp
  show ?thesis
  proof (cases "(\<forall>c \<in> set (take n s). isxdigit c) \<and> ?r < 2 ^ 64")
    case True
    then show ?thesis
      using False range_check [of ?r mn mx]
      by (auto simp: zbx_is_hex_n_range_def loop in_range_number_def)
  next
    case bad: False
    then have "\<not> in_range_number 16 isxdigit hex_value (take n s) mn mx"
      using in_range_number_less unfolding in_range_number_def by blast
    then show ?thesis using False bad by (simp add: zbx_is_hex_n_range_def loop)
  qed
qed

lemma is_uint64_n_eq:
  "zbx_is_uint64_n big_endian s n =
     (if take n s \<noteq> [] \<and> (\<forall>c \<in> set (take n s). isdigit c) \<and> dec_value (take n s) < 2 ^ 64
      then Some (of_nat (dec_value (take n s))) else None)"
proof -
  let ?r = "dec_value (take n s)"
  have m: "unat (0xFFFFFFFFFFFFFFFF :: u64) = 2 ^ 64 - 1" by simp
  have "in_range_number 10 isdigit digit_value (take n s) 0 0xFFFFFFFFFFFFFFFF \<longleftrightarrow>
      take n s \<noteq> [] \<and> (\<forall>c \<in> set (take n s). isdigit c) \<and> ?r < 2 ^ 64"
    unfolding in_range_number_def m by auto
  moreover have "of_nat (host_value big_endian (store_uint64 big_endian 8 (of_nat ?r))) = (of_nat ?r :: u64)"
  proof -
    have "host_value big_endian (store_uint64 big_endian 8 (of_nat ?r)) = unat (of_nat ?r :: u64) mod 256 ^ 8"
      by (rule store_uint64_value) simp
    also have "\<dots> = unat (of_nat ?r :: u64)" using unat_less_u64 [of "of_nat ?r"] by (intro mod_less) simp
    finally show ?thesis by (simp only: of_nat_unat ucast_id)
  qed
  ultimately show ?thesis by (simp add: zbx_is_uint64_n_def is_uint_n_range_eq)
qed

lemma is_uint31_eq:
  assumes "length s < 2 ^ 64"
  shows "zbx_is_uint31 big_endian s =
     (if s \<noteq> [] \<and> (\<forall>c \<in> set s. isdigit c) \<and> dec_value s < 2 ^ 31 then Some (of_nat (dec_value s)) else None)"
proof -
  have m: "unat (0x7FFFFFFF :: u64) = 2 ^ 31 - 1" by simp
  have t: "take ZBX_SIZE_T_MAX s = s" using assms by (simp add: ZBX_SIZE_T_MAX_def)
  have "in_range_number 10 isdigit digit_value s 0 0x7FFFFFFF \<longleftrightarrow>
      s \<noteq> [] \<and> (\<forall>c \<in> set s. isdigit c) \<and> dec_value s < 2 ^ 31"
    unfolding in_range_number_def m by auto
  moreover have "dec_value s < 2 ^ 31 \<Longrightarrow>
      of_nat (host_value big_endian (store_uint64 big_endian 4 (of_nat (dec_value s)))) = (of_nat (dec_value s) :: u32)"
    by (simp add: store_uint64_value unat_of_nat)
  ultimately show ?thesis by (simp add: zbx_is_uint31_def is_uint_n_range_eq t)
qed

subsection \<open>Floating point syntax\<close>

definition is_mantissa :: "string \<Rightarrow> bool" where
  "is_mantissa m \<longleftrightarrow> (\<exists>a b. (m = a @ b \<or> m = a @ CHR ''.'' # b) \<and> a @ b \<noteq> [] \<and> (\<forall>c \<in> set (a @ b). isdigit c))"

definition is_sign :: "string \<Rightarrow> bool" where
  "is_sign s \<longleftrightarrow> s \<in> {[], ''-'', ''+''}"

definition is_exponent :: "string \<Rightarrow> bool" where
  "is_exponent e \<longleftrightarrow> e = [] \<or>
     (\<exists>c sg ds. e = c # sg @ ds \<and> c \<in> {CHR ''e'', CHR ''E''} \<and> is_sign sg \<and> ds \<noteq> [] \<and> (\<forall>c \<in> set ds. isdigit c))"

abbreviation digit_or_dot :: "char \<Rightarrow> bool" where
  "digit_or_dot c \<equiv> isdigit c \<or> c = CHR ''.''"

lemma number_parse_prefix:
  "\<forall>c \<in> set m. digit_or_dot c \<Longrightarrow>
   number_parse_loop (m @ r) len dg dt =
     number_parse_loop r (len + length m) (dg + length (filter isdigit m)) (dt + count_list m (CHR ''.''))"
proof (induction m arbitrary: len dg dt)
  case (Cons c m)
  show ?case
  proof (cases "isdigit c")
    case True
    then have "c \<noteq> CHR ''.''" by auto
    then show ?thesis using Cons True by simp
  next
    case False
    then have "c = CHR ''.''" using Cons.prems by auto
    then show ?thesis using Cons False by simp
  qed
qed simp

lemma no_dot_digits: "\<forall>c \<in> set m. digit_or_dot c \<Longrightarrow> count_list m (CHR ''.'') = 0 \<Longrightarrow> \<forall>c \<in> set m. isdigit c"
  by (auto simp: count_list_0_iff)

lemma mantissa_count:
  "is_mantissa m \<longleftrightarrow>
     (\<forall>c \<in> set m. digit_or_dot c) \<and> 1 \<le> length (filter isdigit m) \<and> count_list m (CHR ''.'') \<le> 1"
proof
  have nd: "count_list x (CHR ''.'') = 0" if "\<forall>c \<in> set x. isdigit c" for x
    using that by (auto simp: count_list_0_iff)
  have fl: "filter isdigit x = x" if "\<forall>c \<in> set x. isdigit c" for x
    using that by simp
  assume "is_mantissa m"
  then obtain a b where m: "m = a @ b \<or> m = a @ CHR ''.'' # b" "a @ b \<noteq> []" "\<forall>c \<in> set (a @ b). isdigit c"
    unfolding is_mantissa_def by blast
  have ab: "\<forall>c \<in> set a. isdigit c" "\<forall>c \<in> set b. isdigit c" using m(3) by auto
  have "1 \<le> length a + length b" using m(2) by (cases a; cases b) auto
  then show "(\<forall>c \<in> set m. digit_or_dot c) \<and> 1 \<le> length (filter isdigit m) \<and> count_list m (CHR ''.'') \<le> 1"
    using m(1) ab nd [OF ab(1)] nd [OF ab(2)] fl [OF ab(1)] fl [OF ab(2)] by auto
next
  assume r: "(\<forall>c \<in> set m. digit_or_dot c) \<and> 1 \<le> length (filter isdigit m) \<and> count_list m (CHR ''.'') \<le> 1"
  show "is_mantissa m"
  proof (cases "CHR ''.'' \<in> set m")
    case False
    then have "\<forall>c \<in> set m. isdigit c" using r by auto
    moreover from this have "m \<noteq> []" using r by auto
    ultimately show ?thesis unfolding is_mantissa_def by (intro exI [of _ m] exI [of _ "[]"]) simp
  next
    case True
    then obtain a b where m: "m = a @ CHR ''.'' # b" by (meson split_list)
    then have z: "count_list a (CHR ''.'') = 0" "count_list b (CHR ''.'') = 0" using r by simp_all
    then have "\<forall>c \<in> set a. isdigit c" "\<forall>c \<in> set b. isdigit c" using no_dot_digits r m by auto
    moreover have "a @ b \<noteq> []" using r m by auto
    ultimately show ?thesis unfolding is_mantissa_def using m by (intro exI [of _ a] exI [of _ b]) auto
  qed
qed

lemma exponent_full:
  "(let (ok, k) = number_parse_exponent r n dg dt in ok \<and> k = n + length r) \<longleftrightarrow>
     1 \<le> dg \<and> dt \<le> 1 \<and> (\<exists>sg ds. r = sg @ ds \<and> is_sign sg \<and> ds \<noteq> [] \<and> (\<forall>c \<in> set ds. isdigit c))"
proof -
  define sg where "sg = (if cur r = CHR ''-'' \<or> cur r = CHR ''+'' then [cur r] else [])"
  define ds where "ds = (if cur r = CHR ''-'' \<or> cur r = CHR ''+'' then tl r else r)"
  have r: "r = sg @ ds" by (cases r) (auto simp: sg_def ds_def)
  have sg: "is_sign sg" by (auto simp: is_sign_def sg_def)
  have split: "(\<exists>sg ds. r = sg @ ds \<and> is_sign sg \<and> ds \<noteq> [] \<and> (\<forall>c \<in> set ds. isdigit c)) \<longleftrightarrow>
      ds \<noteq> [] \<and> (\<forall>c \<in> set ds. isdigit c)"
  proof
    assume "\<exists>sg ds. r = sg @ ds \<and> is_sign sg \<and> ds \<noteq> [] \<and> (\<forall>c \<in> set ds. isdigit c)"
    then obtain s d where *: "r = s @ d" "is_sign s" "d \<noteq> []" "\<forall>c \<in> set d. isdigit c" by blast
    then have "cur d \<noteq> CHR ''-''" "cur d \<noteq> CHR ''+''" by (cases d; auto)+
    then have "ds = d" using * by (auto simp: is_sign_def ds_def)
    then show "ds \<noteq> [] \<and> (\<forall>c \<in> set ds. isdigit c)" using * by simp
  qed (use r sg in blast)
  have e: "number_parse_exponent r n dg dt = 
     (if \<not> isdigit (cur ds) then (FAIL, n + length sg)
      else
        let len = n + length sg + length (takeWhile isdigit ds);
            number = dropWhile isdigit ds
        in if cur number = CHR ''.'' \<or> cur number = CHR ''e'' \<or> cur number = CHR ''E'' then (FAIL, len)
           else if dg < 1 \<or> 1 < dt then (FAIL, len)
           else (SUCCEED, len))"
    by (auto simp: number_parse_exponent_def sg_def ds_def Let_def)
  have all: "(\<forall>c \<in> set ds. isdigit c) \<longleftrightarrow> dropWhile isdigit ds = []"
    by (simp only: dropWhile_eq_Nil_conv)
  have l: "length ds = length (takeWhile isdigit ds) + length (dropWhile isdigit ds)"
    by (metis length_append takeWhile_dropWhile_id)
  have lr: "length r = length sg + length ds" by (subst r) simp
  show ?thesis
  proof (cases "ds \<noteq> [] \<and> dropWhile isdigit ds = []")
    case True
    then have "isdigit (cur ds)" using all by (cases ds) auto
    moreover have "length (takeWhile isdigit ds) = length ds" using l True by simp
    moreover have dw: "dropWhile isdigit ds = []" using True by blast
    ultimately show ?thesis unfolding split e all using True(1) [THEN conjunct1] lr by (simp add: Let_def dw)
  next
    case False
    show ?thesis
    proof (cases "ds = []")
      case True
      then have "\<not> isdigit (cur ds)" by simp
      then show ?thesis unfolding split e all using True by (simp add: Let_def)
    next
      case ne: False
      then have "dropWhile isdigit ds \<noteq> []" using False by blast
      then have "length (takeWhile isdigit ds) \<noteq> length ds" using l by simp
      then have "\<not> (let (ok, k) = number_parse_exponent r n dg dt in ok \<and> k = n + length r)"
        unfolding e lr by (simp add: Let_def)
      then show ?thesis unfolding split all using False by blast
    qed
  qed
qed

lemma number_parse_full:
  "(let (ok, k) = zbx_number_parse s in ok \<and> k = length s) \<longleftrightarrow> (\<exists>m e. s = m @ e \<and> is_mantissa m \<and> is_exponent e)"
proof -
  define m where "m = takeWhile digit_or_dot s"
  define r where "r = dropWhile digit_or_dot s"
  have s: "s = m @ r" by (simp add: m_def r_def)
  have dm: "\<forall>c \<in> set m. digit_or_dot c" using set_takeWhileD by (fastforce simp: m_def)
  have cr: "r \<noteq> [] \<Longrightarrow> \<not> digit_or_dot (hd r)" unfolding r_def by (rule hd_dropWhile)
  define dg where "dg = length (filter isdigit m)"
  define dt where "dt = count_list m (CHR ''.'')"
  have p: "zbx_number_parse s = number_parse_loop r (length m) dg dt"
    unfolding zbx_number_parse_def s using number_parse_prefix [OF dm, of r 0 0 0] by (simp add: dg_def dt_def)
  have uniq: "(\<exists>m e. s = m @ e \<and> is_mantissa m \<and> is_exponent e) \<longleftrightarrow> is_mantissa m \<and> is_exponent r"
  proof
    assume "\<exists>m e. s = m @ e \<and> is_mantissa m \<and> is_exponent e"
    then obtain m' e where *: "s = m' @ e" "is_mantissa m'" "is_exponent e" by blast
    have "e = [] \<or> \<not> digit_or_dot (hd e)" using *(3) by (auto simp: is_exponent_def)
    moreover have "\<forall>c \<in> set m'. digit_or_dot c" using *(2) mantissa_count by blast
    ultimately have "m = m'" "r = e" using *(1) unfolding m_def r_def
      by (cases e; simp add: takeWhile_append dropWhile_append)+
    then show "is_mantissa m \<and> is_exponent r" using * by simp
  qed (use s in blast)
  have mm: "is_mantissa m \<longleftrightarrow> 1 \<le> dg \<and> dt \<le> 1" unfolding dg_def dt_def using mantissa_count dm by blast
  show ?thesis
  proof (cases r)
    case Nil
    then show ?thesis using p s unfolding uniq mm by (auto simp: is_exponent_def)
  next
    case (Cons c r')
    then have nd: "\<not> isdigit c" "c \<noteq> CHR ''.''" using cr by auto
    show ?thesis
    proof (cases "c = CHR ''e'' \<or> c = CHR ''E''")
      case False
      then have "\<not> is_exponent r" using Cons by (auto simp: is_exponent_def)
      moreover have "\<not> (let (ok, k) = zbx_number_parse s in ok \<and> k = length s)"
        unfolding p using Cons nd False s by auto
      ultimately show ?thesis unfolding uniq by simp
    next
      case True
      then have "is_exponent r \<longleftrightarrow> (\<exists>sg ds. r' = sg @ ds \<and> is_sign sg \<and> ds \<noteq> [] \<and> (\<forall>c \<in> set ds. isdigit c))"
        using Cons by (auto simp: is_exponent_def)
      moreover have "zbx_number_parse s = number_parse_exponent r' (length m + 1) dg dt"
        unfolding p using Cons nd True by auto
      moreover have "length s = length m + 1 + length r'" using s Cons by simp
      ultimately show ?thesis unfolding uniq mm using exponent_full [of r' "length m + 1" dg dt]
        by auto
    qed
  qed
qed

lemma number_parse_exponent_len: "snd (number_parse_exponent r len dg dt) \<le> len + length r"
proof -
  have "length (takeWhile isdigit x) \<le> length x" for x by (rule length_takeWhile_le)
  then show ?thesis by (cases r) (auto simp: number_parse_exponent_def Let_def le_SucI)
qed

lemma number_parse_loop_len: "snd (number_parse_loop s len dg dt) \<le> len + length s"
proof (induction s arbitrary: len dg dt)
  case (Cons c s)
  show ?case
    using Cons [of "len + 1" "dg + 1" dt] Cons [of "len + 1" dg "dt + 1"]
      number_parse_exponent_len [of s "len + 1" dg dt]
    by auto
qed simp

lemma is_double_valid_syntax_eq:
  assumes "NUL \<notin> set s"
  shows "is_double_valid_syntax s \<longleftrightarrow>
    (\<exists>m e. (if cur s = CHR ''-'' \<or> cur s = CHR ''+'' then tl s else s) = m @ e \<and> is_mantissa m \<and> is_exponent e)"
proof -
  define t where "t = (if cur s = CHR ''-'' \<or> cur s = CHR ''+'' then tl s else s)"
  have nn: "NUL \<notin> set t" using assms by (cases s) (auto simp: t_def)
  obtain ok k where p: "zbx_number_parse t = (ok, k)" by (cases "zbx_number_parse t")
  then have "k \<le> length t" using number_parse_loop_len [of t 0 0 0] by (simp add: zbx_number_parse_def)
  have "cat t k = NUL \<longleftrightarrow> k = length t"
  proof (cases "k < length t")
    case True
    then have "t ! k \<noteq> NUL" using nn nth_mem by metis
    then show ?thesis using True by (simp add: cat_def)
  qed (use \<open>k \<le> length t\<close> in \<open>simp add: cat_def\<close>)
  then have "is_double_valid_syntax s \<longleftrightarrow> (let (ok, k) = zbx_number_parse t in ok \<and> k = length t)"
    by (simp add: is_double_valid_syntax_def t_def [symmetric] p)
  then show ?thesis using number_parse_full [of t] by (simp only: t_def)
qed

subsection \<open>Trimming\<close>

definition trim_spaces :: "string \<Rightarrow> string" where
  "trim_spaces s = rev (dropWhile ((=) CHR '' '') (rev (dropWhile ((=) CHR '' '') s)))"

definition unquote :: "string \<Rightarrow> string" where
  "unquote t = (if 2 \<le> length t \<and> hd t = CHR 0x22 \<and> last t = CHR 0x22 then butlast (tl t) else t)"

definition strip_plus :: "bool \<Rightarrow> string \<Rightarrow> string" where
  "strip_plus yes t = (if yes \<and> cur t = CHR ''+'' then tl t else t)"

lemma trim_left_eq: "trim_left s l = l + length (takeWhile ((=) CHR '' '') (drop l s))"
proof (induction "length s - l" arbitrary: l)
  case 0
  then show ?case by (subst trim_left.simps) (simp add: cat_def)
next
  case (Suc n)
  then have l: "l < length s" by simp
  then have d: "drop l s = s ! l # drop (Suc l) s" by (simp add: Cons_nth_drop_Suc)
  show ?case using Suc.hyps(1) [of "Suc l"] Suc.hyps(2) l
    by (subst trim_left.simps) (simp add: cat_def d)
qed

lemma trim_right_keep: "right \<le> left \<Longrightarrow> trim_right s left right = right"
  by (cases right) auto

lemma trim_right_props:
  assumes "left \<le> right" "right < length s" "s ! left \<noteq> CHR '' ''"
  shows "left \<le> trim_right s left right \<and> trim_right s left right \<le> right \<and> s ! trim_right s left right \<noteq> CHR '' '' \<and>
    (\<forall>i. trim_right s left right < i \<longrightarrow> i \<le> right \<longrightarrow> s ! i = CHR '' '')"
  using assms
proof (induction right)
  case (Suc right)
  show ?case
  proof (cases "s ! Suc right = CHR '' '' \<and> left < Suc right")
    case True
    then have "trim_right s left (Suc right) = trim_right s left right" using Suc.prems by (simp add: cat_def)
    then show ?thesis using Suc True by (auto simp: le_Suc_eq)
  next
    case False
    then have "\<not> (cat s (Suc right) = CHR '' '' \<and> left < Suc right)" using Suc.prems(2) unfolding cat_def by simp
    then have e: "trim_right s left (Suc right) = Suc right" by (simp only: trim_right.simps if_False)
    have "s ! Suc right \<noteq> CHR '' ''" using False Suc.prems by (cases "left = Suc right") auto
    then show ?thesis unfolding e using Suc.prems(1) by simp
  qed
qed simp

lemma trim_copy_eq:
  "\<lbrakk>d < l; l \<le> Suc right; right < length buf\<rbrakk> \<Longrightarrow> trim_copy buf d l right = take d buf @ seg buf l (Suc right)"
proof (induction "Suc right - l" arbitrary: buf d l)
  case 0
  then show ?case by (subst trim_copy.simps) (simp add: seg_def)
next
  case (Suc n)
  let ?buf = "buf[d := cat buf l]"
  have lr: "l \<le> right" using Suc.hyps(2) by simp
  have "trim_copy buf d l right = trim_copy ?buf (Suc d) (Suc l) right" using lr by (subst trim_copy.simps) simp
  also have "\<dots> = take (Suc d) ?buf @ seg ?buf (Suc l) (Suc right)"
    using Suc.hyps(1) [of "Suc l" "Suc d" ?buf] Suc.hyps(2) Suc.prems lr by simp
  also have "take (Suc d) ?buf = take d buf @ [buf ! l]"
    using Suc.prems lr by (simp add: take_Suc_conv_app_nth cat_def)
  also have "seg ?buf (Suc l) (Suc right) = seg buf (Suc l) (Suc right)"
    using Suc.prems by (simp add: seg_def)
  also have "(take d buf @ [buf ! l]) @ seg buf (Suc l) (Suc right) = take d buf @ seg buf l (Suc right)"
  proof -
    have "drop l buf = buf ! l # drop (Suc l) buf" using Suc.prems lr by (simp add: Cons_nth_drop_Suc)
    then show ?thesis using lr by (simp add: seg_def Suc_diff_le)
  qed
  finally show ?case .
qed

lemma trim_cut:
  assumes "right < length s"
  shows "(if right < left then [] else if 0 < left then trim_copy s 0 left right else take (right + 1) s) =
    seg s left (Suc right)"
  using assms trim_copy_eq [of 0 left right s] by (auto simp: seg_def)

lemma trim_spaces_seg:
  assumes "l \<le> r" "r < length s" "s ! l \<noteq> CHR '' ''" "s ! r \<noteq> CHR '' ''"
    and "\<And>i. i < l \<Longrightarrow> s ! i = CHR '' ''" "\<And>i. r < i \<Longrightarrow> i < length s \<Longrightarrow> s ! i = CHR '' ''"
  shows "trim_spaces s = seg s l (Suc r)"
proof -
  let ?sp = "(=) CHR '' ''"
  have s: "s = seg s 0 l @ seg s l (Suc r) @ seg s (Suc r) (length s)"
    using assms(1,2) seg_append [of 0 l "length s" s] seg_append [of l "Suc r" "length s" s] seg_all [of s] by simp
  have front: "\<forall>c \<in> set (seg s 0 l). ?sp c" using assms(1,2,5) by (auto simp: set_seg)
  have rear: "\<forall>c \<in> set (seg s (Suc r) (length s)). ?sp c" using assms(2,6) by (auto simp: set_seg)
  have c: "seg s l (Suc r) = s ! l # seg s (Suc l) (Suc r)" using assms(1,2) by (intro seg_Cons) simp_all
  have sn: "seg s l (Suc r) = seg s l r @ [s ! r]" using assms(1,2) by (intro seg_snoc) simp_all
  have "dropWhile ?sp s = dropWhile ?sp (seg s l (Suc r) @ seg s (Suc r) (length s))"
    by (subst s, rule dropWhile_append2) (use front in blast)
  also have "\<dots> = seg s l (Suc r) @ seg s (Suc r) (length s)" unfolding c using assms(3) by simp
  finally have 1: "dropWhile ?sp s = seg s l (Suc r) @ seg s (Suc r) (length s)" .
  have 2: "dropWhile ?sp (rev (seg s (Suc r) (length s)) @ rev (seg s l (Suc r))) = dropWhile ?sp (rev (seg s l (Suc r)))"
    by (rule dropWhile_append2) (use rear in auto)
  have "dropWhile ?sp (rev (seg s l (Suc r))) = rev (seg s l (Suc r))" unfolding sn using assms(4) by simp
  then show ?thesis unfolding trim_spaces_def 1 rev_append 2 by simp
qed

lemma trim_ends:
  assumes "l \<le> r" "r < length s"
  shows "(let (L, R) = (if cat s l = CHR 0x22 \<and> cat s r = CHR 0x22 \<and> l < r then (l + 1, r - 1) else (l, r));
            L = (if yes \<and> cat s L = CHR ''+'' then L + 1 else L)
          in seg s L (Suc R)) = strip_plus yes (unquote (seg s l (Suc r)))"
proof -
  have c: "seg s l (Suc r) = s ! l # seg s (Suc l) (Suc r)" using assms by (intro seg_Cons) simp_all
  have sn: "seg s l (Suc r) = seg s l r @ [s ! r]" using assms by (intro seg_snoc) simp_all
  have hd: "hd (seg s l (Suc r)) = s ! l" by (subst c) simp
  have la: "last (seg s l (Suc r)) = s ! r" by (subst sn) simp
  have len: "length (seg s l (Suc r)) = Suc r - l" using assms by simp
  have cat: "cat s i = s ! i" if "i \<le> r" for i using assms that by (simp add: cat_def)
  have strip: "strip_plus yes (seg s L b) = seg s (if yes \<and> cat s L = CHR ''+'' then L + 1 else L) b"
    if "L < b" "b \<le> Suc r" for L b
  proof -
    have "seg s L b = s ! L # seg s (Suc L) b" using that assms by (intro seg_Cons) simp_all
    then show ?thesis using that cat [of L] by (simp add: strip_plus_def)
  qed
  show ?thesis
  proof (cases "s ! l = CHR 0x22 \<and> s ! r = CHR 0x22 \<and> l < r")
    case False
    then have "unquote (seg s l (Suc r)) = seg s l (Suc r)" unfolding unquote_def hd la len by auto
    then show ?thesis using False assms cat [of l] cat [of r] strip [of l "Suc r"] by auto
  next
    case True
    have "butlast (tl (seg s l (Suc r))) = butlast (seg s (Suc l) (Suc r))" by (subst c) simp
    also have "\<dots> = seg s (Suc l) r" using True assms seg_snoc [of "Suc l" r s] by simp
    finally have u: "unquote (seg s l (Suc r)) = seg s (Suc l) r"
      using True unfolding unquote_def hd la len by (subst if_P) auto
    have "Suc l < r \<or> Suc l = r" using True by auto
    then show ?thesis
    proof
      assume "Suc l < r"
      then show ?thesis unfolding u using True cat [of l] cat [of r] strip [of "Suc l" r] by simp
    next
      assume "Suc l = r"
      then show ?thesis unfolding u using True cat [of l] cat [of r] by (auto simp: strip_plus_def)
    qed
  qed
qed

lemma trim_number_eq: "zbx_trim_number s yes = strip_plus yes (unquote (trim_spaces s))"
proof (cases "dropWhile ((=) CHR '' '') s = []")
  case True
  then have "takeWhile ((=) CHR '' '') s = s" by (metis takeWhile_dropWhile_id append_Nil2)
  then have l: "trim_left s 0 = length s" unfolding trim_left_eq by (metis add_0 drop_0)
  have t: "trim_spaces s = []" unfolding trim_spaces_def True by simp
  show ?thesis
  proof (cases "s = []")
    case False
    then have "trim_right s (length s) (length s - 1) = length s - 1" by (intro trim_right_keep) simp
    then show ?thesis using False l by (simp add: zbx_trim_number_def cat_def strip_plus_def unquote_def t)
  qed (simp add: zbx_trim_number_def trim_spaces_def strip_plus_def unquote_def)
next
  case False
  define l where "l = trim_left s 0"
  define r where "r = trim_right s l (length s - 1)"
  have tl: "l = length (takeWhile ((=) CHR '' '') s)" by (simp add: l_def trim_left_eq)
  have ls: "l < length s" using False unfolding tl
    by (metis append_Nil2 length_takeWhile_le le_neq_implies_less takeWhile_dropWhile_id takeWhile_eq_take take_all_iff order_refl dropWhile_eq_drop drop_all)
  then have sl: "s ! l \<noteq> CHR '' ''" using nth_length_takeWhile [of "(=) CHR '' ''" s] by (simp add: tl)
  have below: "s ! i = CHR '' ''" if "i < l" for i
    using that takeWhile_nth [of i "(=) CHR '' ''" s] set_takeWhileD [of _ "(=) CHR '' ''" s] nth_mem unfolding tl by metis
  have "l \<le> r \<and> r \<le> length s - 1 \<and> s ! r \<noteq> CHR '' '' \<and> (\<forall>i. r < i \<longrightarrow> i \<le> length s - 1 \<longrightarrow> s ! i = CHR '' '')"
    unfolding r_def by (rule trim_right_props) (use ls sl in simp_all)
  then have R: "l \<le> r" "r < length s" "s ! r \<noteq> CHR '' ''" "\<And>i. r < i \<Longrightarrow> i < length s \<Longrightarrow> s ! i = CHR '' ''"
    using ls by auto
  have sn: "s \<noteq> []" using ls by auto
  obtain L R' where X: "(if cat s l = CHR 0x22 \<and> cat s r = CHR 0x22 \<and> l < r then (l + 1, r - 1) else (l, r)) = (L, R')"
      and R': "R' < length s"
    using R(2) by (cases "cat s l = CHR 0x22 \<and> cat s r = CHR 0x22 \<and> l < r") auto
  have "zbx_trim_number s yes = seg s (if yes \<and> cat s L = CHR ''+'' then L + 1 else L) (Suc R')"
    using trim_cut [OF R'] sn
    unfolding zbx_trim_number_def Let_def l_def [symmetric] r_def [symmetric] X prod.case by (simp only: if_False)
  also have "\<dots> = (let (L, R) = (if cat s l = CHR 0x22 \<and> cat s r = CHR 0x22 \<and> l < r then (l + 1, r - 1) else (l, r));
           L = (if yes \<and> cat s L = CHR ''+'' then L + 1 else L)
       in seg s L (Suc R))"
    unfolding X Let_def prod.case by (rule refl)
  also have "\<dots> = strip_plus yes (unquote (seg s l (Suc r)))" using R(1,2) by (rule trim_ends)
  also have "seg s l (Suc r) = trim_spaces s"
    using trim_spaces_seg [OF R(1,2) sl R(3) below R(4)] by simp
  finally show ?thesis .
qed

subsection \<open>Dumps\<close>

text \<open>A dump by position: every third character separates, the others are hexadecimal digits, and the
  last byte is whole.\<close>

definition dump_cell_ok :: "string \<Rightarrow> nat \<Rightarrow> bool" where
  "dump_cell_ok s i = (if i mod 3 = 2 then s ! i = CHR '' '' \<or> s ! i = CHR 0x0A else isxdigit (s ! i))"

lemma dump_cells_step:
  "(\<forall>i < Suc (Suc (Suc n)). dump_cell_ok (a # b # c # s) i) \<longleftrightarrow>
     isxdigit a \<and> isxdigit b \<and> (c = CHR '' '' \<or> c = CHR 0x0A) \<and> (\<forall>i < n. dump_cell_ok s i)"
proof -
  have "(\<forall>i < Suc (Suc (Suc n)). dump_cell_ok (a # b # c # s) i) \<longleftrightarrow>
      dump_cell_ok (a # b # c # s) 0 \<and> dump_cell_ok (a # b # c # s) 1 \<and> dump_cell_ok (a # b # c # s) 2 \<and>
      (\<forall>i < n. dump_cell_ok (a # b # c # s) (i + 3))"
    by (simp only: All_less_Suc2 One_nat_def numeral_2_eq_2 numeral_3_eq_3 add_Suc_right add_0_right)
  then show ?thesis by (simp add: dump_cell_ok_def)
qed

lemma hex_string_loop_correct:
  "hex_string_loop s \<longleftrightarrow> length s mod 3 \<noteq> 1 \<and> (\<forall>i < length s. dump_cell_ok s i)"
proof (induction "length s" arbitrary: s rule: less_induct)
  case less
  consider "s = []" | a where "s = [a]" | a b where "s = [a, b]" | a b c t where "s = a # b # c # t"
    by (metis neq_Nil_conv)
  then show ?case
  proof cases
    case (4 a b c t)
    then have "hex_string_loop t \<longleftrightarrow> length t mod 3 \<noteq> 1 \<and> (\<forall>i < length t. dump_cell_ok t i)"
      using less by simp
    moreover have "length s mod 3 = length t mod 3" using 4 by simp
    ultimately show ?thesis using dump_cells_step [of "length t" a b c t] 4 by auto
  qed (auto simp: dump_cell_ok_def less_Suc_eq)
qed

subsection \<open>Properties\<close>

lemma number_range_exact_parts:
  "zbx_is_uint_n_range big_endian (Some s) n w size' mn mx =
     (if size' \<le> 8 \<and> \<not> (size' = 0 \<and> w) \<and> in_range_number 10 isdigit digit_value (take n s) mn mx
      then (SUCCEED, if w then store_uint64 big_endian size' (of_nat (dec_value (take n s))) else [])
      else (FAIL, []))"
  "zbx_is_hex_n_range big_endian s n w size' mn mx =
     (if size' \<le> 8 \<and> \<not> (size' = 0 \<and> w) \<and> in_range_number 16 isxdigit hex_value (take n s) mn mx
      then (SUCCEED, if w then store_uint64 big_endian size' (of_nat (num_value 16 hex_value 0 (take n s))) else [])
      else (FAIL, []))"
  "size' \<le> 8 \<Longrightarrow> v < 2 ^ 64 \<Longrightarrow> host_value big_endian (store_uint64 big_endian size' (of_nat v)) = v mod 256 ^ size'"
proof -
  show "size' \<le> 8 \<Longrightarrow> v < 2 ^ 64 \<Longrightarrow> host_value big_endian (store_uint64 big_endian size' (of_nat v)) = v mod 256 ^ size'"
    using store_uint64_value(2) [of size' big_endian "of_nat v"] by (simp only: unat_of_nat_u64)
qed (rule is_uint_n_range_eq is_hex_n_range_eq)+

text \<open>C20: The decimal and the hexadecimal recogniser accept exactly the texts whose first \<open>n\<close> characters
  are digits with a value in the range, with no wrap-around, and the bytes they store read back on a
  host of either byte order as the value cut to the size of the buffer.\<close>

theorem number_range_exact:
  "(zbx_is_uint_n_range big_endian (Some s) n w size' mn mx =
     (if size' \<le> 8 \<and> \<not> (size' = 0 \<and> w) \<and> in_range_number 10 isdigit digit_value (take n s) mn mx
      then (SUCCEED, if w then store_uint64 big_endian size' (of_nat (dec_value (take n s))) else [])
      else (FAIL, []))) \<and>
      (zbx_is_hex_n_range big_endian s n w size' mn mx =
     (if size' \<le> 8 \<and> \<not> (size' = 0 \<and> w) \<and> in_range_number 16 isxdigit hex_value (take n s) mn mx
      then (SUCCEED, if w then store_uint64 big_endian size' (of_nat (num_value 16 hex_value 0 (take n s))) else [])
      else (FAIL, []))) \<and>
      (size' \<le> 8 \<longrightarrow> v < 2 ^ 64 \<longrightarrow> host_value big_endian (store_uint64 big_endian size' (of_nat v)) = v mod 256 ^ size')"
  by (rule conjI, rule number_range_exact_parts(1), rule conjI, rule number_range_exact_parts(2), intro impI, rule number_range_exact_parts(3), assumption+)

theorem number_range_exact_witness:
  "host_value True (store_uint64 True 2 (of_nat 6553)) = 6553"
  using number_range_exact [of _ _ _ _ 2 _ _ 6553, THEN conjunct2, THEN conjunct2, rule_format] by simp

text \<open>C21: The syntax check before \<open>strtod\<close> accepts exactly an optional sign, a decimal fraction with at
  least one digit and at most one point, and an optional exponent.\<close>

theorem double_syntax_correct:
  assumes "NUL \<notin> set s"
  shows "is_double_valid_syntax s \<longleftrightarrow> (\<exists>sg m e. s = sg @ m @ e \<and> is_sign sg \<and> is_mantissa m \<and> is_exponent e)"
proof -
  have mh: "cur (m @ e) \<noteq> CHR ''-'' \<and> cur (m @ e) \<noteq> CHR ''+''" if "is_mantissa m" for m e
  proof -
    have "\<forall>c \<in> set m. digit_or_dot c" "m \<noteq> []" using that unfolding mantissa_count by auto
    then show ?thesis by (cases m) auto
  qed
  show ?thesis unfolding is_double_valid_syntax_eq [OF assms]
  proof
    assume "\<exists>m e. (if cur s = CHR ''-'' \<or> cur s = CHR ''+'' then tl s else s) = m @ e \<and> is_mantissa m \<and> is_exponent e"
    then obtain m e where *: "(if cur s = CHR ''-'' \<or> cur s = CHR ''+'' then tl s else s) = m @ e"
      "is_mantissa m" "is_exponent e" by blast
    then have "s = (if cur s = CHR ''-'' \<or> cur s = CHR ''+'' then [cur s] else []) @ m @ e" by (cases s) auto
    moreover have "is_sign (if cur s = CHR ''-'' \<or> cur s = CHR ''+'' then [cur s] else [])" by (auto simp: is_sign_def)
    ultimately show "\<exists>sg m e. s = sg @ m @ e \<and> is_sign sg \<and> is_mantissa m \<and> is_exponent e" using * by blast
  next
    assume "\<exists>sg m e. s = sg @ m @ e \<and> is_sign sg \<and> is_mantissa m \<and> is_exponent e"
    then obtain sg m e where *: "s = sg @ m @ e" "is_sign sg" "is_mantissa m" "is_exponent e" by blast
    then have "(if cur s = CHR ''-'' \<or> cur s = CHR ''+'' then tl s else s) = m @ e"
      using mh [of m e] by (auto simp: is_sign_def)
    then show "\<exists>m e. (if cur s = CHR ''-'' \<or> cur s = CHR ''+'' then tl s else s) = m @ e \<and> is_mantissa m \<and> is_exponent e"
      using * by blast
  qed
qed

theorem double_syntax_correct_witness:
  "(\<exists>sg m e. ''-1.5e+10'' = sg @ m @ e \<and> is_sign sg \<and> is_mantissa m \<and> is_exponent e) \<and>
   \<not> (\<exists>sg m e. ''1.5.2'' = sg @ m @ e \<and> is_sign sg \<and> is_mantissa m \<and> is_exponent e)"
proof -
  have "is_double_valid_syntax ''-1.5e+10''" "\<not> is_double_valid_syntax ''1.5.2''" by code_simp+
  then show ?thesis using double_syntax_correct [of "''-1.5e+10''"] double_syntax_correct [of "''1.5.2''"] by simp
qed

lemma trim_number_correct_parts:
  "zbx_trim_integer s = strip_plus True (unquote (trim_spaces s))"
  "zbx_trim_float s = unquote (trim_spaces s)"
  by (simp_all add: zbx_trim_integer_def zbx_trim_float_def trim_number_eq) (simp add: strip_plus_def)

text \<open>Trimming a number removes the blanks at both ends, then one pair of quotes, then one plus sign
  when asked to, in place.\<close>

theorem trim_number_correct:
  "(zbx_trim_integer s = strip_plus True (unquote (trim_spaces s))) \<and>
      (zbx_trim_float s = unquote (trim_spaces s))"
  by (rule conjI, rule trim_number_correct_parts(1), rule trim_number_correct_parts(2))

text \<open>A dump is accepted exactly when it is not empty, every third character is a blank or a line
  feed, all others are hexadecimal digits and no byte is cut.\<close>

theorem hex_string_correct:
  "zbx_is_hex_string s \<longleftrightarrow> s \<noteq> [] \<and> length s mod 3 \<noteq> 1 \<and> (\<forall>i < length s. dump_cell_ok s i)"
  by (cases "s = []") (simp_all add: zbx_is_hex_string_def hex_string_loop_correct)

lemma str2uint64_snoc:
  "zbx_str2uint64 big_endian (s @ [c]) suffixes =
     (let body = (if c \<in> set suffixes then s else s @ [c]);
          factor = (if c \<in> set suffixes then unat (suffix2factor c) else 1)
      in if body \<noteq> [] \<and> (\<forall>d \<in> set body. isdigit d) \<and> dec_value body < 2 ^ 64
         then Inr (Some (of_nat (dec_value body * factor))) else Inr None)"
proof (cases "c \<in> set suffixes")
  case True
  have z: "zbx_str2uint64 big_endian (s @ [c]) suffixes =
      (case zbx_is_uint64_n big_endian (s @ [c]) (length s) of
         Some v \<Rightarrow> Inr (Some (v * suffix2factor c)) | None \<Rightarrow> Inr None)"
    unfolding zbx_str2uint64_def Let_def using True by simp
  show ?thesis unfolding z is_uint64_n_eq using True by (simp add: Let_def)
next
  case False
  have z: "zbx_str2uint64 big_endian (s @ [c]) suffixes =
      (case zbx_is_uint64_n big_endian (s @ [c]) (length (s @ [c])) of
         Some v \<Rightarrow> Inr (Some (v * 1)) | None \<Rightarrow> Inr None)"
    unfolding zbx_str2uint64_def Let_def using False by simp
  have t: "take (length (s @ [c])) (s @ [c]) = s @ [c]" by simp
  show ?thesis unfolding z is_uint64_n_eq t using False by (simp add: Let_def del: num_value_Cons)
qed

lemma str2uint64_wrap_value: "dec_value ''18014398509481984'' = 18014398509481984"
  by (simp add: digit_value_def code_def)

lemma str2uint64_wrap_digits: "\<forall>d \<in> set ''18014398509481984''. isdigit d"
  by (simp add: isdigit_def code_def)

lemma str2uint64_wraps_parts:
  "zbx_str2uint64 big_endian [] suffixes = Inl Out_Of_Bounds"
  "zbx_str2uint64 big_endian (s @ [c]) suffixes =
     (let body = (if c \<in> set suffixes then s else s @ [c]);
          factor = (if c \<in> set suffixes then unat (suffix2factor c) else 1)
      in if body \<noteq> [] \<and> (\<forall>d \<in> set body. isdigit d) \<and> dec_value body < 2 ^ 64
         then Inr (Some (of_nat (dec_value body * factor))) else Inr None)"
  "zbx_str2uint64 big_endian ''18014398509481984K'' ''KMGT'' = Inr (Some 0)"
proof -
  have "of_nat (18014398509481984 * unat (suffix2factor (CHR ''K''))) = (0 :: u64)"
    by (simp add: suffix2factor_def)
  moreover have "zbx_str2uint64 big_endian (''18014398509481984'' @ [CHR ''K'']) ''KMGT'' =
      Inr (Some (of_nat (18014398509481984 * unat (suffix2factor (CHR ''K'')))))"
  proof -
    have K: "CHR ''K'' \<in> set ''KMGT''" by simp
    have ne: "''18014398509481984'' \<noteq> []" by simp
    have lt: "(18014398509481984 :: nat) < 2 ^ 64" by simp
    show ?thesis unfolding str2uint64_snoc Let_def if_P [OF K] str2uint64_wrap_value
      by (rule if_P) (use str2uint64_wrap_digits ne lt in blast)
  qed
  ultimately show "zbx_str2uint64 big_endian ''18014398509481984K'' ''KMGT'' = Inr (Some 0)" by (simp only: append.simps)
qed (simp add: zbx_str2uint64_def, rule str2uint64_snoc)

text \<open>A number with a unit suffix is multiplied in 64 bits with no check: the result is the product
  modulo \<open>2 ^ 64\<close>, so \<open>18014398509481984K\<close> is accepted as 0; the empty string is read before its start.\<close>

theorem str2uint64_wraps:
  "(zbx_str2uint64 big_endian [] suffixes = Inl Out_Of_Bounds) \<and>
      (zbx_str2uint64 big_endian (s @ [c]) suffixes =
     (let body = (if c \<in> set suffixes then s else s @ [c]);
          factor = (if c \<in> set suffixes then unat (suffix2factor c) else 1)
      in if body \<noteq> [] \<and> list_all isdigit body \<and> dec_value body < 2 ^ 64
         then Inr (Some (of_nat (dec_value body * factor))) else Inr None)) \<and>
      (zbx_str2uint64 big_endian ''18014398509481984K'' ''KMGT'' = Inr (Some 0))"
  unfolding list_all_iff
  by (rule conjI, rule str2uint64_wraps_parts(1), rule conjI, rule str2uint64_wraps_parts(2), rule str2uint64_wraps_parts(3))

text \<open>A signed integer is accepted exactly as an optional minus and digits with a value below
  \<open>2 ^ 31\<close>, so the least \<open>int\<close> is refused.\<close>

theorem is_int_correct:
  assumes "length s < 2 ^ 64"
  shows "zbx_is_int big_endian s = Some i \<longleftrightarrow>
    (\<exists>d. d \<noteq> [] \<and> (\<forall>c \<in> set d. isdigit c) \<and> dec_value d < 2 ^ 31 \<and>
      (s = d \<and> i = int (dec_value d) \<or> s = CHR ''-'' # d \<and> i = - int (dec_value d)))"
proof -
  have sint: "sint (of_nat n :: u32) = int n" if "n < 2 ^ 31" for n
    using that by (simp add: signed_of_nat signed_take_bit_int_eq_self)
  show ?thesis
  proof (cases "cur s = CHR ''-''")
    case True
    then obtain d where s: "s = CHR ''-'' # d" by (cases s) auto
    then show ?thesis using is_uint31_eq [of d] assms sint by (auto simp: zbx_is_int_def)
  next
    case False
    then have "\<nexists>d. s = CHR ''-'' # d" by auto
    then show ?thesis using is_uint31_eq [of s] False assms sint by (auto simp: zbx_is_int_def)
  qed
qed

theorem is_int_correct_witness:
  "zbx_is_int False ''-2147483647'' = Some (- 2147483647) \<and> zbx_is_int False ''-2147483648'' = None"
proof -
  have v: "dec_value ''2147483647'' = 2147483647" "dec_value ''2147483648'' = 2147483648"
    by (simp_all add: digit_value_def code_def)
  have 1: "zbx_is_int False ''-2147483647'' = Some (- 2147483647)"
    using v(1) by (subst is_int_correct) (auto simp: isdigit_def code_def)
  have "zbx_is_int False ''-2147483648'' \<noteq> Some i" for i
    using v(2) is_int_correct [of "''-2147483648''" False i] by auto
  then show ?thesis using 1 by auto
qed

end
