(* ===== verification/Iprange.thy ===== *)
theory Iprange
  imports Numbers
begin

text \<open>
  IP address and port ranges of \<open>src/src/libs/zbxip/iprange.c\<close>: parsing with network masks, the walk
  over the addresses of a range, membership, volume, and the walk over overlapping port ranges.
  Pointers into the parsed text are offsets; the eight groups of the C structure are a list, and
  storing outside of it or reading behind the terminator is a fault.
\<close>

subsection \<open>Data\<close>

record zbx_range =
  rfrom :: int
  rto :: int

datatype iprange_type = ZBX_IPRANGE_V4 | ZBX_IPRANGE_V6

record iprange =
  range_groups :: "zbx_range list"
  rtype :: iprange_type
  rmask :: bool

definition groups_of :: "iprange_type \<Rightarrow> nat" where
  "groups_of t = (if t = ZBX_IPRANGE_V4 then 4 else 8)"

subsection \<open>Text helpers\<close>

definition iprange_is_whitespace_character :: "char \<Rightarrow> bool" where
  "iprange_is_whitespace_character c \<longleftrightarrow> c = CHR '' '' \<or> c = CHR 0x0D \<or> c = CHR 0x0A \<or> c = CHR 0x09"

fun address_length_loop :: "string \<Rightarrow> nat \<Rightarrow> nat" where
  "address_length_loop address 0 = 0"
| "address_length_loop address (Suc len) =
     (if iprange_is_whitespace_character (address ! len) then address_length_loop address len else Suc len)"

definition iprange_address_length :: "string \<Rightarrow> nat" where
  "iprange_address_length address = address_length_loop address (length address)"

text \<open>\<open>strchr\<close> from an offset on.\<close>

definition strchr_from :: "string \<Rightarrow> nat \<Rightarrow> char \<Rightarrow> nat option" where
  "strchr_from s a c =
     (let n = length (takeWhile (\<lambda>x. x \<noteq> c) (drop a s)) in if a + n < length s then Some (a + n) else None)"

text \<open>The number recognisers with a four-byte \<open>int\<close> as the output; what is stored does not depend on
  the byte order of the host.\<close>

definition read_uint :: "string \<Rightarrow> nat \<Rightarrow> u64 \<Rightarrow> u64 \<Rightarrow> int option" where
  "read_uint s n mn mx =
     (case zbx_is_uint_n_range False (Some s) n True 4 mn mx of
        (ret, bs) \<Rightarrow> if ret then Some (sint (of_nat (host_value False bs) :: u32)) else None)"

definition read_hex :: "string \<Rightarrow> nat \<Rightarrow> u64 \<Rightarrow> u64 \<Rightarrow> int option" where
  "read_hex s n mn mx =
     (case zbx_is_hex_n_range False s n True 4 mn mx of
        (ret, bs) \<Rightarrow> if ret then Some (sint (of_nat (host_value False bs) :: u32)) else None)"

subsection \<open>Network masks\<close>

definition mask_from :: "nat \<Rightarrow> int \<Rightarrow> int" where
  "mask_from mask_bits x = sint ((word_of_int x :: u32) AND push_bit mask_bits 0xffffffff)"

definition mask_to :: "nat \<Rightarrow> int \<Rightarrow> int" where
  "mask_to mask_bits x = sint ((word_of_int x :: u32) OR drop_bit (32 - mask_bits) 0xffffffff)"

text \<open>The loop at index \<open>i - 1\<close>.\<close>

fun apply_mask_loop :: "nat \<Rightarrow> zbx_range list \<Rightarrow> int \<Rightarrow> nat \<Rightarrow> zbx_range list res" where
  "apply_mask_loop group_bits rs bits 0 = (if 0 < bits then Inl Out_Of_Bounds else Inr rs)"
| "apply_mask_loop group_bits rs bits (Suc i) =
     (if 0 < bits then
        let mask_bits = (if int group_bits < bits then group_bits else nat bits);
            r = rs ! i
        in apply_mask_loop group_bits
             (rs[i := \<lparr>rfrom = mask_from mask_bits (rfrom r), rto = mask_to mask_bits (rto r)\<rparr>])
             (bits - int group_bits) i
      else Inr rs)"

definition iprange_apply_mask :: "iprange \<Rightarrow> int \<Rightarrow> iprange res" where
  "iprange_apply_mask r bits =
     (let (groups, group_bits) = (case rtype r of ZBX_IPRANGE_V4 \<Rightarrow> (4, 8) | ZBX_IPRANGE_V6 \<Rightarrow> (8, 16 :: nat));
          bits = int groups * int group_bits - bits
      in rbind (apply_mask_loop group_bits (range_groups r) bits groups) (\<lambda>rs. Inr (r\<lparr>range_groups := rs\<rparr>)))"

subsection \<open>Parsing IPv4\<close>

text \<open>One turn of the loop over the groups: the range between \<open>address\<close> and \<open>ptr\<close>, where a dash of a
  later group is not used; \<open>None\<close> is the early return.\<close>

definition parse_group ::
  "(string \<Rightarrow> nat \<Rightarrow> int option) \<Rightarrow> string \<Rightarrow> nat \<Rightarrow> nat \<Rightarrow> int \<Rightarrow> zbx_range option" where
  "parse_group reader s address ptr bits =
     (case strchr_from s address (CHR ''-'') of
        Some dash \<Rightarrow>
          if bits \<noteq> -1 then None
          else if ptr < dash then
            (case reader (drop address s) (ptr - address) of
               None \<Rightarrow> None | Some x \<Rightarrow> Some \<lparr>rfrom = x, rto = x\<rparr>)
          else
            (case reader (drop address s) (dash - address) of
               None \<Rightarrow> None
             | Some x \<Rightarrow>
                 (case reader (drop (dash + 1) s) (ptr - (dash + 1)) of
                    None \<Rightarrow> None
                  | Some y \<Rightarrow> if y < x then None else Some \<lparr>rfrom = x, rto = y\<rparr>))
      | None \<Rightarrow>
          (case reader (drop address s) (ptr - address) of
             None \<Rightarrow> None | Some x \<Rightarrow> Some \<lparr>rfrom = x, rto = x\<rparr>))"

text \<open>The fuel is the number of groups left; the result is the groups read.\<close>

fun parsev4_groups :: "string \<Rightarrow> nat \<Rightarrow> int \<Rightarrow> nat \<Rightarrow> nat \<Rightarrow> nat \<Rightarrow> zbx_range list option" where
  "parsev4_groups s end' bits ptr address 0 = Some []"
| "parsev4_groups s end' bits ptr address (Suc left) =
     (if ptr < end' then
        let ptr = (case strchr_from s address (CHR ''.'') of None \<Rightarrow> end' | Some p \<Rightarrow> p) in
        case parse_group (\<lambda>t n. read_uint t n 0 255) s address ptr bits of
          None \<Rightarrow> None
        | Some r \<Rightarrow> map_option ((#) r) (parsev4_groups s end' bits ptr (ptr + 1) left)
      else Some [])"

text \<open>The mask part of both parsers: its bits (\<open>-1\<close> without a mask), whether there is one, and the end
  of the address.\<close>

definition parse_mask :: "string \<Rightarrow> u64 \<Rightarrow> (int \<times> bool \<times> nat) option" where
  "parse_mask s mx =
     (let len = iprange_address_length s in
      case strchr_from s 0 (CHR ''/'') of
        Some end' \<Rightarrow>
          (case read_uint (drop (end' + 1) s) (len - (end' + 1)) 0 mx of
             None \<Rightarrow> None
           | Some bits \<Rightarrow> Some (bits, True, end'))
      | None \<Rightarrow> Some (-1, False, len))"

definition iprangev4_parse :: "iprange \<Rightarrow> string \<Rightarrow> iprange option res" where
  "iprangev4_parse r s =
     (case parse_mask s 30 of
        None \<Rightarrow> Inr None
      | Some (bits, has_mask, end') \<Rightarrow>
          (case parsev4_groups s end' bits 0 0 4 of
             None \<Rightarrow> Inr None
           | Some gs \<Rightarrow>
               if length gs \<noteq> 4 then Inr None
               else
                 let r = \<lparr>range_groups = gs @ drop 4 (range_groups r), rtype = ZBX_IPRANGE_V4, rmask = has_mask\<rparr> in
                 if bits \<noteq> -1 then rbind (iprange_apply_mask r bits) (\<lambda>r. Inr (Some r)) else Inr (Some r)))"

subsection \<open>Parsing IPv6\<close>

text \<open>The reader of the text stays inside it: \<open>address\<close> is at most the terminator's offset, and moves forward in
  every turn, so the two guards on it always hold. The state of the loop is the groups, \<open>index\<close> and \<open>fill\<close>. \<open>check_fill\<close> returns also the moved
  \<open>ptr\<close> and whether the loop is left.\<close>

definition check_fill ::
  "string \<Rightarrow> nat \<Rightarrow> nat \<Rightarrow> zbx_range list \<Rightarrow> nat \<Rightarrow> int \<Rightarrow> (zbx_range list \<times> nat \<times> int \<times> nat \<times> bool) option res" where
  "check_fill s end' ptr rs index fill =
     (if cat s ptr \<noteq> NUL \<and> cat s (ptr + 1) = CHR '':'' then
        if fill \<noteq> -1 then Inr None
        else if \<not> index < length rs then Inl Out_Of_Bounds
        else Inr (Some (rs[index := \<lparr>rfrom = 0, rto = 0\<rparr>], index + 1, int index, ptr + 1, ptr + 1 = end' - 1))
      else Inr (Some (rs, index, fill, ptr, False)))"

function parsev6_loop ::
  "string \<Rightarrow> nat \<Rightarrow> int \<Rightarrow> nat \<Rightarrow> nat \<Rightarrow> zbx_range list \<Rightarrow> nat \<Rightarrow> int \<Rightarrow> (zbx_range list \<times> nat \<times> int) option res" where
  "parsev6_loop s end' bits ptr address rs index fill =
     (if ptr < end' \<and> index < 8 \<and> address \<le> length s then
        let ptr = (case strchr_from s address (CHR '':'') of None \<Rightarrow> end' | Some p \<Rightarrow> p);
            group =
              (if ptr = address then
                 (if length s < ptr + 1 then Inl Out_Of_Bounds
                  else if cat s (ptr + 1) \<noteq> CHR '':'' then Inr None else Inr (Some (rs, index)))
               else
                 case parse_group (\<lambda>t n. read_hex t n 0 0xffff) s address ptr bits of
                   None \<Rightarrow> Inr None
                 | Some r \<Rightarrow> Inr (Some (rs[index := r], index + 1)))
        in case group of
             Inl e \<Rightarrow> Inl e
           | Inr None \<Rightarrow> Inr None
           | Inr (Some (rs, index)) \<Rightarrow>
               (case check_fill s end' ptr rs index fill of
                  Inl e \<Rightarrow> Inl e
                | Inr None \<Rightarrow> Inr None
                | Inr (Some (rs, index, fill, ptr, stop)) \<Rightarrow>
                    if stop then Inr (Some (rs, index, fill))
                    else if address < ptr + 1 then parsev6_loop s end' bits ptr (ptr + 1) rs index fill
                    else Inl Out_Of_Bounds)
      else Inr (Some (rs, index, fill)))"
  by pat_completeness auto
termination
  by (relation "measure (\<lambda>(s, e, b, p, address, rs, i, f). Suc (length s) - address)") auto

declare parsev6_loop.simps [simp del]

text \<open>Moving the groups behind the \<open>::\<close> to the end, from \<open>index\<close> down, and the zeros in between.\<close>

function expand_shift :: "zbx_range list \<Rightarrow> int \<Rightarrow> int \<Rightarrow> int \<Rightarrow> zbx_range list \<times> int" where
  "expand_shift rs index fill target =
     (let index = index - 1 in
      if fill < index then expand_shift (rs[nat target := rs ! nat index]) index fill (target - 1) else (rs, target))"
  by pat_completeness auto
termination
  by (relation "measure (\<lambda>(rs, index, fill, target). nat (index - fill))") auto

declare expand_shift.simps [simp del]

function expand_zero :: "zbx_range list \<Rightarrow> int \<Rightarrow> int \<Rightarrow> zbx_range list" where
  "expand_zero rs fill target =
     (if fill < target then expand_zero (rs[nat target := \<lparr>rfrom = 0, rto = 0\<rparr>]) fill (target - 1) else rs)"
  by pat_completeness auto
termination
  by (relation "measure (\<lambda>(rs, fill, target). nat (target - fill))") auto

declare expand_zero.simps [simp del]

definition iprangev6_parse :: "iprange \<Rightarrow> string \<Rightarrow> iprange option res" where
  "iprangev6_parse r s =
     (case parse_mask s 128 of
        None \<Rightarrow> Inr None
      | Some (bits, has_mask, end') \<Rightarrow>
          (case parsev6_loop s end' bits 0 0 (range_groups r) 0 (-1) of
             Inl e \<Rightarrow> Inl e
           | Inr None \<Rightarrow> Inr None
           | Inr (Some (rs, index, fill)) \<Rightarrow>
               if 8 < index then Inr None
               else if index < 8 \<and> fill = -1 then Inr None
               else
                 let rs = (if index < 8
                           then (let (rs, target) = expand_shift rs (int index) fill 7 in expand_zero rs fill target)
                           else rs);
                     r = \<lparr>range_groups = rs, rtype = ZBX_IPRANGE_V6, rmask = has_mask\<rparr>
                 in if bits \<noteq> -1 then rbind (iprange_apply_mask r bits) (\<lambda>r. Inr (Some r)) else Inr (Some r)))"

definition zbx_iprange_parse :: "iprange \<Rightarrow> string \<Rightarrow> iprange option res" where
  "zbx_iprange_parse r address =
     (let address = dropWhile iprange_is_whitespace_character address in
      if strchr_from address 0 (CHR ''.'') \<noteq> None then iprangev4_parse r address else iprangev6_parse r address)"

subsection \<open>Printing\<close>

fun digits_loop :: "nat \<Rightarrow> nat \<Rightarrow> nat \<Rightarrow> string \<Rightarrow> string" where
  "digits_loop 0 b n acc = acc"
| "digits_loop (Suc fuel) b n acc =
     (let acc = ''0123456789abcdef'' ! (n mod b) # acc in
      if n div b = 0 then acc else digits_loop fuel b (n div b) acc)"

text \<open>\<open>%u\<close> and \<open>%x\<close> of a 32-bit value, which has at most 32 digits in any base.\<close>

definition print_digits :: "nat \<Rightarrow> int \<Rightarrow> string" where
  "print_digits b x = digits_loop 32 b (unat (word_of_int x :: u32)) []"

definition zbx_iprange_ip2str :: "iprange_type \<Rightarrow> int list \<Rightarrow> nat \<Rightarrow> string" where
  "zbx_iprange_ip2str t ipaddress len =
     take (len - 1)
       (if t = ZBX_IPRANGE_V6 then join_with (CHR '':'') (map (print_digits 16) (take 8 ipaddress))
        else join_with (CHR ''.'') (map (print_digits 10) (take 4 ipaddress)))"

subsection \<open>Walking over a range\<close>

text \<open>The address is written over the first items of the array given.\<close>

definition zbx_iprange_first :: "iprange \<Rightarrow> int list \<Rightarrow> int list" where
  "zbx_iprange_first r address =
     (let groups = groups_of (rtype r);
          address = map rfrom (take groups (range_groups r)) @ drop groups address
      in if rtype r = ZBX_IPRANGE_V4 \<and> rmask r
         then address[groups - 1 := address ! (groups - 1) + 1] else address)"

definition is_last_address :: "iprange \<Rightarrow> int list \<Rightarrow> bool" where
  "is_last_address r address =
     list_all (\<lambda>i. address ! i = rto (range_groups r ! i)) [0..<groups_of (rtype r)]"

text \<open>The loop at index \<open>i - 1\<close>.\<close>

fun iprange_next_loop :: "iprange \<Rightarrow> int list \<Rightarrow> nat \<Rightarrow> int list \<times> bool" where
  "iprange_next_loop r address 0 = (address, FAIL)"
| "iprange_next_loop r address (Suc i) =
     (let g = range_groups r ! i in
      if address ! i < rto g then
        let address = address[i := address ! i + 1] in
        if rtype r = ZBX_IPRANGE_V4 \<and> rmask r
        then (if is_last_address r address then (address, FAIL) else (address, SUCCEED))
        else (address, SUCCEED)
      else
        let address = (if rfrom g < rto g then address[i := rfrom g] else address)
        in iprange_next_loop r address i)"

definition zbx_iprange_next :: "iprange \<Rightarrow> int list \<Rightarrow> int list \<times> bool" where
  "zbx_iprange_next r address = iprange_next_loop r address (groups_of (rtype r))"

definition zbx_iprange_validate :: "iprange \<Rightarrow> int list \<Rightarrow> bool" where
  "zbx_iprange_validate r address =
     list_all (\<lambda>i. \<not> (address ! i < rfrom (range_groups r ! i) \<or> address ! i > rto (range_groups r ! i)))
       [0..<groups_of (rtype r)]"

definition ZBX_MAX_UINT64 :: u64 where
  "ZBX_MAX_UINT64 = NOT 0"

text \<open>The groups from \<open>i\<close> on, \<open>None\<close> for the early return. The range of a group is never empty, so the
  divisor is not zero.\<close>

fun volume_loop :: "zbx_range list \<Rightarrow> u64 \<Rightarrow> u64 option" where
  "volume_loop [] volume = Some volume"
| "volume_loop (g # gs) volume =
     (let n = word_of_int (rto g - rfrom g + 1) :: u64 in
      if ZBX_MAX_UINT64 div n < volume then None else volume_loop gs (volume * n))"

definition zbx_iprange_volume :: "iprange \<Rightarrow> u64" where
  "zbx_iprange_volume r =
     (case volume_loop (take (groups_of (rtype r)) (range_groups r)) 1 of
        None \<Rightarrow> ZBX_MAX_UINT64
      | Some volume \<Rightarrow> if rtype r = ZBX_IPRANGE_V4 \<and> rmask r then volume - 2 else volume)"

subsection \<open>Walking over several ranges\<close>

text \<open>One turn of the loop: the next address, and whether the search goes on; \<open>None\<close> at the end of the
  last range.\<close>

definition in_previous :: "iprange list \<Rightarrow> nat \<Rightarrow> int list \<Rightarrow> bool" where
  "in_previous ipranges idx ipaddress = list_ex (\<lambda>i. zbx_iprange_validate (ipranges ! i) ipaddress) [0..<idx]"

partial_function (option) iprange_uniq_loop ::
  "iprange list \<Rightarrow> nat \<Rightarrow> int list \<Rightarrow> (nat \<times> int list \<times> bool) option" where
  "iprange_uniq_loop ipranges idx ipaddress =
     (let (ipaddress, ret) = zbx_iprange_next (ipranges ! idx) ipaddress;
          (idx, ipaddress) = (if ret then (idx, ipaddress)
                              else if idx + 1 = length ipranges then (idx + 1, ipaddress)
                              else (idx + 1, zbx_iprange_first (ipranges ! (idx + 1)) ipaddress))
      in if idx = length ipranges then Some (idx, ipaddress, FAIL)
         else if in_previous ipranges idx ipaddress then iprange_uniq_loop ipranges idx ipaddress
         else Some (idx, ipaddress, SUCCEED))"

definition zbx_iprange_uniq_iter :: "iprange list \<Rightarrow> nat \<Rightarrow> int list \<Rightarrow> (nat \<times> int list \<times> bool) option" where
  "zbx_iprange_uniq_iter ipranges idx ipaddress =
     (if length ipranges = 0 then Some (idx, ipaddress, FAIL)
      else if list_all (\<lambda>x. x = 0) (take (groups_of (rtype (ipranges ! 0))) ipaddress)
      then Some (0, zbx_iprange_first (ipranges ! 0) ipaddress, SUCCEED)
      else if idx = length ipranges then Some (idx, ipaddress, FAIL)
      else iprange_uniq_loop ipranges idx ipaddress)"

subsection \<open>Port ranges\<close>

definition ZBX_PORTRANGE_INIT_PORT :: int where
  "ZBX_PORTRANGE_INIT_PORT = -1"

text \<open>The port is a C int, so stepping over its largest value is a fault.\<close>

definition INT_MAX :: int where
  "INT_MAX = 2147483647"

function portrange_uniq_loop :: "zbx_range list \<Rightarrow> nat \<Rightarrow> int \<Rightarrow> (nat \<times> int \<times> bool) res" where
  "portrange_uniq_loop ranges idx port =
     (if port = INT_MAX then Inl Int_Overflow
      else if idx < length ranges then
        let port = port + 1;
            (idx, port) = (if port > rto (ranges ! idx)
                           then (if idx + 1 = length ranges then (idx + 1, port)
                                 else (idx + 1, rfrom (ranges ! (idx + 1))))
                           else (idx, port))
        in if idx = length ranges then Inr (idx, port, FAIL)
           else if list_ex (\<lambda>i. port \<ge> rfrom (ranges ! i) \<and> port \<le> rto (ranges ! i)) [0..<idx]
           then portrange_uniq_loop ranges idx port
           else Inr (idx, port, SUCCEED)
      else Inl Out_Of_Bounds)"
  by pat_completeness auto
termination
  by (relation "measures [\<lambda>(rs, idx, port). length rs - idx, \<lambda>(rs, idx, port). nat (rto (rs ! idx) - port)]")
    (auto split: if_splits)

declare portrange_uniq_loop.simps [simp del]

definition zbx_portrange_uniq_iter :: "zbx_range list \<Rightarrow> nat \<Rightarrow> int \<Rightarrow> (nat \<times> int \<times> bool) res" where
  "zbx_portrange_uniq_iter ranges idx port =
     (if length ranges = 0 then Inr (idx, port, FAIL)
      else if port = ZBX_PORTRANGE_INIT_PORT then Inr (0, rfrom (ranges ! 0), SUCCEED)
      else if length ranges = idx then Inr (idx, port, FAIL)
      else portrange_uniq_loop ranges idx port)"

text \<open>\<open>zbx_portrange_uniq_next\<close> keeps the index and the current port in static variables.\<close>

definition zbx_portrange_uniq_next :: "zbx_range list \<Rightarrow> nat \<times> int \<Rightarrow> int \<Rightarrow> ((nat \<times> int) \<times> int \<times> bool) res" where
  "zbx_portrange_uniq_next ranges statics port =
     (if length ranges = 0 then Inr (statics, port, FAIL)
      else if port = ZBX_PORTRANGE_INIT_PORT
      then Inr ((0, rfrom (ranges ! 0)), rfrom (ranges ! 0), SUCCEED)
      else
        let (idx, current_port) = statics in
        if length ranges = idx then Inr (statics, port, FAIL)
        else
          rbind (zbx_portrange_uniq_iter ranges idx current_port) (\<lambda>(idx, current_port, ret).
            if \<not> ret then Inr ((idx, current_port), port, FAIL)
            else Inr ((idx, current_port), current_port, SUCCEED)))"

subsection \<open>The addresses of a range\<close>

definition wf_group :: "zbx_range \<Rightarrow> bool" where
  "wf_group g \<longleftrightarrow> 0 \<le> rfrom g \<and> rfrom g \<le> rto g \<and> rto g < 65536"

definition wf_iprange :: "iprange \<Rightarrow> bool" where
  "wf_iprange r \<longleftrightarrow> length (range_groups r) = 8 \<and> list_all wf_group (take (groups_of (rtype r)) (range_groups r)) \<and>
     (rtype r = ZBX_IPRANGE_V4 \<longrightarrow> list_all (\<lambda>g. rto g < 256) (take 4 (range_groups r)))"

definition live_groups :: "iprange \<Rightarrow> zbx_range list" where
  "live_groups r = take (groups_of (rtype r)) (range_groups r)"

fun all_addr :: "zbx_range list \<Rightarrow> int list list" where
  "all_addr [] = [[]]"
| "all_addr (g # gs) = concat (map (\<lambda>x. map ((#) x) (all_addr gs)) [rfrom g..rto g])"

fun next_addr :: "zbx_range list \<Rightarrow> int list \<Rightarrow> int list option" where
  "next_addr (g # gs) (x # xs) =
     (case next_addr gs xs of
        Some ys \<Rightarrow> Some (x # ys)
      | None \<Rightarrow> if x < rto g then Some ((x + 1) # map rfrom gs) else None)"
| "next_addr gs xs = None"

lemma length_all_addr_elem: "a \<in> set (all_addr gs) \<Longrightarrow> length a = length gs"
  by (induction gs arbitrary: a) auto

lemma all_addr_iff:
  "a \<in> set (all_addr gs) \<longleftrightarrow> length a = length gs \<and> (\<forall>i < length gs. rfrom (gs ! i) \<le> a ! i \<and> a ! i \<le> rto (gs ! i))"
proof (induction gs arbitrary: a)
  case (Cons g gs)
  show ?case
  proof (cases a)
    case (Cons x xs)
    then show ?thesis using Cons.IH [of xs] by (auto simp: less_Suc_eq_0_disj)
  qed auto
qed simp

lemma all_addr_nonempty: "list_all wf_group gs \<Longrightarrow> all_addr gs \<noteq> []"
proof (induction gs)
  case (Cons g gs)
  then have "map rfrom (g # gs) \<in> set (all_addr (g # gs))"
    unfolding all_addr_iff by (auto simp: wf_group_def list_all_length nth_Cons' )
  then show ?case by (metis empty_iff empty_set)
qed simp

lemma distinct_all_addr: "distinct (all_addr gs)"
proof (induction gs)
  case (Cons g gs)
  have "distinct (concat (map (\<lambda>x. map ((#) x) (all_addr gs)) xs))" if "distinct xs" for xs :: "int list"
    using that Cons by (induction xs) (auto simp: distinct_map)
  then show ?case by simp
qed simp

lemma length_all_addr: "list_all wf_group gs \<Longrightarrow> length (all_addr gs) = prod_list (map (\<lambda>g. nat (rto g - rfrom g + 1)) gs)"
proof (induction gs)
  case (Cons g gs)
  have "length (concat (map (\<lambda>x. map ((#) x) (all_addr gs)) xs)) = length xs * length (all_addr gs)" for xs :: "int list"
    by (induction xs) simp_all
  then show ?case using Cons by simp
qed simp

text \<open>Blocks with a common first group in a row.\<close>

lemma hd_all_addr: "list_all wf_group gs \<Longrightarrow> hd (all_addr gs) = map rfrom gs"
proof (induction gs)
  case (Cons g gs)
  then have "[rfrom g..rto g] = rfrom g # [rfrom g + 1..rto g]" by (intro upto_rec1) (simp add: wf_group_def)
  then show ?case using Cons all_addr_nonempty [of gs] by (simp add: hd_append hd_map)
qed simp

lemma last_all_addr: "list_all wf_group gs \<Longrightarrow> last (all_addr gs) = map rto gs"
proof (induction gs)
  case (Cons g gs)
  then have "[rfrom g..rto g] = [rfrom g..rto g - 1] @ [rto g]" by (intro upto_rec2) (simp add: wf_group_def)
  then show ?case using Cons all_addr_nonempty [of gs] by (simp add: last_append last_map)
qed simp

lemma next_addr_last: "list_all wf_group gs \<Longrightarrow> next_addr gs (map rto gs) = None"
  by (induction gs) auto

lemma next_addr_chain:
  "list_all wf_group gs \<Longrightarrow> successively (\<lambda>a b. next_addr gs a = Some b) (all_addr gs)"
proof (induction gs)
  case (Cons g gs)
  let ?B = "\<lambda>x. map ((#) x) (all_addr gs)"
  have ne: "all_addr gs \<noteq> []" using Cons.prems by (intro all_addr_nonempty) simp
  have ends: "hd (?B x) = x # map rfrom gs" "last (?B x) = x # map rto gs" for x
    using ne hd_all_addr [of gs] last_all_addr [of gs] Cons.prems by (simp_all add: hd_map last_map)
  have block: "successively (\<lambda>a b. next_addr (g # gs) a = Some b) (?B x)" for x
    using Cons by (auto simp: successively_map elim!: successively_mono)
  have row: "b - 1 \<le> rto g \<Longrightarrow> successively (\<lambda>a b. next_addr (g # gs) a = Some b) (concat (map ?B [a..b - 1])) \<and>
      (a \<le> b - 1 \<longrightarrow> last (concat (map ?B [a..b - 1])) = (b - 1) # map rto gs)" for a b
  proof (induction "nat (b - a)" arbitrary: b)
    case (Suc n)
    then have ab: "a \<le> b - 1" by simp
    have e: "[a..b - 1] = [a..(b - 1) - 1] @ [b - 1]" using ab by (rule upto_rec2)
    have ih: "successively (\<lambda>a b. next_addr (g # gs) a = Some b) (concat (map ?B [a..(b - 1) - 1]))"
      "a \<le> b - 1 - 1 \<longrightarrow> last (concat (map ?B [a..b - 1 - 1])) = (b - 1 - 1) # map rto gs"
      using Suc.hyps(1) [of "b - 1"] Suc.hyps(2) Suc.prems by auto
    have step: "next_addr (g # gs) ((b - 1 - 1) # map rto gs) = Some ((b - 1) # map rfrom gs)"
      using next_addr_last [of gs] Cons.prems Suc.prems by simp
    show ?case
    proof (cases "a \<le> b - 1 - 1")
      case True
      then show ?thesis unfolding e using ih step block ends ne by (simp add: successively_append_iff)
    next
      case False
      then have "[a..(b - 1) - 1] = []" by simp
      then show ?thesis unfolding e using block ends ne by simp
    qed
  qed simp
  show ?case using row [of "rto g + 1" "rfrom g"] by simp
qed simp

subsection \<open>The walk visits the addresses in order\<close>

fun iprange_walk :: "nat \<Rightarrow> iprange \<Rightarrow> int list \<Rightarrow> int list list" where
  "iprange_walk 0 r address = []"
| "iprange_walk (Suc n) r address =
     take (groups_of (rtype r)) address #
       (let (address, ret) = zbx_iprange_next r address in if ret then iprange_walk n r address else [])"

abbreviation masked :: "iprange \<Rightarrow> bool" where
  "masked r \<equiv> rtype r = ZBX_IPRANGE_V4 \<and> rmask r"

definition next_usable :: "iprange \<Rightarrow> int list \<Rightarrow> int list option" where
  "next_usable r a =
     (case next_addr (live_groups r) a of
        None \<Rightarrow> None
      | Some b \<Rightarrow> if masked r \<and> b = map rto (live_groups r) then None else Some b)"

lemma next_addr_snoc:
  "length gs = length xs \<Longrightarrow> next_addr (gs @ [g]) (xs @ [x]) =
     (if x < rto g then Some (xs @ [x + 1]) else map_option (\<lambda>ys. ys @ [rfrom g]) (next_addr gs xs))"
proof (induction gs xs rule: list_induct2)
  case (Cons y ys z zs)
  then show ?case by (cases "next_addr ys zs") auto
qed simp

lemma next_addr_length: "next_addr gs xs = Some ys \<Longrightarrow> length gs = length xs \<Longrightarrow> length ys = length xs"
  by (induction gs xs arbitrary: ys rule: next_addr.induct) (auto split: option.splits if_splits)

lemma groups_of_cases: "groups_of t = 4 \<or> groups_of t = 8"
  by (simp add: groups_of_def)

lemma length_live_groups: "length (range_groups r) = 8 \<Longrightarrow> length (live_groups r) = groups_of (rtype r)"
  using groups_of_cases [of "rtype r"] by (auto simp: live_groups_def)

lemma is_last_address_eq:
  assumes "length (range_groups r) = 8" "length b = groups_of (rtype r)"
  shows "is_last_address r (b @ t) \<longleftrightarrow> b = map rto (live_groups r)"
proof -
  have "is_last_address r (b @ t) \<longleftrightarrow> (\<forall>i < groups_of (rtype r). b ! i = rto (live_groups r ! i))"
    using assms by (auto simp: is_last_address_def list_all_iff nth_append live_groups_def)
  then show ?thesis using assms length_live_groups [OF assms(1)] by (auto simp: list_eq_iff_nth_eq)
qed

lemma iprange_next_loop_eq:
  assumes len8: "length (range_groups r) = 8"
    and wf: "list_all wf_group (live_groups r)"
  shows "\<lbrakk>i \<le> groups_of (rtype r); length p = i; \<forall>j < i. rfrom (live_groups r ! j) \<le> p ! j \<and> p ! j \<le> rto (live_groups r ! j)\<rbrakk> \<Longrightarrow>
    iprange_next_loop r (p @ map rfrom (drop i (live_groups r)) @ t) i =
      (case next_addr (take i (live_groups r)) p of
         None \<Rightarrow> (map rfrom (live_groups r) @ t, FAIL)
       | Some p' \<Rightarrow>
           (let b = p' @ map rfrom (drop i (live_groups r)) in
            (b @ t, \<not> (masked r \<and> b = map rto (live_groups r)))))"
proof (induction i arbitrary: p)
  case (Suc i)
  let ?L = "live_groups r"
  have lenL: "length ?L = groups_of (rtype r)" using len8 by (rule length_live_groups)
  have i: "i < length ?L" using Suc.prems(1) lenL by simp
  then have g: "range_groups r ! i = ?L ! i" by (simp add: live_groups_def)
  obtain p0 x where p: "p = p0 @ [x]" "length p0 = i" using Suc.prems(2) by (metis length_Suc_conv_rev)
  have tk: "take (Suc i) ?L = take i ?L @ [?L ! i]" using i by (simp add: take_Suc_conv_app_nth)
  have dr: "drop i ?L = ?L ! i # drop (Suc i) ?L" using i by (simp add: Cons_nth_drop_Suc)
  have x: "rfrom (?L ! i) \<le> x" "x \<le> rto (?L ! i)" using Suc.prems(3) [THEN spec, of i] p by (simp_all add: nth_append)
  have p0: "\<forall>j < i. rfrom (?L ! j) \<le> p0 ! j \<and> p0 ! j \<le> rto (?L ! j)"
  proof (intro allI impI)
    fix j assume "j < i"
    then show "rfrom (?L ! j) \<le> p0 ! j \<and> p0 ! j \<le> rto (?L ! j)"
      using Suc.prems(3) [THEN spec, of j] p by (simp add: nth_append)
  qed
  have na: "next_addr (take (Suc i) ?L) p =
      (if x < rto (?L ! i) then Some (p0 @ [x + 1]) else map_option (\<lambda>ys. ys @ [rfrom (?L ! i)]) (next_addr (take i ?L) p0))"
    unfolding tk p(1) using i p(2) by (intro next_addr_snoc) simp
  let ?q = "map rfrom (drop (Suc i) ?L)"
  have at: "(p @ ?q @ t) ! i = x" using p by (simp add: nth_append)
  show ?case
  proof (cases "x < rto (?L ! i)")
    case True
    have upd: "(p @ ?q @ t)[i := x + 1] = ((p0 @ [x + 1]) @ ?q) @ t" using p by (simp add: list_update_append)
    have "length ((p0 @ [x + 1]) @ ?q) = groups_of (rtype r)" using p i lenL by simp
    then have "is_last_address r (((p0 @ [x + 1]) @ ?q) @ t) \<longleftrightarrow> (p0 @ [x + 1]) @ ?q = map rto ?L"
      by (rule is_last_address_eq [OF len8])
    then show ?thesis using True unfolding na iprange_next_loop.simps g at Let_def upd by auto
  next
    case False
    have upd: "(if rfrom (?L ! i) < rto (?L ! i) then (p @ ?q @ t)[i := rfrom (?L ! i)] else p @ ?q @ t) =
        p0 @ map rfrom (drop i ?L) @ t"
      unfolding dr using p x False by (auto simp: list_update_append)
    have "iprange_next_loop r (p @ ?q @ t) (Suc i) = iprange_next_loop r (p0 @ map rfrom (drop i ?L) @ t) i"
      using False unfolding iprange_next_loop.simps g at Let_def upd by simp
    also have "\<dots> = (case next_addr (take i ?L) p0 of
         None \<Rightarrow> (map rfrom ?L @ t, FAIL)
       | Some p' \<Rightarrow>
           (let b = p' @ map rfrom (drop i ?L) in (b @ t, \<not> (masked r \<and> b = map rto ?L))))"
      using Suc.IH [OF _ p(2) p0] Suc.prems(1) by simp
    finally show ?thesis unfolding na using False by (simp add: dr Let_def split: option.split)
  qed
qed simp

lemma iprange_next_eq:
  assumes "wf_iprange r" "a \<in> set (all_addr (live_groups r))"
  shows "\<exists>a'. zbx_iprange_next r (a @ t) = (a' @ t, next_usable r a \<noteq> None) \<and> length a' = length a \<and>
     (\<forall>b. next_usable r a = Some b \<longrightarrow> a' = b)"
proof -
  let ?L = "live_groups r"
  have wf: "length (range_groups r) = 8" "list_all wf_group ?L" using assms(1) by (simp_all add: wf_iprange_def live_groups_def)
  have lenL: "length ?L = groups_of (rtype r)" using wf(1) by (rule length_live_groups)
  have a: "length a = length ?L" "\<forall>j < length ?L. rfrom (?L ! j) \<le> a ! j \<and> a ! j \<le> rto (?L ! j)"
    using assms(2) by (simp_all add: all_addr_iff)
  have "iprange_next_loop r (a @ map rfrom (drop (length ?L) ?L) @ t) (length ?L) =
      (case next_addr (take (length ?L) ?L) a of
         None \<Rightarrow> (map rfrom ?L @ t, FAIL)
       | Some p' \<Rightarrow> (let b = p' @ map rfrom (drop (length ?L) ?L) in (b @ t, \<not> (masked r \<and> b = map rto ?L))))"
    using a lenL by (intro iprange_next_loop_eq [OF wf]) simp_all
  then show ?thesis
    using a next_addr_length [of ?L a] lenL by (cases "next_addr ?L a") (auto simp: zbx_iprange_next_def next_usable_def)
qed

text \<open>Any successor function that runs through a list makes the walk that list.\<close>

lemma walk_row:
  assumes step: "\<And>a. a \<in> set (x # xs) \<Longrightarrow>
      \<exists>a'. zbx_iprange_next r (a @ t) = (a' @ t, f a \<noteq> None) \<and> (\<forall>b. f a = Some b \<longrightarrow> a' = b)"
    and len: "\<And>a. a \<in> set (x # xs) \<Longrightarrow> length a = groups_of (rtype r)"
    and row: "successively (\<lambda>a b. f a = Some b) (x # xs)" and stop: "f (last (x # xs)) = None"
    and fuel: "length (x # xs) \<le> n"
  shows "iprange_walk n r (x @ t) = x # xs"
  using assms
proof (induction xs arbitrary: x n)
  case Nil
  then obtain m where "n = Suc m" by (cases n) auto
  moreover obtain a' where "zbx_iprange_next r (x @ t) = (a' @ t, FAIL)" using Nil.prems(1) [of x] Nil.prems(4) by auto
  ultimately show ?case using Nil.prems(2) [of x] by simp
next
  case (Cons y ys)
  then obtain m where n: "n = Suc m" by (cases n) auto
  have "f x = Some y" using Cons.prems(3) by simp
  then have next': "zbx_iprange_next r (x @ t) = (y @ t, SUCCEED)" using Cons.prems(1) [of x] by auto
  have "iprange_walk m r (y @ t) = y # ys"
    using Cons.prems n by (intro Cons.IH) simp_all
  then show ?case using n next' Cons.prems(2) [of x] by simp
qed

lemma successively_tl: "successively P xs \<Longrightarrow> successively P (tl xs)"
  by (cases xs; cases "tl xs") auto

lemma successively_butlast: "successively P xs \<Longrightarrow> successively P (butlast xs)"
  by (cases xs rule: rev_cases) (auto simp: successively_append_iff)

lemma successively_conj_right:
  "successively P xs \<Longrightarrow> \<forall>x \<in> set (tl xs). Q x \<Longrightarrow> successively (\<lambda>a b. P a b \<and> Q b) xs"
  by (induction xs rule: induct_list012) auto

definition usable_addresses :: "iprange \<Rightarrow> int list list" where
  "usable_addresses r =
     (if masked r then butlast (tl (all_addr (live_groups r))) else all_addr (live_groups r))"

text \<open>A mask leaves at least two bits, so the last group has four values.\<close>

definition mask_ok :: "iprange \<Rightarrow> bool" where
  "mask_ok r \<longleftrightarrow> \<not> masked r \<or> rfrom (last (live_groups r)) + 3 \<le> rto (last (live_groups r))"

lemma all_addr_second:
  assumes "list_all wf_group (gs @ [g])" "rfrom g + 1 \<le> rto g"
  shows "all_addr (gs @ [g]) ! 1 = map rfrom gs @ [rfrom g + 1] \<and> 2 \<le> length (all_addr (gs @ [g]))"
  using assms(1)
proof (induction gs)
  case Nil
  have "[rfrom g..rto g] = rfrom g # (rfrom g + 1) # [rfrom g + 1 + 1..rto g]"
    using assms(2) by (simp add: upto_rec1)
  then show ?case by simp
next
  case (Cons h gs)
  then have u: "[rfrom h..rto h] = rfrom h # [rfrom h + 1..rto h]" by (intro upto_rec1) (simp add: wf_group_def)
  have ih: "all_addr (gs @ [g]) ! 1 = map rfrom gs @ [rfrom g + 1]" "2 \<le> length (all_addr (gs @ [g]))"
    using Cons by simp_all
  then show ?case unfolding append_Cons all_addr.simps u by (simp add: nth_append)
qed

lemma prod_list_ge_last:
  "list_all (\<lambda>n. 1 \<le> n) ns \<Longrightarrow> m \<le> prod_list (ns @ [m])" for m :: nat
  by (induction ns) (auto intro: order_trans)

lemma iprange_walk_correct:
  assumes wf: "wf_iprange r" and mask: "mask_ok r" and addr: "length address = 8"
    and fuel: "length (usable_addresses r) \<le> n"
  shows "iprange_walk n r (zbx_iprange_first r address) = usable_addresses r"
proof -
  let ?L = "live_groups r" and ?A = "all_addr (live_groups r)"
  define t where "t = drop (groups_of (rtype r)) address"
  have wfL: "list_all wf_group ?L" "length (range_groups r) = 8" using wf by (simp_all add: wf_iprange_def live_groups_def)
  have lenL: "length ?L = groups_of (rtype r)" using wfL(2) by (rule length_live_groups)
  have chain: "successively (\<lambda>a b. next_addr ?L a = Some b) ?A" using wfL(1) by (rule next_addr_chain)
  have hd: "hd ?A = map rfrom ?L" and la: "last ?A = map rto ?L" and ne: "?A \<noteq> []"
    using wfL(1) by (rule hd_all_addr, rule last_all_addr, rule all_addr_nonempty)
  have elems: "length a = groups_of (rtype r)" if "a \<in> set ?A" for a
    using that lenL by (simp add: all_addr_iff)
  have step: "\<exists>a'. zbx_iprange_next r (a @ t) = (a' @ t, next_usable r a \<noteq> None) \<and> (\<forall>b. next_usable r a = Some b \<longrightarrow> a' = b)"
    if "a \<in> set ?A" for a
    using iprange_next_eq [OF wf that, of t] by blast
  show ?thesis
  proof (cases "masked r")
    case False
    then have nu: "next_usable r a = next_addr ?L a" for a by (auto simp: next_usable_def split: option.split)
    have U: "usable_addresses r = ?A" using False unfolding usable_addresses_def by (rule if_not_P)
    obtain xs where A: "?A = map rfrom ?L # xs" using hd ne by (cases ?A) auto
    have first: "zbx_iprange_first r address = map rfrom ?L @ t"
      using False unfolding zbx_iprange_first_def Let_def t_def live_groups_def by auto
    have "iprange_walk n r (map rfrom ?L @ t) = map rfrom ?L # xs"
    proof (rule walk_row [where f = "next_usable r"])
      show "next_usable r (last (map rfrom ?L # xs)) = None"
        unfolding nu A [symmetric] la using wfL(1) by (rule next_addr_last)
      show "successively (\<lambda>a b. next_usable r a = Some b) (map rfrom ?L # xs)" using chain unfolding nu A .
      show "length (map rfrom ?L # xs) \<le> n" using fuel unfolding U A .
    qed (use step elems A in auto)
    then show ?thesis using first U A by simp
  next
    case True
    have t4: "groups_of (rtype r) = 4" using True by (simp add: groups_of_def)
    then obtain gs g where L: "?L = gs @ [g]" using lenL by (cases ?L rule: rev_cases) auto
    have g: "rfrom g + 3 \<le> rto g" using mask True L by (simp add: mask_ok_def)
    have gs3: "length gs = 3" using lenL L t4 by simp
    have big: "4 \<le> length ?A"
    proof -
      have "4 \<le> nat (rto g - rfrom g + 1)" using g by simp
      also have "\<dots> \<le> prod_list (map (\<lambda>g. nat (rto g - rfrom g + 1)) gs @ [nat (rto g - rfrom g + 1)])"
        using wfL(1) unfolding L by (intro prod_list_ge_last) (auto simp: list_all_iff wf_group_def)
      finally show ?thesis using length_all_addr [OF wfL(1)] L by simp
    qed
    then obtain a0 a1 a2 a3 rest where A4: "?A = a0 # a1 # a2 # a3 # rest"
      by (cases ?A; cases "tl ?A"; cases "tl (tl ?A)"; cases "tl (tl (tl ?A))") auto
    define xs where "xs = butlast (a2 # a3 # rest)"
    have U: "usable_addresses r = a1 # xs" using True A4 by (simp add: usable_addresses_def xs_def)
    have A: "?A = a0 # a1 # xs @ [map rto ?L]"
      using A4 la unfolding xs_def by (metis append_butlast_last_id last_ConsR list.distinct(1))
    have a1: "a1 = map rfrom gs @ [rfrom g + 1]"
      using all_addr_second [of gs g] wfL(1) g A4 unfolding L by simp
    have first: "zbx_iprange_first r address = a1 @ t"
    proof -
      have "zbx_iprange_first r address = (map rfrom ?L @ t)[3 := (map rfrom ?L @ t) ! 3 + 1]"
        using True t4 unfolding zbx_iprange_first_def Let_def t_def live_groups_def by auto
      then show ?thesis using gs3 unfolding L a1 by (simp add: nth_append list_update_append)
    qed
    have sub: "a \<in> set ?A" if "a \<in> set (a1 # xs)" for a using that unfolding A by auto
    have dist: "map rto ?L \<notin> set (a1 # xs)" using distinct_all_addr [of ?L] unfolding A by auto
    have "iprange_walk n r (a1 @ t) = a1 # xs"
    proof (rule walk_row [where f = "next_usable r"])
      have c: "successively (\<lambda>a b. next_addr ?L a = Some b) ((a1 # xs) @ [map rto ?L])"
        using successively_tl [OF chain] unfolding A by simp
      then have c1: "successively (\<lambda>a b. next_addr ?L a = Some b) (a1 # xs)"
        and c2: "next_addr ?L (last (a1 # xs)) = Some (map rto ?L)"
        by (simp_all only: successively_append_iff) simp_all
      show "next_usable r (last (a1 # xs)) = None" using c2 True by (simp add: next_usable_def)
      have "successively (\<lambda>a b. next_addr ?L a = Some b \<and> b \<noteq> map rto ?L) (a1 # xs)"
        using c1 dist by (intro successively_conj_right) auto
      then show "successively (\<lambda>a b. next_usable r a = Some b) (a1 # xs)"
        by (rule successively_mono) (auto simp: next_usable_def)
      show "length (a1 # xs) \<le> n" using fuel unfolding U .
    qed (use step elems sub in auto)
    then show ?thesis using first U by simp
  qed
qed

subsection \<open>The volume\<close>

lemma unat_group_size:
  assumes "wf_group g"
  shows "unat (word_of_int (rto g - rfrom g + 1) :: u64) = nat (rto g - rfrom g + 1)"
proof -
  have "0 \<le> rto g - rfrom g + 1" "rto g - rfrom g + 1 < 2 ^ 64" using assms by (auto simp: wf_group_def)
  then show ?thesis by (simp only: unsigned_of_int take_bit_int_eq_self) (simp add: take_bit_int_eq_self)
qed

lemma volume_loop_correct:
  "list_all wf_group gs \<Longrightarrow>
   (let P = unat v * prod_list (map (\<lambda>g. nat (rto g - rfrom g + 1)) gs) in
    if P < 2 ^ 64 then \<exists>w. volume_loop gs v = Some w \<and> unat w = P else volume_loop gs v = None)"
proof (induction gs arbitrary: v)
  case Nil
  show ?case using unat_less_u64 [of v] by simp
next
  case (Cons g gs)
  define n where "n = nat (rto g - rfrom g + 1)"
  define w where "w = (word_of_int (rto g - rfrom g + 1) :: u64)"
  define P where "P = prod_list (map (\<lambda>g. nat (rto g - rfrom g + 1)) gs)"
  have un: "unat w = n" and n: "1 \<le> n" using Cons.prems unat_group_size [of g] by (auto simp: n_def w_def wf_group_def)
  have guard: "ZBX_MAX_UINT64 div w < v \<longleftrightarrow> 2 ^ 64 \<le> unat v * n"
  proof -
    have "ZBX_MAX_UINT64 div w < v \<longleftrightarrow> (2 ^ 64 - 1) div n < unat v"
      unfolding word_less_nat_alt unat_div un ZBX_MAX_UINT64_def unat_max_u64 ..
    also have "\<dots> \<longleftrightarrow> 2 ^ 64 - 1 < unat v * n" using n by (intro div_less_iff_less_mult) simp
    also have "\<dots> \<longleftrightarrow> 2 ^ 64 \<le> unat v * n" by (simp add: Suc_le_eq [symmetric])
    finally show ?thesis .
  qed
  have step: "volume_loop (g # gs) v = (if ZBX_MAX_UINT64 div w < v then None else volume_loop gs (v * w))"
    by (simp add: w_def Let_def)
  show ?case
  proof (cases "2 ^ 64 \<le> unat v * n")
    case True
    have "1 \<le> P" using Cons.prems unfolding P_def by (induction gs) (auto simp: wf_group_def)
    then have "unat v * n * 1 \<le> unat v * n * P" by (rule mult_le_mono2)
    then have "2 ^ 64 \<le> unat v * n * P" using True by linarith
    then have "\<not> unat v * (n * P) < 2 ^ 64" by (simp only: mult.assoc not_less)
    then show ?thesis using True guard by (simp only: step) (simp add: n_def P_def)
  next
    case False
    then have "unat (v * w) = unat v * n"
      by (simp only: unat_word_ariths un) (simp add: mod_less)
    then show ?thesis using Cons.IH [of "v * w"] Cons.prems guard False
      by (simp only: step if_False) (simp add: n_def P_def mult.assoc)
  qed
qed

lemma iprange_volume_correct:
  assumes "wf_iprange r" "mask_ok r"
  shows "unat (zbx_iprange_volume r) = min (2 ^ 64 - 1) (length (usable_addresses r))"
proof -
  let ?L = "live_groups r"
  have wf: "list_all wf_group ?L" "length (range_groups r) = 8" using assms(1) by (simp_all add: wf_iprange_def live_groups_def)
  define P where "P = prod_list (map (\<lambda>g. nat (rto g - rfrom g + 1)) ?L)"
  have lenA: "length (all_addr ?L) = P" unfolding P_def using wf(1) by (rule length_all_addr)
  have loop: "if P < 2 ^ 64 then \<exists>w. volume_loop ?L 1 = Some w \<and> unat w = P else volume_loop ?L 1 = None"
    using volume_loop_correct [OF wf(1), of 1] by (simp add: P_def Let_def)
  have vol: "zbx_iprange_volume r = (case volume_loop ?L 1 of None \<Rightarrow> ZBX_MAX_UINT64 | Some v \<Rightarrow> if masked r then v - 2 else v)"
    by (simp add: zbx_iprange_volume_def live_groups_def)
  show ?thesis
  proof (cases "masked r")
    case False
    then have U: "length (usable_addresses r) = P" using lenA unfolding usable_addresses_def by (simp only: if_False)
    show ?thesis
    proof (cases "P < 2 ^ 64")
      case True
      then show ?thesis using loop False unfolding vol U by auto
    next
      case big: False
      then have "volume_loop ?L 1 = None" using loop by simp
      then show ?thesis using big unfolding vol U by (simp only: option.case ZBX_MAX_UINT64_def unat_max_u64)
    qed
  next
    case True
    then have t4: "length ?L = 4" using length_live_groups [OF wf(2)] by (simp add: groups_of_def)
    obtain gs g where L: "?L = gs @ [g]" using t4 by (cases ?L rule: rev_cases) auto
    have g: "rfrom g + 3 \<le> rto g" using assms(2) True L by (simp add: mask_ok_def)
    have "nat (rto g - rfrom g + 1) \<le> prod_list (map (\<lambda>g. nat (rto g - rfrom g + 1)) gs @ [nat (rto g - rfrom g + 1)])"
      by (rule prod_list_ge_last) (use wf(1) in \<open>auto simp: L list_all_iff wf_group_def\<close>)
    then have "nat (rto g - rfrom g + 1) \<le> P" unfolding P_def L by (simp only: map_append list.map)
    then have P4: "4 \<le> P" using g by linarith
    obtain a b c d where abcd: "?L = [a, b, c, d]" using t4 by (auto simp: eval_nat_numeral length_Suc_conv)
    have "list_all (\<lambda>g. rto g < 256) ?L" using assms(1) True by (simp add: wf_iprange_def live_groups_def groups_of_def)
    then have le: "nat (rto x - rfrom x + 1) \<le> 256" if "x \<in> {a, b, c, d}" for x
      using wf(1) that unfolding abcd by (auto simp: wf_group_def)
    have "P = nat (rto a - rfrom a + 1) * (nat (rto b - rfrom b + 1) * (nat (rto c - rfrom c + 1) * nat (rto d - rfrom d + 1)))"
      unfolding P_def abcd by simp
    also have "\<dots> \<le> 256 * (256 * (256 * 256))" by (intro mult_le_mono le) simp_all
    finally have lt: "P < 2 ^ 64" by simp
    obtain w where w: "volume_loop ?L 1 = Some w" "unat w = P" using loop lt by auto
    have "unat (w - 2) = P - 2" using w(2) P4 by (subst unat_sub) (simp_all add: word_le_nat_alt)
    moreover have "length (usable_addresses r) = P - 2"
      using lenA True unfolding usable_addresses_def by (simp only: if_True simp_thms length_butlast length_tl)
    ultimately show ?thesis using w True lt unfolding vol by (simp only: option.case if_True simp_thms)
  qed
qed

subsection \<open>Masks select a prefix\<close>

definition addr_value :: "nat \<Rightarrow> int list \<Rightarrow> int" where
  "addr_value group_bits xs = foldl (\<lambda>v x. v * 2 ^ group_bits + x) 0 xs"

lemma addr_value_simps [simp]:
  "addr_value gb [] = 0" "addr_value gb (xs @ [x]) = addr_value gb xs * 2 ^ gb + x"
  by (simp_all add: addr_value_def)

lemma mask_fit: "0 \<le> x \<Longrightarrow> x < 65536 \<Longrightarrow> sint (word_of_int x :: u32) = x" for x :: int
  by (simp add: signed_of_int signed_take_bit_int_eq_self)

lemma low_ones: "k \<le> 32 \<Longrightarrow> drop_bit (32 - k) (0xffffffff :: u32) = mask k"
proof -
  assume k: "k \<le> 32"
  have ones: "(0xffffffff :: u32) = - 1" by simp
  show ?thesis using k unfolding ones
    by (intro bit_word_eqI) (auto simp: bit_drop_bit_eq bit_mask_iff)
qed

lemma high_ones: "push_bit k (0xffffffff :: u32) = NOT (mask k)"
proof -
  have ones: "(0xffffffff :: u32) = - 1" by simp
  show ?thesis unfolding ones
    by (intro bit_word_eqI) (auto simp: bit_push_bit_iff bit_not_iff bit_mask_iff)
qed

lemma mask_from_eq:
  assumes "0 \<le> x" "x < 65536"
  shows "mask_from k x = x div 2 ^ k * 2 ^ k"
proof -
  have b: "0 \<le> x AND NOT (mask k)" "x AND NOT (mask k) < 65536"
    using assms AND_upper1 [of x "NOT (mask k)"] by (simp_all add: and_nonnegative_int_iff)
  have "mask_from k x = sint (word_of_int (x AND NOT (mask k)) :: u32)"
    unfolding mask_from_def high_ones by (simp add: of_int_and_eq of_int_not_eq of_int_mask_eq)
  also have "\<dots> = x AND NOT (mask k)" using b by (rule mask_fit)
  also have "\<dots> = push_bit k (drop_bit k x)"
    by (rule bit_eqI) (auto simp: bit_simps)
  also have "\<dots> = x div 2 ^ k * 2 ^ k" by (simp add: push_bit_eq_mult drop_bit_eq_div)
  finally show ?thesis .
qed

lemma mask_to_eq:
  assumes "0 \<le> x" "x < 65536" "k \<le> 16"
  shows "mask_to k x = x div 2 ^ k * 2 ^ k + 2 ^ k - 1"
proof -
  have high: "drop_bit k (x OR mask k) = drop_bit k x" by (rule bit_eqI) (auto simp: bit_simps)
  have low: "take_bit k (x OR mask k) = mask k" by (rule bit_eqI) (auto simp: bit_simps)
  have eq: "x OR mask k = x div 2 ^ k * 2 ^ k + 2 ^ k - 1"
    using bits_ident [of k "x OR mask k"] unfolding high low
    by (simp add: push_bit_eq_mult drop_bit_eq_div mask_eq_exp_minus_1)
  have "(2 :: int) ^ k \<le> 2 ^ 16" using assms(3) by (intro power_increasing) simp_all
  then have m: "mask k \<ge> (0 :: int)" "mask k < (2 :: int) ^ 16" by (simp_all add: mask_eq_exp_minus_1)
  have b: "0 \<le> x OR mask k" "x OR mask k < 65536"
    using assms m OR_upper [of x 16 "mask k"] by (simp_all add: or_nonnegative_int_iff)
  have "k \<le> 32" using assms(3) by simp
  then have "mask_to k x = sint (word_of_int (x OR mask k) :: u32)"
    unfolding mask_to_def by (simp only: low_ones of_int_or_eq of_int_mask_eq)
  also have "\<dots> = x OR mask k" using b by (rule mask_fit)
  finally show ?thesis unfolding eq .
qed

definition in_group :: "zbx_range \<Rightarrow> int \<Rightarrow> bool" where
  "in_group g y \<longleftrightarrow> rfrom g \<le> y \<and> y \<le> rto g"

lemma validate_in_groups:
  assumes "length (range_groups r) = 8" "length a = groups_of (rtype r)"
  shows "zbx_iprange_validate r (a @ t) \<longleftrightarrow> list_all2 in_group (live_groups r) a"
  using assms length_live_groups [OF assms(1)]
  by (auto simp: zbx_iprange_validate_def list_all2_conv_all_nth list_all_iff in_group_def live_groups_def nth_append not_less)

definition mask_range :: "nat \<Rightarrow> zbx_range \<Rightarrow> zbx_range" where
  "mask_range k r = \<lparr>rfrom = mask_from k (rfrom r), rto = mask_to k (rto r)\<rparr>"

text \<open>The loop, from the last group to the first.\<close>

fun mask_groups :: "nat \<Rightarrow> zbx_range list \<Rightarrow> nat \<Rightarrow> zbx_range list" where
  "mask_groups gb [] b = []"
| "mask_groups gb (r # rs) b = (if b = 0 then r # rs else mask_range (min gb b) r # mask_groups gb rs (b - gb))"

lemma apply_mask_loop_eq:
  assumes "0 < gb"
  shows "b \<le> gb * length rs \<Longrightarrow>
    apply_mask_loop gb (rs @ t) (int b) (length rs) = Inr (rev (mask_groups gb (rev rs) b) @ t)"
proof (induction rs arbitrary: b t rule: rev_induct)
  case (snoc r rs)
  show ?case
  proof (cases "b = 0")
    case False
    have k: "(if int gb < int b then gb else nat (int b)) = min gb b" by (simp add: min_def)
    show ?thesis
    proof (cases "b \<le> gb")
      case True
      have stop: "apply_mask_loop gb xs (int b - int gb) n = (Inr xs :: zbx_range list res)" if "n \<noteq> 0 \<or> b \<le> gb" for xs n
        using True by (cases n) simp_all
      show ?thesis using True False k
        by (simp add: Let_def stop mask_range_def list_update_append nth_append)
          (cases "rev rs"; simp)
    next
      case big: False
      then have "int b - int gb = int (b - gb)" by simp
      then show ?thesis using big False k snoc.prems snoc.IH [of "b - gb" "mask_range (min gb b) r # t"]
        by (simp add: Let_def mask_range_def list_update_append nth_append)
    qed
  qed (simp add: Let_def)
qed simp

lemma prefix_step:
  assumes "0 \<le> a" "a < 2 ^ gb" "0 \<le> x" "x < (2 :: int) ^ gb"
  shows "(A * 2 ^ gb + a) div 2 ^ b = (X * 2 ^ gb + x) div 2 ^ b \<longleftrightarrow>
    a div 2 ^ min gb b = x div 2 ^ min gb b \<and> A div 2 ^ (b - gb) = X div 2 ^ (b - gb)"
proof (cases "b \<le> gb")
  case True
  have low: "0 \<le> y div 2 ^ b" "y div 2 ^ b < 2 ^ (gb - b)" if "0 \<le> y" "y < 2 ^ gb" for y :: int
  proof -
    have "y < 2 ^ (gb - b) * 2 ^ b" using that True by (simp add: power_add [symmetric])
    moreover have "y div 2 ^ b * 2 ^ b \<le> y" using div_mult_mod_eq [of y "2 ^ b"] pos_mod_sign [of "2 ^ b" y] by (simp add: minus_mod_eq_div_mult [symmetric])
    ultimately have "y div 2 ^ b * 2 ^ b < 2 ^ (gb - b) * 2 ^ b" by linarith
    then show "y div 2 ^ b < 2 ^ (gb - b)" by simp
    show "0 \<le> y div 2 ^ b" using that by (simp add: pos_imp_zdiv_nonneg_iff)
  qed
  have split: "(Y * 2 ^ gb + y) div 2 ^ b = Y * 2 ^ (gb - b) + y div 2 ^ b" for Y y :: int
  proof -
    have "Y * 2 ^ gb + y = y + (Y * 2 ^ (gb - b)) * 2 ^ b" using True by (simp add: power_add [symmetric] mult.assoc)
    then show ?thesis by (simp only: div_mult_self1 power_not_zero) simp
  qed
  have "A * m + u = X * m + v \<longleftrightarrow> u = v \<and> A = X" if "0 \<le> u" "u < m" "0 \<le> v" "v < m" for u v m :: int
  proof
    assume e: "A * m + u = X * m + v"
    have "(A * m + u) div m = A" "(X * m + v) div m = X" using that by simp_all
    then have "A = X" using e by simp
    then show "u = v \<and> A = X" using e by simp
  qed simp
  then show ?thesis using True low assms unfolding split by (simp add: min_def)
next
  case False
  have "(Y * 2 ^ gb + y) div 2 ^ b = Y div 2 ^ (b - gb)" if "0 \<le> y" "y < 2 ^ gb" for Y y :: int
  proof -
    have "(2 :: int) ^ b = 2 ^ gb * 2 ^ (b - gb)" using False by (simp add: power_add [symmetric])
    then have "(Y * 2 ^ gb + y) div 2 ^ b = (Y * 2 ^ gb + y) div 2 ^ gb div 2 ^ (b - gb)"
      by (simp add: zdiv_zmult2_eq)
    then show ?thesis using that by simp
  qed
  then show ?thesis using False assms by (simp add: min_def)
qed

definition single :: "int \<Rightarrow> zbx_range" where
  "single x = \<lparr>rfrom = x, rto = x\<rparr>"

definition group_bits_of :: "iprange_type \<Rightarrow> nat" where
  "group_bits_of t = (if t = ZBX_IPRANGE_V4 then 8 else 16)"

definition is_address :: "iprange_type \<Rightarrow> int list \<Rightarrow> bool" where
  "is_address t xs \<longleftrightarrow> length xs = groups_of t \<and> list_all (\<lambda>x. 0 \<le> x \<and> x < 2 ^ group_bits_of t) xs"

lemma in_mask_range:
  assumes "0 \<le> x" "x < 65536" "k \<le> 16"
  shows "in_group (mask_range k (single x)) y \<longleftrightarrow> y div 2 ^ k = x div 2 ^ k"
proof -
  have "x div 2 ^ k * 2 ^ k \<le> y \<and> y \<le> x div 2 ^ k * 2 ^ k + 2 ^ k - 1 \<longleftrightarrow> y div 2 ^ k = x div 2 ^ k" (is "?L \<longleftrightarrow> ?R")
  proof
    assume ?L
    then have "y = (y - x div 2 ^ k * 2 ^ k) + x div 2 ^ k * 2 ^ k" "0 \<le> y - x div 2 ^ k * 2 ^ k" "y - x div 2 ^ k * 2 ^ k < 2 ^ k"
      by simp_all
    then show ?R by (metis div_mult_self1_is_m div_pos_pos_trivial add.commute add_0 div_mult_self1 power_not_zero zero_neq_numeral)
  next
    assume R: ?R
    have "y mod 2 ^ k < 2 ^ k" "0 \<le> y mod 2 ^ k" by simp_all
    then show ?L using div_mult_mod_eq [of y "2 ^ k"] unfolding R by linarith
  qed
  then show ?thesis using assms
    by (simp add: in_group_def mask_range_def single_def mask_from_eq mask_to_eq)
qed

lemma in_mask_groups:
  assumes "gb \<le> 16" "0 < gb"
  shows "\<lbrakk>length xs = length ys; \<forall>x \<in> set xs. 0 \<le> x \<and> x < 2 ^ gb; \<forall>y \<in> set ys. 0 \<le> y \<and> y < 2 ^ gb\<rbrakk> \<Longrightarrow>
    list_all2 in_group (mask_groups gb (map single xs) b) ys \<longleftrightarrow>
      addr_value gb (rev ys) div 2 ^ b = addr_value gb (rev xs) div 2 ^ b"
proof (induction xs ys arbitrary: b rule: list_induct2')
  case (4 x xs y ys)
  have le: "(2 :: int) ^ gb \<le> 2 ^ 16" using assms(1) by (intro power_increasing) simp_all
  have x: "0 \<le> x" "x < 65536" using 4 le by auto
  have min: "min gb b \<le> 16" using assms(1) by simp
  have step: "(addr_value gb (rev (y # ys)) div 2 ^ b = addr_value gb (rev (x # xs)) div 2 ^ b) \<longleftrightarrow>
      y div 2 ^ min gb b = x div 2 ^ min gb b \<and>
      addr_value gb (rev ys) div 2 ^ (b - gb) = addr_value gb (rev xs) div 2 ^ (b - gb)"
    using 4 by (simp add: prefix_step)
  have IH: "list_all2 in_group (mask_groups gb (map single xs) (b - gb)) ys \<longleftrightarrow>
      addr_value gb (rev ys) div 2 ^ (b - gb) = addr_value gb (rev xs) div 2 ^ (b - gb)"
    using 4 by simp
  show ?case
  proof (cases "b = 0")
    case True
    have z: "mask_groups gb (map single xs) 0 = map single xs" by (cases xs) simp_all
    have "in_group (single x) y \<longleftrightarrow> y = x" by (auto simp: in_group_def single_def)
    then show ?thesis unfolding step using IH z True by simp
  next
    case False
    have "list_all2 in_group (mask_groups gb (map single (x # xs)) b) (y # ys) \<longleftrightarrow>
      in_group (mask_range (min gb b) (single x)) y \<and> list_all2 in_group (mask_groups gb (map single xs) (b - gb)) ys"
      using False by simp
    then show ?thesis unfolding step IH in_mask_range [OF x min] .
  qed
qed simp_all

lemma iprange_apply_mask_eq:
  assumes "length (range_groups r) = 8" "m \<le> groups_of (rtype r) * group_bits_of (rtype r)"
  shows "iprange_apply_mask r (int m) = Inr (r\<lparr>range_groups :=
    rev (mask_groups (group_bits_of (rtype r)) (rev (live_groups r)) (groups_of (rtype r) * group_bits_of (rtype r) - m))
      @ drop (groups_of (rtype r)) (range_groups r)\<rparr>)"
proof -
  define gb n where "gb = group_bits_of (rtype r)" and "n = groups_of (rtype r)"
  have live: "length (live_groups r) = n" using length_live_groups [OF assms(1)] by (simp add: n_def)
  have split: "range_groups r = live_groups r @ drop n (range_groups r)" by (simp add: live_groups_def n_def)
  have "apply_mask_loop gb (live_groups r @ drop n (range_groups r)) (int (n * gb - m)) (length (live_groups r)) =
      Inr (rev (mask_groups gb (rev (live_groups r)) (n * gb - m)) @ drop n (range_groups r))"
    by (rule apply_mask_loop_eq) (simp_all add: gb_def group_bits_of_def live mult.commute [of n])
  then have "apply_mask_loop gb (range_groups r) (int n * int gb - int m) n =
      Inr (rev (mask_groups gb (rev (live_groups r)) (n * gb - m)) @ drop n (range_groups r))"
    using assms(2) unfolding split [symmetric] live by (simp add: n_def gb_def of_nat_diff)
  then show ?thesis
    by (cases "rtype r") (simp_all add: iprange_apply_mask_def gb_def n_def group_bits_of_def groups_of_def)
qed

lemma length_mask_groups [simp]: "length (mask_groups gb rs b) = length rs"
  by (induction gb rs b rule: mask_groups.induct) simp_all

text \<open>A mask of \<open>m\<close> bits over a single address selects the addresses with the same first \<open>m\<close> bits.\<close>

lemma iprange_mask_prefix:
  assumes x: "is_address t xs" and a: "is_address t a"
    and r: "range_groups r = map single xs @ rest" "length (range_groups r) = 8" "rtype r = t"
    and m: "m \<le> groups_of t * group_bits_of t"
  shows "\<exists>r'. iprange_apply_mask r (int m) = Inr r' \<and> length (range_groups r') = 8 \<and> rtype r' = t \<and> rmask r' = rmask r \<and>
    (zbx_iprange_validate r' (a @ tl') \<longleftrightarrow>
       addr_value (group_bits_of t) a div 2 ^ (groups_of t * group_bits_of t - m) =
       addr_value (group_bits_of t) xs div 2 ^ (groups_of t * group_bits_of t - m))"
proof -
  define gb n where "gb = group_bits_of t" and "n = groups_of t"
  have len: "length xs = n" "length a = n" using x a by (simp_all add: is_address_def n_def)
  have live: "live_groups r = map single xs" using r len by (simp add: live_groups_def n_def)
  define L where "L = rev (mask_groups gb (rev (live_groups r)) (n * gb - m))"
  have lenL: "length L = n" by (simp add: L_def live len)
  define r' where "r' = r\<lparr>range_groups := L @ drop n (range_groups r)\<rparr>"
  have eq: "iprange_apply_mask r (int m) = Inr r'"
    using iprange_apply_mask_eq [OF r(2)] m r(3) by (simp add: r'_def L_def gb_def n_def)
  have n8: "n \<le> 8" using groups_of_cases [of t] by (auto simp: n_def)
  have l8: "length (range_groups r') = 8" using r(2) lenL n8 by (simp add: r'_def)
  have t: "rtype r' = t" "rmask r' = rmask r" using r by (simp_all add: r'_def)
  have live': "live_groups r' = L" using lenL t by (simp add: live_groups_def r'_def n_def)
  have "zbx_iprange_validate r' (a @ tl') \<longleftrightarrow> list_all2 in_group L a"
    using validate_in_groups [OF l8, of a tl'] len t live' by (simp add: n_def)
  also have "\<dots> \<longleftrightarrow> list_all2 in_group (mask_groups gb (map single (rev xs)) (n * gb - m)) (rev a)"
    unfolding L_def live using list_all2_rev [of in_group "mask_groups gb (map single (rev xs)) (n * gb - m)" "rev a"]
    by (simp add: rev_map)
  also have "\<dots> \<longleftrightarrow> addr_value gb (rev (rev a)) div 2 ^ (n * gb - m) = addr_value gb (rev (rev xs)) div 2 ^ (n * gb - m)"
    by (rule in_mask_groups) (use x a in \<open>auto simp: is_address_def gb_def group_bits_of_def list_all_iff\<close>)
  finally show ?thesis using eq l8 t by (auto simp: gb_def n_def)
qed

end
