(* ===== verification/Iprange_Parse.thy ===== *)
theory Iprange_Parse
  imports Iprange
begin

text \<open>
  The text of an address and of a network: what the printer writes, the parser reads back. First the
  digits, then the groups between the separators, then the whole text with an optional mask.
\<close>

subsection \<open>Digits\<close>

definition good_digits :: "nat \<Rightarrow> nat \<Rightarrow> string \<Rightarrow> bool" where
  "good_digits b n ds \<longleftrightarrow> ds \<noteq> [] \<and> num_value b (if b = 10 then digit_value else hex_value) 0 ds = n \<and>
     list_all (if b = 10 then isdigit else isxdigit) ds"

definition digit_char :: "nat \<Rightarrow> char" where
  "digit_char d = ''0123456789abcdef'' ! d"

lemma digit_char_ok:
  "d < 16 \<Longrightarrow> isxdigit (digit_char d) \<and> hex_value (digit_char d) = d"
  "d < 10 \<Longrightarrow> isdigit (digit_char d) \<and> digit_value (digit_char d) = d"
proof -
  have "list_all (\<lambda>d. isxdigit (digit_char d) \<and> hex_value (digit_char d) = d) [0..<16]"
    "list_all (\<lambda>d. isdigit (digit_char d) \<and> digit_value (digit_char d) = d) [0..<10]"
    by code_simp+
  then show "d < 16 \<Longrightarrow> isxdigit (digit_char d) \<and> hex_value (digit_char d) = d"
    "d < 10 \<Longrightarrow> isdigit (digit_char d) \<and> digit_value (digit_char d) = d"
    by (auto simp: list_all_iff)
qed

lemma digits_loop_good:
  assumes b: "b = 10 \<or> b = 16"
  shows "n < b ^ fuel \<Longrightarrow> 0 < fuel \<Longrightarrow> \<exists>ds. digits_loop fuel b n acc = ds @ acc \<and> good_digits b n ds"
proof (induction fuel arbitrary: n acc)
  case (Suc fuel)
  define v where "v = (if b = 10 then digit_value else hex_value)"
  let ?c = "digit_char (n mod b)"
  have c: "(if b = 10 then isdigit else isxdigit) ?c" "v ?c = n mod b"
    using b digit_char_ok [of "n mod b"] unfolding v_def by auto
  show ?case
  proof (cases "n div b = 0")
    case True
    then have "n mod b = n" using b by (auto simp: div_eq_0_iff)
    then show ?thesis using True c by (intro exI [of _ "[?c]"]) (simp add: good_digits_def v_def digit_char_def)
  next
    case False
    have "n div b < b ^ fuel" using Suc.prems(1) b by (simp add: less_mult_imp_div_less mult.commute)
    moreover from this False have "0 < fuel" by (cases fuel) auto
    ultimately obtain ds where ds: "digits_loop fuel b (n div b) (?c # acc) = ds @ ?c # acc" "good_digits b (n div b) ds"
      using Suc.IH by blast
    then have "good_digits b n (ds @ [?c])" using c by (simp add: good_digits_def num_value_append v_def)
    then show ?thesis using ds(1) False by (intro exI [of _ "ds @ [?c]"]) (simp add: digit_char_def)
  qed
qed simp

lemma print_digits_good:
  assumes "b = 10 \<or> b = 16" "0 \<le> x" "x < 65536"
  shows "good_digits b (nat x) (print_digits b x)"
proof -
  have "unat (word_of_int x :: u32) = nat x" using assms by (simp add: unsigned_of_int take_bit_int_eq_self)
  moreover have "nat x < b ^ 32"
  proof -
    have "nat x < 10 ^ 32" using assms by simp
    also have "\<dots> \<le> b ^ 32" using assms(1) by (intro power_mono) auto
    finally show ?thesis .
  qed
  ultimately show ?thesis using digits_loop_good [OF assms(1), of "nat x" 32 "[]"]
    by (auto simp: print_digits_def)
qed

lemma small_int32: "n < 65536 \<Longrightarrow> sint (of_nat n :: u32) = int n"
  using mask_fit [of "int n"] by simp

lemma read_uint_good:
  assumes "good_digits 10 n ds" "take k s = ds" "unat mn \<le> n" "n \<le> unat mx" "n < 65536"
  shows "read_uint s k mn mx = Some (int n)"
proof -
  have "in_range_number 10 isdigit digit_value (take k s) mn mx"
    using assms by (auto simp: in_range_number_def good_digits_def list_all_iff)
  moreover have "host_value False (store_uint64 False 4 (of_nat (dec_value (take k s)))) = n"
    using assms by (simp add: store_uint64_value good_digits_def unat_of_nat)
  ultimately show ?thesis using assms(5)
    by (simp add: read_uint_def is_uint_n_range_eq small_int32)
qed

lemma read_hex_good:
  assumes "good_digits 16 n ds" "take k s = ds" "unat mn \<le> n" "n \<le> unat mx" "n < 65536"
  shows "read_hex s k mn mx = Some (int n)"
proof -
  have "in_range_number 16 isxdigit hex_value (take k s) mn mx"
    using assms by (auto simp: in_range_number_def good_digits_def list_all_iff)
  moreover have "host_value False (store_uint64 False 4 (of_nat (num_value 16 hex_value 0 (take k s)))) = n"
    using assms by (simp add: store_uint64_value good_digits_def unat_of_nat)
  ultimately show ?thesis using assms(5)
    by (simp add: read_hex_def is_hex_n_range_eq small_int32)
qed

lemma good_digits_chars:
  assumes "good_digits b n ds" "c \<in> set ds"
  shows "isxdigit c"
  using assms by (auto simp: good_digits_def list_all_iff isxdigit_def split: if_splits)

subsection \<open>Searching for a separator\<close>

lemma strchr_from_eq:
  "c \<notin> set d \<Longrightarrow> strchr_from (pre @ d @ rest) (length pre) c =
     (if rest = [] \<or> c \<notin> set rest then None else Some (length pre + length d + length (takeWhile (\<lambda>x. x \<noteq> c) rest)))"
proof -
  assume d: "c \<notin> set d"
  have tw: "takeWhile (\<lambda>x. x \<noteq> c) (d @ rest) = d @ takeWhile (\<lambda>x. x \<noteq> c) rest"
    using d by (intro takeWhile_append2) auto
  have "length (takeWhile (\<lambda>x. x \<noteq> c) rest) < length rest \<longleftrightarrow> c \<in> set rest"
    by (induction rest) auto
  then show ?thesis unfolding strchr_from_def by (auto simp: tw)
qed

lemma strchr_from_hit: "c \<notin> set d \<Longrightarrow> strchr_from (pre @ d @ c # rest) (length pre) c = Some (length pre + length d)"
  by (simp add: strchr_from_eq)

lemma strchr_from_none: "c \<notin> set d \<Longrightarrow> strchr_from (pre @ d) (length pre) c = None"
  using strchr_from_eq [of c d pre "[]"] by simp

subsection \<open>The groups\<close>

lemma join_with_Cons: "join_with c (d # ds) = d @ (if ds = [] then [] else c # join_with c ds)"
  by (cases ds) simp_all

lemma parse_group_digits:
  assumes "CHR ''-'' \<notin> set d" "CHR ''-'' \<notin> set rest" "reader (d @ rest) (length d) = Some x"
  shows "parse_group reader (pre @ d @ rest) (length pre) (length pre + length d) bits = Some (single x)"
proof -
  have "strchr_from (pre @ d @ rest) (length pre) (CHR ''-'') = None"
    using strchr_from_none [of "CHR ''-''" "d @ rest" pre] assms by simp
  then show ?thesis using assms(3) by (simp add: parse_group_def single_def)
qed

definition octets :: "int list \<Rightarrow> bool" where
  "octets xs \<longleftrightarrow> list_all (\<lambda>x. 0 \<le> x \<and> x < 256) xs"

definition hextets :: "int list \<Rightarrow> bool" where
  "hextets xs \<longleftrightarrow> list_all (\<lambda>x. 0 \<le> x \<and> x < 65536) xs"

lemma not_in_good_digits:
  assumes "good_digits b n ds" "\<not> isxdigit c"
  shows "c \<notin> set ds"
  using good_digits_chars [OF assms(1)] assms(2) by blast

lemma separators [simp]:
  "\<not> isxdigit (CHR ''.'')" "\<not> isxdigit (CHR ''-'')" "\<not> isxdigit (CHR '':'')" "\<not> isxdigit (CHR ''/'')"
  "isxdigit c \<Longrightarrow> \<not> iprange_is_whitespace_character c"
  by (auto simp: isxdigit_def isdigit_def code_def iprange_is_whitespace_character_def)

lemma join_digits_chars:
  assumes "list_all (\<lambda>x. 0 \<le> x \<and> x < 65536) xs" "b = 10 \<or> b = 16" "\<not> isxdigit c" "c \<noteq> sep"
  shows "c \<notin> set (join_with sep (map (print_digits b) xs))"
  using assms(1)
proof (induction xs)
  case (Cons y ys)
  then have "good_digits b (nat y) (print_digits b y)" using assms(2) by (intro print_digits_good) simp_all
  then show ?case using Cons assms not_in_good_digits by (auto simp: join_with_Cons)
qed simp

lemma parsev4_groups_read:
  assumes "CHR ''.'' \<notin> set rest" "CHR ''-'' \<notin> set rest"
  shows "\<lbrakk>octets xs; xs \<noteq> []; s = pre @ join_with (CHR ''.'') (map (print_digits 10) xs) @ rest;
    end' = length pre + length (join_with (CHR ''.'') (map (print_digits 10) xs)); ptr < end'; left = length xs\<rbrakk> \<Longrightarrow>
    parsev4_groups s end' bits ptr (length pre) left = Some (map single xs)"
proof (induction xs arbitrary: pre ptr left)
  case (Cons x xs)
  define d where "d = print_digits 10 x"
  have x: "0 \<le> x" "x < 256" using Cons.prems by (simp_all add: octets_def)
  have good: "good_digits 10 (nat x) d" unfolding d_def using x by (intro print_digits_good) simp_all
  note nin = not_in_good_digits [OF good]
  have read: "read_uint (d @ t) (length d) 0 255 = Some x" for t
    using read_uint_good [OF good, of "length d" "d @ t" 0 255] x by simp
  define t where "t = (if xs = [] then rest else CHR ''.'' # join_with (CHR ''.'') (map (print_digits 10) xs) @ rest)"
  have s: "s = pre @ d @ t" using Cons.prems by (simp add: t_def d_def join_with_Cons)
  obtain k where left: "left = Suc k" "k = length xs" using Cons.prems by simp
  have ptr: "ptr < end'" using Cons.prems by simp
  show ?case
  proof (cases "xs = []")
    case True
    have p: "strchr_from s (length pre) (CHR ''.'') = None"
      using strchr_from_none [of "CHR ''.''" "d @ t" pre] nin assms True by (simp add: s t_def)
    have e: "end' = length pre + length d" using Cons.prems True by (simp add: d_def)
    have "parse_group (\<lambda>t n. read_uint t n 0 255) s (length pre) end' bits = Some (single x)"
      unfolding s e by (rule parse_group_digits) (use nin assms True read in \<open>simp_all add: t_def\<close>)
    then show ?thesis using p ptr left True by (simp add: Let_def)
  next
    case False
    define u where "u = join_with (CHR ''.'') (map (print_digits 10) xs)"
    have t: "t = CHR ''.'' # u @ rest" using False by (simp add: t_def u_def)
    have p: "strchr_from s (length pre) (CHR ''.'') = Some (length pre + length d)"
      unfolding s t by (rule strchr_from_hit) (use nin in simp)
    have dash: "CHR ''-'' \<notin> set u"
      unfolding u_def by (rule join_digits_chars) (use Cons.prems in \<open>auto simp: octets_def list_all_iff\<close>)
    have g: "parse_group (\<lambda>t n. read_uint t n 0 255) s (length pre) (length pre + length d) bits = Some (single x)"
      unfolding s by (rule parse_group_digits) (use nin assms dash read in \<open>simp_all add: t\<close>)
    have e: "end' = length (pre @ d @ ''.'') + length u" using Cons.prems False by (simp add: d_def u_def join_with_Cons)
    have "parsev4_groups s end' bits (length pre + length d) (length (pre @ d @ ''.'')) k = Some (map single xs)"
      by (rule Cons.IH) (use Cons.prems False left e in \<open>simp_all add: octets_def s t u_def\<close>)
    then show ?thesis using p g ptr left by (simp add: Let_def)
  qed
qed simp

lemma length_join_pos: "good_digits b n d \<Longrightarrow> 0 < length (join_with c (d # ds))"
  by (simp add: join_with_Cons good_digits_def)

lemma parsev6_loop_read:
  assumes "CHR '':'' \<notin> set rest" "CHR ''-'' \<notin> set rest"
  shows "\<lbrakk>hextets xs; xs \<noteq> []; s = pre @ join_with (CHR '':'') (map (print_digits 16) xs) @ rest;
    end' = length pre + length (join_with (CHR '':'') (map (print_digits 16) xs)); ptr < end';
    length rs = 8; index + length xs = 8\<rbrakk> \<Longrightarrow>
    parsev6_loop s end' bits ptr (length pre) rs index fill = Inr (Some (take index rs @ map single xs, 8, fill))"
proof (induction xs arbitrary: pre ptr rs index)
  case (Cons x xs)
  define d where "d = print_digits 16 x"
  have x: "0 \<le> x" "x < 65536" using Cons.prems by (simp_all add: hextets_def)
  have good: "good_digits 16 (nat x) d" unfolding d_def using x by (intro print_digits_good) simp_all
  note nin = not_in_good_digits [OF good]
  have d0: "d \<noteq> []" using good by (simp add: good_digits_def)
  have read: "read_hex (d @ t) (length d) 0 0xffff = Some x" for t
    using read_hex_good [OF good, of "length d" "d @ t" 0 "0xffff"] x by simp
  define u where "u = join_with (CHR '':'') (map (print_digits 16) xs)"
  define t where "t = (if xs = [] then rest else CHR '':'' # u @ rest)"
  define p where "p = length pre + length d"
  have s: "s = pre @ d @ t" using Cons.prems by (simp add: t_def u_def d_def join_with_Cons)
  have dash: "CHR ''-'' \<notin> set u"
    unfolding u_def by (rule join_digits_chars) (use Cons.prems in \<open>auto simp: hextets_def\<close>)
  have end': "end' = (if xs = [] then p else p + 1 + length u)" using Cons.prems by (simp add: d_def p_def u_def join_with_Cons)
  have ptr: "(case strchr_from s (length pre) (CHR '':'') of None \<Rightarrow> end' | Some q \<Rightarrow> q) = p"
  proof (cases "xs = []")
    case True
    then show ?thesis using strchr_from_none [of "CHR '':''" "d @ t" pre] nin assms end' by (simp add: s t_def p_def)
  next
    case False
    then show ?thesis using strchr_from_hit [of "CHR '':''" d pre "u @ rest"] nin by (simp add: s t_def p_def)
  qed
  have g: "parse_group (\<lambda>t n. read_hex t n 0 0xffff) s (length pre) p bits = Some (single x)"
    unfolding s p_def by (rule parse_group_digits) (use nin assms dash read in \<open>auto simp: t_def\<close>)
  have next': "\<not> (cat s p \<noteq> NUL \<and> cat s (p + 1) = CHR '':'')"
  proof (cases "xs = []")
    case True
    then have "cat s (p + 1) = (if 1 < length rest then rest ! 1 else NUL)"
      by (auto simp: cat_def s t_def p_def nth_append)
    then show ?thesis using assms(1) by (auto simp: in_set_conv_nth split: if_splits)
  next
    case False
    then obtain y ys where xs: "xs = y # ys" by (cases xs) simp_all
    have gy: "good_digits 16 (nat y) (print_digits 16 y)"
      using Cons.prems by (intro print_digits_good) (simp_all add: hextets_def xs)
    obtain c cs where c: "print_digits 16 y = c # cs" using gy by (cases "print_digits 16 y") (auto simp: good_digits_def)
    have "c \<noteq> CHR '':''" using not_in_good_digits [OF gy, of "CHR '':''"] c by auto
    moreover have "cat s (p + 1) = c"
      by (simp add: cat_def s t_def p_def nth_append u_def xs join_with_Cons c)
    ultimately show ?thesis by simp
  qed
  have fill: "check_fill s end' p rs' i fill = Inr (Some (rs', i, fill, p, False))" for rs' i
    using next' by (simp add: check_fill_def)
  have guard: "ptr < end' \<and> index < 8 \<and> length pre \<le> length s" using Cons.prems by (simp add: s)
  have step: "parsev6_loop s end' bits ptr (length pre) rs index fill =
      parsev6_loop s end' bits p (p + 1) (rs[index := single x]) (index + 1) fill"
    using guard ptr g fill d0 by (subst parsev6_loop.simps) (simp add: Let_def p_def)
  have upd: "take (index + 1) (rs[index := single x]) = take index rs @ [single x]"
    using Cons.prems by (simp add: take_Suc_conv_app_nth)
  show ?case
  proof (cases "xs = []")
    case True
    then have "index + 1 = 8" using Cons.prems by simp
    moreover from this have "rs[index := single x] = take index rs @ [single x]" using upd Cons.prems by simp
    ultimately show ?thesis unfolding step using True by (subst parsev6_loop.simps) simp
  next
    case False
    have "parsev6_loop s end' bits p (length (pre @ d @ '':'')) (rs[index := single x]) (index + 1) fill =
        Inr (Some (take (index + 1) (rs[index := single x]) @ map single xs, 8, fill))"
      by (rule Cons.IH) (use Cons.prems False end' in \<open>simp_all add: hextets_def s t_def u_def p_def\<close>)
    then show ?thesis unfolding step upd by (simp add: p_def)
  qed
qed simp

subsection \<open>The text of an address\<close>

lemma digits_loop_length:
  "\<lbrakk>n < b ^ k; 0 < k; 0 < b\<rbrakk> \<Longrightarrow> length (digits_loop fuel b n acc) \<le> k + length acc"
proof (induction fuel arbitrary: n k acc)
  case (Suc fuel)
  show ?case
  proof (cases "n div b = 0")
    case False
    then have "b \<le> n" using Suc.prems by (simp add: div_eq_0_iff)
    with Suc.prems obtain j where k: "k = Suc j" "0 < j" by (cases k; cases "k - 1") auto
    have "n div b < b ^ j" using Suc.prems k by (simp add: less_mult_imp_div_less mult.commute)
    then have "length (digits_loop fuel b (n div b) (''0123456789abcdef'' ! (n mod b) # acc)) \<le> j + length (''0123456789abcdef'' ! (n mod b) # acc)"
      by (rule Suc.IH [OF _ k(2) Suc.prems(3)])
    then show ?thesis using False k by (simp add: Let_def)
  qed (use Suc.prems in \<open>simp add: Let_def\<close>)
qed simp

lemma length_print_digits:
  assumes "0 \<le> x" "x < int (b ^ k)" "x < 65536" "0 < k" "0 < b"
  shows "length (print_digits b x) \<le> k"
proof -
  have "unat (word_of_int x :: u32) = nat x" using assms by (simp add: unsigned_of_int take_bit_int_eq_self)
  moreover have "nat x < b ^ k" using assms by (simp add: nat_less_iff)
  ultimately show ?thesis using digits_loop_length [of "nat x" b k 32 "[]"] assms by (simp add: print_digits_def)
qed

lemma length_join_with:
  "list_all (\<lambda>d. length d \<le> m) ds \<Longrightarrow> length (join_with c ds) \<le> (m + 1) * length ds - 1"
proof (induction ds)
  case (Cons d ds)
  then show ?case by (cases ds) (auto simp: join_with_Cons)
qed simp

definition base_of :: "iprange_type \<Rightarrow> nat" where
  "base_of t = (if t = ZBX_IPRANGE_V4 then 10 else 16)"

definition separator_of :: "iprange_type \<Rightarrow> char" where
  "separator_of t = (if t = ZBX_IPRANGE_V4 then CHR ''.'' else CHR '':'')"

definition address_text :: "iprange_type \<Rightarrow> int list \<Rightarrow> string" where
  "address_text t xs = join_with (separator_of t) (map (print_digits (base_of t)) xs)"

lemma address_groups:
  assumes "is_address t xs"
  shows "list_all (\<lambda>x. 0 \<le> x \<and> x < 65536) xs" "xs \<noteq> []" "length xs = groups_of t"
  using assms by (auto simp: is_address_def group_bits_of_def groups_of_def list_all_iff split: if_splits)

lemma ip2str_text:
  assumes x: "is_address t xs" and len: "40 \<le> len"
  shows "zbx_iprange_ip2str t xs len = address_text t xs"
proof -
  have "list_all (\<lambda>d. length d \<le> (if t = ZBX_IPRANGE_V4 then 3 else 4)) (map (print_digits (base_of t)) xs)"
    using x by (auto simp: is_address_def list_all_iff base_of_def group_bits_of_def intro!: length_print_digits)
  from length_join_with [OF this, of "separator_of t"] have "length (address_text t xs) \<le> 39"
    using x by (auto simp: address_text_def is_address_def groups_of_def split: if_splits)
  then show ?thesis using x len
    by (cases t) (auto simp: zbx_iprange_ip2str_def address_text_def is_address_def groups_of_def base_of_def separator_of_def)
qed

lemma address_text_chars:
  assumes "is_address t xs" "\<not> isxdigit c" "c \<noteq> separator_of t"
  shows "c \<notin> set (address_text t xs)"
  unfolding address_text_def
  by (rule join_digits_chars) (use address_groups [OF assms(1)] assms in \<open>auto simp: base_of_def\<close>)

lemma base_of_cases: "base_of t = 10 \<or> base_of t = 16"
  by (simp add: base_of_def)

lemma last_join_digits:
  assumes "list_all (\<lambda>x. 0 \<le> x \<and> x < 65536) xs" "xs \<noteq> []" "b = 10 \<or> b = 16"
  shows "join_with c (map (print_digits b) xs) \<noteq> [] \<and> isxdigit (last (join_with c (map (print_digits b) xs))) \<and>
    isxdigit (hd (join_with c (map (print_digits b) xs)))"
  using assms(1,2)
proof (induction xs)
  case (Cons y ys)
  then have "good_digits b (nat y) (print_digits b y)" using assms(3) by (intro print_digits_good) simp_all
  then have "print_digits b y \<noteq> []" "isxdigit (last (print_digits b y))" "isxdigit (hd (print_digits b y))"
    using good_digits_chars by (auto simp: good_digits_def)
  then show ?case using Cons by (auto simp: join_with_Cons)
qed simp

lemma address_text_ends:
  assumes "is_address t xs"
  shows "address_text t xs \<noteq> []" "isxdigit (last (address_text t xs))" "isxdigit (hd (address_text t xs))"
  using last_join_digits [OF address_groups(1,2) [OF assms] base_of_cases, of "separator_of t"]
  by (simp_all add: address_text_def)

lemma address_length_eq:
  assumes "s \<noteq> []" "isxdigit (last s)"
  shows "iprange_address_length s = length s"
proof -
  obtain n where n: "length s = Suc n" using assms(1) by (cases s) auto
  then have "s ! n = last s" using assms(1) by (simp add: last_conv_nth)
  then have "\<not> iprange_is_whitespace_character (s ! n)" using assms(2) separators(5) by simp
  then show ?thesis by (simp add: iprange_address_length_def n)
qed

text \<open>The optional mask part of a text.\<close>

definition mask_text :: "nat option \<Rightarrow> string" where
  "mask_text m = (case m of None \<Rightarrow> [] | Some m \<Rightarrow> CHR ''/'' # print_digits 10 (int m))"

definition mask_bits_of :: "nat option \<Rightarrow> int" where
  "mask_bits_of m = (case m of None \<Rightarrow> -1 | Some m \<Rightarrow> int m)"

lemma parse_mask_text:
  assumes x: "is_address t xs" and m: "case m of None \<Rightarrow> True | Some m \<Rightarrow> m \<le> unat mx \<and> m \<le> 128"
  shows "parse_mask (address_text t xs @ mask_text m) mx =
    Some (mask_bits_of m, m \<noteq> None, length (address_text t xs))"
proof (cases m)
  case None
  have "strchr_from (address_text t xs) 0 (CHR ''/'') = None"
    using strchr_from_none [of "CHR ''/''" "address_text t xs" "[]"] address_text_chars [OF x, of "CHR ''/''"]
    by (auto simp: separator_of_def)
  then show ?thesis using None address_length_eq address_text_ends [OF x]
    by (simp add: parse_mask_def mask_text_def mask_bits_of_def Let_def)
next
  case (Some k)
  define T D where "T = address_text t xs" and "D = print_digits 10 (int k)"
  have good: "good_digits 10 k D" unfolding D_def using m Some print_digits_good [of 10 "int k"] by simp
  have slash: "strchr_from (T @ CHR ''/'' # D) 0 (CHR ''/'') = Some (length T)"
    using strchr_from_hit [of "CHR ''/''" T "[]" D] address_text_chars [OF x, of "CHR ''/''"]
    by (auto simp: T_def separator_of_def)
  have "isxdigit (last D)" "D \<noteq> []" using good good_digits_chars [OF good, of "last D"] by (auto simp: good_digits_def)
  then have len: "iprange_address_length (T @ CHR ''/'' # D) = length T + 1 + length D"
    using address_length_eq [of "T @ CHR ''/'' # D"] by simp
  have "read_uint D (length D) 0 mx = Some (int k)" by (rule read_uint_good [OF good]) (use m Some in simp_all)
  then show ?thesis using Some slash len
    by (simp add: parse_mask_def mask_text_def mask_bits_of_def Let_def T_def [symmetric] D_def [symmetric])
qed

definition address_range :: "iprange \<Rightarrow> iprange_type \<Rightarrow> int list \<Rightarrow> bool \<Rightarrow> iprange" where
  "address_range r t xs has_mask =
     \<lparr>range_groups = map single xs @ drop (groups_of t) (range_groups r), rtype = t, rmask = has_mask\<rparr>"

lemma mask_text_chars:
  assumes "case m of None \<Rightarrow> True | Some m \<Rightarrow> m \<le> 128" "\<not> isxdigit c" "c \<noteq> CHR ''/''"
  shows "c \<notin> set (mask_text m)"
proof (cases m)
  case (Some k)
  then have "good_digits 10 k (print_digits 10 (int k))" using assms(1) print_digits_good [of 10 "int k"] by simp
  from not_in_good_digits [OF this assms(2)] show ?thesis using assms(3) Some by (simp add: mask_text_def)
qed (simp add: mask_text_def)

lemma iprange_parse_text:
  assumes x: "is_address t xs" and r: "length (range_groups r) = 8"
    and m: "case m of None \<Rightarrow> True | Some m \<Rightarrow> m \<le> (if t = ZBX_IPRANGE_V4 then 30 else 128)"
  shows "zbx_iprange_parse r (address_text t xs @ mask_text m) =
    (case m of
       None \<Rightarrow> Inr (Some (address_range r t xs False))
     | Some k \<Rightarrow> rbind (iprange_apply_mask (address_range r t xs True) (int k)) (\<lambda>r. Inr (Some r)))"
proof -
  define T s where "T = address_text t xs" and "s = T @ mask_text m"
  have m128: "case m of None \<Rightarrow> True | Some m \<Rightarrow> m \<le> 128" using m by (auto split: option.splits if_splits)
  note tail = mask_text_chars [OF m128]
  have T: "T \<noteq> []" "isxdigit (hd T)" using address_text_ends [OF x] by (simp_all add: T_def)
  then have drop: "dropWhile iprange_is_whitespace_character s = s"
    using separators(5) by (cases T) (simp_all add: s_def)
  have dot: "CHR ''.'' \<in> set T \<longleftrightarrow> t = ZBX_IPRANGE_V4"
  proof
    assume "CHR ''.'' \<in> set T"
    then show "t = ZBX_IPRANGE_V4" using address_text_chars [OF x, of "CHR ''.''"]
      by (cases t) (auto simp: T_def separator_of_def)
  next
    assume t: "t = ZBX_IPRANGE_V4"
    then obtain a b c where "xs = a # b # c" using x by (cases xs; cases "tl xs") (auto simp: is_address_def groups_of_def)
    then show "CHR ''.'' \<in> set T" using t by (simp add: T_def address_text_def separator_of_def join_with_Cons)
  qed
  have find_dot: "strchr_from s 0 (CHR ''.'') \<noteq> None \<longleftrightarrow> t = ZBX_IPRANGE_V4"
  proof (cases "t = ZBX_IPRANGE_V4")
    case True
    then obtain u v where "T = u @ CHR ''.'' # v" "CHR ''.'' \<notin> set u" using dot split_list_first by metis
    then show ?thesis using strchr_from_hit [of "CHR ''.''" u "[]"] True by (simp add: s_def)
  next
    case False
    then have "CHR ''.'' \<notin> set s" using dot tail by (simp add: s_def)
    then show ?thesis using strchr_from_none [of "CHR ''.''" s "[]"] False by simp
  qed
  have len: "length xs = groups_of t" "xs \<noteq> []" using address_groups [OF x] by simp_all
  have mark: "mask_bits_of m \<noteq> -1 \<longleftrightarrow> m \<noteq> None" by (auto simp: mask_bits_of_def split: option.splits)
  have "zbx_iprange_parse r s = (case m of None \<Rightarrow> Inr (Some (address_range r t xs False))
     | Some k \<Rightarrow> rbind (iprange_apply_mask (address_range r t xs True) (int k)) (\<lambda>r. Inr (Some r)))"
  proof (cases "t = ZBX_IPRANGE_V4")
    case True
    have pm: "parse_mask s 30 = Some (mask_bits_of m, m \<noteq> None, length T)"
      unfolding s_def T_def by (rule parse_mask_text [OF x]) (use m True in \<open>auto split: option.splits\<close>)
    have "parsev4_groups s (length T) (mask_bits_of m) 0 (length ([] :: string)) 4 = Some (map single xs)"
      by (rule parsev4_groups_read [where rest = "mask_text m"])
        (use x True len tail T in \<open>auto simp: is_address_def octets_def group_bits_of_def groups_of_def s_def T_def address_text_def separator_of_def base_of_def\<close>)
    then show ?thesis using True find_dot drop pm mark len
      by (cases m) (simp_all add: zbx_iprange_parse_def iprangev4_parse_def groups_of_def address_range_def mask_bits_of_def)
  next
    case False
    then have t: "t = ZBX_IPRANGE_V6" by (cases t) auto
    have pm: "parse_mask s 128 = Some (mask_bits_of m, m \<noteq> None, length T)"
      unfolding s_def T_def by (rule parse_mask_text [OF x]) (use m False in \<open>auto split: option.splits\<close>)
    have "parsev6_loop s (length T) (mask_bits_of m) 0 (length ([] :: string)) (range_groups r) 0 (-1) =
        Inr (Some (take 0 (range_groups r) @ map single xs, 8, -1))"
      by (rule parsev6_loop_read [where rest = "mask_text m"])
        (use x t len tail T r in \<open>auto simp: is_address_def hextets_def group_bits_of_def groups_of_def s_def T_def address_text_def separator_of_def base_of_def\<close>)
    then show ?thesis using t find_dot drop pm mark len r
      by (cases m) (simp_all add: zbx_iprange_parse_def iprangev6_parse_def groups_of_def address_range_def mask_bits_of_def)
  qed
  then show ?thesis by (simp add: s_def T_def)
qed

subsection \<open>Properties\<close>

text \<open>C33: The walk that starts at \<open>zbx_iprange_first\<close> and follows \<open>zbx_iprange_next\<close> visits exactly the
  addresses of a range, each once and in order (without the first and the last one of an IPv4 network
  with a mask), and \<open>zbx_iprange_volume\<close> is their number, capped at the largest 64-bit value.\<close>

theorem iprange_walk_enumerates:
  assumes "wf_iprange r" "mask_ok r" "length address = 8" "length (usable_addresses r) \<le> n"
  shows "iprange_walk n r (zbx_iprange_first r address) = usable_addresses r \<and> distinct (usable_addresses r) \<and>
    unat (zbx_iprange_volume r) = min (2 ^ 64 - 1) (length (usable_addresses r))"
  using iprange_walk_correct [OF assms] iprange_volume_correct [OF assms(1,2)] distinct_all_addr
  by (simp add: usable_addresses_def distinct_butlast distinct_tl)

theorem iprange_walk_enumerates_witness:
  "iprange_walk 4 \<lparr>range_groups = [\<lparr>rfrom = 10, rto = 10\<rparr>, \<lparr>rfrom = 0, rto = 1\<rparr>, \<lparr>rfrom = 0, rto = 0\<rparr>, \<lparr>rfrom = 7, rto = 8\<rparr>] @ replicate 4 (single 0),
      rtype = ZBX_IPRANGE_V4, rmask = False\<rparr>
     (zbx_iprange_first \<lparr>range_groups = [\<lparr>rfrom = 10, rto = 10\<rparr>, \<lparr>rfrom = 0, rto = 1\<rparr>, \<lparr>rfrom = 0, rto = 0\<rparr>, \<lparr>rfrom = 7, rto = 8\<rparr>] @ replicate 4 (single 0),
      rtype = ZBX_IPRANGE_V4, rmask = False\<rparr> (replicate 8 0)) =
   [[10, 0, 0, 7], [10, 0, 0, 8], [10, 1, 0, 7], [10, 1, 0, 8]]"
proof -
  let ?r = "\<lparr>range_groups = [\<lparr>rfrom = 10, rto = 10\<rparr>, \<lparr>rfrom = 0, rto = 1\<rparr>, \<lparr>rfrom = 0, rto = 0\<rparr>, \<lparr>rfrom = 7, rto = 8\<rparr>] @ replicate 4 (single 0),
      rtype = ZBX_IPRANGE_V4, rmask = False\<rparr>"
  have [simp]: "[10..10::int] = [10]" "[0..1::int] = [0, 1]" "[0..0::int] = [0]" "[7..8::int] = [7, 8]"
    by (simp_all add: upto.simps)
  have u: "usable_addresses ?r = [[10, 0, 0, 7], [10, 0, 0, 8], [10, 1, 0, 7], [10, 1, 0, 8]]"
    by (simp add: usable_addresses_def live_groups_def groups_of_def)
  have "iprange_walk 4 ?r (zbx_iprange_first ?r (replicate 8 0)) = usable_addresses ?r"
    by (rule iprange_walk_enumerates [THEN conjunct1])
      (simp_all only: u, simp_all add: wf_iprange_def wf_group_def groups_of_def mask_ok_def single_def)
  then show ?thesis unfolding u .
qed

text \<open>C32: The printed text of an address is parsed back to the range of that address alone, and with a
  mask of \<open>m\<close> bits behind it to a range that contains exactly the addresses with the same first \<open>m\<close>
  bits; the number of IPv4 mask bits is at most 30.\<close>

theorem iprange_text_roundtrip:
  assumes "is_address t xs" "is_address t a" "length (range_groups r) = 8" "40 \<le> len"
    and "m \<le> (if t = ZBX_IPRANGE_V4 then 30 else 128)"
  shows "zbx_iprange_parse r (zbx_iprange_ip2str t xs len) = Inr (Some (address_range r t xs False)) \<and>
    (zbx_iprange_validate (address_range r t xs False) (a @ tl') \<longleftrightarrow> a = xs) \<and>
    (\<exists>r'. zbx_iprange_parse r (zbx_iprange_ip2str t xs len @ CHR ''/'' # print_digits 10 (int m)) = Inr (Some r') \<and>
       rtype r' = t \<and> rmask r' \<and>
       (zbx_iprange_validate r' (a @ tl') \<longleftrightarrow>
          addr_value (group_bits_of t) a div 2 ^ (groups_of t * group_bits_of t - m) =
          addr_value (group_bits_of t) xs div 2 ^ (groups_of t * group_bits_of t - m)))"
proof (intro conjI)
  note printed = ip2str_text [OF assms(1,4)]
  show "zbx_iprange_parse r (zbx_iprange_ip2str t xs len) = Inr (Some (address_range r t xs False))"
    using iprange_parse_text [OF assms(1,3), of None] by (simp add: printed mask_text_def)
  have len: "length xs = groups_of t" "length a = groups_of t" using assms(1,2) by (simp_all add: is_address_def)
  have r8: "length (range_groups (address_range r t xs b)) = 8" for b
    using assms(3) len groups_of_cases [of t] by (auto simp: address_range_def)
  have "zbx_iprange_validate (address_range r t xs False) (a @ tl') \<longleftrightarrow> list_all2 in_group (map single xs) a"
    using validate_in_groups [OF r8, of a False tl'] len by (simp add: address_range_def live_groups_def)
  also have "\<dots> \<longleftrightarrow> a = xs"
    using len by (auto simp: list_all2_conv_all_nth in_group_def single_def intro!: nth_equalityI antisym)
  finally show "zbx_iprange_validate (address_range r t xs False) (a @ tl') \<longleftrightarrow> a = xs" .
  have m: "m \<le> groups_of t * group_bits_of t" using assms(5) by (simp add: groups_of_def group_bits_of_def split: if_splits)
  have range_fields: "range_groups (address_range r t xs True) = map single xs @ drop (groups_of t) (range_groups r)"
    "rtype (address_range r t xs True) = t" "rmask (address_range r t xs True)"
    by (simp_all add: address_range_def)
  show "\<exists>r'. zbx_iprange_parse r (zbx_iprange_ip2str t xs len @ CHR ''/'' # print_digits 10 (int m)) = Inr (Some r') \<and>
       rtype r' = t \<and> rmask r' \<and>
       (zbx_iprange_validate r' (a @ tl') \<longleftrightarrow>
          addr_value (group_bits_of t) a div 2 ^ (groups_of t * group_bits_of t - m) =
          addr_value (group_bits_of t) xs div 2 ^ (groups_of t * group_bits_of t - m))"
    using iprange_mask_prefix [OF assms(1,2) _ r8 [of True] _ m, where rest = "drop (groups_of t) (range_groups r)" and tl' = tl'] range_fields
      iprange_parse_text [OF assms(1,3), of "Some m"] assms(5)
    by (auto simp: printed mask_text_def)
qed

theorem iprange_text_roundtrip_witness:
  "\<exists>r'. zbx_iprange_parse \<lparr>range_groups = replicate 8 (single 0), rtype = ZBX_IPRANGE_V6, rmask = False\<rparr>
      (zbx_iprange_ip2str ZBX_IPRANGE_V4 [10, 1, 2, 3] 64 @ CHR ''/'' # print_digits 10 (int 20)) = Inr (Some r') \<and>
    zbx_iprange_validate r' ([10, 1, 15, 255] @ [])"
  using iprange_text_roundtrip [of ZBX_IPRANGE_V4 "[10, 1, 2, 3]" "[10, 1, 15, 255]"
      "\<lparr>range_groups = replicate 8 (single 0), rtype = ZBX_IPRANGE_V6, rmask = False\<rparr>" 64 20 "[]"]
  by (auto simp: is_address_def groups_of_def group_bits_of_def addr_value_def)

text \<open>Where the parser does not check: eight groups followed by \<open>::\<close> store the ninth group behind the
  array, a text that ends with a single colon is read behind its terminator, and a fifth IPv4 group or
  a ninth IPv6 group is silently ignored. The contents of the record before the call do not matter.\<close>

theorem iprange_parse_unchecked:
  "let r = \<lparr>range_groups = [a, b, c, d, e, f, g, h], rtype = t, rmask = k\<rparr> in
    zbx_iprange_parse r ''1:2:3:4:5:6:7:8::'' = Inl Out_Of_Bounds \<and>
    zbx_iprange_parse r ''1:'' = Inl Out_Of_Bounds \<and>
    zbx_iprange_parse r ''1.2.3.4.5'' = Inr (Some (address_range r ZBX_IPRANGE_V4 [1, 2, 3, 4] False)) \<and>
    zbx_iprange_parse r ''1:2:3:4:5:6:7:8:9'' = Inr (Some (address_range r ZBX_IPRANGE_V6 [1, 2, 3, 4, 5, 6, 7, 8] False))"
  unfolding Let_def by (intro conjI; code_simp)

end
