(* ===== verification/Ip.thy ===== *)
theory Ip
  imports Iprange_Parse Param
begin

text \<open>
  IP addresses of \<open>src/src/libs/zbxip/ip.c\<close>: the recognisers of IPv4 and IPv6 texts, the search of an address in a list of
  ranges, and the elements of the \<open>ServerActive\<close> parameter. Builds with and without \<open>HAVE_IPV6\<close> differ in
  the parameter \<open>ipv6\<close>.
\<close>

subsection \<open>IPv4\<close>

text \<open>The loop from the suffix \<open>p\<close> on, with the octet as a C \<open>int\<close> that wraps around. The result is what the
  variables hold after the loop.\<close>

fun is_ip4_loop :: "string \<Rightarrow> nat \<Rightarrow> nat \<Rightarrow> u32 \<Rightarrow> nat \<times> nat \<times> u32" where
  "is_ip4_loop [] digits dots octet = (digits, dots, octet)"
| "is_ip4_loop (c # p) digits dots octet =
     (if isdigit c then is_ip4_loop p (digits + 1) dots (octet * 10 + of_nat (digit_value c))
      else if c = CHR ''.'' then
        (if digits = 0 \<or> 3 < digits \<or> 255 < sint octet then (digits, dots, octet)
         else is_ip4_loop p 0 (dots + 1) 0)
      else (0, dots, octet))"

definition zbx_is_ip4 :: "string \<Rightarrow> bool" where
  "zbx_is_ip4 ip =
     (case is_ip4_loop ip 0 0 0 of
        (digits, dots, octet) \<Rightarrow> dots = 3 \<and> 1 \<le> digits \<and> 3 \<ge> digits \<and> 255 \<ge> sint octet)"

subsection \<open>IPv6\<close>

record ip6_scan =
  xdigits :: nat
  only_xdigits :: bool
  colons :: nat
  dbl_colons :: nat
  scan_rest :: string

fun is_ip6_loop :: "string \<Rightarrow> nat \<Rightarrow> bool \<Rightarrow> nat \<Rightarrow> nat \<Rightarrow> ip6_scan" where
  "is_ip6_loop [] xd only col dbl = \<lparr>xdigits = xd, only_xdigits = only, colons = col, dbl_colons = dbl, scan_rest = []\<rparr>"
| "is_ip6_loop (c # p) xd only col dbl =
     (if isxdigit c then is_ip6_loop p (xd + 1) True col dbl
      else if c = CHR '':'' then
        let (only, dbl) = (if xd = 0 \<and> 0 < col then (True, dbl + 1) else (only, dbl))
        in if 4 < xd \<or> 1 < dbl
           then \<lparr>xdigits = xd, only_xdigits = only, colons = col, dbl_colons = dbl, scan_rest = c # p\<rparr>
           else is_ip6_loop p 0 only (col + 1) dbl
      else \<lparr>xdigits = xd, only_xdigits = False, colons = col, dbl_colons = dbl, scan_rest = c # p\<rparr>)"

definition zbx_is_ip6 :: "string \<Rightarrow> bool" where
  "zbx_is_ip6 ip =
     (let s = is_ip6_loop ip 0 False 0 0; p = length ip - length (scan_rest s)
      in if 2 > colons s \<or> 7 < colons s \<or> 1 < dbl_colons s \<or> 4 < xdigits s then FAIL
         else if only_xdigits s then SUCCEED
         else if 7 > colons s then
           (case strrchr ip (CHR '':'') of
              None \<Rightarrow> FAIL
            | Some last_colon \<Rightarrow> if last_colon < p then zbx_is_ip4 (drop (last_colon + 1) ip) else FAIL)
         else FAIL)"

definition zbx_is_supported_ip :: "bool \<Rightarrow> string \<Rightarrow> bool" where
  "zbx_is_supported_ip ipv6 ip = (if zbx_is_ip4 ip then SUCCEED else if ipv6 \<and> zbx_is_ip6 ip then SUCCEED else FAIL)"

definition zbx_is_ip :: "string \<Rightarrow> bool" where
  "zbx_is_ip ip = (if zbx_is_ip4 ip then SUCCEED else zbx_is_ip6 ip)"

subsection \<open>Lists of ranges\<close>

text \<open>The loop over the elements from the suffix \<open>lst\<close> on. The record \<open>r\<close> is the variable that the parser fills; what
  a failed parse leaves in it is never read.\<close>

function ip_list_loop :: "bool \<Rightarrow> iprange \<Rightarrow> int list \<Rightarrow> string \<Rightarrow> bool res" where
  "ip_list_loop ipv6 r ipaddress lst =
     (let n = (case strchr lst (CHR '','') of None \<Rightarrow> length lst | Some n \<Rightarrow> n);
          continue = (\<lambda>r. if n < length lst then ip_list_loop ipv6 r ipaddress (drop (n + 1) lst) else Inr FAIL)
      in case zbx_iprange_parse r (take n lst) of
           Inl e \<Rightarrow> Inl e
         | Inr None \<Rightarrow> continue r
         | Inr (Some r) \<Rightarrow>
             if \<not> ipv6 \<and> rtype r = ZBX_IPRANGE_V6 then continue r
             else if zbx_iprange_validate r ipaddress then Inr SUCCEED
             else continue r)"
  by pat_completeness auto
termination
  by (relation "measure (\<lambda>(ipv6, r, ipaddress, lst). length lst)") auto

text \<open>\<open>r\<close> and \<open>stack\<close> are the uninitialised variables \<open>iprange\<close> and \<open>ipaddress\<close>.\<close>

definition zbx_ip_in_list :: "bool \<Rightarrow> iprange \<Rightarrow> int list \<Rightarrow> string \<Rightarrow> string \<Rightarrow> bool res" where
  "zbx_ip_in_list ipv6 r stack lst ip =
     (case zbx_iprange_parse r ip of
        Inl e \<Rightarrow> Inl e
      | Inr None \<Rightarrow> Inr FAIL
      | Inr (Some r) \<Rightarrow>
          if \<not> ipv6 \<and> rtype r = ZBX_IPRANGE_V6 then Inr FAIL
          else let ipaddress = zbx_iprange_first r stack
               in if lst = [] then Inr FAIL else ip_list_loop ipv6 r ipaddress lst)"

subsection \<open>Server addresses\<close>

text \<open>The port, unless the text is not a number below \<open>2 ^ 16\<close>. \<open>big_endian\<close> is the byte order of the machine.\<close>

definition zbx_is_ushort :: "bool \<Rightarrow> string \<Rightarrow> nat option" where
  "zbx_is_ushort big_endian s =
     (case zbx_is_uint_n_range big_endian (Some s) ZBX_SIZE_T_MAX True 2 0 0xFFFF of
        (ret, bs) \<Rightarrow> if ret then Some (host_value big_endian bs) else None)"

text \<open>The status, the host when it is set, and the port. The text itself is restored before the return.\<close>

definition zbx_parse_serveractive_element :: "bool \<Rightarrow> bool \<Rightarrow> string \<Rightarrow> nat \<Rightarrow> bool \<times> string option \<times> nat" where
  "zbx_parse_serveractive_element ipv6 big_endian str port_default =
     (let port = port_default;
          named = (\<lambda>(_ :: unit).
            case strchr str (CHR '':'') of
              None \<Rightarrow> (SUCCEED, Some str, port)
            | Some r2 \<Rightarrow>
                (case zbx_is_ushort big_endian (drop (r2 + 1) str) of
                   None \<Rightarrow> (FAIL, None, port)
                 | Some port \<Rightarrow> (SUCCEED, Some (take r2 str), port)))
      in if ipv6 then
           if cur str = CHR ''['' then
             let str = tl str in
             case strchr str (CHR '']'') of
               None \<Rightarrow> (FAIL, None, port)
             | Some r1 \<Rightarrow>
                 if cat str (r1 + 1) \<noteq> CHR '':'' \<and> cat str (r1 + 1) \<noteq> NUL then (FAIL, None, port)
                 else
                   (case (if cat str (r1 + 1) = CHR '':'' then zbx_is_ushort big_endian (drop (r1 + 2) str) else Some port) of
                      None \<Rightarrow> (FAIL, None, port)
                    | Some port \<Rightarrow>
                        if \<not> zbx_is_ip6 (take r1 str) then (FAIL, None, port) else (SUCCEED, Some (take r1 str), port))
           else if zbx_is_ip6 str then (SUCCEED, Some str, port)
           else named ()
         else named ())"

end
