(* ===== verification/Ip_Spec.thy ===== *)
theory Ip_Spec
  imports Ip
begin

text \<open>
  The grammars that the recognisers of IP addresses accept, the search in a list of ranges, and the
  elements of the \<open>ServerActive\<close> parameter.
\<close>

subsection \<open>IPv4\<close>

definition octet_text :: "string \<Rightarrow> bool" where
  "octet_text g \<longleftrightarrow> g \<noteq> [] \<and> length g \<le> 3 \<and> list_all isdigit g \<and> dec_value g \<le> 255"

lemma is_ip4_loop_digits:
  "list_all isdigit g \<Longrightarrow> is_ip4_loop (g @ rest) digits dots octet =
     is_ip4_loop rest (digits + length g) dots (foldl (\<lambda>v c. v * 10 + of_nat (digit_value c)) octet g)"
  by (induction g arbitrary: digits octet) simp_all

lemma octet_of_nat: "foldl (\<lambda>v c. v * 10 + of_nat (digit_value c)) (of_nat k :: u32) g = of_nat (num_value 10 digit_value k g)"
proof (induction g arbitrary: k)
  case (Cons c g)
  have "(of_nat k * 10 + of_nat (digit_value c) :: u32) = of_nat (k * 10 + digit_value c)" by simp
  then show ?case using Cons.IH [of "k * 10 + digit_value c"] by (simp only: foldl_Cons num_value_Cons)
qed simp

lemma num_value_bound: "list_all isdigit g \<Longrightarrow> num_value 10 digit_value k g < (k + 1) * 10 ^ length g"
proof (induction g arbitrary: k)
  case (Cons c g)
  have "digit_value c < 10" using Cons.prems by (simp add: digit_value_less)
  then have b: "(k * 10 + digit_value c + 1) * 10 ^ length g \<le> ((k + 1) * 10) * 10 ^ length g" by (intro mult_right_mono) simp_all
  have a: "num_value 10 digit_value (k * 10 + digit_value c) g < (k * 10 + digit_value c + 1) * 10 ^ length g"
    by (rule Cons.IH) (use Cons.prems in simp)
  show ?case using less_le_trans [OF a b] by (simp add: algebra_simps)
qed simp

lemma octet_small:
  assumes "list_all isdigit g" "length g \<le> 3"
  shows "sint (foldl (\<lambda>v c. v * 10 + of_nat (digit_value c)) (0 :: u32) g) = int (dec_value g)"
proof -
  have "(10 :: nat) ^ length g \<le> 10 ^ 3" using assms(2) by (intro power_increasing) simp_all
  then have "dec_value g < 1000" using num_value_bound [OF assms(1), of 0] by simp
  then show ?thesis using octet_of_nat [of 0 g] by (simp add: signed_of_nat signed_take_bit_int_eq_self)
qed

fun ip4_groups :: "nat \<Rightarrow> string \<Rightarrow> bool" where
  "ip4_groups 0 s = False"
| "ip4_groups (Suc 0) s = octet_text s"
| "ip4_groups (Suc (Suc n)) s = (\<exists>a r. s = a @ CHR ''.'' # r \<and> octet_text a \<and> ip4_groups (Suc n) r)"

definition ip4_end :: "nat \<times> nat \<times> u32 \<Rightarrow> bool" where
  "ip4_end = (\<lambda>(digits, dots, octet). dots = 3 \<and> 1 \<le> digits \<and> 3 \<ge> digits \<and> 255 \<ge> sint octet)"

lemma is_ip4_loop_dots: "dots \<le> fst (snd (is_ip4_loop s digits dots octet))"
  by (induction s digits dots octet rule: is_ip4_loop.induct) (auto intro: Suc_leD)

lemma octet_prefix:
  assumes "octet_text a" "c = CHR ''.''" "a @ c # r = g @ rest" "list_all isdigit g" "rest = [] \<or> \<not> isdigit (hd rest)"
  shows "a = g" "rest = c # r"
proof -
  have "takeWhile isdigit rest = []" using assms(5) by (cases rest) simp_all
  then have "takeWhile isdigit (a @ c # r) = a" "takeWhile isdigit (g @ rest) = g"
    using assms(1,2,4) by (simp_all add: octet_text_def list_all_iff)
  then show "a = g" using assms(3) by simp
  then show "rest = c # r" using assms(3) by simp
qed

lemma is_ip4_loop_correct: "dots \<le> 3 \<Longrightarrow> ip4_end (is_ip4_loop s 0 dots 0) \<longleftrightarrow> ip4_groups (4 - dots) s"
proof (induction "length s" arbitrary: s dots rule: less_induct)
  case less
  define g rest where "g = takeWhile isdigit s" and "rest = dropWhile isdigit s"
  have s: "s = g @ rest" by (simp add: g_def rest_def)
  have g: "list_all isdigit g" unfolding g_def by (metis set_takeWhileD list_all_iff)
  have r: "rest = [] \<or> \<not> isdigit (hd rest)" using hd_dropWhile [of isdigit s] unfolding rest_def by blast
  define v where "v = foldl (\<lambda>v c. v * 10 + of_nat (digit_value c)) (0 :: u32) g"
  have loop: "is_ip4_loop s 0 dots 0 = is_ip4_loop rest (length g) dots v"
    using is_ip4_loop_digits [OF g, of rest 0 dots 0] by (simp add: s v_def)
  have oct: "octet_text g \<longleftrightarrow> 1 \<le> length g \<and> length g \<le> 3 \<and> sint v \<le> 255"
    using g octet_small [OF g] by (cases g) (auto simp: octet_text_def v_def)
  have last': "ip4_groups 1 s \<longleftrightarrow> rest = [] \<and> octet_text g"
    using r by (cases rest) (auto simp: octet_text_def s)
  have more: "ip4_groups (Suc (Suc n)) s \<longleftrightarrow> (\<exists>p. rest = CHR ''.'' # p \<and> octet_text g \<and> ip4_groups (Suc n) p)" for n
    using octet_prefix [OF _ refl _ g r] by (auto simp: s)
  show ?case
  proof (cases rest)
    case Nil
    then have "ip4_end (is_ip4_loop s 0 dots 0) \<longleftrightarrow> dots = 3 \<and> octet_text g" by (auto simp: loop ip4_end_def oct)
    moreover have "4 - dots = Suc (Suc (2 - dots))" if "dots \<noteq> 3" using that less.prems by simp
    ultimately show ?thesis using last' more [of "2 - dots"] Nil by (cases "dots = 3") simp_all
  next
    case (Cons c p)
    then have c: "\<not> isdigit c" using r by simp
    show ?thesis
    proof (cases "c = CHR ''.'' \<and> octet_text g")
      case False
      have "\<not> ip4_end (is_ip4_loop s 0 dots 0)" using False c by (auto simp: loop Cons ip4_end_def oct Suc_le_eq)
      moreover have "4 - dots = Suc (Suc (2 - dots))" if "dots \<noteq> 3" using that less.prems by simp
      ultimately show ?thesis using last' more [of "2 - dots"] Cons False by (cases "dots = 3") auto
    next
      case True
      then have step: "is_ip4_loop s 0 dots 0 = is_ip4_loop p 0 (dots + 1) 0" using c oct by (auto simp: loop Cons Suc_le_eq)
      show ?thesis
      proof (cases "dots = 3")
        case True
        then have "3 < fst (snd (is_ip4_loop s 0 dots 0))" using is_ip4_loop_dots [of "dots + 1" p 0 0] step by simp
        then have "\<not> ip4_end (is_ip4_loop s 0 dots 0)" by (auto simp: ip4_end_def)
        then show ?thesis using True last' Cons by simp
      next
        case False
        have "length p < length s" by (simp add: s Cons)
        then have "ip4_end (is_ip4_loop s 0 dots 0) \<longleftrightarrow> ip4_groups (4 - (dots + 1)) p"
          unfolding step using less.hyps [of p "dots + 1"] less.prems False by simp
        moreover have "4 - dots = Suc (Suc (2 - dots))" "4 - (dots + 1) = Suc (2 - dots)" using False less.prems by simp_all
        ultimately show ?thesis using more [of "2 - dots"] True Cons by simp
      qed
    qed
  qed
qed

lemma is_ip4_join:
  "zbx_is_ip4 ip \<longleftrightarrow> (\<exists>gs. ip = join_with (CHR ''.'') gs \<and> length gs = 4 \<and> list_all octet_text gs)"
proof -
  have "zbx_is_ip4 ip \<longleftrightarrow> ip4_groups 4 ip"
    using is_ip4_loop_correct [of 0 ip] by (simp add: zbx_is_ip4_def ip4_end_def)
  also have "\<dots> \<longleftrightarrow> (\<exists>a b c d. ip = join_with (CHR ''.'') [a, b, c, d] \<and> list_all octet_text [a, b, c, d])"
    by (simp add: numeral_eq_Suc) blast
  also have "\<dots> \<longleftrightarrow> (\<exists>gs. ip = join_with (CHR ''.'') gs \<and> length gs = 4 \<and> list_all octet_text gs)"
  proof
    assume "\<exists>a b c d. ip = join_with (CHR ''.'') [a, b, c, d] \<and> list_all octet_text [a, b, c, d]"
    then obtain a b c d where "ip = join_with (CHR ''.'') [a, b, c, d] \<and> list_all octet_text [a, b, c, d]" by blast
    then show "\<exists>gs. ip = join_with (CHR ''.'') gs \<and> length gs = 4 \<and> list_all octet_text gs"
      by (intro exI [of _ "[a, b, c, d]"]) simp
  next
    assume "\<exists>gs. ip = join_with (CHR ''.'') gs \<and> length gs = 4 \<and> list_all octet_text gs"
    then obtain gs where gs: "ip = join_with (CHR ''.'') gs" "length gs = 4" "list_all octet_text gs" by blast
    obtain a b c d where "gs = [a, b, c, d]" using gs(2) by (auto simp: numeral_eq_Suc length_Suc_conv)
    then show "\<exists>a b c d. ip = join_with (CHR ''.'') [a, b, c, d] \<and> list_all octet_text [a, b, c, d]" using gs by blast
  qed
  finally show ?thesis .
qed

text \<open>\<open>zbx_is_ip4\<close> accepts exactly four groups of one to three digits, separated by dots, each at most 255.\<close>

theorem is_ip4_grammar:
  "zbx_is_ip4 ip \<longleftrightarrow> (\<exists>gs. ip = join_with (CHR ''.'') gs \<and> length gs = 4 \<and> list_all octet_text gs)"
  by (rule is_ip4_join)

subsection \<open>IPv6\<close>

definition hex_group :: "string \<Rightarrow> bool" where
  "hex_group g \<longleftrightarrow> list_all isxdigit g \<and> length g \<le> 4"

lemma not_isxdigit [simp]: "\<not> isxdigit (CHR '':'')" "\<not> isxdigit (CHR ''.'')"
  by (simp_all add: isxdigit_def isdigit_def code_def)

lemma is_ip6_loop_hex:
  "list_all isxdigit g \<Longrightarrow> is_ip6_loop (g @ rest) xd only col dbl = is_ip6_loop rest (xd + length g) (only \<or> g \<noteq> []) col dbl"
  by (induction g arbitrary: xd only) simp_all

text \<open>The empty groups that count as a double colon: all before the last one, but for the first of the text.\<close>

definition gaps :: "nat \<Rightarrow> string list \<Rightarrow> nat" where
  "gaps col gs = length (filter (\<lambda>g. g = []) (if col = 0 then tl (butlast gs) else butlast gs))"

lemma gaps_Cons: "gs \<noteq> [] \<Longrightarrow> gaps col (g # gs) = (if g = [] \<and> 0 < col then 1 else 0) + gaps (Suc col) gs"
  by (simp add: gaps_def)

lemma gaps_single [simp]: "gaps col [g] = 0"
  by (simp add: gaps_def)

definition scan_outcome :: "string list \<Rightarrow> bool \<Rightarrow> nat \<Rightarrow> nat \<Rightarrow> ip6_scan \<Rightarrow> bool" where
  "scan_outcome gs only col dbl s \<longleftrightarrow>
     (if list_all hex_group (butlast gs) \<and> dbl + gaps col gs \<le> 1 then
        colons s = col + length gs - 1 \<and> dbl_colons s = dbl + gaps col gs \<and>
        xdigits s = length (takeWhile isxdigit (last gs)) \<and> scan_rest s = dropWhile isxdigit (last gs) \<and>
        (only_xdigits s \<longleftrightarrow> scan_rest s = [] \<and> (only \<or> (\<exists>g \<in> set gs. g \<noteq> []) \<or> 0 < gaps col gs))
      else 4 < xdigits s \<or> 1 < dbl_colons s \<or> \<not> only_xdigits s \<and> CHR '':'' \<in> set (scan_rest s))"

lemma hex_prefix:
  obtains h c r where "list_all isxdigit h" "h @ c # r = g" "\<not> isxdigit c" "takeWhile isxdigit g = h" "dropWhile isxdigit g = c # r"
  | "list_all isxdigit g"
proof (cases "list_all isxdigit g")
  case False
  then have "dropWhile isxdigit g \<noteq> []" by (simp add: list_all_iff)
  then obtain c r where d: "dropWhile isxdigit g = c # r" by (cases "dropWhile isxdigit g") auto
  have "\<not> isxdigit c" using hd_dropWhile [of isxdigit g] d by simp
  moreover have "list_all isxdigit (takeWhile isxdigit g)" by (metis set_takeWhileD list_all_iff)
  moreover have "takeWhile isxdigit g @ c # r = g" using takeWhile_dropWhile_id [of isxdigit g] d by simp
  ultimately show ?thesis using that(1) d by blast
qed (use that in blast)

lemma is_ip6_loop_groups:
  "\<lbrakk>gs \<noteq> []; list_all (\<lambda>g. CHR '':'' \<notin> set g) gs; dbl \<le> 1\<rbrakk> \<Longrightarrow>
   scan_outcome gs only col dbl (is_ip6_loop (join_with (CHR '':'') gs) 0 only col dbl)"
proof (induction gs arbitrary: only col dbl)
  case (Cons g gs)
  have colon: "CHR '':'' \<notin> set g" using Cons.prems by simp
  show ?case
  proof (cases "gs = []")
    case True
    show ?thesis
    proof (cases rule: hex_prefix [of g])
      case (1 h c r)
      then have "c \<noteq> CHR '':''" using colon by auto
      then show ?thesis using is_ip6_loop_hex [OF 1(1), of "c # r" 0 only col dbl] 1 Cons.prems(3) True
        by (simp add: scan_outcome_def)
    next
      case 2
      have tw: "takeWhile isxdigit g = g" "dropWhile isxdigit g = []"
        using 2 by (simp_all add: list_all_iff takeWhile_eq_all_conv)
      show ?thesis using is_ip6_loop_hex [OF 2, of "[]" 0 only col dbl] Cons.prems(3) True
        by (simp add: scan_outcome_def tw)
    qed
  next
    case False
    define rest where "rest = join_with (CHR '':'') gs"
    have j: "join_with (CHR '':'') (g # gs) = g @ CHR '':'' # rest" using False by (cases gs) (simp_all add: rest_def)
    have bl: "butlast (g # gs) = g # butlast gs" "last (g # gs) = last gs" using False by simp_all
    note ga = gaps_Cons [OF False, of col g]
    show ?thesis
    proof (cases rule: hex_prefix [of g])
      case (1 h c r)
      then have c: "c \<noteq> CHR '':''" using colon by auto
      have g: "\<not> hex_group g" using 1 by (auto simp: hex_group_def)
      have "g @ CHR '':'' # rest = h @ c # r @ CHR '':'' # rest" using 1(2) by simp
      then have "is_ip6_loop (g @ CHR '':'' # rest) 0 only col dbl =
          \<lparr>xdigits = length h, only_xdigits = False, colons = col, dbl_colons = dbl, scan_rest = c # r @ CHR '':'' # rest\<rparr>"
        using is_ip6_loop_hex [OF 1(1), of "c # r @ CHR '':'' # rest" 0 only col dbl] 1(3) c by simp
      then show ?thesis unfolding scan_outcome_def bl j using g by simp
    next
      case 2
      define dbl' where "dbl' = (if g = [] \<and> 0 < col then dbl + 1 else dbl)"
      define only' where "only' \<longleftrightarrow> only \<or> g \<noteq> [] \<or> 0 < col"
      have step: "is_ip6_loop (g @ CHR '':'' # rest) 0 only col dbl =
          (if 4 < length g \<or> 1 < dbl'
           then \<lparr>xdigits = length g, only_xdigits = only', colons = col, dbl_colons = dbl', scan_rest = CHR '':'' # rest\<rparr>
           else is_ip6_loop rest 0 only' (col + 1) dbl')"
        using is_ip6_loop_hex [OF 2, of "CHR '':'' # rest" 0 only col dbl]
        by (cases "g = []"; cases "col = 0") (auto simp: dbl'_def only'_def Let_def)
      have sum: "dbl + gaps col (g # gs) = dbl' + gaps (Suc col) gs" by (simp add: ga dbl'_def)
      show ?thesis
      proof (cases "4 < length g \<or> 1 < dbl'")
        case True
        then show ?thesis unfolding scan_outcome_def bl j step sum using 2 by (auto simp: hex_group_def)
      next
        case ok: False
        have prev: "scan_outcome gs only' (Suc col) dbl' (is_ip6_loop rest 0 only' (Suc col) dbl')"
          unfolding rest_def by (rule Cons.IH) (use False Cons.prems ok in simp_all)
        have hex: "hex_group g" using ok 2 by (simp add: hex_group_def)
        have pos: "0 < gaps col (g # gs) \<longleftrightarrow> g = [] \<and> 0 < col \<or> 0 < gaps (Suc col) gs" by (auto simp: ga)
        have only: "only \<or> (\<exists>x \<in> set (g # gs). x \<noteq> []) \<or> 0 < gaps col (g # gs) \<longleftrightarrow>
            only' \<or> (\<exists>x \<in> set gs. x \<noteq> []) \<or> 0 < gaps (Suc col) gs"
          unfolding pos only'_def by auto
        have loop: "is_ip6_loop (g @ CHR '':'' # rest) 0 only col dbl = is_ip6_loop rest 0 only' (Suc col) dbl'"
          using step ok by simp
        have cond: "list_all hex_group (g # butlast gs) = list_all hex_group (butlast gs)" using hex by simp
        have len: "col + length (g # gs) - 1 = Suc col + length gs - 1" using False by simp
        show ?thesis using prev unfolding scan_outcome_def bl j loop sum only cond len .
      qed
    qed
  qed
qed simp

lemma strrchr_last:
  assumes "c \<notin> set w"
  shows "strrchr (u @ c # w) c = Some (length u)"
proof -
  have "takeWhile (\<lambda>x. x \<noteq> c) (rev w @ c # rev u) = rev w" using assms by (subst takeWhile_append2) auto
  then have "strchr (rev (u @ c # w)) c = Some (length w)" by (simp add: strchr_def Let_def)
  then show ?thesis by (simp add: strrchr_def)
qed

lemma scan_rest_suffix: "\<exists>u. s = u @ scan_rest (is_ip6_loop s xd only col dbl)"
proof (induction s xd only col dbl rule: is_ip6_loop.induct)
  case (2 c p xd only col dbl)
  show ?case
  proof (cases "isxdigit c")
    case True
    then obtain u where "p = u @ scan_rest (is_ip6_loop p (xd + 1) True col dbl)" using "2.IH"(1) by blast
    then show ?thesis using True by (intro exI [of _ "c # u"]) simp
  next
    case no: False
    show ?thesis
    proof (cases "c = CHR '':''")
      case True
      define only' dbl' where "only' = (if xd = 0 \<and> 0 < col then True else only)" and "dbl' = (if xd = 0 \<and> 0 < col then dbl + 1 else dbl)"
      have e: "(if xd = 0 \<and> 0 < col then (True, dbl + 1) else (only, dbl)) = (only', dbl')" by (simp add: only'_def dbl'_def)
      show ?thesis
      proof (cases "4 < xd \<or> 1 < dbl'")
        case True
        then show ?thesis using no \<open>c = CHR '':''\<close> e by (intro exI [of _ "[]"]) (simp add: Let_def)
      next
        case False
        then obtain u where "p = u @ scan_rest (is_ip6_loop p 0 only' (col + 1) dbl')" using "2.IH"(2) [OF no True e [symmetric] refl] by blast
        then show ?thesis using no True e False by (intro exI [of _ "c # u"]) (simp add: Let_def)
      qed
    qed (use no in \<open>auto intro!: exI [of _ "[]"]\<close>)
  qed
qed simp

lemma split_last_colon: "rest = a @ c # b \<Longrightarrow> c \<notin> set b \<Longrightarrow> strrchr (u @ rest) c = Some (length u + length a)"
  using strrchr_last [of c b "u @ a"] by simp

lemma last_of_char: "c \<in> set s \<Longrightarrow> \<exists>a b. s = a @ c # b \<and> c \<notin> set b"
  by (rule split_list_last)

lemma join_last: "length gs \<ge> 2 \<Longrightarrow> join_with c gs = join_with c (butlast gs) @ c # last gs"
proof (induction gs)
  case (Cons g gs)
  then show ?case by (cases gs; cases "tl gs") auto
qed simp

lemma ip4_has_dot: "zbx_is_ip4 w \<Longrightarrow> \<not> list_all isxdigit w"
  unfolding is_ip4_join by (auto simp: numeral_eq_Suc length_Suc_conv)

lemma ip4_prefix: "zbx_is_ip4 w \<Longrightarrow> length (takeWhile isxdigit w) \<le> 4"
proof -
  assume "zbx_is_ip4 w"
  then obtain gs where gs: "w = join_with (CHR ''.'') gs" "length gs = 4" "list_all octet_text gs" using is_ip4_join by blast
  obtain a b c d where "gs = [a, b, c, d]" using gs(2) by (auto simp: numeral_eq_Suc length_Suc_conv)
  then have w: "w = a @ CHR ''.'' # join_with (CHR ''.'') [b, c, d]" "length a \<le> 3" using gs by (simp_all add: octet_text_def)
  have "length (takeWhile isxdigit (a @ CHR ''.'' # r)) \<le> length a" for r by (induction a) auto
  from this [of "join_with (CHR ''.'') [b, c, d]"] have "length (takeWhile isxdigit w) \<le> length a" unfolding w(1) .
  then show ?thesis using w(2) by linarith
qed

lemma example_ip4: "zbx_is_ip4 ''10.0.0.1''"
  unfolding is_ip4_join by (intro exI [of _ "[''10'', ''0'', ''0'', ''1'']"]) (simp add: octet_text_def isdigit_def code_def digit_value_def)

lemma hex_last:
  assumes "list_all hex_group (butlast gs)" "gaps 0 gs \<le> 1" and len: "3 \<le> length gs"
  shows "(\<exists>g \<in> set gs. g \<noteq> []) \<or> 0 < gaps 0 gs"
proof (rule ccontr)
  assume n: "\<not> ((\<exists>g \<in> set gs. g \<noteq> []) \<or> 0 < gaps 0 gs)"
  have "length (tl (butlast gs)) \<noteq> 0" using len by simp
  then obtain g r where g: "tl (butlast gs) = g # r" by (cases "tl (butlast gs)") auto
  have "g \<in> set (tl (butlast gs))" by (simp add: g)
  then have "g \<in> set gs" 
    using in_set_butlastD [of g gs] by (cases "butlast gs") auto
  then have "g = []" using n by blast
  then have "0 < gaps 0 gs" by (simp add: gaps_def g)
  then show False using n by blast
qed

lemma is_ip6_join:
  assumes "gs \<noteq> []" "list_all (\<lambda>g. CHR '':'' \<notin> set g) gs"
  shows "zbx_is_ip6 (join_with (CHR '':'') gs) \<longleftrightarrow>
    list_all hex_group (butlast gs) \<and> length (filter (\<lambda>g. g = []) (tl (butlast gs))) \<le> 1 \<and>
    (hex_group (last gs) \<and> 3 \<le> length gs \<and> length gs \<le> 8 \<or> zbx_is_ip4 (last gs) \<and> 3 \<le> length gs \<and> length gs \<le> 7)"
proof -
  define ip where "ip = join_with (CHR '':'') gs"
  define s where "s = is_ip6_loop ip 0 False 0 0"
  define p where "p = length ip - length (scan_rest s)"
  have ne: "last gs \<in> set gs" using assms(1) by simp
  then have nc: "CHR '':'' \<notin> set (last gs)" using assms(2) by (auto simp: list_all_iff)
  have out: "scan_outcome gs False 0 0 s" unfolding s_def ip_def using is_ip6_loop_groups [OF assms, of 0 False 0] by simp
  have acc: "zbx_is_ip6 ip \<longleftrightarrow> \<not> (2 > colons s \<or> 7 < colons s \<or> 1 < dbl_colons s \<or> 4 < xdigits s) \<and>
      (only_xdigits s \<or> 7 > colons s \<and> (case strrchr ip (CHR '':'') of None \<Rightarrow> False
         | Some last_colon \<Rightarrow> last_colon < p \<and> zbx_is_ip4 (drop (last_colon + 1) ip)))"
    unfolding zbx_is_ip6_def s_def [symmetric] Let_def p_def [symmetric] by (auto split: option.splits)
  have g0: "gaps 0 gs = length (filter (\<lambda>g. g = []) (tl (butlast gs)))" by (simp add: gaps_def)
  obtain u where u: "ip = u @ scan_rest s" using scan_rest_suffix unfolding s_def by blast
  then have p: "p = length u" unfolding p_def by (metis length_append add_diff_cancel_right')
  show ?thesis
  proof (cases "list_all hex_group (butlast gs) \<and> gaps 0 gs \<le> 1")
    case False
    then have bad: "4 < xdigits s \<or> 1 < dbl_colons s \<or> \<not> only_xdigits s \<and> CHR '':'' \<in> set (scan_rest s)"
      using out by (auto simp: scan_outcome_def)
    have "\<not> k < p" if k: "CHR '':'' \<in> set (scan_rest s)" "strrchr ip (CHR '':'') = Some k" for k
    proof -
      obtain a b where "scan_rest s = a @ CHR '':'' # b" "CHR '':'' \<notin> set b" using last_of_char [OF k(1)] by blast
      from split_last_colon [OF this, of u] show ?thesis using k(2) u p by simp
    qed
    then have "\<not> zbx_is_ip6 ip" unfolding acc using bad by (auto split: option.splits)
    then show ?thesis using False unfolding ip_def g0 by blast
  next
    case True
    then have S: "colons s = length gs - 1" "dbl_colons s = gaps 0 gs" "xdigits s = length (takeWhile isxdigit (last gs))"
        "scan_rest s = dropWhile isxdigit (last gs)"
        "only_xdigits s \<longleftrightarrow> scan_rest s = [] \<and> ((\<exists>g \<in> set gs. g \<noteq> []) \<or> 0 < gaps 0 gs)"
      using out by (auto simp: scan_outcome_def)
    show ?thesis
    proof (cases "3 \<le> length gs")
      case False
      then show ?thesis using acc S(1) unfolding ip_def by auto
    next
      case len: True
      have only: "only_xdigits s \<longleftrightarrow> list_all isxdigit (last gs)"
        unfolding S(5,4) using hex_last [of gs] True len by (auto simp: list_all_iff)
      have j: "ip = join_with (CHR '':'') (butlast gs) @ CHR '':'' # last gs" unfolding ip_def by (rule join_last) (use len in simp)
      have k: "strrchr ip (CHR '':'') = Some (length (join_with (CHR '':'') (butlast gs)))"
        unfolding j by (rule strrchr_last [OF nc])
      have "length (scan_rest s) \<le> length (last gs)" unfolding S(4) by (rule length_dropWhile_le)
      then have kp: "length (join_with (CHR '':'') (butlast gs)) < p" unfolding p_def by (simp add: j)
      have dr: "drop (length (join_with (CHR '':'') (butlast gs)) + 1) ip = last gs" by (simp add: j)
      have acc': "zbx_is_ip6 ip \<longleftrightarrow> length gs \<le> 8 \<and> length (takeWhile isxdigit (last gs)) \<le> 4 \<and>
          (list_all isxdigit (last gs) \<or> length gs \<le> 7 \<and> zbx_is_ip4 (last gs))"
        unfolding acc S(1-3) only k option.case dr using True len kp by auto
      show ?thesis
      proof (cases "list_all isxdigit (last gs)")
        case hex: True
        then have "takeWhile isxdigit (last gs) = last gs" by (simp add: list_all_iff)
        from arg_cong [OF this, of length] show ?thesis using acc' hex ip4_has_dot [of "last gs"] True len unfolding ip_def g0 hex_group_def by auto
      next
        case False
        then show ?thesis using acc' ip4_prefix [of "last gs"] True len unfolding ip_def g0 hex_group_def by auto
      qed
    qed
  qed
qed

text \<open>C37: \<open>zbx_is_ip6\<close> accepts exactly the colon-separated texts of three to eight groups of at most four hexadecimal
  digits with at most one empty group that is neither the first nor the last, where the last of up to
  seven groups may be an IPv4 address instead.\<close>

theorem is_ip6_grammar:
  assumes "gs \<noteq> []" "list_all (\<lambda>g. CHR '':'' \<notin> set g) gs"
  shows "zbx_is_ip6 (join_with (CHR '':'') gs) \<longleftrightarrow>
    list_all hex_group (butlast gs) \<and> length (filter (\<lambda>g. g = []) (tl (butlast gs))) \<le> 1 \<and>
    (hex_group (last gs) \<and> 3 \<le> length gs \<and> length gs \<le> 8 \<or> zbx_is_ip4 (last gs) \<and> 3 \<le> length gs \<and> length gs \<le> 7)"
  using assms by (rule is_ip6_join)

theorem is_ip6_grammar_witness:
  "zbx_is_ip6 ''fe80::1:10.0.0.1'' \<and> zbx_is_ip6 ''1:2:3'' \<and> \<not> zbx_is_ip6 ''1::2::3''"
  using is_ip6_grammar [of "[''fe80'', '''', ''1'', ''10.0.0.1'']"] is_ip6_grammar [of "[''1'', ''2'', ''3'']"]
    is_ip6_grammar [of "[''1'', '''', ''2'', '''', ''3'']"] example_ip4
  by (simp add: hex_group_def isxdigit_def isdigit_def code_def)

end
