(* ===== verification/Ip_Lists.thy ===== *)
theory Ip_Lists
  imports Ip_Spec
begin

text \<open>
  The search of an address in a list of addresses and networks, and the elements of the \<open>ServerActive\<close>
  parameter.
\<close>

subsection \<open>Elements of a list\<close>

definition in_network :: "iprange_type \<Rightarrow> int list \<Rightarrow> nat option \<Rightarrow> int list \<Rightarrow> bool" where
  "in_network t xs m a \<longleftrightarrow>
     (case m of
        None \<Rightarrow> a = xs
      | Some m \<Rightarrow> addr_value (group_bits_of t) a div 2 ^ (groups_of t * group_bits_of t - m) =
                  addr_value (group_bits_of t) xs div 2 ^ (groups_of t * group_bits_of t - m))"

definition mask_fits :: "iprange_type \<Rightarrow> nat option \<Rightarrow> bool" where
  "mask_fits t m \<longleftrightarrow> (case m of None \<Rightarrow> True | Some m \<Rightarrow> m \<le> (if t = ZBX_IPRANGE_V4 then 30 else 128))"

definition item_text :: "iprange_type \<Rightarrow> int list \<times> nat option \<Rightarrow> string" where
  "item_text t x = address_text t (fst x) @ mask_text (snd x)"

lemma validate_single:
  assumes "is_address t xs" "length (range_groups r) = 8" "length a = groups_of t"
  shows "zbx_iprange_validate (address_range r t xs b) (a @ tl') \<longleftrightarrow> a = xs"
proof -
  have len: "length xs = groups_of t" using assms(1) by (simp add: is_address_def)
  have r8: "length (range_groups (address_range r t xs b)) = 8"
    using assms(2) len groups_of_cases [of t] by (auto simp: address_range_def)
  have "zbx_iprange_validate (address_range r t xs b) (a @ tl') \<longleftrightarrow> list_all2 in_group (map single xs) a"
    using validate_in_groups [OF r8, of a tl'] len assms(3) by (simp add: address_range_def live_groups_def)
  also have "\<dots> \<longleftrightarrow> a = xs"
    using len assms(3) by (auto simp: list_all2_conv_all_nth in_group_def single_def intro!: nth_equalityI antisym)
  finally show ?thesis .
qed

lemma item_parse:
  assumes x: "is_address t xs" and a: "is_address t a" and m: "mask_fits t m" and r: "length (range_groups r) = 8"
  obtains r' where "zbx_iprange_parse r (item_text t (xs, m)) = Inr (Some r')" "length (range_groups r') = 8" "rtype r' = t"
    "zbx_iprange_validate r' (a @ tl') \<longleftrightarrow> in_network t xs m a"
proof -
  have len: "length xs = groups_of t" "length a = groups_of t" using x a by (simp_all add: is_address_def)
  have r8: "length (range_groups (address_range r t xs b)) = 8" for b
    using r len groups_of_cases [of t] by (auto simp: address_range_def)
  note parse = iprange_parse_text [OF x r m [unfolded mask_fits_def]]
  show thesis
  proof (cases m)
    case None
    then show thesis
      using that [of "address_range r t xs False"] parse r8 validate_single [OF x r len(2), of False tl']
      by (simp add: item_text_def address_range_def in_network_def)
  next
    case (Some k)
    have k: "k \<le> groups_of t * group_bits_of t"
      using m Some by (simp add: mask_fits_def groups_of_def group_bits_of_def split: if_splits)
    have f: "range_groups (address_range r t xs True) = map single xs @ drop (groups_of t) (range_groups r)"
      "rtype (address_range r t xs True) = t" by (simp_all add: address_range_def)
    obtain r' where "iprange_apply_mask (address_range r t xs True) (int k) = Inr r'" "length (range_groups r') = 8" "rtype r' = t"
        "zbx_iprange_validate r' (a @ tl') \<longleftrightarrow> in_network t xs (Some k) a"
      using iprange_mask_prefix [OF x a f(1) r8 f(2) k, of tl'] by (auto simp: in_network_def)
    then show thesis using that [of r'] parse Some by (simp add: item_text_def)
  qed
qed

lemma item_no_comma:
  assumes "is_address t xs" "mask_fits t m"
  shows "CHR '','' \<notin> set (item_text t (xs, m))"
proof -
  have "\<not> isxdigit (CHR '','')" by (simp add: isxdigit_def isdigit_def code_def)
  moreover have "case m of None \<Rightarrow> True | Some m \<Rightarrow> m \<le> 128" using assms(2) by (auto simp: mask_fits_def split: option.splits if_splits)
  ultimately show ?thesis
    using address_text_chars [OF assms(1), of "CHR '',''"] mask_text_chars [of m "CHR '',''"] by (simp add: item_text_def separator_of_def)
qed

lemma ip_list_loop_correct:
  assumes a: "is_address t a" and fam: "ipv6 \<or> t = ZBX_IPRANGE_V4"
  shows "\<lbrakk>length (range_groups r) = 8; items \<noteq> []; \<forall>(xs, m) \<in> set items. is_address t xs \<and> mask_fits t m\<rbrakk> \<Longrightarrow>
    ip_list_loop ipv6 r (a @ tl') (join_with (CHR '','') (map (item_text t) items)) =
      Inr (\<exists>(xs, m) \<in> set items. in_network t xs m a)"
proof (induction items arbitrary: r)
  case (Cons x items)
  obtain xs m where x: "x = (xs, m)" "is_address t xs" "mask_fits t m" using Cons.prems(3) by (cases x) auto
  obtain r' where P: "zbx_iprange_parse r (item_text t (xs, m)) = Inr (Some r')" "length (range_groups r') = 8" "rtype r' = t"
      "zbx_iprange_validate r' (a @ tl') \<longleftrightarrow> in_network t xs m a"
    by (rule item_parse [OF x(2) a x(3) Cons.prems(1)])
  have skip: "(\<not> ipv6 \<and> rtype r' = ZBX_IPRANGE_V6) = False" using fam P(3) by auto
  note nc = item_no_comma [OF x(2,3)]
  show ?case
  proof (cases "items = []")
    case True
    have n: "(case strchr (item_text t (xs, m)) (CHR '','') of None \<Rightarrow> length (item_text t (xs, m)) | Some n \<Rightarrow> n) = length (item_text t (xs, m))"
      using nc strchr_None [of "item_text t (xs, m)" "CHR '',''"] by simp
    show ?thesis using P(4) unfolding True x(1)
      by (simp del: ip_list_loop.simps add: ip_list_loop.simps [of ipv6 r _ "item_text t (xs, m)"] n Let_def P(1) skip)
  next
    case False
    define rest where "rest = join_with (CHR '','') (map (item_text t) items)"
    have j: "join_with (CHR '','') (map (item_text t) (x # items)) = item_text t (xs, m) @ CHR '','' # rest"
      using False by (cases items) (simp_all add: rest_def x(1))
    have IH: "ip_list_loop ipv6 r' (a @ tl') rest = Inr (\<exists>(xs, m) \<in> set items. in_network t xs m a)"
      unfolding rest_def by (rule Cons.IH [OF P(2) False]) (use Cons.prems(3) in simp)
    show ?thesis unfolding j
      using P(4) IH by (simp del: ip_list_loop.simps add: ip_list_loop.simps [of ipv6 r _ "item_text t (xs, m) @ CHR '','' # rest"]
        strchr_prefix [OF nc] Let_def P(1) skip x(1))
  qed
qed simp

lemma first_of_address:
  assumes "is_address t a"
  shows "zbx_iprange_first (address_range r t a False) stack = a @ drop (groups_of t) stack"
  using assms by (simp add: zbx_iprange_first_def address_range_def is_address_def single_def Let_def comp_def)

text \<open>C38: An address is found in a comma-separated list of addresses and networks of its family exactly when it is one of
  the addresses or shares the prefix of one of the networks; the uninitialised variables do not matter.\<close>

theorem ip_in_list_correct:
  assumes "is_address t a" "ipv6 \<or> t = ZBX_IPRANGE_V4" "length (range_groups r) = 8"
    and "\<forall>(xs, m) \<in> set items. is_address t xs \<and> mask_fits t m"
  shows "zbx_ip_in_list ipv6 r stack (join_with (CHR '','') (map (item_text t) items)) (address_text t a) =
    Inr (\<exists>(xs, m) \<in> set items. in_network t xs m a)"
proof -
  have len: "length a = groups_of t" using assms(1) by (simp add: is_address_def)
  have P: "zbx_iprange_parse r (address_text t a) = Inr (Some (address_range r t a False))"
    using iprange_parse_text [OF assms(1,3), of None] by (simp add: mask_text_def)
  have r8: "length (range_groups (address_range r t a False)) = 8"
    using assms(3) len groups_of_cases [of t] by (auto simp: address_range_def)
  have fam: "(\<not> ipv6 \<and> rtype (address_range r t a False) = ZBX_IPRANGE_V6) = False" using assms(2) by (auto simp: address_range_def)
  have e: "zbx_ip_in_list ipv6 r stack lst (address_text t a) =
      (if lst = [] then Inr FAIL else ip_list_loop ipv6 (address_range r t a False) (a @ drop (groups_of t) stack) lst)" for lst
    unfolding zbx_ip_in_list_def P by (simp only: sum.case option.case fam if_False Let_def first_of_address [OF assms(1)])
  show ?thesis
  proof (cases "items = []")
    case True
    then show ?thesis by (simp add: e del: ip_list_loop.simps)
  next
    case False
    have "join_with (CHR '','') (map (item_text t) items) \<noteq> []"
    proof -
      obtain x items' where i: "items = x # items'" using False by (cases items) auto
      obtain xs m where x: "x = (xs, m)" by (cases x)
      have "address_text t xs \<noteq> []" using assms(4) address_text_ends [of t xs] by (auto simp: i x)
      then show ?thesis by (cases items') (simp_all add: i x item_text_def)
    qed
    then show ?thesis using ip_list_loop_correct [OF assms(1,2) r8 False assms(4)] by (simp add: e del: ip_list_loop.simps)
  qed
qed

theorem ip_in_list_correct_witness:
  "zbx_ip_in_list False \<lparr>range_groups = replicate 8 (single 0), rtype = ZBX_IPRANGE_V6, rmask = False\<rparr> []
     (join_with (CHR '','') (map (item_text ZBX_IPRANGE_V4) [([192, 168, 0, 128], None), ([10, 10, 0, 0], Some 24)]))
     (address_text ZBX_IPRANGE_V4 [10, 10, 0, 77]) = Inr SUCCEED"
  using ip_in_list_correct [of ZBX_IPRANGE_V4 "[10, 10, 0, 77]" False "\<lparr>range_groups = replicate 8 (single 0), rtype = ZBX_IPRANGE_V6, rmask = False\<rparr>"
      "[([192, 168, 0, 128], None), ([10, 10, 0, 0], Some 24)]" "[]"]
  by (simp add: is_address_def groups_of_def group_bits_of_def mask_fits_def in_network_def addr_value_def)

text \<open>The families are not told apart: an IPv6 address is compared by its first four groups with an IPv4 address
  in the list, and an IPv4 address with an IPv6 one by the uninitialised rest of the array.\<close>

theorem ip_in_list_mixes_families:
  assumes "is_address ZBX_IPRANGE_V6 a" "is_address ZBX_IPRANGE_V4 xs" "length (range_groups r) = 8" "length stack = 8"
  shows "zbx_ip_in_list True r stack (address_text ZBX_IPRANGE_V4 xs) (address_text ZBX_IPRANGE_V6 a) = Inr (take 4 a = xs) \<and>
    zbx_ip_in_list True r stack (address_text ZBX_IPRANGE_V6 a) (address_text ZBX_IPRANGE_V4 xs) = Inr (xs @ drop 4 stack = a)"
proof -
  have len: "length a = 8" "length xs = 4" using assms(1,2) by (simp_all add: is_address_def groups_of_def)
  have P: "zbx_iprange_parse r (address_text t y) = Inr (Some (address_range r t y False))"
    if "is_address t y" "length (range_groups r) = 8" for r t y
    using iprange_parse_text [OF that, of None] by (simp add: mask_text_def)
  have r8: "length (range_groups (address_range r t y False)) = 8" if "length y = groups_of t" for t y
    using assms(3) that groups_of_cases [of t] by (auto simp: address_range_def)
  have one: "ip_list_loop True r' b (address_text t y) = Inr (zbx_iprange_validate (address_range r' t y False) b)"
    if y: "is_address t y" "length (range_groups r') = 8" for r' b t y
  proof -
    have "CHR '','' \<notin> set (address_text t y)" using item_no_comma [OF y(1), of None] by (simp add: item_text_def mask_text_def mask_fits_def)
    then have n: "(case strchr (address_text t y) (CHR '','') of None \<Rightarrow> length (address_text t y) | Some n \<Rightarrow> n) = length (address_text t y)"
      using strchr_None [of "address_text t y" "CHR '',''"] by simp
    show ?thesis by (simp del: ip_list_loop.simps add: ip_list_loop.simps [of True r' b "address_text t y"] n Let_def P [OF y])
  qed
  have ne: "address_text t y \<noteq> []" if "is_address t y" for t y using address_text_ends [OF that] by simp
  have e: "zbx_ip_in_list True r stack (address_text t' y') (address_text t y) =
      Inr (zbx_iprange_validate (address_range (address_range r t y False) t' y' False) (y @ drop (groups_of t) stack))"
    if "is_address t y" "is_address t' y'" for t y t' y'
    using that ne [OF that(2)] r8 [of y t] one [OF that(2), of "address_range r t y False"] P [OF that(1) assms(3)]
    by (simp add: zbx_ip_in_list_def Let_def first_of_address is_address_def del: ip_list_loop.simps)
  have "zbx_iprange_validate (address_range (address_range r ZBX_IPRANGE_V6 a False) ZBX_IPRANGE_V4 xs False) (take 4 a @ drop 4 a @ drop 8 stack)
      \<longleftrightarrow> take 4 a = xs"
    by (rule validate_single [OF assms(2) r8]) (simp_all add: len groups_of_def)
  then have v4: "zbx_iprange_validate (address_range (address_range r ZBX_IPRANGE_V6 a False) ZBX_IPRANGE_V4 xs False) (a @ drop 8 stack) \<longleftrightarrow> take 4 a = xs"
    using append_take_drop_id [of 4 a] by (simp only: append_assoc [symmetric])
  have v6: "zbx_iprange_validate (address_range (address_range r ZBX_IPRANGE_V4 xs False) ZBX_IPRANGE_V6 a False) ((xs @ drop 4 stack) @ [])
      \<longleftrightarrow> xs @ drop 4 stack = a"
    by (rule validate_single [OF assms(1) r8]) (simp_all add: len groups_of_def assms(4))
  show ?thesis using e [OF assms(1,2)] e [OF assms(2,1)] v4 v6 by (simp add: groups_of_def)
qed

subsection \<open>Server addresses\<close>

lemma is_ushort_printed:
  assumes "n < 65536"
  shows "zbx_is_ushort big_endian (print_digits 10 (int n)) = Some n"
proof -
  define s where "s = print_digits 10 (int n)"
  have g: "good_digits 10 n s" unfolding s_def using print_digits_good [of 10 "int n"] assms by simp
  have "length s \<le> 5" unfolding s_def by (rule length_print_digits) (use assms in simp_all)
  then have t: "take ZBX_SIZE_T_MAX s = s" by (simp add: ZBX_SIZE_T_MAX_def)
  have "in_range_number 10 isdigit digit_value s 0 0xFFFF"
    using g assms by (auto simp: good_digits_def in_range_number_def list_all_iff)
  moreover have "host_value big_endian (store_uint64 big_endian 2 (of_nat n)) = n"
    using assms by (simp add: store_uint64_value unat_of_nat)
  moreover have "dec_value s = n" using g by (simp add: good_digits_def)
  ultimately show ?thesis unfolding s_def [symmetric] by (simp add: zbx_is_ushort_def is_uint_n_range_eq t)
qed

lemma few_colons:
  assumes "CHR '':'' \<notin> set h"
  shows "\<not> zbx_is_ip6 h" "\<And>w. CHR '':'' \<notin> set w \<Longrightarrow> \<not> zbx_is_ip6 (h @ CHR '':'' # w)"
  using is_ip6_join [of "[h]"] is_ip6_join [of "[h, _]"] assms by simp_all

lemma no_bracket: "zbx_is_ip6 h \<Longrightarrow> cur h \<noteq> CHR ''[''"
  by (cases h) (auto simp: zbx_is_ip6_def Let_def isxdigit_def isdigit_def code_def)

lemma cat_append: "cat (u @ c # v) (length u + k) = cat (c # v) k"
  by (simp add: cat_def nth_append)

lemma parse_named:
  assumes "cur str \<noteq> CHR ''[''" "\<not> zbx_is_ip6 str"
  shows "zbx_parse_serveractive_element ipv6 big_endian str d =
    (case strchr str (CHR '':'') of
       None \<Rightarrow> (SUCCEED, Some str, d)
     | Some r2 \<Rightarrow>
         (case zbx_is_ushort big_endian (drop (r2 + 1) str) of
            None \<Rightarrow> (FAIL, None, d)
          | Some port \<Rightarrow> (SUCCEED, Some (take r2 str), port)))"
  using assms by (simp add: zbx_parse_serveractive_element_def Let_def)

lemma parse_bracketed:
  assumes "CHR '']'' \<notin> set h" "zbx_is_ip6 h" "rest = [] \<or> hd rest = CHR '':''"
  shows "zbx_parse_serveractive_element True big_endian (CHR ''['' # h @ CHR '']'' # rest) d =
    (if rest = [] then (SUCCEED, Some h, d)
     else case zbx_is_ushort big_endian (tl rest) of None \<Rightarrow> (FAIL, None, d) | Some port \<Rightarrow> (SUCCEED, Some h, port))"
proof -
  have c: "cat (h @ CHR '']'' # rest) (length h + 1) = cur rest" using cat_append [of h _ rest 1] by (cases rest) (simp_all add: cat_def)
  show ?thesis
  proof (cases rest)
    case Nil
    then show ?thesis using assms(2) c by (simp add: zbx_parse_serveractive_element_def Let_def strchr_prefix [OF assms(1)])
  next
    case (Cons x w)
    then have "x = CHR '':''" using assms(3) by simp
    then show ?thesis using assms(2) c Cons
      by (simp add: zbx_parse_serveractive_element_def Let_def strchr_prefix [OF assms(1)] split: option.splits)
  qed
qed

text \<open>C39: A host name, an IPv4 address or an IPv6 address, in brackets where a port follows, and a port are taken
  apart to what they were put together from; without a port the default one is used.\<close>

theorem serveractive_correct:
  assumes "n < 65536"
  shows "if CHR '':'' \<notin> set h \<and> cur h \<noteq> CHR ''['' then
      zbx_parse_serveractive_element ipv6 big_endian (h @ CHR '':'' # print_digits 10 (int n)) d = (SUCCEED, Some h, n) \<and>
      zbx_parse_serveractive_element ipv6 big_endian h d = (SUCCEED, Some h, d)
    else if ipv6 \<and> zbx_is_ip6 h \<and> CHR '']'' \<notin> set h then
      zbx_parse_serveractive_element ipv6 big_endian (CHR ''['' # h @ CHR '']'' # CHR '':'' # print_digits 10 (int n)) d = (SUCCEED, Some h, n) \<and>
      zbx_parse_serveractive_element ipv6 big_endian (CHR ''['' # h @ [CHR '']'']) d = (SUCCEED, Some h, d) \<and>
      zbx_parse_serveractive_element ipv6 big_endian h d = (SUCCEED, Some h, d)
    else True"
proof -
  define P where "P = print_digits 10 (int n)"
  have port: "zbx_is_ushort big_endian P = Some n" unfolding P_def by (rule is_ushort_printed [OF assms])
  have "good_digits 10 n P" unfolding P_def using print_digits_good [of 10 "int n"] assms by simp
  then have colon: "CHR '':'' \<notin> set P" using not_in_good_digits [of 10 n P "CHR '':''"] by simp
  show ?thesis
  proof (cases "CHR '':'' \<notin> set h \<and> cur h \<noteq> CHR ''[''")
    case True
    then have "cur (h @ CHR '':'' # P) \<noteq> CHR ''[''" by (cases h) simp_all
    then have "zbx_parse_serveractive_element ipv6 big_endian (h @ CHR '':'' # P) d = (SUCCEED, Some h, n)"
      using True few_colons(2) [of h P] colon port by (simp add: parse_named strchr_prefix)
    moreover have "zbx_parse_serveractive_element ipv6 big_endian h d = (SUCCEED, Some h, d)"
      using True few_colons(1) [of h] strchr_None [of h "CHR '':''"] by (simp add: parse_named)
    ultimately show ?thesis using True by (simp add: P_def)
  next
    case named: False
    show ?thesis
    proof (cases "ipv6 \<and> zbx_is_ip6 h \<and> CHR '']'' \<notin> set h")
      case True
      then have "zbx_parse_serveractive_element ipv6 big_endian h d = (SUCCEED, Some h, d)"
        using no_bracket [of h] by (simp add: zbx_parse_serveractive_element_def Let_def)
      then show ?thesis
        using True parse_bracketed [of h "CHR '':'' # P" big_endian d] parse_bracketed [of h "[]" big_endian d] port
        unfolding P_def [symmetric] if_not_P [OF named] by simp
    next
      case False
      show ?thesis unfolding if_not_P [OF named] if_not_P [OF False] by (rule TrueI)
    qed
  qed
qed

theorem serveractive_correct_witness:
  "zbx_parse_serveractive_element False False (''node-7'' @ CHR '':'' # print_digits 10 (int 10051)) 10051 =
    (SUCCEED, Some ''node-7'', 10051)"
  using serveractive_correct [of 10051 "''node-7''" False False 10051] by simp

end
