(* ===== verification/Queue_Ptr.thy ===== *)
theory Queue_Ptr
  imports Prelude
begin

text \<open>
  The pointer queue of \<open>src/src/libs/zbxalgo/queue.c\<close>: a ring buffer with one spare cell,
  grown by \<open>zbx_queue_ptr_reserve\<close> and shrunk by \<open>zbx_queue_ptr_compact\<close>. The interface
  \<open>fifo\<close> states what a client may rely on; the ring buffer interprets it.
\<close>

subsection \<open>State and operations\<close>

text \<open>
  \<open>qvalues\<close> is the allocated array; a cell is a \<open>void *\<close>, hence an option. Cells that
  \<open>realloc\<close> leaves uninitialised hold \<open>None\<close>; no operation reads one of them
  (\<open>queue_inv\<close> keeps head and tail inside the array and the theorems below only depend on
  cells between tail and head).
\<close>

record 'v queue_ptr =
  qvalues :: "'v option list"
  alloc_num :: nat
  head_pos :: nat
  tail_pos :: nat

definition zbx_queue_ptr_create :: "'v queue_ptr" where
  "zbx_queue_ptr_create = \<lparr>qvalues = [], alloc_num = 0, head_pos = 0, tail_pos = 0\<rparr>"

definition zbx_queue_ptr_empty :: "'v queue_ptr \<Rightarrow> bool" where
  "zbx_queue_ptr_empty q = (if head_pos q = tail_pos q then SUCCEED else FAIL)"

definition zbx_queue_ptr_values_num :: "'v queue_ptr \<Rightarrow> nat" where
  "zbx_queue_ptr_values_num q =
     (let values_num = int (head_pos q) - int (tail_pos q);
          values_num = (if 0 > values_num then values_num + int (alloc_num q) else values_num)
      in nat values_num)"

text \<open>\<open>realloc\<close> keeps the common prefix and leaves the rest uninitialised.\<close>

definition realloc_cells :: "'v option list \<Rightarrow> nat \<Rightarrow> 'v option list" where
  "realloc_cells xs n = take n xs @ replicate (n - length xs) None"

definition zbx_queue_ptr_reserve :: "'v queue_ptr \<Rightarrow> nat \<Rightarrow> 'v queue_ptr" where
  "zbx_queue_ptr_reserve q num =
     (let values_num = zbx_queue_ptr_values_num q in
      if values_num + num + 1 \<le> alloc_num q then q
      else
        let alloc_num' = alloc_num q + max (num + 1) (alloc_num q div 2);
            vals = realloc_cells (qvalues q) alloc_num';
            resize_num = alloc_num' - alloc_num q
        in if tail_pos q > head_pos q
           then q\<lparr>qvalues := memmove_list vals (tail_pos q + resize_num) (tail_pos q)
                             (alloc_num q - tail_pos q),
                   tail_pos := tail_pos q + resize_num, alloc_num := alloc_num'\<rparr>
           else q\<lparr>qvalues := vals, alloc_num := alloc_num'\<rparr>)"

definition zbx_queue_ptr_compact :: "'v queue_ptr \<Rightarrow> 'v queue_ptr" where
  "zbx_queue_ptr_compact q =
     (let values_num = zbx_queue_ptr_values_num q; alloc_num' = values_num + 1 in
      if alloc_num' = alloc_num q then q
      else
        let q1 =
          (if tail_pos q \<noteq> 0 then
             if tail_pos q > head_pos q
             then q\<lparr>qvalues := memmove_list (qvalues q) (head_pos q + 1) (tail_pos q)
                               (alloc_num q - tail_pos q),
                     tail_pos := head_pos q + 1\<rparr>
             else q\<lparr>qvalues := memmove_list (qvalues q) 0 (tail_pos q) values_num,
                     tail_pos := 0, head_pos := values_num\<rparr>
           else q)
        in q1\<lparr>qvalues := realloc_cells (qvalues q1) alloc_num', alloc_num := alloc_num'\<rparr>)"

definition zbx_queue_ptr_push :: "'v queue_ptr \<Rightarrow> 'v option \<Rightarrow> 'v queue_ptr" where
  "zbx_queue_ptr_push q v =
     (let q1 = zbx_queue_ptr_reserve q 1;
          q2 = q1\<lparr>qvalues := (qvalues q1)[head_pos q1 := v], head_pos := head_pos q1 + 1\<rparr>
      in if head_pos q2 = alloc_num q2 then q2\<lparr>head_pos := 0\<rparr> else q2)"

definition zbx_queue_ptr_pop :: "'v queue_ptr \<Rightarrow> 'v option \<times> 'v queue_ptr" where
  "zbx_queue_ptr_pop q =
     (if tail_pos q \<noteq> head_pos q then
        let v = qvalues q ! tail_pos q;
            q1 = q\<lparr>tail_pos := tail_pos q + 1\<rparr>;
            q2 = (if tail_pos q1 = alloc_num q1 then q1\<lparr>tail_pos := 0\<rparr> else q1);
            q3 = (if head_pos q2 = alloc_num q2 then q2\<lparr>head_pos := 0\<rparr> else q2)
        in (v, q3)
      else (None, q))"

text \<open>The two inner copy loops of \<open>zbx_queue_ptr_remove_value\<close>.\<close>

function shift_left :: "'a list \<Rightarrow> nat \<Rightarrow> nat \<Rightarrow> 'a list" where
  "shift_left xs i stop = (if i < stop then shift_left (xs[i := xs ! (i + 1)]) (i + 1) stop else xs)"
  by pat_completeness auto
termination by (relation "measure (\<lambda>(xs, i, stop). stop - i)") auto

fun shift_right :: "'a list \<Rightarrow> nat \<Rightarrow> nat \<Rightarrow> 'a list" where
  "shift_right xs i first =
     (if i > first then shift_right (xs[i := xs ! (i - 1)]) (i - 1) first else xs)"

text \<open>
  The two searching loops: upwards from \<open>start_pos\<close> to \<open>head_pos\<close>, downwards from
  \<open>alloc_num - 1\<close> to \<open>tail_pos\<close>. The index is the C variable \<open>i\<close> (plus one in the
  downward loop, whose \<open>i\<close> may drop below \<open>tail_pos\<close>).
\<close>

function find_up :: "'v option list \<Rightarrow> 'v option \<Rightarrow> nat \<Rightarrow> nat \<Rightarrow> nat option" where
  "find_up vs v i head =
     (if i < head then if vs ! i = v then Some i else find_up vs v (i + 1) head else None)"
  by pat_completeness auto
termination by (relation "measure (\<lambda>(vs, v, i, head). head - i)") auto

fun find_down :: "'v option list \<Rightarrow> 'v option \<Rightarrow> nat \<Rightarrow> nat \<Rightarrow> nat option" where
  "find_down vs v n tail =
     (if n > tail then if vs ! (n - 1) = v then Some (n - 1) else find_down vs v (n - 1) tail
      else None)"

definition zbx_queue_ptr_remove_value :: "'v queue_ptr \<Rightarrow> 'v option \<Rightarrow> 'v queue_ptr" where
  "zbx_queue_ptr_remove_value q v =
     (if tail_pos q = head_pos q then q
      else
        let start_pos = (if tail_pos q < head_pos q then tail_pos q else 0) in
        case find_up (qvalues q) v start_pos (head_pos q) of
          Some i \<Rightarrow> q\<lparr>qvalues := shift_left (qvalues q) i (head_pos q - 1),
                       head_pos := head_pos q - 1\<rparr>
        | None \<Rightarrow>
            if tail_pos q \<le> head_pos q then q
            else case find_down (qvalues q) v (alloc_num q) (tail_pos q) of
                Some i \<Rightarrow>
                  let t = tail_pos q + 1 in
                  q\<lparr>qvalues := shift_right (qvalues q) i (tail_pos q),
                     tail_pos := (if t = alloc_num q then 0 else t)\<rparr>
              | None \<Rightarrow> q)"

declare shift_left.simps [simp del] shift_right.simps [simp del]
  find_up.simps [simp del] find_down.simps [simp del]

subsection \<open>Invariant and abstraction\<close>

definition queue_inv :: "'v queue_ptr \<Rightarrow> bool" where
  "queue_inv q \<longleftrightarrow> length (qvalues q) = alloc_num q \<and>
     (if alloc_num q = 0 then head_pos q = 0 \<and> tail_pos q = 0
      else head_pos q < alloc_num q \<and> tail_pos q < alloc_num q)"

text \<open>The queued values, oldest first.\<close>

definition queue_list :: "'v queue_ptr \<Rightarrow> 'v option list" where
  "queue_list q =
     (if tail_pos q \<le> head_pos q then seg (qvalues q) (tail_pos q) (head_pos q)
      else seg (qvalues q) (tail_pos q) (alloc_num q) @ seg (qvalues q) 0 (head_pos q))"

subsection \<open>Sizes and reallocation\<close>

lemma length_realloc_cells [simp]: "length (realloc_cells xs n) = n"
  by (simp add: realloc_cells_def)

lemma nth_realloc_cells: "i < n \<Longrightarrow> i < length xs \<Longrightarrow> realloc_cells xs n ! i = xs ! i"
  by (simp add: realloc_cells_def nth_append)

lemma seg_realloc_cells [simp]:
  "b \<le> n \<Longrightarrow> b \<le> length xs \<Longrightarrow> seg (realloc_cells xs n) a b = seg xs a b"
  by (rule seg_eqI) (auto simp: nth_realloc_cells)

lemma queue_inv_bounds:
  assumes "queue_inv q"
  shows "head_pos q \<le> length (qvalues q)" "tail_pos q \<le> length (qvalues q)"
    "length (qvalues q) = alloc_num q"
  using assms by (auto simp: queue_inv_def split: if_splits)

lemma values_num_eq: "queue_inv q \<Longrightarrow> zbx_queue_ptr_values_num q = length (queue_list q)"
  using queue_inv_bounds [of q]
  by (auto simp: zbx_queue_ptr_values_num_def queue_list_def Let_def)

lemma queue_list_less_alloc:
  "queue_inv q \<Longrightarrow> alloc_num q \<noteq> 0 \<Longrightarrow> length (queue_list q) < alloc_num q"
  by (auto simp: queue_inv_def queue_list_def)

lemma reserve_correct:
  assumes inv: "queue_inv q"
  shows reserve_inv: "queue_inv (zbx_queue_ptr_reserve q num)"
    and reserve_list: "queue_list (zbx_queue_ptr_reserve q num) = queue_list q"
    and reserve_space:
      "length (queue_list q) + num + 1 \<le> alloc_num (zbx_queue_ptr_reserve q num)"
proof -
  let ?q' = "zbx_queue_ptr_reserve q num"
  have len: "length (qvalues q) = alloc_num q" using inv by (simp add: queue_inv_def)
  have *: "queue_inv ?q' \<and> queue_list ?q' = queue_list q \<and>
      length (queue_list q) + num + 1 \<le> alloc_num ?q'"
  proof (cases "length (queue_list q) + num + 1 \<le> alloc_num q")
    case True
    then show ?thesis
      using inv by (simp add: zbx_queue_ptr_reserve_def values_num_eq)
  next
    case False
    define r where "r = max (num + 1) (alloc_num q div 2)"
    have q': "?q' =
       (if tail_pos q > head_pos q
        then q\<lparr>qvalues := memmove_list (realloc_cells (qvalues q) (alloc_num q + r)) (tail_pos q + r)
                           (tail_pos q) (alloc_num q - tail_pos q),
                tail_pos := tail_pos q + r, alloc_num := alloc_num q + r\<rparr>
        else q\<lparr>qvalues := realloc_cells (qvalues q) (alloc_num q + r), alloc_num := alloc_num q + r\<rparr>)"
      using False inv by (simp add: zbx_queue_ptr_reserve_def values_num_eq r_def Let_def)
    have space: "length (queue_list q) + num + 1 \<le> alloc_num q + r"
      using inv queue_list_less_alloc [OF inv]
      by (cases "alloc_num q = 0") (auto simp: r_def queue_inv_def queue_list_def)
    show ?thesis
    proof (cases "tail_pos q > head_pos q")
      case True
      then have t: "tail_pos q < alloc_num q" using inv by (auto simp: queue_inv_def split: if_splits)
      have "seg (qvalues ?q') (tail_pos q + r) (alloc_num q + r) = seg (qvalues q) (tail_pos q) (alloc_num q)"
        using True t len
        by (intro seg_eqI) (auto simp: q' nth_memmove_list nth_realloc_cells)
      moreover have "seg (qvalues ?q') 0 (head_pos q) = seg (qvalues q) 0 (head_pos q)"
        using True t len
        by (intro seg_eqI) (auto simp: q' nth_memmove_list nth_realloc_cells)
      ultimately show ?thesis
        using True t len space inv by (simp add: q' queue_inv_def queue_list_def split: if_splits)
    next
      case nowrap: False
      then show ?thesis
        using len space inv queue_inv_bounds [OF inv]
        by (auto simp: q' queue_inv_def queue_list_def r_def split: if_splits)
    qed
  qed
  then show "queue_inv ?q'" "queue_list ?q' = queue_list q"
    "length (queue_list q) + num + 1 \<le> alloc_num ?q'" by auto
qed

subsection \<open>Push, pop and compact\<close>

lemma push_correct:
  assumes inv: "queue_inv q"
  shows push_inv: "queue_inv (zbx_queue_ptr_push q v)"
    and push_list: "queue_list (zbx_queue_ptr_push q v) = queue_list q @ [v]"
proof -
  define r where "r = zbx_queue_ptr_reserve q 1"
  have r: "queue_inv r" "queue_list r = queue_list q" "length (queue_list r) + 2 \<le> alloc_num r"
    using reserve_correct [OF inv, of 1] by (simp_all add: r_def)
  have p: "zbx_queue_ptr_push q v =
     (if head_pos r + 1 = alloc_num r
      then r\<lparr>qvalues := (qvalues r)[head_pos r := v], head_pos := 0\<rparr>
      else r\<lparr>qvalues := (qvalues r)[head_pos r := v], head_pos := head_pos r + 1\<rparr>)"
    by (simp add: zbx_queue_ptr_push_def r_def Let_def)
  have len: "length (qvalues r) = alloc_num r" and h: "head_pos r < alloc_num r"
    and t: "tail_pos r < alloc_num r"
    using r by (auto simp: queue_inv_def split: if_splits)
  have room: "tail_pos r > head_pos r \<Longrightarrow> head_pos r + 1 < tail_pos r"
    "head_pos r + 1 = alloc_num r \<Longrightarrow> 0 < tail_pos r"
    using r(3) len h t by (auto simp: queue_list_def split: if_splits)
  have tl: "head_pos r + 1 = alloc_num r \<Longrightarrow> tail_pos r \<le> head_pos r"
    using t by simp
  have full: "seg ((qvalues r)[head_pos r := v]) (tail_pos r) (alloc_num r)
      = seg (qvalues r) (tail_pos r) (head_pos r) @ [v]" if e: "Suc (head_pos r) = alloc_num r"
    using seg_snoc [of "tail_pos r" "head_pos r" "(qvalues r)[head_pos r := v]"] tl len h
    by (simp add: e)
  show "queue_inv (zbx_queue_ptr_push q v)"
    using r(1) h t by (auto simp: p queue_inv_def)
  have "queue_list (zbx_queue_ptr_push q v) = queue_list r @ [v]"
    using len h t room full by (auto simp: p queue_list_def seg_snoc)
  then show "queue_list (zbx_queue_ptr_push q v) = queue_list q @ [v]"
    by (simp add: r)
qed

lemma pop_empty: "queue_inv q \<Longrightarrow> queue_list q = [] \<Longrightarrow> zbx_queue_ptr_pop q = (None, q)"
  using values_num_eq [of q]
  by (auto simp: zbx_queue_ptr_pop_def zbx_queue_ptr_values_num_def queue_inv_def Let_def
      split: if_splits)

lemma pop_Cons:
  assumes inv: "queue_inv q" and xs: "queue_list q = x # xs"
  shows pop_value: "fst (zbx_queue_ptr_pop q) = x"
    and pop_list: "queue_list (snd (zbx_queue_ptr_pop q)) = xs"
proof -
  have len: "length (qvalues q) = alloc_num q" using inv by (simp add: queue_inv_def)
  have ne: "tail_pos q \<noteq> head_pos q" using xs by (auto simp: queue_list_def)
  have b: "tail_pos q < alloc_num q" "head_pos q < alloc_num q"
    using inv ne by (auto simp: queue_inv_def split: if_splits)
  have front: "x # xs = (if tail_pos q < head_pos q
     then qvalues q ! tail_pos q # seg (qvalues q) (tail_pos q + 1) (head_pos q)
     else qvalues q ! tail_pos q # seg (qvalues q) (tail_pos q + 1) (alloc_num q)
            @ seg (qvalues q) 0 (head_pos q))"
    using ne b len xs seg_Cons [of "tail_pos q" "head_pos q" "qvalues q"]
      seg_Cons [of "tail_pos q" "alloc_num q" "qvalues q"]
    by (auto simp: queue_list_def split: if_splits)
  show "fst (zbx_queue_ptr_pop q) = x"
    using front ne by (auto simp: zbx_queue_ptr_pop_def Let_def split: if_splits)
  have "queue_list (snd (zbx_queue_ptr_pop q)) =
    (if tail_pos q < head_pos q then seg (qvalues q) (tail_pos q + 1) (head_pos q)
     else seg (qvalues q) (tail_pos q + 1) (alloc_num q) @ seg (qvalues q) 0 (head_pos q))"
    using ne b len by (auto simp: zbx_queue_ptr_pop_def queue_list_def Let_def)
  then show "queue_list (snd (zbx_queue_ptr_pop q)) = xs"
    using front by (auto split: if_splits)
qed

lemma pop_inv: "queue_inv q \<Longrightarrow> queue_inv (snd (zbx_queue_ptr_pop q))"
  by (auto simp: zbx_queue_ptr_pop_def queue_inv_def Let_def split: if_splits)

lemma create_correct [simp]:
  "queue_inv zbx_queue_ptr_create" "queue_list zbx_queue_ptr_create = []"
  by (simp_all add: zbx_queue_ptr_create_def queue_inv_def queue_list_def)

lemma empty_correct: "queue_inv q \<Longrightarrow> zbx_queue_ptr_empty q \<longleftrightarrow> queue_list q = []"
  using values_num_eq [of q]
  by (auto simp: zbx_queue_ptr_empty_def zbx_queue_ptr_values_num_def queue_inv_def queue_list_def
      Let_def split: if_splits)

lemma compact_correct:
  assumes inv: "queue_inv q"
  shows compact_inv: "queue_inv (zbx_queue_ptr_compact q)"
    and compact_list: "queue_list (zbx_queue_ptr_compact q) = queue_list q"
    and compact_alloc: "alloc_num (zbx_queue_ptr_compact q) = length (queue_list q) + 1"
proof -
  let ?n = "length (queue_list q)" and ?q' = "zbx_queue_ptr_compact q"
  have len: "length (qvalues q) = alloc_num q" using inv by (simp add: queue_inv_def)
  note b = queue_inv_bounds [OF inv]
  have *: "queue_inv ?q' \<and> queue_list ?q' = queue_list q \<and> alloc_num ?q' = ?n + 1"
  proof (cases "?n + 1 = alloc_num q")
    case True
    then show ?thesis using inv by (simp add: zbx_queue_ptr_compact_def values_num_eq)
  next
    case False
    consider (straight) "tail_pos q = 0" | (wrapped) "tail_pos q > head_pos q"
      | (shifted) "tail_pos q \<noteq> 0" "tail_pos q \<le> head_pos q" by linarith
    then show ?thesis
    proof cases
      case straight
      then have "?n = head_pos q" using b by (simp add: queue_list_def)
      with straight False b show ?thesis
        using inv by (auto simp: zbx_queue_ptr_compact_def values_num_eq Let_def queue_inv_def
            queue_list_def split: if_splits)
    next
      case wrapped
      then have t: "tail_pos q < alloc_num q" using inv by (auto simp: queue_inv_def split: if_splits)
      let ?m = "memmove_list (qvalues q) (head_pos q + 1) (tail_pos q) (alloc_num q - tail_pos q)"
      have n: "?n = alloc_num q - tail_pos q + head_pos q" using wrapped len b by (simp add: queue_list_def)
      have q': "?q' = q\<lparr>qvalues := realloc_cells ?m (?n + 1), tail_pos := head_pos q + 1,
                         alloc_num := ?n + 1\<rparr>"
        using wrapped False inv by (simp add: zbx_queue_ptr_compact_def values_num_eq Let_def)
      have "seg (realloc_cells ?m (?n + 1)) (head_pos q + 1) (?n + 1)
          = seg (qvalues q) (tail_pos q) (alloc_num q)"
        using wrapped t len n
        by (intro seg_eqI) (auto simp: nth_memmove_list nth_realloc_cells)
      moreover have "seg (realloc_cells ?m (?n + 1)) 0 (head_pos q) = seg (qvalues q) 0 (head_pos q)"
        using wrapped t len n
        by (intro seg_eqI) (auto simp: nth_memmove_list nth_realloc_cells)
      ultimately show ?thesis
        using wrapped t n by (simp add: q' queue_inv_def queue_list_def) linarith
    next
      case shifted
      let ?m = "memmove_list (qvalues q) 0 (tail_pos q) ?n"
      have n: "?n = head_pos q - tail_pos q" using shifted b by (simp add: queue_list_def)
      have q': "?q' = q\<lparr>qvalues := realloc_cells ?m (?n + 1), tail_pos := 0, head_pos := ?n,
                         alloc_num := ?n + 1\<rparr>"
        using shifted False inv by (simp add: zbx_queue_ptr_compact_def values_num_eq Let_def)
      have "seg (realloc_cells ?m (?n + 1)) 0 ?n = seg (qvalues q) (tail_pos q) (head_pos q)"
        using shifted len n b
        by (intro seg_eqI) (auto simp: nth_memmove_list nth_realloc_cells)
      then show ?thesis
        using shifted by (simp add: q' queue_inv_def queue_list_def)
    qed
  qed
  then show "queue_inv ?q'" "queue_list ?q' = queue_list q" "alloc_num ?q' = ?n + 1" by auto
qed

subsection \<open>Removal of a value\<close>

text \<open>\<open>remove_last v xs\<close> drops the last occurrence of \<open>v\<close>.\<close>

definition remove_last :: "'a \<Rightarrow> 'a list \<Rightarrow> 'a list" where
  "remove_last v xs = rev (remove1 v (rev xs))"

lemma remove_last_split: "v \<notin> set ys \<Longrightarrow> remove_last v (xs @ v # ys) = xs @ ys"
  by (simp add: remove_last_def remove1_append)

lemma remove_last_notin [simp]: "v \<notin> set xs \<Longrightarrow> remove_last v xs = xs"
  by (simp add: remove_last_def remove1_idem)

lemma remove_last_distinct: "distinct xs \<Longrightarrow> remove_last v xs = remove1 v xs"
  by (simp add: remove_last_def distinct_remove1_removeAll removeAll_filter_not_eq rev_filter)

lemma mset_remove_last [simp]: "mset (remove_last v xs) = mset xs - {#v#}"
  by (simp add: remove_last_def)

lemma length_shift_left [simp]: "length (shift_left xs i n) = length xs"
  by (induction xs i n rule: shift_left.induct) (subst shift_left.simps, simp)

lemma nth_shift_left:
  "n < length xs \<Longrightarrow> k < length xs \<Longrightarrow>
    shift_left xs i n ! k = (if i \<le> k \<and> k < n then xs ! (k + 1) else xs ! k)"
proof (induction xs i n rule: shift_left.induct)
  case (1 xs i n)
  then show ?case by (subst shift_left.simps) (cases "k = i", auto simp: nth_list_update)
qed

lemma length_shift_right [simp]: "length (shift_right xs i n) = length xs"
  by (induction xs i n rule: shift_right.induct) (subst shift_right.simps, simp)

lemma nth_shift_right:
  "i < length xs \<Longrightarrow> k < length xs \<Longrightarrow>
    shift_right xs i n ! k = (if n < k \<and> k \<le> i then xs ! (k - 1) else xs ! k)"
proof (induction xs i n rule: shift_right.induct)
  case (1 xs i n)
  then show ?case by (subst shift_right.simps) (auto simp: nth_list_update)
qed

lemma find_up_Some:
  "find_up vs v i h = Some j \<Longrightarrow> i \<le> j \<and> j < h \<and> vs ! j = v \<and> (\<forall>k. i \<le> k \<and> k < j \<longrightarrow> vs ! k \<noteq> v)"
proof (induction vs v i h rule: find_up.induct)
  case (1 vs v i h)
  from "1.prems" have ih: "i < h" by (subst (asm) find_up.simps) (auto split: if_splits)
  show ?case
  proof (cases "vs ! i = v")
    case True
    with "1.prems" ih show ?thesis by (subst (asm) find_up.simps) auto
  next
    case False
    with "1.prems" ih have "find_up vs v (i + 1) h = Some j" by (subst (asm) find_up.simps) auto
    from "1.IH" [OF ih False this] False show ?thesis by (metis Suc_eq_plus1 Suc_leD not_less_eq_eq le_antisym)
  qed
qed

lemma find_up_None: "find_up vs v i h = None \<Longrightarrow> i \<le> k \<Longrightarrow> k < h \<Longrightarrow> vs ! k \<noteq> v"
proof (induction vs v i h rule: find_up.induct)
  case (1 vs v i h)
  then show ?case
    by (subst (asm) (2) find_up.simps) (cases "k = i", auto split: if_splits)
qed

lemma find_down_Some:
  "find_down vs v n t = Some j \<Longrightarrow> t \<le> j \<and> j < n \<and> vs ! j = v \<and> (\<forall>k. j < k \<and> k < n \<longrightarrow> vs ! k \<noteq> v)"
proof (induction vs v n t rule: find_down.induct)
  case (1 vs v n t)
  from "1.prems" have nt: "n > t" by (subst (asm) find_down.simps) (auto split: if_splits)
  show ?case
  proof (cases "vs ! (n - 1) = v")
    case True
    with "1.prems" nt show ?thesis by (subst (asm) find_down.simps) auto
  next
    case False
    with "1.prems" nt have "find_down vs v (n - 1) t = Some j" by (subst (asm) find_down.simps) auto
    from "1.IH" [OF nt False this] False show ?thesis
      by (metis Suc_pred' less_Suc_eq less_imp_diff_less nt gr_implies_not0 neq0_conv diff_Suc_1)
  qed
qed

lemma find_down_None: "find_down vs v n t = None \<Longrightarrow> t \<le> k \<Longrightarrow> k < n \<Longrightarrow> vs ! k \<noteq> v"
proof (induction vs v n t rule: find_down.induct)
  case (1 vs v n t)
  then show ?case
    by (subst (asm) (2) find_down.simps) (cases "k = n - 1", auto split: if_splits)
qed

lemma seg_shift_left:
  assumes "a \<le> i" "i < b" "b \<le> length xs" "xs ! i = v"
    and "\<And>k. a \<le> k \<Longrightarrow> k < i \<Longrightarrow> xs ! k \<noteq> v"
  shows "seg (shift_left xs i (b - 1)) a (b - 1) = remove1 v (seg xs a b)"
proof -
  have "seg xs a b = seg xs a i @ v # seg xs (i + 1) b"
    using assms seg_append [of a i b xs] seg_Cons [of i b xs] by simp
  moreover have "v \<notin> set (seg xs a i)"
    using assms(1-3) assms(5) by (fastforce simp: set_seg)
  ultimately have "remove1 v (seg xs a b) = seg xs a i @ seg xs (i + 1) b"
    by (simp add: remove1_append)
  also have "\<dots> = seg (shift_left xs i (b - 1)) a (b - 1)"
    using assms(1-3) by (intro nth_equalityI) (auto simp: nth_append nth_shift_left add.commute)
  finally show ?thesis by simp
qed

lemma seg_shift_right:
  assumes "a \<le> i" "i < b" "b \<le> length xs" "xs ! i = v"
    and "\<And>k. i < k \<Longrightarrow> k < b \<Longrightarrow> xs ! k \<noteq> v"
  shows "seg (shift_right xs i a) (a + 1) b = remove_last v (seg xs a b)"
proof -
  have "seg xs a b = seg xs a i @ v # seg xs (i + 1) b"
    using assms seg_append [of a i b xs] seg_Cons [of i b xs] by simp
  moreover have "v \<notin> set (seg xs (i + 1) b)"
    using assms(1-3) assms(5) by (fastforce simp: set_seg Suc_le_eq)
  ultimately have "remove_last v (seg xs a b) = seg xs a i @ seg xs (i + 1) b"
    by (simp add: remove_last_split)
  also have "\<dots> = seg (shift_right xs i a) (a + 1) b"
    using assms(1-3) by (intro nth_equalityI) (auto simp: nth_append nth_shift_right add.commute)
  finally show ?thesis by simp
qed

text \<open>
  In a queue that does not wrap the oldest occurrence goes. In a wrapped queue the code first
  searches the newer part (cells \<open>0, ..., head - 1\<close>) upwards and then the older part
  (cells \<open>tail, ..., alloc_num - 1\<close>) downwards.
\<close>

definition remove_spec :: "'a \<Rightarrow> 'a list \<Rightarrow> 'a list \<Rightarrow> 'a list" where
  "remove_spec v old new = (if v \<in> set new then old @ remove1 v new else remove_last v old @ new)"

lemma mset_remove_spec [simp]: "mset (remove_spec v old new) = mset (old @ new) - {#v#}"
proof (cases "v \<in> set new")
  case True
  then show ?thesis by (simp add: remove_spec_def)
next
  case False
  show ?thesis
  proof (cases "v \<in> set old")
    case True
    then obtain A where "mset old = add_mset v A" by (metis in_multiset_in_set mset_add)
    then show ?thesis using False by (simp add: remove_spec_def)
  next
    case old: False
    then show ?thesis using False by (simp add: remove_spec_def diff_single_trivial)
  qed
qed

lemma remove_value_correct:
  assumes inv: "queue_inv q"
  shows remove_value_inv: "queue_inv (zbx_queue_ptr_remove_value q v)"
    and remove_value_list: "queue_list (zbx_queue_ptr_remove_value q v) =
      (if tail_pos q \<le> head_pos q then remove1 v (queue_list q)
       else remove_spec v (seg (qvalues q) (tail_pos q) (alloc_num q)) (seg (qvalues q) 0 (head_pos q)))"
proof -
  let ?q' = "zbx_queue_ptr_remove_value q v" and ?vs = "qvalues q"
    and ?t = "tail_pos q" and ?h = "head_pos q"
  let ?spec = "if ?t \<le> ?h then remove1 v (queue_list q)
       else remove_spec v (seg ?vs ?t (alloc_num q)) (seg ?vs 0 ?h)"
  have len: "length ?vs = alloc_num q" using inv by (simp add: queue_inv_def)
  note b = queue_inv_bounds [OF inv]
  define start where "start = (if ?t < ?h then ?t else 0)"
  have "queue_inv ?q' \<and> queue_list ?q' = ?spec"
  proof (cases "?t = ?h")
    case True
    then show ?thesis
      using inv by (simp add: zbx_queue_ptr_remove_value_def queue_list_def)
  next
    case ne: False
    then have lt: "?t < alloc_num q" "?h < alloc_num q"
      using inv by (auto simp: queue_inv_def split: if_splits)
    show ?thesis
    proof (cases "find_up ?vs v start ?h")
      case (Some i)
      note i = find_up_Some [OF Some]
      have q': "?q' = q\<lparr>qvalues := shift_left ?vs i (?h - 1), head_pos := ?h - 1\<rparr>"
        using ne Some by (simp add: zbx_queue_ptr_remove_value_def start_def)
      have s: "seg (shift_left ?vs i (?h - 1)) start (?h - 1) = remove1 v (seg ?vs start ?h)"
        using i lt len by (intro seg_shift_left) auto
      have v: "v \<in> set (seg ?vs start ?h)"
        using i lt len by (auto simp: set_seg)
      have "?h \<noteq> 0" using i by auto
      show ?thesis
      proof (cases "?t < ?h")
        case True
        then show ?thesis
          using s lt len by (auto simp: q' queue_inv_def queue_list_def start_def)
      next
        case False
        with ne have w: "?h < ?t" by simp
        have "seg (shift_left ?vs i (?h - 1)) ?t (alloc_num q) = seg ?vs ?t (alloc_num q)"
          using w lt len by (intro seg_eqI) (auto simp: nth_shift_left)
        then show ?thesis
          using w s v lt len
          by (auto simp: q' queue_inv_def queue_list_def start_def remove_spec_def)
      qed
    next
      case None
      then have nv: "v \<notin> set (seg ?vs start ?h)"
        using find_up_None [OF None] b(1) by (auto simp: set_seg)
      show ?thesis
      proof (cases "?t \<le> ?h")
        case True
        then have "?q' = q" using ne None by (simp add: zbx_queue_ptr_remove_value_def start_def)
        then show ?thesis
          using True ne nv inv by (simp add: queue_list_def start_def remove1_idem)
      next
        case w: False
        then have st: "start = 0" by (simp add: start_def)
        show ?thesis
        proof (cases "find_down ?vs v (alloc_num q) ?t")
          case None': None
          then have "?q' = q" using w None by (simp add: zbx_queue_ptr_remove_value_def start_def)
          moreover have "v \<notin> set (seg ?vs ?t (alloc_num q))"
            using find_down_None [OF None'] len by (auto simp: set_seg)
          ultimately show ?thesis
            using w nv inv st by (simp add: queue_list_def remove_spec_def)
        next
          case (Some i)
          note i = find_down_Some [OF Some]
          have q': "?q' = q\<lparr>qvalues := shift_right ?vs i ?t,
                             tail_pos := (if ?t + 1 = alloc_num q then 0 else ?t + 1)\<rparr>"
            using w ne None Some by (simp add: zbx_queue_ptr_remove_value_def start_def Let_def)
          have s: "seg (shift_right ?vs i ?t) (?t + 1) (alloc_num q) = remove_last v (seg ?vs ?t (alloc_num q))"
            using i len by (intro seg_shift_right) auto
          have n: "seg (shift_right ?vs i ?t) 0 ?h = seg ?vs 0 ?h"
            using w i lt len by (intro seg_eqI) (auto simp: nth_shift_right)
          show ?thesis
            using w lt len s n nv st
            by (auto simp: q' queue_inv_def queue_list_def remove_spec_def)
        qed
      qed
    qed
  qed
  then show "queue_inv ?q'" "queue_list ?q' = ?spec" by auto
qed

subsection \<open>The interface\<close>

text \<open>A first-in first-out queue of possibly null pointers, and one whose storage can be resized.\<close>

locale fifo =
  fixes inv :: "'q \<Rightarrow> bool" and contents :: "'q \<Rightarrow> 'v option list"
    and create :: 'q and push :: "'q \<Rightarrow> 'v option \<Rightarrow> 'q" and pop :: "'q \<Rightarrow> 'v option \<times> 'q"
  assumes inv_create: "inv create" and contents_create: "contents create = []"
    and inv_push: "inv q \<Longrightarrow> inv (push q v)"
    and contents_push: "inv q \<Longrightarrow> contents (push q v) = contents q @ [v]"
    and inv_pop: "inv q \<Longrightarrow> inv (snd (pop q))"
    and value_pop: "inv q \<Longrightarrow> fst (pop q) = (case contents q of [] \<Rightarrow> None | x # _ \<Rightarrow> x)"
    and contents_pop: "inv q \<Longrightarrow> contents (snd (pop q)) = tl (contents q)"

locale resizable_fifo = fifo +
  fixes reserve :: "'q \<Rightarrow> nat \<Rightarrow> 'q" and compact :: "'q \<Rightarrow> 'q"
  assumes inv_reserve: "inv q \<Longrightarrow> inv (reserve q n)"
    and contents_reserve: "inv q \<Longrightarrow> contents (reserve q n) = contents q"
    and inv_compact: "inv q \<Longrightarrow> inv (compact q)"
    and contents_compact: "inv q \<Longrightarrow> contents (compact q) = contents q"

text \<open>A client's session: a sequence of calls, answered by the values popped.\<close>

datatype 'v queue_op = Push "'v option" | Pop | Reserve nat | Compact

fun run_queue ::
  "('q \<Rightarrow> 'v option \<Rightarrow> 'q) \<Rightarrow> ('q \<Rightarrow> 'v option \<times> 'q) \<Rightarrow> ('q \<Rightarrow> nat \<Rightarrow> 'q) \<Rightarrow> ('q \<Rightarrow> 'q) \<Rightarrow>
   'v queue_op list \<Rightarrow> 'q \<Rightarrow> 'v option list \<times> 'q" where
  "run_queue push pop reserve compact [] q = ([], q)"
| "run_queue push pop reserve compact (Push v # ops) q =
     run_queue push pop reserve compact ops (push q v)"
| "run_queue push pop reserve compact (Pop # ops) q =
     (let (v, q1) = pop q; (vs, q2) = run_queue push pop reserve compact ops q1 in (v # vs, q2))"
| "run_queue push pop reserve compact (Reserve n # ops) q =
     run_queue push pop reserve compact ops (reserve q n)"
| "run_queue push pop reserve compact (Compact # ops) q =
     run_queue push pop reserve compact ops (compact q)"

text \<open>The same session on a plain list.\<close>

fun run_list :: "'v queue_op list \<Rightarrow> 'v option list \<Rightarrow> 'v option list \<times> 'v option list" where
  "run_list [] xs = ([], xs)"
| "run_list (Push v # ops) xs = run_list ops (xs @ [v])"
| "run_list (Pop # ops) [] = (let (vs, ys) = run_list ops [] in (None # vs, ys))"
| "run_list (Pop # ops) (x # xs) = (let (vs, ys) = run_list ops xs in (x # vs, ys))"
| "run_list (Reserve n # ops) xs = run_list ops xs"
| "run_list (Compact # ops) xs = run_list ops xs"

context resizable_fifo
begin

lemma run_simulates:
  "inv q \<Longrightarrow> inv (snd (run_queue push pop reserve compact ops q)) \<and>
    run_list ops (contents q) =
      (fst (run_queue push pop reserve compact ops q),
       contents (snd (run_queue push pop reserve compact ops q)))"
proof (induction ops arbitrary: q)
  case (Cons a ops)
  show ?case
  proof (cases a)
    case Pop
    obtain v q1 where p: "pop q = (v, q1)" by (cases "pop q")
    have "inv q1" "contents q1 = tl (contents q)"
      "v = (case contents q of [] \<Rightarrow> None | x # _ \<Rightarrow> x)"
      using Cons.prems inv_pop [of q] contents_pop [of q] value_pop [of q] p by auto
    then show ?thesis
      using Cons.IH [of q1] Pop p by (cases "contents q") (auto split: prod.splits)
  next
    case (Push v)
    then show ?thesis using Cons.IH [OF inv_push [OF Cons.prems]] Cons.prems
      by (simp add: contents_push)
  next
    case (Reserve n)
    then show ?thesis using Cons.IH [OF inv_reserve [OF Cons.prems]] Cons.prems
      by (simp add: contents_reserve)
  next
    case Compact
    then show ?thesis using Cons.IH [OF inv_compact [OF Cons.prems]] Cons.prems
      by (simp add: contents_compact)
  qed
qed simp

end

interpretation queue_ptr: resizable_fifo queue_inv queue_list zbx_queue_ptr_create
  zbx_queue_ptr_push zbx_queue_ptr_pop zbx_queue_ptr_reserve zbx_queue_ptr_compact
proof
  fix q :: "'v queue_ptr" assume q: "queue_inv q"
  show "fst (zbx_queue_ptr_pop q) = (case queue_list q of [] \<Rightarrow> None | x # _ \<Rightarrow> x)"
    using q by (cases "queue_list q") (auto simp: pop_empty pop_value)
  show "queue_list (snd (zbx_queue_ptr_pop q)) = tl (queue_list q)"
    using q by (cases "queue_list q") (auto simp: pop_empty pop_list)
qed (simp_all add: push_inv push_list pop_inv reserve_inv reserve_list compact_inv compact_list)

subsection \<open>Properties\<close>

text \<open>C14: Any sequence of pushes, pops, reservations and compactions on the ring buffer answers
  every pop with the value a plain first-in first-out list would answer, with \<open>NULL\<close> on an empty
  queue, and leaves a well-formed queue whose contents are that list's.\<close>

theorem queue_session_refines_list:
  assumes "queue_inv q"
  shows "queue_inv (snd (run_queue zbx_queue_ptr_push zbx_queue_ptr_pop zbx_queue_ptr_reserve
           zbx_queue_ptr_compact ops q)) \<and>
    run_list ops (queue_list q) =
      (fst (run_queue zbx_queue_ptr_push zbx_queue_ptr_pop zbx_queue_ptr_reserve
           zbx_queue_ptr_compact ops q),
       queue_list (snd (run_queue zbx_queue_ptr_push zbx_queue_ptr_pop zbx_queue_ptr_reserve
           zbx_queue_ptr_compact ops q)))"
  using assms by (rule queue_ptr.run_simulates)

text \<open>Three pushes, a pop, a compaction, two more pops and one pop too many, from the created queue.\<close>

theorem queue_session_refines_list_witness:
  "queue_inv (zbx_queue_ptr_create :: nat queue_ptr) \<and>
   fst (run_queue zbx_queue_ptr_push zbx_queue_ptr_pop zbx_queue_ptr_reserve zbx_queue_ptr_compact
     [Push (Some 1), Push (Some 2), Pop, Push (Some 3), Compact, Pop, Pop, Pop]
     (zbx_queue_ptr_create :: nat queue_ptr)) = [Some 1, Some 2, Some 3, None]"
proof -
  have inv: "queue_inv (zbx_queue_ptr_create :: nat queue_ptr)" by simp
  show ?thesis
    using inv queue_session_refines_list [OF inv, of
      "[Push (Some 1), Push (Some 2), Pop, Push (Some 3), Compact, Pop, Pop, Pop]"]
    by simp
qed

text \<open>Removing a value from a queue of distinct pointers removes exactly that value, keeps
  the order of the others, and keeps the queue well-formed, whether or not the ring wraps.\<close>

theorem queue_remove_value_correct:
  assumes "queue_inv q" "distinct (queue_list q)"
  shows "queue_inv (zbx_queue_ptr_remove_value q v) \<and>
    queue_list (zbx_queue_ptr_remove_value q v) = filter (\<lambda>x. x \<noteq> v) (queue_list q)"
proof (cases "tail_pos q \<le> head_pos q")
  case True
  then show ?thesis
    using assms by (simp add: remove_value_inv remove_value_list remove1_distinct_filter)
next
  case False
  let ?old = "seg (qvalues q) (tail_pos q) (alloc_num q)" and ?new = "seg (qvalues q) 0 (head_pos q)"
  have l: "queue_list q = ?old @ ?new" using False by (simp add: queue_list_def)
  have "v \<in> set ?new \<Longrightarrow> v \<notin> set ?old" using assms(2) unfolding l by auto
  then have "remove_spec v ?old ?new = filter (\<lambda>x. x \<noteq> v) (?old @ ?new)"
    using assms(2) unfolding l
    by (auto simp: remove_spec_def remove_last_distinct remove1_distinct_filter filter_notin_id)
  then show ?thesis
    using False assms(1) l by (simp add: remove_value_inv remove_value_list)
qed

text \<open>A wrapped ring: head at 1, tail at 3 of 5 cells.\<close>

definition wrapped_queue :: "nat queue_ptr" where
  "wrapped_queue = \<lparr>qvalues = [Some 7, None, None, Some 5, Some 6], alloc_num = 5, head_pos = 1,
     tail_pos = 3\<rparr>"

theorem queue_remove_value_correct_witness:
  "queue_list wrapped_queue = [Some 5, Some 6, Some 7] \<and>
   queue_list (zbx_queue_ptr_remove_value wrapped_queue (Some 6)) = [Some 5, Some 7]"
proof -
  have l: "queue_list wrapped_queue = [Some 5, Some 6, Some 7]"
    by (simp add: queue_list_def wrapped_queue_def seg_def)
  have "queue_inv wrapped_queue" by (simp add: queue_inv_def wrapped_queue_def)
  with l show ?thesis
    using queue_remove_value_correct [of wrapped_queue "Some 6"] by simp
qed

end
