(* ===== verification/Buckets.thy ===== *)
theory Buckets
  imports Prelude
begin

text \<open>
  Lists of buckets, the shape that \<open>hashmap.c\<close> (arrays of entries) and \<open>hashset.c\<close> (chains of
  entries) share: an element belongs to the bucket that its hash modulo the number of buckets
  selects. The contents of a table are compared as multisets, which growing a table permutes.
\<close>

subsection \<open>Swap removal\<close>

text \<open>\<open>a[i] = a[n - 1]; n--;\<close>\<close>

definition swap_remove :: "nat \<Rightarrow> 'a list \<Rightarrow> 'a list" where
  "swap_remove i xs = butlast (xs[i := last xs])"

lemma length_swap_remove [simp]: "length (swap_remove i xs) = length xs - 1"
  by (simp add: swap_remove_def)

lemma mset_swap_remove:
  assumes "i < length xs"
  shows "mset (swap_remove i xs) = mset xs - {#xs ! i#}"
proof -
  obtain ys y where xs: "xs = ys @ [y]" using assms by (cases xs rule: rev_cases) auto
  show ?thesis
  proof (cases "i = length ys")
    case True
    then show ?thesis by (simp add: swap_remove_def xs list_update_append)
  next
    case False
    then have i: "i < length ys" using assms xs by simp
    then have "swap_remove i xs = ys[i := y]"
      by (simp add: swap_remove_def xs list_update_append butlast_append)
    then show ?thesis using i by (simp add: xs nth_append mset_update)
  qed
qed

lemma set_swap_remove: "i < length xs \<Longrightarrow> set (swap_remove i xs) \<subseteq> set xs"
  by (metis mset_swap_remove diff_subset_eq_self set_mset_mono set_mset_mset)

lemma swap_remove_drop:
  assumes "i < length xs"
  shows "take i (swap_remove i xs) = take i xs" "set (drop i (swap_remove i xs)) \<subseteq> set (drop i xs)"
proof -
  obtain ys y where xs: "xs = ys @ [y]" using assms by (cases xs rule: rev_cases) auto
  have "i \<noteq> length ys \<Longrightarrow> swap_remove i xs = ys[i := y]" "i = length ys \<Longrightarrow> swap_remove i xs = ys"
    using assms by (auto simp: swap_remove_def xs list_update_append butlast_append)
  moreover have "set (drop i (ys[i := y])) \<subseteq> insert y (set (drop i ys))"
    by (simp add: drop_update_swap set_update_subset_insert)
  ultimately show "take i (swap_remove i xs) = take i xs"
    "set (drop i (swap_remove i xs)) \<subseteq> set (drop i xs)"
    using assms by (cases "i = length ys"; force simp: xs)+
qed

lemma ball_set_update: "\<forall>x \<in> set xs. P x \<Longrightarrow> P y \<Longrightarrow> \<forall>x \<in> set (xs[i := y]). P x"
  using set_update_subset_insert [of xs i y] by blast

subsection \<open>Contents of a table\<close>

lemma concat_map_Nil [simp]: "concat (map (\<lambda>c. []) bs) = []"
  by (induction bs) simp_all

lemma set_bucket_subset: "t < length bs \<Longrightarrow> set (bs ! t) \<subseteq> set (concat bs)"
  unfolding set_concat by (metis UN_upper nth_mem)

lemma mset_concat_update:
  assumes "n < length bs"
  shows "mset (concat (bs[n := b])) + mset (bs ! n) = mset (concat bs) + mset b"
proof -
  have "bs = take n bs @ bs ! n # drop (Suc n) bs" using assms by (rule id_take_nth_drop)
  then have "mset (concat bs) = mset (concat (take n bs)) + mset (bs ! n) + mset (concat (drop (Suc n) bs))"
    by (metis append.assoc concat.simps(2) concat_append mset_append)
  moreover have "mset (concat (bs[n := b])) =
      mset (concat (take n bs)) + mset b + mset (concat (drop (Suc n) bs))"
    by (simp add: upd_conv_take_nth_drop [OF assms])
  ultimately show ?thesis by (simp add: add_ac)
qed

lemma mset_concat_add:
  "n < length bs \<Longrightarrow> mset b = mset (bs ! n) + M \<Longrightarrow> mset (concat (bs[n := b])) = mset (concat bs) + M"
  using mset_concat_update [of n bs b] by (simp add: add_ac)

lemma mset_concat_sub:
  assumes "n < length bs" "mset (bs ! n) = mset b + M"
  shows "mset (concat (bs[n := b])) + M = mset (concat bs)"
proof -
  have "mset b + (mset (concat (bs[n := b])) + M) = mset b + mset (concat bs)"
    using mset_concat_update [OF assms(1), of b] assms(2) by (simp add: ac_simps)
  then show ?thesis by simp
qed

subsection \<open>Placement\<close>

definition placed :: "('e \<Rightarrow> nat) \<Rightarrow> 'e list list \<Rightarrow> bool" where
  "placed h bs \<longleftrightarrow> (\<forall>t < length bs. \<forall>e \<in> set (bs ! t). h e mod length bs = t)"

lemma placedD: "placed h bs \<Longrightarrow> t < length bs \<Longrightarrow> e \<in> set (bs ! t) \<Longrightarrow> h e mod length bs = t"
  by (simp add: placed_def)

lemma in_bucket_iff:
  assumes "placed h bs" "bs \<noteq> []"
  shows "e \<in> set (concat bs) \<longleftrightarrow> e \<in> set (bs ! (h e mod length bs))"
proof
  assume "e \<in> set (concat bs)"
  then obtain t where "t < length bs" "e \<in> set (bs ! t)" by (auto simp: in_set_conv_nth [of _ bs])
  then show "e \<in> set (bs ! (h e mod length bs))" using assms(1) by (simp add: placed_def)
next
  assume "e \<in> set (bs ! (h e mod length bs))"
  moreover have "bs ! (h e mod length bs) \<in> set bs" using assms(2) by simp
  ultimately show "e \<in> set (concat bs)" by auto
qed

lemma placed_update:
  "placed h bs \<Longrightarrow> (\<And>e. e \<in> set b \<Longrightarrow> h e mod length bs = n) \<Longrightarrow> placed h (bs[n := b])"
  unfolding placed_def length_list_update
proof (intro allI impI ballI)
  fix t e
  assume old: "\<forall>t < length bs. \<forall>e \<in> set (bs ! t). h e mod length bs = t"
    and b: "\<And>e. e \<in> set b \<Longrightarrow> h e mod length bs = n"
    and t: "t < length bs" and e: "e \<in> set (bs[n := b] ! t)"
  show "h e mod length bs = t"
    using old b t e by (cases "t = n") auto
qed

lemma placed_replicate [simp]: "placed h (replicate n [])"
  by (simp add: placed_def)

subsection \<open>Growing in place\<close>

text \<open>
  When a table that had \<open>m\<close> buckets is being rehashed to \<open>inc\<close> of them and the loop is at element
  \<open>i\<close> of bucket \<open>s\<close>, the buckets before \<open>s\<close>, the new buckets and the first \<open>i\<close> elements of \<open>s\<close>
  are placed for the new size.
\<close>

definition settled_buckets :: "('e \<Rightarrow> nat) \<Rightarrow> nat \<Rightarrow> nat \<Rightarrow> nat \<Rightarrow> nat \<Rightarrow> 'e list list \<Rightarrow> bool" where
  "settled_buckets h inc m s i bs \<longleftrightarrow>
     (\<forall>t < length bs. t < s \<or> m \<le> t \<longrightarrow> (\<forall>e \<in> set (bs ! t). h e mod inc = t)) \<and>
     (s < length bs \<longrightarrow> (\<forall>e \<in> set (take i (bs ! s)). h e mod inc = s))"

lemma settled_buckets_next:
  "settled_buckets h inc m s i bs \<Longrightarrow> i = length (bs ! s) \<Longrightarrow> settled_buckets h inc m (Suc s) 0 bs"
  unfolding settled_buckets_def by (auto simp only: less_Suc_eq take_all order_refl take_0 list.set ball_empty)

lemma settled_buckets_keep:
  assumes "settled_buckets h inc m s (length kept) bs" "bs ! s = kept @ e # rest" "h e mod inc = s"
  shows "settled_buckets h inc m s (Suc (length kept)) bs"
  using assms unfolding settled_buckets_def by simp

lemma settled_buckets_move:
  assumes st: "settled_buckets h inc m s (length kept) bs" and n: "n < length bs" "n \<noteq> s" "n = h e mod inc"
    and s: "s < m" "bs ! s = kept @ e # rest"
  shows "settled_buckets h inc m s (length kept) (bs[n := e # bs ! n, s := kept @ rest])"
  unfolding settled_buckets_def length_list_update
proof (intro conjI allI impI ballI)
  fix t x
  assume t: "t < length bs" "t < s \<or> m \<le> t" and x: "x \<in> set (bs[n := e # bs ! n, s := kept @ rest] ! t)"
  then have "t \<noteq> s" using s(1) by linarith
  show "h x mod inc = t"
  proof (cases "t = n")
    case True
    then have "x = e \<or> x \<in> set (bs ! t)" using x n \<open>t \<noteq> s\<close> by simp
    then show ?thesis using True n(3) st t unfolding settled_buckets_def by blast
  next
    case False
    then have "x \<in> set (bs ! t)" using x \<open>t \<noteq> s\<close> by simp
    then show ?thesis using st t unfolding settled_buckets_def by blast
  qed
next
  fix x
  assume l: "s < length bs" and "x \<in> set (take (length kept) (bs[n := e # bs ! n, s := kept @ rest] ! s))"
  then have "x \<in> set (take (length kept) (bs ! s))" using s(2) by simp
  then show "h x mod inc = s" using st l unfolding settled_buckets_def by blast
qed

lemma settled_buckets_placed:
  assumes "settled_buckets h inc m m 0 bs" "length bs = inc"
  shows "placed h bs"
  unfolding placed_def
proof (intro allI impI ballI)
  fix t e assume t: "t < length bs" and e: "e \<in> set (bs ! t)"
  have "t < m \<or> m \<le> t" by linarith
  then show "h e mod length bs = t" using assms t e unfolding settled_buckets_def by blast
qed

lemma mset_concat_move:
  assumes n: "n < length bs" and s: "s < length bs" "n \<noteq> s" and b: "mset (bs ! s) = add_mset e (mset b)"
  shows "mset (concat (bs[n := e # bs ! n, s := b])) = mset (concat bs)"
proof -
  have 1: "mset (concat (bs[n := e # bs ! n])) = mset (concat bs) + {#e#}"
    using n by (intro mset_concat_add) simp_all
  have "mset (concat (bs[n := e # bs ! n, s := b])) + {#e#} = mset (concat (bs[n := e # bs ! n]))"
    using s b by (intro mset_concat_sub) simp_all
  then show ?thesis using 1 by simp
qed

end
