(* ===== verification/Algo_Defs.thy ===== *)
theory Algo_Defs
  imports Complex_Main Prelude
begin

text \<open>
  The default hash and comparison functions and the numeric helpers of
  \<open>src/src/libs/zbxalgo/algodefs.c\<close>. The locale \<open>compare_func\<close> is the contract that sorting,
  searching and the binary heap put on a comparison callback; it is interpreted for each
  exact default comparison. The comparison of doubles, which treats close values as equal,
  does not meet it (see the end of the theory).
\<close>

unbundle bit_operations_syntax

subsection \<open>Hash functions\<close>

definition fnv_byte :: "u32 \<Rightarrow> u8 \<Rightarrow> u32" where
  "fnv_byte hash b = (hash XOR ucast b) * 16777619"

definition fnv_finish :: "u32 \<Rightarrow> u32" where
  "fnv_finish hash =
     (let hash = hash + push_bit 13 hash;
          hash = hash XOR drop_bit 7 hash;
          hash = hash + push_bit 3 hash;
          hash = hash XOR drop_bit 17 hash;
          hash = hash + push_bit 5 hash
      in hash)"

definition zbx_hash_modfnv :: "u8 list \<Rightarrow> u32 \<Rightarrow> u32" where
  "zbx_hash_modfnv data seed = fnv_finish (foldl fnv_byte (2166136261 XOR seed) data)"

definition splitmix64 :: "u64 \<Rightarrow> u64" where
  "splitmix64 v =
     (let v = v XOR drop_bit 30 v;
          v = v * 0xbf58476d1ce4e5b9;
          v = v XOR drop_bit 27 v;
          v = v * 0x94d049bb133111eb
      in v XOR drop_bit 31 v)"

definition zbx_hash_splittable64 :: "u64 \<Rightarrow> u32" where
  "zbx_hash_splittable64 v =
     (let v = splitmix64 v in ucast (ucast (ucast v :: u32) XOR drop_bit 32 v :: u64))"

definition zbx_default_string_hash_func :: "u8 list \<Rightarrow> u32" where
  "zbx_default_string_hash_func s = zbx_hash_modfnv s 0"

text \<open>The bytes of a 64-bit value in memory, lowest first (little endian).\<close>

definition u64_bytes :: "u64 \<Rightarrow> u8 list" where
  "u64_bytes v = map (\<lambda>i. ucast (drop_bit (8 * i) v)) [0..<8]"

record uint64_pair =
  first :: u64
  second :: u64

definition zbx_default_uint64_pair_hash_func :: "uint64_pair \<Rightarrow> u32" where
  "zbx_default_uint64_pair_hash_func p =
     (let hash = zbx_hash_splittable64 (first p) in zbx_hash_modfnv (u64_bytes (second p)) hash)"

lemma word_mult_odd_inject:
  fixes c d :: "'a::len word"
  assumes "c * d = 1"
  shows "x * c = y * c \<longleftrightarrow> x = y"
proof
  assume "x * c = y * c"
  then have "x * (c * d) = y * (c * d)" by (simp add: mult.assoc [symmetric])
  then show "x = y" by (simp add: assms)
qed simp

lemma xor_shift_inject:
  fixes x y :: "'a::len word"
  assumes "0 < k"
  shows "x XOR drop_bit k x = y XOR drop_bit k y \<longleftrightarrow> x = y"
proof
  assume eq: "x XOR drop_bit k x = y XOR drop_bit k y"
  have "bit x n = bit y n" for n
  proof (induction "LENGTH('a) - n" arbitrary: n rule: less_induct)
    case less
    have "bit (x XOR drop_bit k x) n = bit (y XOR drop_bit k y) n" by (simp add: eq)
    then have b: "(bit x n \<noteq> bit x (n + k)) = (bit y n \<noteq> bit y (n + k))"
      by (simp add: bit_xor_iff bit_drop_bit_eq add.commute)
    show ?case
    proof (cases "n < LENGTH('a)")
      case True
      then have "bit x (n + k) = bit y (n + k)" using assms by (intro less) simp
      with b show ?thesis by blast
    next
      case False
      then show ?thesis using bit_imp_le_length by blast
    qed
  qed
  then show "x = y" by (intro bit_eqI) simp
qed simp

lemma xor_inject [simp]:
  fixes a b c :: "'a::len word"
  shows "a XOR b = a XOR c \<longleftrightarrow> b = c" "b XOR a = c XOR a \<longleftrightarrow> b = c"
  by (auto simp: bit_eq_iff bit_xor_iff)

lemma ucast_u8_u32_inject [simp]: "(ucast b :: u32) = ucast c \<longleftrightarrow> b = c" for b c :: u8
proof
  assume "(ucast b :: u32) = ucast c"
  then have "unat (ucast b :: u32) = unat (ucast c :: u32)" by simp
  then have "unat b = unat c" by (simp add: unat_ucast_up)
  then show "b = c" by (rule unsigned_word_eqI)
qed simp

lemma plus_push_bit: "x + push_bit k x = x * (2 ^ k + 1)" for x :: "'a::len word"
  by (simp add: push_bit_eq_mult algebra_simps)

lemma fnv_finish_inject: "fnv_finish x = fnv_finish y \<longleftrightarrow> x = y"
proof -
  have m: "a * 8193 = b * 8193 \<longleftrightarrow> a = b" "a * 9 = b * 9 \<longleftrightarrow> a = b" "a * 33 = b * 33 \<longleftrightarrow> a = b"
    for a b :: u32
    by (rule word_mult_odd_inject [of _ 67100673] word_mult_odd_inject [of _ 954437177]
        word_mult_odd_inject [of _ 1041204193]; simp)+
  show ?thesis
    unfolding fnv_finish_def Let_def plus_push_bit
    using m xor_shift_inject [where 'a = 32] by simp
qed

lemma fnv_byte_inject_hash: "fnv_byte g b = fnv_byte h b \<longleftrightarrow> g = h"
proof -
  have "fnv_byte g b = fnv_byte h b \<longleftrightarrow> g XOR ucast b = h XOR ucast b"
    unfolding fnv_byte_def by (rule word_mult_odd_inject [of _ 899433627]) simp
  then show ?thesis by simp
qed

lemma fnv_byte_inject_byte: "fnv_byte h b = fnv_byte h c \<longleftrightarrow> b = c"
proof -
  have "fnv_byte h b = fnv_byte h c \<longleftrightarrow> h XOR ucast b = h XOR ucast c"
    unfolding fnv_byte_def by (rule word_mult_odd_inject [of _ 899433627]) simp
  then show ?thesis by simp
qed

lemma foldl_fnv_byte_inject: "foldl fnv_byte g data = foldl fnv_byte h data \<longleftrightarrow> g = h"
  by (induction data arbitrary: g h) (auto simp: fnv_byte_inject_hash)

lemma splitmix64_inject: "splitmix64 x = splitmix64 y \<longleftrightarrow> x = y"
proof -
  have m: "a * 0xbf58476d1ce4e5b9 = b * 0xbf58476d1ce4e5b9 \<longleftrightarrow> a = b"
    "a * 0x94d049bb133111eb = b * 0x94d049bb133111eb \<longleftrightarrow> a = b" for a b :: u64
    by (rule word_mult_odd_inject [of _ 10871156337175269513]
        word_mult_odd_inject [of _ 3573116690164977347]; simp)+
  show ?thesis
    unfolding splitmix64_def Let_def using m xor_shift_inject [where 'a = 64] by simp
qed

lemma hash_modfnv_single_byte_parts:
  "zbx_hash_modfnv (xs @ b # ys) seed = zbx_hash_modfnv (xs @ c # ys) seed \<longleftrightarrow> b = c"
  "zbx_hash_modfnv xs s = zbx_hash_modfnv xs t \<longleftrightarrow> s = t"
proof -
  show "zbx_hash_modfnv (xs @ b # ys) seed = zbx_hash_modfnv (xs @ c # ys) seed \<longleftrightarrow> b = c"
    by (simp add: zbx_hash_modfnv_def fnv_finish_inject foldl_fnv_byte_inject fnv_byte_inject_byte)
  show "zbx_hash_modfnv xs s = zbx_hash_modfnv xs t \<longleftrightarrow> s = t"
    by (simp add: zbx_hash_modfnv_def fnv_finish_inject foldl_fnv_byte_inject)
qed

text \<open>The default hash separates any two inputs that differ in one byte, and for one input it
  separates any two seeds: neither the FNV loop nor the finishing mix loses information.\<close>

theorem hash_modfnv_single_byte:
  "(zbx_hash_modfnv (xs @ b # ys) seed = zbx_hash_modfnv (xs @ c # ys) seed \<longleftrightarrow> b = c) \<and>
      (zbx_hash_modfnv xs s = zbx_hash_modfnv xs t \<longleftrightarrow> s = t)"
  by (rule conjI, rule hash_modfnv_single_byte_parts(1), rule hash_modfnv_single_byte_parts(2))

subsection \<open>Comparison functions\<close>

text \<open>\<open>ZBX_RETURN_IF_NOT_EQUAL(a, b)\<close> returns on a difference and falls through on equality.\<close>

definition return_if_not_equal :: "'a::linorder \<Rightarrow> 'a \<Rightarrow> int \<Rightarrow> int" where
  "return_if_not_equal a b rest = (if a < b then -1 else if a > b then 1 else rest)"

definition zbx_default_int_compare_func :: "int \<Rightarrow> int \<Rightarrow> int" where
  "zbx_default_int_compare_func i1 i2 = return_if_not_equal i1 i2 0"

definition zbx_default_uint64_compare_func :: "u64 \<Rightarrow> u64 \<Rightarrow> int" where
  "zbx_default_uint64_compare_func i1 i2 = return_if_not_equal i1 i2 0"

definition zbx_default_uint64_pair_compare_func :: "uint64_pair \<Rightarrow> uint64_pair \<Rightarrow> int" where
  "zbx_default_uint64_pair_compare_func p1 p2 =
     return_if_not_equal (first p1) (first p2) (return_if_not_equal (second p1) (second p2) 0)"

text \<open>\<open>strcmp\<close> on the bytes before the terminating null; its result is used by sign only.\<close>

fun strcmp :: "u8 list \<Rightarrow> u8 list \<Rightarrow> int" where
  "strcmp [] [] = 0"
| "strcmp [] (_ # _) = -1"
| "strcmp (_ # _) [] = 1"
| "strcmp (a # as) (b # bs) = return_if_not_equal a b (strcmp as bs)"

definition zbx_default_str_compare_func :: "u8 list \<Rightarrow> u8 list \<Rightarrow> int" where
  "zbx_default_str_compare_func d1 d2 = strcmp d1 d2"

text \<open>The tag comparisons of \<open>vector.c\<close>: by name, and by name then value.\<close>

record zbx_tag =
  tag :: "u8 list"
  tvalue :: "u8 list"

definition zbx_compare_tags :: "zbx_tag \<Rightarrow> zbx_tag \<Rightarrow> int" where
  "zbx_compare_tags t1 t2 = strcmp (tag t1) (tag t2)"

definition zbx_compare_tags_and_values :: "zbx_tag \<Rightarrow> zbx_tag \<Rightarrow> int" where
  "zbx_compare_tags_and_values t1 t2 =
     (let ret = strcmp (tag t1) (tag t2) in
      if 0 = ret then strcmp (tvalue t1) (tvalue t2) else ret)"

text \<open>Doubles are modelled as reals, without rounding, infinities and NaN.\<close>

definition ZBX_DOUBLE_EPSILON :: real where
  "ZBX_DOUBLE_EPSILON = 222 / 10 ^ 18"

definition zbx_double_compare :: "real \<Rightarrow> real \<Rightarrow> bool" where
  "zbx_double_compare a b = (if \<bar>a - b\<bar> \<le> ZBX_DOUBLE_EPSILON then SUCCEED else FAIL)"

definition zbx_default_dbl_compare_func :: "real \<Rightarrow> real \<Rightarrow> int" where
  "zbx_default_dbl_compare_func p1 p2 =
     (if zbx_double_compare p1 p2 = FAIL then if p1 < p2 then -1 else 1 else 0)"

text \<open>
  The contract: the sign of the result is that of a total preorder.
\<close>

locale compare_func =
  fixes cmp :: "'a \<Rightarrow> 'a \<Rightarrow> int"
  assumes cmp_swap: "0 < cmp x y \<longleftrightarrow> cmp y x < 0"
    and cmp_trans: "cmp x y \<le> 0 \<Longrightarrow> cmp y z \<le> 0 \<Longrightarrow> cmp x z \<le> 0"
begin

lemma cmp_refl [simp]: "cmp x x = 0"
  using cmp_swap [of x x] by linarith

lemma cmp_total: "cmp x y \<le> 0 \<or> cmp y x \<le> 0"
  using cmp_swap [of x y] by linarith

lemma cmp_not_le: "\<not> cmp x y \<le> 0 \<longleftrightarrow> cmp y x < 0"
  using cmp_swap [of x y] by linarith

lemma cmp_sym_eq: "cmp x y = 0 \<longleftrightarrow> cmp y x = 0"
  using cmp_swap [of x y] cmp_swap [of y x] by linarith

lemma cmp_less_trans: "cmp x y < 0 \<Longrightarrow> cmp y z \<le> 0 \<Longrightarrow> cmp x z < 0"
  using cmp_trans [of y z x] cmp_not_le [of z x] cmp_not_le [of y x] by linarith

lemma cmp_le_less_trans: "cmp x y \<le> 0 \<Longrightarrow> cmp y z < 0 \<Longrightarrow> cmp x z < 0"
  using cmp_trans [of z x y] cmp_not_le [of z x] cmp_not_le [of z y] by linarith

lemma cmp_eq_trans: "cmp x y = 0 \<Longrightarrow> cmp y z = 0 \<Longrightarrow> cmp x z = 0"
  using cmp_trans [of x y z] cmp_trans [of z y x] cmp_sym_eq [of x y] cmp_sym_eq [of y z]
    cmp_swap [of x z] cmp_sym_eq [of x z] by simp

end

lemma return_if_not_equal_chain:
  "return_if_not_equal a b r \<le> 0 \<longleftrightarrow> a < b \<or> a = b \<and> r \<le> 0"
  "0 < return_if_not_equal a b r \<longleftrightarrow> b < a \<or> a = b \<and> 0 < r"
  "return_if_not_equal a b r < 0 \<longleftrightarrow> a < b \<or> a = b \<and> r < 0"
  by (auto simp: return_if_not_equal_def)

interpretation int_cmp: compare_func zbx_default_int_compare_func
  by unfold_locales (auto simp: zbx_default_int_compare_func_def return_if_not_equal_chain)

interpretation uint64_cmp: compare_func zbx_default_uint64_compare_func
  by unfold_locales (auto simp: zbx_default_uint64_compare_func_def return_if_not_equal_chain)

interpretation uint64_pair_cmp: compare_func zbx_default_uint64_pair_compare_func
  by unfold_locales (auto simp: zbx_default_uint64_pair_compare_func_def return_if_not_equal_chain)

lemma strcmp_swap: "0 < strcmp x y \<longleftrightarrow> strcmp y x < 0"
  by (induction x y rule: strcmp.induct) (auto simp: return_if_not_equal_chain)

lemma strcmp_trans: "strcmp x y \<le> 0 \<Longrightarrow> strcmp y z \<le> 0 \<Longrightarrow> strcmp x z \<le> 0"
proof (induction x y arbitrary: z rule: strcmp.induct)
  case (1 z)
  then show ?case by simp
next
  case (2 b bs z)
  then show ?case by (cases z) auto
next
  case (3 a as z)
  then show ?case by simp
next
  case (4 a as b bs z)
  then show ?case by (cases z) (auto simp: return_if_not_equal_chain)
qed

lemma strcmp_eq_0: "strcmp x y = 0 \<longleftrightarrow> x = y"
  by (induction x y rule: strcmp.induct) (auto simp: return_if_not_equal_def)

interpretation str_cmp: compare_func zbx_default_str_compare_func
  by unfold_locales (auto simp: zbx_default_str_compare_func_def strcmp_swap intro: strcmp_trans)

text \<open>Comparing by one contract and, on a tie, by another meets the contract.\<close>

locale compare_tie = a: compare_func f + b: compare_func g
  for f :: "'a \<Rightarrow> 'a \<Rightarrow> int" and g :: "'a \<Rightarrow> 'a \<Rightarrow> int"
begin

lemma tie_swap:
  "0 < (if 0 = f x y then g x y else f x y) \<longleftrightarrow> (if 0 = f y x then g y x else f y x) < 0"
  using a.cmp_swap [of x y] a.cmp_sym_eq [of x y] b.cmp_swap [of x y] by auto

lemma tie_trans:
  assumes "(if 0 = f x y then g x y else f x y) \<le> 0" "(if 0 = f y z then g y z else f y z) \<le> 0"
  shows "(if 0 = f x z then g x z else f x z) \<le> 0"
proof -
  have le: "f x y \<le> 0" "f y z \<le> 0" using assms by (auto split: if_splits)
  show ?thesis
  proof (cases "f x y = 0 \<and> f y z = 0")
    case True
    then show ?thesis using assms a.cmp_eq_trans [of x y z] b.cmp_trans [of x y z] by simp
  next
    case False
    then have "f x z < 0"
      using le a.cmp_less_trans [of x y z] a.cmp_le_less_trans [of x y z] by linarith
    then show ?thesis by simp
  qed
qed

end

sublocale compare_tie \<subseteq> tie: compare_func "\<lambda>x y. if 0 = f x y then g x y else f x y"
  by unfold_locales (rule tie_swap, erule (1) tie_trans)

interpretation tags_cmp: compare_tie zbx_compare_tags "\<lambda>x y. strcmp (tvalue x) (tvalue y)"
  by unfold_locales (auto simp: zbx_compare_tags_def strcmp_swap intro: strcmp_trans)

interpretation tags_and_values_cmp: compare_func zbx_compare_tags_and_values
proof -
  have "zbx_compare_tags_and_values =
      (\<lambda>x y. if 0 = zbx_compare_tags x y then strcmp (tvalue x) (tvalue y) else zbx_compare_tags x y)"
    by (intro ext) (simp add: zbx_compare_tags_and_values_def zbx_compare_tags_def Let_def)
  then show "compare_func zbx_compare_tags_and_values"
    using tags_cmp.tie.compare_func_axioms by simp
qed

text \<open>The default comparison of doubles is not an ordering: it calls \<open>0\<close> and \<open>2e-16\<close> equal and
  \<open>2e-16\<close> and \<open>4e-16\<close> equal, but \<open>0\<close> less than \<open>4e-16\<close>, so it breaks the contract that
  \<open>qsort\<close>, \<open>bsearch\<close> and the binary heap rely on.\<close>

theorem dbl_compare_not_an_order: "\<not> compare_func zbx_default_dbl_compare_func"
proof
  assume "compare_func zbx_default_dbl_compare_func"
  then have eq_trans: "zbx_default_dbl_compare_func x y = 0 \<Longrightarrow> zbx_default_dbl_compare_func y z = 0 \<Longrightarrow>
     zbx_default_dbl_compare_func x z = 0" for x y z
    by (rule compare_func.cmp_eq_trans)
  show False
    using eq_trans [of 0 "2 / 10 ^ 16" "4 / 10 ^ 16"]
    by (simp add: zbx_default_dbl_compare_func_def zbx_double_compare_def ZBX_DOUBLE_EPSILON_def)
qed

subsection \<open>Primes\<close>

text \<open>The trial division loop of \<open>is_prime\<close>, over odd \<open>i\<close> from 3 while \<open>i * i \<le> n\<close>.\<close>

function is_prime_loop :: "nat \<Rightarrow> nat \<Rightarrow> bool" where
  "is_prime_loop n i =
     (if i * i \<le> n then if n mod i = 0 then False else is_prime_loop n (i + 2) else True)"
  by pat_completeness auto
termination
proof (relation "measure (\<lambda>(n, i). n + 2 - i)")
  fix n i :: nat
  assume "i * i \<le> n"
  moreover have "i \<le> i * i" by simp
  ultimately have "i \<le> n" by linarith
  then show "((n, i + 2), n, i) \<in> measure (\<lambda>(n, i). n + 2 - i)" by simp
qed simp

declare is_prime_loop.simps [simp del]

definition is_prime :: "nat \<Rightarrow> bool" where
  "is_prime n =
     (if n \<le> 1 then False else if n = 2 then True else if n mod 2 = 0 then False
      else is_prime_loop n 3)"

lemma is_prime_loop_iff:
  "odd i \<Longrightarrow> is_prime_loop n i \<longleftrightarrow> (\<forall>d. odd d \<longrightarrow> i \<le> d \<longrightarrow> d * d \<le> n \<longrightarrow> \<not> d dvd n)"
proof (induction n i rule: is_prime_loop.induct)
  case (1 n i)
  show ?case
  proof (cases "i * i \<le> n")
    case False
    have "\<not> d * d \<le> n" if "i \<le> d" for d
      using False mult_le_mono [OF that that] by linarith
    then show ?thesis using False by (subst is_prime_loop.simps) auto
  next
    case le: True
    show ?thesis
    proof (cases "n mod i = 0")
      case True
      then show ?thesis using le "1.prems" by (subst is_prime_loop.simps) (auto simp: dvd_eq_mod_eq_0)
    next
      case False
      have "is_prime_loop n i \<longleftrightarrow> (\<forall>d. odd d \<longrightarrow> i + 2 \<le> d \<longrightarrow> d * d \<le> n \<longrightarrow> \<not> d dvd n)"
        using le False "1.IH" [OF le False] "1.prems" by (subst is_prime_loop.simps) auto
      moreover have "i \<le> d \<longleftrightarrow> d = i \<or> i + 2 \<le> d" if "odd d" for d
        using that "1.prems" by presburger
      ultimately show ?thesis using False by (auto simp: dvd_eq_mod_eq_0)
    qed
  qed
qed

lemma small_divisor:
  fixes n :: nat
  assumes "d dvd n" "d \<noteq> 1" "d \<noteq> n" "1 < n"
  shows "\<exists>e. e dvd n \<and> 1 < e \<and> e * e \<le> n"
proof -
  obtain k where k: "n = d * k" using assms(1) by (rule dvdE)
  with assms have d: "1 < d" and k1: "1 < k" by (auto simp: nat_neq_iff)
  show ?thesis
  proof (cases "d \<le> k")
    case True
    then show ?thesis using k d assms(1) by (intro exI [of _ d]) auto
  next
    case False
    then show ?thesis using k k1 by (intro exI [of _ k]) auto
  qed
qed

lemma is_prime_odd_iff:
  assumes n: "2 < n" "odd n"
  shows "is_prime n \<longleftrightarrow> 1 < n \<and> (\<forall>d. d dvd n \<longrightarrow> d = 1 \<or> d = n)"
proof -
  have "is_prime n \<longleftrightarrow> (\<forall>d. odd d \<longrightarrow> 3 \<le> d \<longrightarrow> d * d \<le> n \<longrightarrow> \<not> d dvd n)"
    using n is_prime_loop_iff [of 3 n] by (simp add: is_prime_def odd_iff_mod_2_eq_one)
  also have "\<dots> \<longleftrightarrow> (\<forall>d. 1 < d \<longrightarrow> d * d \<le> n \<longrightarrow> \<not> d dvd n)"
  proof -
    have "odd d \<and> 3 \<le> d" if d: "d dvd n" "1 < d" for d
    proof -
      have "odd d" using n(2) d(1) dvd_trans [of 2 d n] by blast
      then show ?thesis using d(2) by presburger
    qed
    moreover have "3 \<le> d \<Longrightarrow> 1 < d" for d :: nat by simp
    ultimately show ?thesis by blast
  qed
  also have "\<dots> \<longleftrightarrow> (\<forall>d. d dvd n \<longrightarrow> d = 1 \<or> d = n)"
  proof
    assume *: "\<forall>d. 1 < d \<longrightarrow> d * d \<le> n \<longrightarrow> \<not> d dvd n"
    show "\<forall>d. d dvd n \<longrightarrow> d = 1 \<or> d = n"
    proof (intro allI impI, rule ccontr)
      fix d assume "d dvd n" "\<not> (d = 1 \<or> d = n)"
      then show False using small_divisor [of d n] * n by auto
    qed
  next
    assume *: "\<forall>d. d dvd n \<longrightarrow> d = 1 \<or> d = n"
    show "\<forall>d. 1 < d \<longrightarrow> d * d \<le> n \<longrightarrow> \<not> d dvd n"
    proof (intro allI impI notI)
      fix d assume "1 < d" "d * d \<le> n" "d dvd n"
      then have "d = n" using * by auto
      then have "n * n \<le> n" using \<open>d * d \<le> n\<close> by simp
      then show False using n by (simp add: mult_le_cancel2)
    qed
  qed
  finally show ?thesis using n by simp
qed

lemma is_prime_iff: "is_prime n \<longleftrightarrow> 1 < n \<and> (\<forall>d. d dvd n \<longrightarrow> d = 1 \<or> d = n)"
proof -
  consider "n \<le> 1" | "n = 2" | "2 < n" "even n" | "2 < n" "odd n" by linarith
  then show ?thesis
  proof cases
    case 1
    then show ?thesis by (simp add: is_prime_def)
  next
    case 2
    have "d = 1 \<or> d = 2" if "d dvd 2" for d :: nat
    proof -
      have "d \<le> 2" using dvd_imp_le [OF that] by simp
      moreover have "d \<noteq> 0" using that by (cases "d = 0") auto
      ultimately show ?thesis by linarith
    qed
    then show ?thesis using 2 by (simp add: is_prime_def)
  next
    case 3
    then have "\<not> (\<forall>d. d dvd n \<longrightarrow> d = 1 \<or> d = n)" by (auto intro!: exI [of _ 2])
    then show ?thesis using 3 by (simp add: is_prime_def)
  next
    case 4
    then show ?thesis by (rule is_prime_odd_iff)
  qed
qed

text \<open>There is a prime above every number, so the search of \<open>next_prime\<close> ends.\<close>

lemma exists_prime_divisor: "1 < n \<Longrightarrow> \<exists>p. is_prime p \<and> p dvd n"
proof (induction n rule: less_induct)
  case (less n)
  show ?case
  proof (cases "is_prime n")
    case False
    then obtain d where d: "d dvd n" "d \<noteq> 1" "d \<noteq> n" using less.prems by (auto simp: is_prime_iff)
    then have "d < n" "1 < d" using less.prems dvd_imp_le [of d n] by (auto simp: nat_neq_iff)
    then obtain p where "is_prime p" "p dvd d" using less.IH by blast
    then show ?thesis using d(1) dvd_trans by blast
  qed auto
qed

lemma exists_prime_above: "\<exists>p. n \<le> p \<and> is_prime p"
proof -
  have "1 < fact n + (1::nat)" by (simp add: fact_gt_zero)
  then obtain p where p: "is_prime p" "p dvd fact n + 1" using exists_prime_divisor by blast
  have "n \<le> p"
  proof (rule ccontr)
    assume "\<not> n \<le> p"
    then have "p dvd fact n" using p(1) by (intro dvd_fact) (auto simp: is_prime_iff)
    with p(2) have "p dvd 1" using dvd_add_right_iff [of p "fact n" 1] by blast
    then show False using p(1) by (simp add: is_prime_iff)
  qed
  with p(1) show ?thesis by blast
qed

function next_prime :: "nat \<Rightarrow> nat" where
  "next_prime n = (if is_prime n then n else next_prime (n + 1))"
  by pat_completeness auto
termination
proof (relation "measure (\<lambda>n. (LEAST p. n \<le> p \<and> is_prime p) - n)")
  fix n assume n: "\<not> is_prime n"
  define p where "p = (LEAST p. n \<le> p \<and> is_prime p)"
  have p: "n \<le> p \<and> is_prime p"
    unfolding p_def by (rule LeastI_ex) (rule exists_prime_above)
  then have lt: "n < p" using n by (cases "n = p") auto
  have "(LEAST p. n + 1 \<le> p \<and> is_prime p) \<le> p"
    using p lt by (intro Least_le) simp
  then show "(n + 1, n) \<in> measure (\<lambda>n. (LEAST p. n \<le> p \<and> is_prime p) - n)"
    using lt by (simp add: p_def [symmetric])
qed simp

declare next_prime.simps [simp del]

lemma next_prime_correct_parts:
  "is_prime n \<longleftrightarrow> 1 < n \<and> (\<forall>d. d dvd n \<longrightarrow> d = 1 \<or> d = n)"
  "is_prime (next_prime n) \<and> next_prime n = (LEAST p. n \<le> p \<and> is_prime p)"
proof -
  show "is_prime n \<longleftrightarrow> 1 < n \<and> (\<forall>d. d dvd n \<longrightarrow> d = 1 \<or> d = n)" by (rule is_prime_iff)
  show "is_prime (next_prime n) \<and> next_prime n = (LEAST p. n \<le> p \<and> is_prime p)"
  proof (induction n rule: next_prime.induct)
    case (1 n)
    show ?case
    proof (cases "is_prime n")
      case True
      then have "next_prime n = n" by (subst next_prime.simps) simp
      then show ?thesis using True by (auto intro!: Least_equality [symmetric])
    next
      case False
      have "n \<le> p \<and> is_prime p \<longleftrightarrow> n + 1 \<le> p \<and> is_prime p" for p
        using False by (cases "n = p") auto
      then have "(LEAST p. n \<le> p \<and> is_prime p) = (LEAST p. n + 1 \<le> p \<and> is_prime p)" by presburger
      moreover have "next_prime n = next_prime (n + 1)" using False by (subst next_prime.simps) simp
      ultimately show ?thesis using "1.IH" [OF False] by metis
    qed
  qed
qed

text \<open>\<open>next_prime\<close> terminates on every input and returns the least prime not below it; the
  primality test it relies on is exact.\<close>

theorem next_prime_correct:
  "(is_prime n \<longleftrightarrow> 1 < n \<and> {d. d dvd n} = {1, n}) \<and>
      (is_prime (next_prime n) \<and> next_prime n = (LEAST p. n \<le> p \<and> is_prime p))"
  using next_prime_correct_parts [of n] by auto

lemma next_prime_step: "next_prime n = (if is_prime n then n else next_prime (n + 1))"
  by (rule next_prime.simps)

lemma next_prime_props: "is_prime (next_prime n) \<and> n \<le> next_prime n"
proof (induction n rule: next_prime.induct)
  case (1 n)
  then show ?case by (cases "is_prime n") (auto simp: next_prime_step [of n])
qed

lemma next_prime_pos [simp]: "0 < next_prime n" "next_prime n \<noteq> 0"
  using next_prime_props [of n] by (auto simp: is_prime_def split: if_splits)

lemma next_prime_gt: "\<not> is_prime n \<Longrightarrow> n < next_prime n"
  using next_prime_props [of n] by (cases "next_prime n = n") auto

subsection \<open>Integer square root\<close>

text \<open>One iteration of the digit-by-digit loop: the variables are \<open>value\<close>, \<open>remainder\<close>, \<open>result\<close>.\<close>

definition isqrt32_step :: "u32 \<times> u32 \<times> u32 \<Rightarrow> u32 \<times> u32 \<times> u32" where
  "isqrt32_step = (\<lambda>(val, remainder, result).
     let result = push_bit 1 result;
         remainder = push_bit 2 remainder + drop_bit 30 val;
         val = push_bit 2 val;
         p = push_bit 1 result OR 1
     in if p \<le> remainder then (val, remainder - p, result OR 1) else (val, remainder, result))"

definition zbx_isqrt32 :: "u32 \<Rightarrow> u32" where
  "zbx_isqrt32 val = (case (isqrt32_step ^^ 16) (val, 0, 0) of (_, _, result) \<Rightarrow> result)"

text \<open>The step on unbounded numbers, \<open>d\<close> the next base-4 digit.\<close>

definition isqrt_digit :: "nat \<Rightarrow> nat \<times> nat \<Rightarrow> nat \<times> nat" where
  "isqrt_digit d = (\<lambda>(q, r). if 4 * r + 1 \<le> 4 * q + d then (4 * q + d - (4 * r + 1), 2 * r + 1)
     else (4 * q + d, 2 * r))"

lemma isqrt_digit_inv:
  assumes "q \<le> 2 * r" "d < 4" "isqrt_digit d (q, r) = (q', r')"
  shows "r' * r' + q' = 4 * (r * r + q) + d \<and> q' \<le> 2 * r' \<and> r' \<le> 2 * r + 1"
  using assms by (auto simp: isqrt_digit_def algebra_simps split: if_splits)

lemma isqrt32_step_nat:
  assumes r: "unat result < 2 ^ 15" and q: "unat remainder \<le> 2 * unat result"
  shows "\<exists>remainder' result'. isqrt32_step (val, remainder, result) = (push_bit 2 val, remainder', result') \<and>
     isqrt_digit (unat (drop_bit 30 val)) (unat remainder, unat result) = (unat remainder', unat result')"
proof -
  define d where "d = drop_bit 30 val"
  define r1 p q1 where "r1 = push_bit 1 result" and "p = push_bit 1 r1 OR 1" and "q1 = push_bit 2 remainder + d"
  have "unat val < 2 ^ 32" using unsigned_less [of val] by simp
  then have d: "unat d < 4" by (simp only: d_def unat_drop_bit) simp
  have r1: "unat r1 = 2 * unat result"
    using r by (simp only: r1_def unat_push_bit) simp
  have p: "unat p = 4 * unat result + 1"
    using r r1 unat_or_1 [of "push_bit 1 r1"] by (simp only: p_def unat_push_bit) simp
  have r1o: "unat (r1 OR 1) = 2 * unat result + 1"
    using r1 by (subst unat_or_1) simp_all
  have "unat (push_bit 2 remainder) = 4 * unat remainder"
    using q r by (simp only: unat_push_bit) simp
  then have q1: "unat q1 = 4 * unat remainder + unat d"
    using q r d unfolding q1_def by (subst unat_plus_if') auto
  have le: "p \<le> q1 \<longleftrightarrow> 4 * unat result + 1 \<le> 4 * unat remainder + unat d"
    by (simp add: word_le_nat_alt p q1)
  show ?thesis
    unfolding isqrt32_step_def Let_def prod.case d_def [symmetric] r1_def [symmetric] p_def [symmetric]
      q1_def [symmetric]
    using le by (simp add: isqrt_digit_def unat_sub r1 r1o p q1)
qed

text \<open>After \<open>i\<close> iterations the first \<open>i\<close> base-4 digits have been consumed.\<close>

definition isqrt_state :: "u32 \<Rightarrow> nat \<Rightarrow> u32 \<times> u32 \<times> u32 \<Rightarrow> bool" where
  "isqrt_state val i = (\<lambda>(v, q, r). \<exists>w. unat val = (unat r * unat r + unat q) * 4 ^ (16 - i) + w \<and>
     w < 4 ^ (16 - i) \<and> unat v = w * 4 ^ i \<and> unat q \<le> 2 * unat r \<and> unat r < 2 ^ i)"

lemma isqrt_state_step:
  assumes s: "isqrt_state val i st" and i: "i < 16"
  shows "isqrt_state val (Suc i) (isqrt32_step st)"
proof -
  obtain v q r where st: "st = (v, q, r)" by (metis prod_cases3)
  from s obtain w where w: "unat val = (unat r * unat r + unat q) * 4 ^ (16 - i) + w"
      "w < 4 ^ (16 - i)" "unat v = w * 4 ^ i" "unat q \<le> 2 * unat r" "unat r < 2 ^ i"
    by (auto simp: isqrt_state_def st)
  define j where "j = 15 - i"
  have j: "16 - i = Suc j" "i + j = 15" using i by (simp_all add: j_def)
  have "(2::nat) ^ i \<le> 2 ^ 15" using j(2) by (intro power_increasing) auto
  then have r15: "unat r < 2 ^ 15" using w(5) by linarith
  have four: "(2::nat) ^ 30 = 4 ^ j * 4 ^ i"
  proof -
    have "(4::nat) ^ j * 4 ^ i = 4 ^ 15" by (simp only: power_add [symmetric] j(2) add.commute [of j])
    then show ?thesis by simp
  qed
  have d: "unat (drop_bit 30 v) = w div 4 ^ j"
    by (simp only: unat_drop_bit four w(3)) simp
  have dlt: "w div 4 ^ j < 4"
    using w(2) by (simp add: j(1) less_mult_imp_div_less)
  have "unat (push_bit 2 v) = w * 4 ^ i * 4 mod (4 ^ j * 4 ^ i * 4)"
    by (simp only: unat_push_bit w(3) four [symmetric]) simp
  also have "\<dots> = (w mod 4 ^ j) * 4 ^ i * 4"
    by (simp only: mult_mod_left)
  finally have v2: "unat (push_bit 2 v) = (w mod 4 ^ j) * 4 ^ Suc i" by simp
  obtain q' r' where e': "isqrt32_step (v, q, r) = (push_bit 2 v, q', r')"
      "isqrt_digit (w div 4 ^ j) (unat q, unat r) = (unat q', unat r')"
    using isqrt32_step_nat [OF r15 w(4), of v] d by auto
  note dig = isqrt_digit_inv [OF w(4) dlt e'(2)]
  have "w = w div 4 ^ j * 4 ^ j + w mod 4 ^ j" by (simp only: div_mult_mod_eq)
  then have "unat val = (unat r' * unat r' + unat q') * 4 ^ j + w mod 4 ^ j"
    using w(1) dig by (simp add: j(1) algebra_simps)
  moreover have "unat r' < 2 ^ Suc i" using dig w(5) by simp
  moreover have "w mod 4 ^ j < 4 ^ (16 - Suc i)" by (simp add: j_def)
  ultimately show ?thesis
    using dig v2 j(1) unfolding isqrt_state_def st e'(1) by (auto intro!: exI [of _ "w mod 4 ^ j"])
qed

lemma isqrt_state_loop: "i \<le> 16 \<Longrightarrow> isqrt_state val i ((isqrt32_step ^^ i) (val, 0, 0))"
proof (induction i)
  case 0
  have "unat val < 2 ^ 32" using unsigned_less [of val] by simp
  then show ?case by (simp add: isqrt_state_def)
next
  case (Suc i)
  then show ?case using isqrt_state_step [of val i] by simp
qed

text \<open>The 32-bit integer square root is exact on every input: no step overflows and the result
  is the largest number whose square does not exceed the value.\<close>

theorem isqrt32_correct:
  "(unat (zbx_isqrt32 val))\<^sup>2 \<le> unat val \<and> unat val < (unat (zbx_isqrt32 val) + 1)\<^sup>2"
proof -
  obtain v q r where e: "(isqrt32_step ^^ 16) (val, 0, 0) = (v, q, r)" by (metis prod_cases3)
  have "isqrt_state val 16 (v, q, r)" using isqrt_state_loop [of 16 val] unfolding e by simp
  then have "unat val = unat r * unat r + unat q \<and> unat q \<le> 2 * unat r"
    by (simp add: isqrt_state_def)
  moreover have "zbx_isqrt32 val = r" unfolding zbx_isqrt32_def e by simp
  ultimately show ?thesis by (simp add: power2_eq_square)
qed

end
