(* ===== verification/Hashmap.thy ===== *)
theory Hashmap
  imports Buckets Algo_Defs
begin

text \<open>
  The hash map from 64-bit keys to \<open>int\<close> of \<open>src/src/libs/zbxalgo/hashmap.c\<close>. A slot keeps the
  live prefix of its entry array and the allocated size (0 for a null array); the allocator is the
  default one, which does not return on failure. Sizes are unbounded, so the overflow of \<open>int\<close> in
  \<open>num_slots * 5\<close> is out of the model. The locale \<open>index_map\<close> is what the binary heap expects of
  its key index; the map is interpreted as one at the end.
\<close>

subsection \<open>State\<close>

record hashmap_entry =
  ekey :: u64
  evalue :: int

record hashmap_slot =
  entries :: "hashmap_entry list"
  entries_alloc :: nat

record hashmap =
  slots :: "hashmap_slot list"
  num_slots :: nat
  num_data :: nat
  hm_hash_func :: "u64 \<Rightarrow> u32"
  hm_compare_func :: "u64 \<Rightarrow> u64 \<Rightarrow> int"

definition empty_slot :: hashmap_slot where
  "empty_slot = \<lparr>entries = [], entries_alloc = 0\<rparr>"

subsection \<open>Operations\<close>

definition hashmap_ensure_free_entry :: "hashmap_slot \<Rightarrow> hashmap_slot" where
  "hashmap_ensure_free_entry slot =
     (if entries_alloc slot = 0 then slot\<lparr>entries := [], entries_alloc := 6\<rparr>
      else if length (entries slot) = entries_alloc slot
      then slot\<lparr>entries_alloc := entries_alloc slot * 2\<rparr> else slot)"

definition zbx_hashmap_init_slots :: "hashmap \<Rightarrow> nat \<Rightarrow> hashmap" where
  "zbx_hashmap_init_slots hm init_size =
     (let hm = hm\<lparr>num_data := 0\<rparr> in
      if 0 < init_size
      then let n = next_prime init_size in hm\<lparr>num_slots := n, slots := replicate n empty_slot\<rparr>
      else hm\<lparr>num_slots := 0, slots := []\<rparr>)"

definition zbx_hashmap_create_ext :: "nat \<Rightarrow> (u64 \<Rightarrow> u32) \<Rightarrow> (u64 \<Rightarrow> u64 \<Rightarrow> int) \<Rightarrow> hashmap" where
  "zbx_hashmap_create_ext init_size hash cmp =
     zbx_hashmap_init_slots
       \<lparr>slots = [], num_slots = 0, num_data = 0, hm_hash_func = hash, hm_compare_func = cmp\<rparr> init_size"

definition zbx_hashmap_create :: "nat \<Rightarrow> hashmap" where
  "zbx_hashmap_create init_size =
     zbx_hashmap_create_ext init_size zbx_hash_splittable64 zbx_default_uint64_compare_func"

text \<open>The callbacks are cleared as well; no operation may follow.\<close>

definition zbx_hashmap_destroy :: "hashmap \<Rightarrow> hashmap" where
  "zbx_hashmap_destroy hm = hm\<lparr>num_data := 0, num_slots := 0, slots := []\<rparr>"

text \<open>The scan of a slot: the index it stops at, \<open>entries_num\<close> when no key compares equal.\<close>

fun entry_index :: "(u64 \<Rightarrow> u64 \<Rightarrow> int) \<Rightarrow> hashmap_entry list \<Rightarrow> u64 \<Rightarrow> nat" where
  "entry_index cmp [] key = 0"
| "entry_index cmp (e # es) key = (if 0 = cmp (ekey e) key then 0 else Suc (entry_index cmp es key))"

definition slot_index :: "hashmap \<Rightarrow> u64 \<Rightarrow> nat" where
  "slot_index hm key = unat (hm_hash_func hm key) mod num_slots hm"

definition zbx_hashmap_get :: "hashmap \<Rightarrow> u64 \<Rightarrow> int" where
  "zbx_hashmap_get hm key =
     (if num_slots hm = 0 then FAIL_value
      else let es = entries (slots hm ! slot_index hm key);
               i = entry_index (hm_compare_func hm) es key
           in if i < length es then evalue (es ! i) else FAIL_value)"

text \<open>
  The inner loop of the rehash: an entry of slot \<open>s\<close> that belongs elsewhere is appended there and
  the last entry of \<open>s\<close> takes its place, to be looked at next.
\<close>

function rehash_slot :: "(u64 \<Rightarrow> u32) \<Rightarrow> nat \<Rightarrow> nat \<Rightarrow> nat \<Rightarrow> hashmap_slot list \<Rightarrow> hashmap_slot list" where
  "rehash_slot hash inc_slots s i sl =
     (if s < length sl \<and> i < length (entries (sl ! s)) then
        let e = entries (sl ! s) ! i;
            n = unat (hash (ekey e)) mod inc_slots
        in if s \<noteq> n then
             let new_slot = hashmap_ensure_free_entry (sl ! n);
                 sl = sl[n := new_slot\<lparr>entries := entries new_slot @ [e]\<rparr>];
                 sl = sl[s := (sl ! s)\<lparr>entries := swap_remove i (entries (sl ! s))\<rparr>]
             in rehash_slot hash inc_slots s i sl
           else rehash_slot hash inc_slots s (i + 1) sl
      else sl)"
  by pat_completeness auto
termination
  by (relation "measure (\<lambda>(hash, inc_slots, s, i, sl). length (entries (sl ! s)) - i)") auto

declare rehash_slot.simps [simp del]

definition hashmap_rehash :: "hashmap \<Rightarrow> nat \<Rightarrow> hashmap" where
  "hashmap_rehash hm inc_slots =
     (let sl = slots hm @ replicate (inc_slots - num_slots hm) empty_slot;
          sl = fold (\<lambda>s. rehash_slot (hm_hash_func hm) inc_slots s 0) [0..<num_slots hm] sl
      in hm\<lparr>slots := sl, num_slots := inc_slots\<rparr>)"

definition zbx_hashmap_set :: "hashmap \<Rightarrow> u64 \<Rightarrow> int \<Rightarrow> hashmap" where
  "zbx_hashmap_set hm key v =
     (let hm = (if num_slots hm = 0 then zbx_hashmap_init_slots hm 10 else hm);
          t = slot_index hm key;
          slot = slots hm ! t;
          i = entry_index (hm_compare_func hm) (entries slot) key
      in if i < length (entries slot)
         then hm\<lparr>slots := (slots hm)[t := slot\<lparr>entries := (entries slot)[i := (entries slot ! i)\<lparr>evalue := v\<rparr>]\<rparr>]\<rparr>
         else
           let slot = hashmap_ensure_free_entry slot;
               slot = slot\<lparr>entries := entries slot @ [\<lparr>ekey = key, evalue = v\<rparr>]\<rparr>;
               hm = hm\<lparr>slots := (slots hm)[t := slot], num_data := num_data hm + 1\<rparr>
           in if num_slots hm * 5 \<le> num_data hm
              then hashmap_rehash hm (next_prime (num_slots hm * 3 div 2))
              else hm)"

definition zbx_hashmap_remove :: "hashmap \<Rightarrow> u64 \<Rightarrow> hashmap" where
  "zbx_hashmap_remove hm key =
     (if num_slots hm = 0 then hm
      else let t = slot_index hm key;
               slot = slots hm ! t;
               i = entry_index (hm_compare_func hm) (entries slot) key
           in if i < length (entries slot)
              then hm\<lparr>slots := (slots hm)[t := slot\<lparr>entries := swap_remove i (entries slot)\<rparr>],
                     num_data := num_data hm - 1\<rparr>
              else hm)"

definition zbx_hashmap_clear :: "hashmap \<Rightarrow> hashmap" where
  "zbx_hashmap_clear hm =
     hm\<lparr>slots := map (\<lambda>sl. sl\<lparr>entries := []\<rparr>) (slots hm), num_data := 0\<rparr>"

subsection \<open>Representation invariant and contents\<close>

definition slot_ok :: "hashmap_slot \<Rightarrow> bool" where
  "slot_ok sl \<longleftrightarrow> length (entries sl) \<le> entries_alloc sl"

definition hm_entries :: "hashmap \<Rightarrow> hashmap_entry list" where
  "hm_entries hm = concat (map entries (slots hm))"

definition ehash :: "(u64 \<Rightarrow> u32) \<Rightarrow> hashmap_entry \<Rightarrow> nat" where
  "ehash hash e = unat (hash (ekey e))"

definition hm_inv :: "hashmap \<Rightarrow> bool" where
  "hm_inv hm \<longleftrightarrow>
     (\<forall>x y. hm_compare_func hm x y = 0 \<longleftrightarrow> x = y) \<and>
     length (slots hm) = num_slots hm \<and>
     (\<forall>sl \<in> set (slots hm). slot_ok sl) \<and>
     placed (ehash (hm_hash_func hm)) (map entries (slots hm)) \<and>
     distinct (map ekey (hm_entries hm)) \<and>
     num_data hm = length (hm_entries hm) \<and>
     (num_slots hm \<noteq> 0 \<longrightarrow> 2 \<le> num_slots hm \<and> num_data hm < num_slots hm * 5)"

text \<open>The finite map the structure stands for.\<close>

definition entry_pairs :: "hashmap_entry list \<Rightarrow> (u64 \<times> int) list" where
  "entry_pairs es = map (\<lambda>e. (ekey e, evalue e)) es"

definition hm_map :: "hashmap \<Rightarrow> u64 \<Rightarrow> int option" where
  "hm_map hm = map_of (entry_pairs (hm_entries hm))"

lemma slot_ok_ensure [simp]:
  "slot_ok sl \<Longrightarrow> entries (hashmap_ensure_free_entry sl) = entries sl"
  "slot_ok sl \<Longrightarrow> slot_ok ((hashmap_ensure_free_entry sl)\<lparr>entries := entries sl @ [e]\<rparr>)"
  by (auto simp: slot_ok_def hashmap_ensure_free_entry_def)

lemma slot_ok_shrink: "slot_ok sl \<Longrightarrow> length es \<le> length (entries sl) \<Longrightarrow> slot_ok (sl\<lparr>entries := es\<rparr>)"
  by (simp add: slot_ok_def)

lemma slot_ok_empty [simp]: "slot_ok empty_slot" "entries empty_slot = []"
  by (simp_all add: slot_ok_def empty_slot_def)

lemma entry_index_le: "entry_index cmp es key \<le> length es"
  by (induction es) auto

lemma entry_index_found:
  "entry_index cmp es key < length es \<Longrightarrow> 0 = cmp (ekey (es ! entry_index cmp es key)) key"
  by (induction es) (auto split: if_splits)

lemma entry_index_missing:
  "\<not> entry_index cmp es key < length es \<Longrightarrow> e \<in> set es \<Longrightarrow> 0 \<noteq> cmp (ekey e) key"
  by (induction es) (auto split: if_splits)

lemma map_of_entry_pairs_iff:
  assumes "distinct (map ekey es)"
  shows "map_of (entry_pairs es) k = Some v \<longleftrightarrow> (\<exists>e \<in> set es. ekey e = k \<and> evalue e = v)"
proof -
  have "distinct (map fst (entry_pairs es))" using assms by (simp add: entry_pairs_def comp_def)
  then show ?thesis by (auto simp: entry_pairs_def)
qed

lemma map_of_entry_pairs_None: "map_of (entry_pairs es) k = None \<longleftrightarrow> (\<forall>e \<in> set es. ekey e \<noteq> k)"
  by (auto simp: entry_pairs_def map_of_eq_None_iff image_image)

lemma distinct_keys_mset:
  "mset es = mset es' \<Longrightarrow> distinct (map ekey es) \<longleftrightarrow> distinct (map ekey es')"
  by (metis mset_eq_imp_distinct_iff mset_map)

lemma map_of_entry_pairs_mset:
  assumes "mset es = mset es'" "distinct (map ekey es)"
  shows "map_of (entry_pairs es) = map_of (entry_pairs es')"
proof
  fix k
  have d: "distinct (map ekey es')" using assms distinct_keys_mset by blast
  have "map_of (entry_pairs es) k = Some v \<longleftrightarrow> map_of (entry_pairs es') k = Some v" for v
    using map_of_entry_pairs_iff [OF assms(2)] map_of_entry_pairs_iff [OF d]
      mset_eq_setD [OF assms(1)] by simp
  then show "map_of (entry_pairs es) k = map_of (entry_pairs es') k"
    by (metis not_None_eq)
qed

text \<open>One added, replaced or removed entry changes the map at its key only.\<close>

lemma map_of_entry_pairs_add:
  assumes "mset es' = mset es + {#e#}" "distinct (map ekey es')"
  shows "map_of (entry_pairs es') = (map_of (entry_pairs es))(ekey e \<mapsto> evalue e)"
proof -
  have "mset es' = mset (e # es)" using assms(1) by simp
  from map_of_entry_pairs_mset [OF this assms(2)] show ?thesis
    by (simp add: entry_pairs_def)
qed

lemma map_of_entry_pairs_del:
  assumes "mset es = mset es' + {#e#}" "distinct (map ekey es)"
  shows "map_of (entry_pairs es') = (map_of (entry_pairs es))(ekey e := None)"
proof -
  have eq: "mset es = mset (e # es')" using assms(1) by simp
  then have "distinct (map ekey (e # es'))" using assms(2) distinct_keys_mset by blast
  then have "map_of (entry_pairs es') (ekey e) = None"
    by (simp add: map_of_entry_pairs_None) (metis imageI)
  moreover have "map_of (entry_pairs es) = (map_of (entry_pairs es'))(ekey e \<mapsto> evalue e)"
    using map_of_entry_pairs_add [OF assms] by simp
  ultimately show ?thesis by auto
qed

subsection \<open>The rehash loop\<close>

text \<open>
  When the loop is at entry \<open>i\<close> of slot \<open>s\<close>, the slots before \<open>s\<close>, the slots added at \<open>m\<close> and
  above, and the first \<open>i\<close> entries of \<open>s\<close> are placed for the new size.
\<close>

definition settled :: "(u64 \<Rightarrow> u32) \<Rightarrow> nat \<Rightarrow> nat \<Rightarrow> nat \<Rightarrow> nat \<Rightarrow> hashmap_slot list \<Rightarrow> bool" where
  "settled hash inc m s i sl \<longleftrightarrow>
     (\<forall>t < length sl. t < s \<or> m \<le> t \<longrightarrow> (\<forall>e \<in> set (entries (sl ! t)). ehash hash e mod inc = t)) \<and>
     (s < length sl \<longrightarrow> (\<forall>e \<in> set (take i (entries (sl ! s))). ehash hash e mod inc = s))"

text \<open>The slots after one entry has moved from \<open>s\<close> to \<open>n\<close>.\<close>

definition move_entry :: "nat \<Rightarrow> nat \<Rightarrow> nat \<Rightarrow> hashmap_slot list \<Rightarrow> hashmap_slot list" where
  "move_entry s i n sl =
     (let e = entries (sl ! s) ! i;
          new_slot = hashmap_ensure_free_entry (sl ! n);
          sl = sl[n := new_slot\<lparr>entries := entries new_slot @ [e]\<rparr>]
      in sl[s := (sl ! s)\<lparr>entries := swap_remove i (entries (sl ! s))\<rparr>])"

lemma rehash_slot_unfold:
  "rehash_slot hash inc s i sl =
     (if s < length sl \<and> i < length (entries (sl ! s)) then
        (let n = ehash hash (entries (sl ! s) ! i) mod inc
         in if s \<noteq> n then rehash_slot hash inc s i (move_entry s i n sl)
            else rehash_slot hash inc s (i + 1) sl)
      else sl)"
  by (subst rehash_slot.simps) (simp add: Let_def move_entry_def ehash_def)

lemma move_entry:
  assumes ok: "\<forall>x \<in> set sl. slot_ok x" and s: "s < length sl" "i < length (entries (sl ! s))"
    and n: "n < length sl" "n \<noteq> s"
  shows "length (move_entry s i n sl) = length sl"
    and "map entries (move_entry s i n sl) =
       (map entries sl)[n := entries (sl ! n) @ [entries (sl ! s) ! i], s := swap_remove i (entries (sl ! s))]"
    and "\<forall>x \<in> set (move_entry s i n sl). slot_ok x"
    and "mset (concat (map entries (move_entry s i n sl))) = mset (concat (map entries sl))"
proof -
  have okn: "slot_ok (sl ! n)" "slot_ok (sl ! s)" using ok s n by auto
  show "length (move_entry s i n sl) = length sl" by (simp add: move_entry_def Let_def)
  show map: "map entries (move_entry s i n sl) =
       (map entries sl)[n := entries (sl ! n) @ [entries (sl ! s) ! i], s := swap_remove i (entries (sl ! s))]"
    using okn n(2) by (simp add: move_entry_def Let_def map_update)
  have "slot_ok ((sl ! s)\<lparr>entries := swap_remove i (entries (sl ! s))\<rparr>)"
    using okn(2) by (rule slot_ok_shrink) simp
  moreover have "sl[n := x] ! s = sl ! s" for x using n(2) by simp
  ultimately show "\<forall>x \<in> set (move_entry s i n sl). slot_ok x"
    using okn unfolding move_entry_def Let_def
    by (intro ball_set_update) (simp_all add: ok)
  define bs where "bs = map entries sl"
  have b: "bs ! s = entries (sl ! s)" "bs ! n = entries (sl ! n)" "s < length bs" "n < length bs"
    using s n by (simp_all add: bs_def)
  define bs1 where "bs1 = bs[n := bs ! n @ [bs ! s ! i]]"
  have m1: "mset (concat bs1) = mset (concat bs) + {#bs ! s ! i#}"
    unfolding bs1_def using b by (intro mset_concat_add) auto
  have s1: "bs1 ! s = bs ! s" "s < length bs1" using n(2) b by (simp_all add: bs1_def)
  have "mset (concat (bs1[s := swap_remove i (bs ! s)])) + {#bs ! s ! i#} = mset (concat bs1)"
    using s s1 b by (intro mset_concat_sub) (auto simp: mset_swap_remove)
  then show "mset (concat (map entries (move_entry s i n sl))) = mset (concat (map entries sl))"
    using m1 b by (simp add: map bs_def [symmetric] bs1_def)
qed

lemma move_entry_settled:
  assumes ok: "\<forall>x \<in> set sl. slot_ok x" and s: "s < length sl" "i < length (entries (sl ! s))" "s < m"
    and n: "n < length sl" "n \<noteq> s" "n = ehash hash (entries (sl ! s) ! i) mod inc"
    and st: "settled hash inc m s i sl"
  shows "settled hash inc m s i (move_entry s i n sl)"
proof -
  let ?sl = "move_entry s i n sl"
  note mv = move_entry [OF ok s(1,2) n(1,2)]
  have nth: "entries (?sl ! u) = map entries ?sl ! u" if "u < length sl" for u
    using that mv(1) by simp
  have es: "entries (?sl ! s) = swap_remove i (entries (sl ! s))"
    using s(1) n(1,2) mv(1) by (subst nth) (simp_all add: mv(2))
  have en: "entries (?sl ! n) = entries (sl ! n) @ [entries (sl ! s) ! i]"
    using s(1) n(1,2) mv(1) by (subst nth) (simp_all add: mv(2))
  have et: "entries (?sl ! t) = entries (sl ! t)" if "t < length sl" "t \<noteq> n" "t \<noteq> s" for t
    using that mv(1) by (subst nth) (simp_all add: mv(2))
  have "ehash hash e mod inc = t"
    if t: "t < length sl" "t < s \<or> m \<le> t" and e: "e \<in> set (entries (?sl ! t))" for t e
  proof (cases "t = n")
    case True
    then have "e \<in> set (entries (sl ! t)) \<or> e = entries (sl ! s) ! i" using e en by auto
    then show ?thesis using st t n(3) True unfolding settled_def by blast
  next
    case False
    then have "e \<in> set (entries (sl ! t))" using e et [of t] t s(3) by auto
    then show ?thesis using st t unfolding settled_def by blast
  qed
  moreover have "ehash hash e mod inc = s" if "e \<in> set (take i (entries (?sl ! s)))" for e
  proof -
    have "e \<in> set (take i (entries (sl ! s)))" using that s by (simp add: es swap_remove_drop)
    then show ?thesis using st s(1) unfolding settled_def by blast
  qed
  ultimately show ?thesis unfolding settled_def mv(1) by blast
qed

lemma rehash_slot_correct:
  "\<lbrakk>\<forall>x \<in> set sl. slot_ok x; s < length sl; s < m; inc = length sl; settled hash inc m s i sl\<rbrakk> \<Longrightarrow>
   length (rehash_slot hash inc s i sl) = length sl \<and>
   (\<forall>x \<in> set (rehash_slot hash inc s i sl). slot_ok x) \<and>
   mset (concat (map entries (rehash_slot hash inc s i sl))) = mset (concat (map entries sl)) \<and>
   settled hash inc m (Suc s) 0 (rehash_slot hash inc s i sl)"
proof (induction "length (entries (sl ! s)) - i" arbitrary: i sl rule: less_induct)
  case less
  let ?e = "entries (sl ! s) ! i" and ?n = "ehash hash (entries (sl ! s) ! i) mod inc"
  show ?case
  proof (cases "i < length (entries (sl ! s))")
    case False
    then have "settled hash inc m (Suc s) 0 sl"
      using less.prems by (auto simp: settled_def less_Suc_eq)
    then show ?thesis using False less.prems by (simp add: rehash_slot_unfold)
  next
    case i: True
    have n: "?n < length sl" using less.prems(2) by (simp only: less.prems(4)) (rule mod_less_divisor, linarith)
    show ?thesis
    proof (cases "?n = s")
      case True
      then have "settled hash inc m s (Suc i) sl"
        using less.prems(5) i unfolding settled_def by (simp add: take_Suc_conv_app_nth)
      moreover have "rehash_slot hash inc s i sl = rehash_slot hash inc s (Suc i) sl"
        using less.prems(2) i True by (subst rehash_slot_unfold) (simp add: Let_def)
      moreover have "length (entries (sl ! s)) - Suc i < length (entries (sl ! s)) - i" using i by simp
      ultimately show ?thesis using less.hyps [of sl "Suc i"] less.prems(1-4) by simp
    next
      case False
      note mv = move_entry [OF less.prems(1,2) i n False]
      have "settled hash inc m s i (move_entry s i ?n sl)"
        using move_entry_settled [OF less.prems(1,2) i less.prems(3) n False refl less.prems(5)] .
      moreover have "entries (move_entry s i ?n sl ! s) = swap_remove i (entries (sl ! s))"
        using less.prems(2) False by (simp add: move_entry_def Let_def)
      moreover have "rehash_slot hash inc s i sl = rehash_slot hash inc s i (move_entry s i ?n sl)"
        using less.prems(2) i False by (subst rehash_slot_unfold) (simp only: Let_def if_True simp_thms not_sym)
      moreover have "length (swap_remove i (entries (sl ! s))) - i < length (entries (sl ! s)) - i"
        using i by simp
      ultimately show ?thesis
        using less.hyps [of "move_entry s i ?n sl" i] mv less.prems(2-4) by metis
    qed
  qed
qed

lemma rehash_slots_correct:
  "\<lbrakk>\<forall>x \<in> set sl. slot_ok x; k \<le> m; m \<le> length sl; inc = length sl; settled hash inc m 0 0 sl\<rbrakk> \<Longrightarrow>
   let r = fold (\<lambda>s. rehash_slot hash inc s 0) [0..<k] sl in
   length r = length sl \<and> (\<forall>x \<in> set r. slot_ok x) \<and>
   mset (concat (map entries r)) = mset (concat (map entries sl)) \<and> settled hash inc m k 0 r"
proof (induction k)
  case 0
  then show ?case by simp
next
  case (Suc k)
  define r where "r = fold (\<lambda>s. rehash_slot hash inc s 0) [0..<k] sl"
  have r: "length r = length sl" "\<forall>x \<in> set r. slot_ok x" "settled hash inc m k 0 r"
      "mset (concat (map entries r)) = mset (concat (map entries sl))"
    using Suc unfolding r_def Let_def by auto
  have "fold (\<lambda>s. rehash_slot hash inc s 0) [0..<Suc k] sl = rehash_slot hash inc k 0 r"
    by (simp add: r_def)
  moreover have "k < length r" "k < m" "inc = length r" using Suc.prems r(1) by auto
  ultimately show ?case
    using rehash_slot_correct [OF r(2) _ _ _ r(3)] r(1,4) by (simp add: Let_def)
qed

lemma hashmap_rehash_correct:
  assumes len: "length (slots hm) = num_slots hm" and inc: "num_slots hm \<le> inc"
    and ok: "\<forall>x \<in> set (slots hm). slot_ok x"
  shows "length (slots (hashmap_rehash hm inc)) = inc"
    and "\<forall>x \<in> set (slots (hashmap_rehash hm inc)). slot_ok x"
    and "mset (hm_entries (hashmap_rehash hm inc)) = mset (hm_entries hm)"
    and "placed (ehash (hm_hash_func hm)) (map entries (slots (hashmap_rehash hm inc)))"
proof -
  define sl where "sl = slots hm @ replicate (inc - num_slots hm) empty_slot"
  define r where "r = fold (\<lambda>s. rehash_slot (hm_hash_func hm) inc s 0) [0..<num_slots hm] sl"
  have l: "length sl = inc" using len inc by (simp add: sl_def)
  have e: "concat (map entries sl) = concat (map entries (slots hm))" by (simp add: sl_def)
  have oksl: "\<forall>x \<in> set sl. slot_ok x" using ok by (auto simp: sl_def)
  have "entries (sl ! t) = []" if "t < length sl" "num_slots hm \<le> t" for t
    using that len by (simp add: sl_def nth_append)
  then have "settled (hm_hash_func hm) inc (num_slots hm) 0 0 sl"
    unfolding settled_def by simp
  then have r: "length r = inc" "\<forall>x \<in> set r. slot_ok x"
      "mset (concat (map entries r)) = mset (concat (map entries sl))"
      "settled (hm_hash_func hm) inc (num_slots hm) (num_slots hm) 0 r"
    using rehash_slots_correct [OF oksl order_refl, of "num_slots hm" inc "hm_hash_func hm"] inc
    unfolding r_def [symmetric] Let_def l by blast+
  have s: "slots (hashmap_rehash hm inc) = r"
    by (simp add: hashmap_rehash_def Let_def r_def sl_def)
  show "length (slots (hashmap_rehash hm inc)) = inc"
    and "\<forall>x \<in> set (slots (hashmap_rehash hm inc)). slot_ok x"
    and "mset (hm_entries (hashmap_rehash hm inc)) = mset (hm_entries hm)"
    using r(1-3) e by (simp_all only: s hm_entries_def)
  have "ehash (hm_hash_func hm) x mod inc = t" if t: "t < inc" and x: "x \<in> set (entries (r ! t))" for t x
  proof -
    have "t < num_slots hm \<or> num_slots hm \<le> t" by linarith
    then show ?thesis using r(4) t x unfolding settled_def r(1) by blast
  qed
  then show "placed (ehash (hm_hash_func hm)) (map entries (slots (hashmap_rehash hm inc)))"
    unfolding placed_def s length_map r(1) by (auto simp only: nth_map r(1))
qed

lemma hashmap_rehash_fields [simp]:
  "num_slots (hashmap_rehash hm inc) = inc" "num_data (hashmap_rehash hm inc) = num_data hm"
  "hm_hash_func (hashmap_rehash hm inc) = hm_hash_func hm"
  "hm_compare_func (hashmap_rehash hm inc) = hm_compare_func hm"
  by (simp_all add: hashmap_rehash_def Let_def)

subsection \<open>The operations keep the invariant and act on the map\<close>

lemma hm_inv_init_slots:
  assumes "\<forall>x y. hm_compare_func hm x y = 0 \<longleftrightarrow> x = y"
  shows "hm_inv (zbx_hashmap_init_slots hm n)" "hm_map (zbx_hashmap_init_slots hm n) = Map.empty"
proof -
  have two: "2 \<le> next_prime n"
    using next_prime_props [of n] by (auto simp: is_prime_def split: if_splits)
  have e: "hm_entries (zbx_hashmap_init_slots hm n) = []"
    by (simp add: hm_entries_def zbx_hashmap_init_slots_def Let_def)
  show "hm_inv (zbx_hashmap_init_slots hm n)"
    unfolding hm_inv_def e using assms two
    by (auto simp: zbx_hashmap_init_slots_def Let_def) (simp_all add: placed_def)
  show "hm_map (zbx_hashmap_init_slots hm n) = Map.empty"
    by (simp add: hm_map_def e entry_pairs_def)
qed

lemma hm_empty_slots:
  assumes "hm_inv hm" "num_slots hm = 0"
  shows "hm_map hm = Map.empty"
  using assms by (simp add: hm_inv_def hm_map_def hm_entries_def entry_pairs_def)

text \<open>The scan of the key's slot decides whether the map has the key.\<close>

lemma scan_slot:
  fixes hm :: hashmap and key :: u64
  assumes inv: "hm_inv hm" and n: "num_slots hm \<noteq> 0"
  defines "t \<equiv> slot_index hm key"
  defines "es \<equiv> entries (slots hm ! t)"
  defines "i \<equiv> entry_index (hm_compare_func hm) es key"
  shows "t < length (slots hm)"
    and "i < length es \<Longrightarrow> ekey (es ! i) = key \<and> hm_map hm key = Some (evalue (es ! i))"
    and "\<not> i < length es \<Longrightarrow> hm_map hm key = None"
proof -
  have I: "\<forall>x y. hm_compare_func hm x y = 0 \<longleftrightarrow> x = y" "length (slots hm) = num_slots hm"
    "placed (ehash (hm_hash_func hm)) (map entries (slots hm))" "distinct (map ekey (hm_entries hm))"
    using inv by (simp_all add: hm_inv_def)
  show t: "t < length (slots hm)" using n I(2) by (simp add: t_def slot_index_def)
  have ne: "map entries (slots hm) \<noteq> []" using t by auto
  have bucket: "e \<in> set (hm_entries hm) \<longleftrightarrow> e \<in> set es" if "ekey e = key" for e
    using in_bucket_iff [OF I(3) ne, of e] t that
    by (simp add: hm_entries_def es_def t_def slot_index_def ehash_def I(2))
  { assume i: "i < length es"
    then have k: "ekey (es ! i) = key"
      using entry_index_found [of "hm_compare_func hm" es key] I(1) unfolding i_def by simp
    then have "es ! i \<in> set (hm_entries hm)" using bucket [of "es ! i"] i by simp
    then show "ekey (es ! i) = key \<and> hm_map hm key = Some (evalue (es ! i))"
      using map_of_entry_pairs_iff [OF I(4)] k by (auto simp: hm_map_def) }
  { assume i: "\<not> i < length es"
    then have "ekey e \<noteq> key" if "e \<in> set es" for e
      using entry_index_missing [of "hm_compare_func hm" es key e] that I(1) unfolding i_def by auto
    then show "hm_map hm key = None"
      using bucket by (auto simp: hm_map_def map_of_entry_pairs_None) }
qed

lemma hashmap_get_map:
  assumes "hm_inv hm"
  shows "zbx_hashmap_get hm key = (case hm_map hm key of None \<Rightarrow> FAIL_value | Some v \<Rightarrow> v)"
proof (cases "num_slots hm = 0")
  case True
  then show ?thesis using hm_empty_slots [OF assms] by (simp add: zbx_hashmap_get_def)
next
  case False
  then show ?thesis using scan_slot(2,3) [OF assms False, of key] by (auto simp: zbx_hashmap_get_def Let_def)
qed

text \<open>Replacing the entries of the key's slot keeps the placement and the slot sizes.\<close>

lemma hm_update_slot:
  assumes inv: "hm_inv hm" and t: "t < length (slots hm)" and ok: "slot_ok sl"
    and pl: "\<And>e. e \<in> set (entries sl) \<Longrightarrow> ehash (hm_hash_func hm) e mod length (slots hm) = t"
    and d: "distinct (map ekey (concat (map entries ((slots hm)[t := sl]))))"
    and num: "num = length (concat (map entries ((slots hm)[t := sl])))"
    and load: "num < num_slots hm * 5"
  shows "hm_inv (hm\<lparr>slots := (slots hm)[t := sl], num_data := num\<rparr>)"
proof -
  have "placed (ehash (hm_hash_func hm)) ((map entries (slots hm))[t := entries sl])"
    using inv pl by (intro placed_update) (simp_all add: hm_inv_def)
  moreover have "\<forall>x \<in> set ((slots hm)[t := sl]). slot_ok x"
    using inv ok by (intro ball_set_update) (simp_all add: hm_inv_def)
  ultimately show ?thesis
    using inv d num load unfolding hm_inv_def by (simp add: hm_entries_def map_update)
qed

lemma hm_inv_in_slot:
  assumes "hm_inv hm" "t < length (slots hm)" "e \<in> set (entries (slots hm ! t))"
  shows "ehash (hm_hash_func hm) e mod length (slots hm) = t" "slot_ok (slots hm ! t)"
  using assms placedD [of "ehash (hm_hash_func hm)" "map entries (slots hm)" t e]
  by (auto simp: hm_inv_def)

lemma hashmap_set_replace:
  fixes hm :: hashmap and t i :: nat and key :: u64 and v :: int
  assumes inv: "hm_inv hm" and t: "t < length (slots hm)"
    and i: "i < length (entries (slots hm ! t))" and k: "ekey (entries (slots hm ! t) ! i) = key"
  defines "sl \<equiv> (slots hm ! t)\<lparr>entries := (entries (slots hm ! t))[i := (entries (slots hm ! t) ! i)\<lparr>evalue := v\<rparr>]\<rparr>"
  shows "hm_inv (hm\<lparr>slots := (slots hm)[t := sl]\<rparr>)"
    and "hm_map (hm\<lparr>slots := (slots hm)[t := sl]\<rparr>) = (hm_map hm)(key \<mapsto> v)"
proof -
  let ?es = "entries (slots hm ! t)" and ?bs = "map entries (slots hm)"
  define e where "e = ?es ! i"
  define rest where "rest = concat (?bs[t := swap_remove i ?es])"
  have I: "distinct (map ekey (hm_entries hm))" "num_data hm = length (hm_entries hm)"
    "num_slots hm \<noteq> 0 \<Longrightarrow> num_data hm < num_slots hm * 5" "length (slots hm) = num_slots hm"
    using inv by (simp_all add: hm_inv_def)
  have old: "mset (hm_entries hm) = mset rest + {#e#}"
    using mset_concat_sub [of t ?bs "swap_remove i ?es" "{#e#}"] t i
    by (simp add: rest_def hm_entries_def e_def mset_swap_remove)
  define b where "b = ?es[i := e\<lparr>evalue := v\<rparr>]"
  have b: "mset b + {#e#} = mset ?es + {#e\<lparr>evalue := v\<rparr>#}"
    using i by (simp add: b_def mset_update e_def)
  have "mset (concat (?bs[t := b])) + mset ?es = mset rest + ({#e#} + mset b)"
    using mset_concat_update [of t ?bs b] t old by (simp add: hm_entries_def)
  also have "\<dots> = (mset rest + {#e\<lparr>evalue := v\<rparr>#}) + mset ?es"
    by (simp only: b add.commute [of "{#e#}"] add.assoc) (simp only: add.commute)
  finally have new: "mset (concat (?bs[t := b])) = mset rest + {#e\<lparr>evalue := v\<rparr>#}"
    by (simp only: add_right_cancel)
  have ents: "concat (map entries ((slots hm)[t := sl])) = concat (?bs[t := b])"
    by (simp add: sl_def b_def e_def map_update)
  have keys: "mset (map ekey (concat (?bs[t := b]))) = mset (map ekey (hm_entries hm))"
    by (simp add: new old)
  then have d: "distinct (map ekey (concat (?bs[t := b])))"
    using I(1) by (metis mset_eq_imp_distinct_iff)
  have len: "length (concat (?bs[t := b])) = num_data hm"
    using I(2) arg_cong [OF keys, of size] by simp
  have keys': "ekey ` set b = ekey ` set ?es"
  proof -
    have "map ekey b = (map ekey ?es)[i := map ekey ?es ! i]" using i by (simp add: b_def e_def map_update)
    then have "map ekey b = map ekey ?es" by (simp only: list_update_id)
    then show ?thesis by (metis list.set_map)
  qed
  have "hm_inv (hm\<lparr>slots := (slots hm)[t := sl], num_data := num_data hm\<rparr>)"
  proof (rule hm_update_slot [OF inv t])
    show "slot_ok sl"
      unfolding sl_def using hm_inv_in_slot(2) [OF inv t nth_mem [OF i]] by (intro slot_ok_shrink) simp_all
    fix x assume "x \<in> set (entries sl)"
    then have "ekey x \<in> ekey ` set ?es" using keys' by (auto simp: sl_def b_def e_def)
    then obtain y where "y \<in> set ?es" "ekey x = ekey y" by auto
    then show "ehash (hm_hash_func hm) x mod length (slots hm) = t"
      using hm_inv_in_slot(1) [OF inv t, of y] by (simp add: ehash_def)
  qed (use d len t I(3,4) in \<open>auto simp: ents\<close>)
  then show "hm_inv (hm\<lparr>slots := (slots hm)[t := sl]\<rparr>)" by simp
  have "hm_map (hm\<lparr>slots := (slots hm)[t := sl]\<rparr>) = map_of (entry_pairs (concat (?bs[t := b])))"
    by (simp add: hm_map_def hm_entries_def ents)
  also have "\<dots> = (map_of (entry_pairs rest))(ekey e \<mapsto> v)"
    using map_of_entry_pairs_add [OF new d] by simp
  also have "\<dots> = (hm_map hm)(key \<mapsto> v)"
    using map_of_entry_pairs_del [OF old I(1)] k by (simp add: hm_map_def e_def)
  finally show "hm_map (hm\<lparr>slots := (slots hm)[t := sl]\<rparr>) = (hm_map hm)(key \<mapsto> v)" .
qed

lemma hm_load_grown:
  assumes "2 \<le> n" "d \<le> n * 5"
  shows "n \<le> next_prime (n * 3 div 2)" "2 \<le> next_prime (n * 3 div 2)"
    "d < next_prime (n * 3 div 2) * 5"
proof -
  have "n * 3 div 2 \<le> next_prime (n * 3 div 2)" using next_prime_props by blast
  moreover have "n < n * 3 div 2" using assms(1) by linarith
  ultimately show "n \<le> next_prime (n * 3 div 2)" "2 \<le> next_prime (n * 3 div 2)"
    "d < next_prime (n * 3 div 2) * 5"
    using assms by linarith+
qed

text \<open>A new key: append to the slot, then grow when the load factor is reached.\<close>

lemma hashmap_set_append:
  fixes hm :: hashmap and t :: nat and key :: u64 and v :: int
  assumes inv: "hm_inv hm" and t: "t < length (slots hm)" and here: "slot_index hm key = t"
    and miss: "hm_map hm key = None"
  defines "slot \<equiv> hashmap_ensure_free_entry (slots hm ! t)"
  defines "sl \<equiv> slot\<lparr>entries := entries slot @ [\<lparr>ekey = key, evalue = v\<rparr>]\<rparr>"
  defines "hm1 \<equiv> hm\<lparr>slots := (slots hm)[t := sl], num_data := num_data hm + 1\<rparr>"
  defines "hm2 \<equiv> (if num_slots hm1 * 5 \<le> num_data hm1
              then hashmap_rehash hm1 (next_prime (num_slots hm1 * 3 div 2)) else hm1)"
  shows "hm_inv hm2" and "hm_map hm2 = (hm_map hm)(key \<mapsto> v)"
proof -
  define e where "e = \<lparr>ekey = key, evalue = v\<rparr>"
  let ?es = "entries (slots hm ! t)" and ?bs = "map entries (slots hm)"
  have I: "distinct (map ekey (hm_entries hm))" "num_data hm = length (hm_entries hm)"
    "\<forall>x y. hm_compare_func hm x y = 0 \<longleftrightarrow> x = y" "length (slots hm) = num_slots hm"
    "\<forall>x \<in> set (slots hm). slot_ok x" "placed (ehash (hm_hash_func hm)) ?bs"
    using inv by (simp_all add: hm_inv_def)
  have load: "2 \<le> num_slots hm" "num_data hm < num_slots hm * 5"
    using inv t by (auto simp: hm_inv_def)
  have ok: "slot_ok (slots hm ! t)" using I(5) t by simp
  have es: "entries sl = ?es @ [e]" and oksl: "slot_ok sl"
    using ok by (simp_all add: sl_def slot_def e_def)
  have ents: "hm_entries hm1 = concat (?bs[t := ?es @ [e]])"
    by (simp add: hm1_def hm_entries_def map_update es)
  have new: "mset (hm_entries hm1) = mset (hm_entries hm) + {#e#}"
    unfolding ents using t by (subst mset_concat_add) (auto simp: hm_entries_def)
  have "key \<notin> set (map ekey (hm_entries hm))"
    using miss by (auto simp: hm_map_def map_of_entry_pairs_None)
  then have "distinct (map ekey (e # hm_entries hm))" using I(1) by (simp add: e_def)
  then have d1: "distinct (map ekey (hm_entries hm1))"
    using distinct_keys_mset [of "hm_entries hm1" "e # hm_entries hm"] new by simp
  have len1: "num_data hm1 = length (hm_entries hm1)"
    using arg_cong [OF new, of size] I(2) by (simp add: hm1_def)
  have h: "ehash (hm_hash_func hm) e mod length (slots hm) = t"
    using here I(4) by (simp add: ehash_def slot_index_def e_def)
  have pl1: "placed (ehash (hm_hash_func hm)) (map entries (slots hm1))"
  proof -
    have "placed (ehash (hm_hash_func hm)) (?bs[t := ?es @ [e]])"
    proof (rule placed_update [OF I(6)])
      fix x assume "x \<in> set (?es @ [e])"
      then show "ehash (hm_hash_func hm) x mod length ?bs = t"
        using hm_inv_in_slot(1) [OF inv t, of x] h by auto
    qed
    then show ?thesis by (simp add: hm1_def map_update es)
  qed
  have ok1: "\<forall>x \<in> set (slots hm1). slot_ok x"
    using I(5) oksl by (simp add: hm1_def) (rule ball_set_update)
  have f1: "length (slots hm1) = num_slots hm1" "num_slots hm1 = num_slots hm"
    "num_data hm1 = num_data hm + 1" "hm_hash_func hm1 = hm_hash_func hm"
    "hm_compare_func hm1 = hm_compare_func hm"
    by (simp_all add: hm1_def I(4))
  have m1: "hm_map hm1 = (hm_map hm)(key \<mapsto> v)"
    using map_of_entry_pairs_add [OF new d1] by (simp add: hm_map_def e_def)
  show "hm_inv hm2" and "hm_map hm2 = (hm_map hm)(key \<mapsto> v)"
  proof (atomize (full), cases "num_slots hm1 * 5 \<le> num_data hm1")
    case False
    have "hm_inv hm1"
      unfolding hm_inv_def using I(3) ok1 pl1 d1 len1 f1 False load by simp
    then show "hm_inv hm2 \<and> hm_map hm2 = (hm_map hm)(key \<mapsto> v)"
      using False m1 by (simp add: hm2_def)
  next
    case True
    define inc where "inc = next_prime (num_slots hm1 * 3 div 2)"
    have g: "num_slots hm1 \<le> inc" "2 \<le> inc" "num_data hm1 < inc * 5"
      using hm_load_grown [of "num_slots hm1" "num_data hm1"] load f1 by (simp_all add: inc_def)
    note R = hashmap_rehash_correct [OF f1(1) g(1) ok1]
    have hm2: "hm2 = hashmap_rehash hm1 inc" using True by (simp add: hm2_def inc_def)
    have d2: "distinct (map ekey (hm_entries hm2))"
      unfolding hm2 using distinct_keys_mset [OF R(3)] d1 by blast
    have "length (hm_entries hm2) = num_data hm1"
      unfolding hm2 len1 using R(3) by (metis size_mset)
    then have "hm_inv hm2"
      unfolding hm_inv_def using I(3) R(1,2,4) d2 g(2,3) f1(4,5) by (simp add: hm2)
    moreover have "hm_map hm2 = hm_map hm1"
      unfolding hm_map_def using map_of_entry_pairs_mset [OF R(3)] d2 by (simp add: hm2)
    ultimately show "hm_inv hm2 \<and> hm_map hm2 = (hm_map hm)(key \<mapsto> v)" using m1 by simp
  qed
qed

lemma hashmap_set_map:
  assumes "hm_inv hm"
  shows "hm_inv (zbx_hashmap_set hm key v) \<and> hm_map (zbx_hashmap_set hm key v) = (hm_map hm)(key \<mapsto> v)"
proof -
  define hm0 where "hm0 = (if num_slots hm = 0 then zbx_hashmap_init_slots hm 10 else hm)"
  have inv: "hm_inv hm0" and map: "hm_map hm0 = hm_map hm"
  proof (atomize (full), cases "num_slots hm = 0")
    case True
    have "\<forall>x y. hm_compare_func hm x y = 0 \<longleftrightarrow> x = y" using assms by (simp add: hm_inv_def)
    then show "hm_inv hm0 \<and> hm_map hm0 = hm_map hm"
      using hm_inv_init_slots [of hm 10] hm_empty_slots [OF assms True] True by (simp add: hm0_def)
  qed (use assms in \<open>simp add: hm0_def\<close>)
  have n: "num_slots hm0 \<noteq> 0"
    using next_prime_pos [of 10] by (simp add: hm0_def zbx_hashmap_init_slots_def Let_def)
  define t where "t = slot_index hm0 key"
  define i where "i = entry_index (hm_compare_func hm0) (entries (slots hm0 ! t)) key"
  note sc = scan_slot [OF inv n, of key, folded t_def, folded i_def]
  show ?thesis
  proof (cases "i < length (entries (slots hm0 ! t))")
    case True
    then show ?thesis
      using hashmap_set_replace [OF inv sc(1) True, of key v] sc(2) map
      by (simp add: zbx_hashmap_set_def Let_def hm0_def [symmetric] t_def [symmetric] i_def [symmetric])
  next
    case False
    then show ?thesis
      using hashmap_set_append [OF inv sc(1) t_def [symmetric] sc(3) [OF False], of v] False
      unfolding zbx_hashmap_set_def Let_def hm0_def [symmetric] t_def [symmetric] i_def [symmetric] map
      by (simp only: if_False simp_thms)
  qed
qed

lemma hashmap_remove_map:
  assumes inv: "hm_inv hm"
  shows "hm_inv (zbx_hashmap_remove hm key) \<and> hm_map (zbx_hashmap_remove hm key) = (hm_map hm)(key := None)"
proof (cases "num_slots hm = 0")
  case True
  then show ?thesis using hm_empty_slots [OF inv] inv by (simp add: zbx_hashmap_remove_def)
next
  case n: False
  define t where "t = slot_index hm key"
  define i where "i = entry_index (hm_compare_func hm) (entries (slots hm ! t)) key"
  note sc = scan_slot [OF inv n, of key, folded t_def, folded i_def]
  let ?es = "entries (slots hm ! t)" and ?bs = "map entries (slots hm)"
  have I: "distinct (map ekey (hm_entries hm))" "num_data hm = length (hm_entries hm)"
    "num_data hm < num_slots hm * 5"
    using inv n by (simp_all add: hm_inv_def)
  show ?thesis
  proof (cases "i < length ?es")
    case False
    then show ?thesis
      using sc(3) inv by (simp add: zbx_hashmap_remove_def Let_def t_def [symmetric] i_def [symmetric] n fun_upd_idem)
  next
    case True
    define sl where "sl = (slots hm ! t)\<lparr>entries := swap_remove i ?es\<rparr>"
    define ents where "ents = concat (map entries ((slots hm)[t := sl]))"
    have e: "ents = concat (?bs[t := swap_remove i ?es])" by (simp add: ents_def sl_def map_update)
    have old: "mset (hm_entries hm) = mset ents + {#?es ! i#}"
      using mset_concat_sub [of t ?bs "swap_remove i ?es" "{#?es ! i#}"] sc(1) True
      by (simp add: e hm_entries_def mset_swap_remove)
    then have "distinct (map ekey (?es ! i # ents))"
      using distinct_keys_mset [of "hm_entries hm" "?es ! i # ents"] I(1) by simp
    then have d: "distinct (map ekey ents)" by simp
    have len: "num_data hm = Suc (length ents)" using arg_cong [OF old, of size] I(2) by simp
    have "hm_inv (hm\<lparr>slots := (slots hm)[t := sl], num_data := num_data hm - 1\<rparr>)"
    proof (rule hm_update_slot [OF inv sc(1)])
      show "slot_ok sl"
        unfolding sl_def using hm_inv_in_slot(2) [OF inv sc(1) nth_mem [OF True]] by (intro slot_ok_shrink) simp_all
      fix x assume "x \<in> set (entries sl)"
      then have "x \<in> set ?es" using set_swap_remove [OF True] by (auto simp: sl_def)
      then show "ehash (hm_hash_func hm) x mod length (slots hm) = t"
        by (rule hm_inv_in_slot(1) [OF inv sc(1)])
    qed (use d len I(3) in \<open>simp_all add: ents_def [symmetric]\<close>)
    moreover have "map_of (entry_pairs ents) = (hm_map hm)(key := None)"
      using map_of_entry_pairs_del [OF old I(1)] sc(2) [OF True] by (simp add: hm_map_def)
    ultimately show ?thesis
      using True n by (simp add: zbx_hashmap_remove_def Let_def t_def [symmetric] i_def [symmetric]
          sl_def [symmetric] hm_map_def hm_entries_def ents_def)
  qed
qed

lemma hashmap_clear_map:
  assumes inv: "hm_inv hm"
  shows "hm_inv (zbx_hashmap_clear hm) \<and> hm_map (zbx_hashmap_clear hm) = Map.empty"
proof -
  have e: "hm_entries (zbx_hashmap_clear hm) = []"
    by (simp add: hm_entries_def zbx_hashmap_clear_def)
  have "placed h (map entries (slots (zbx_hashmap_clear hm)))" for h
    by (simp add: placed_def zbx_hashmap_clear_def)
  moreover have "\<forall>x \<in> set (slots (zbx_hashmap_clear hm)). slot_ok x"
    by (simp add: zbx_hashmap_clear_def slot_ok_def)
  ultimately have "hm_inv (zbx_hashmap_clear hm)"
    using inv unfolding hm_inv_def e by (simp add: zbx_hashmap_clear_def)
  then show ?thesis by (simp add: hm_map_def e entry_pairs_def)
qed

subsection \<open>The map as an index\<close>

text \<open>What a client expects of an index from keys to positions: \<open>get\<close> answers \<open>FAIL\<close> for a
  key that is absent.\<close>

datatype index_op = Set_Key u64 int | Remove_Key u64 | Clear_Index

fun spec_step :: "(u64 \<Rightarrow> int option) \<Rightarrow> index_op \<Rightarrow> (u64 \<Rightarrow> int option)" where
  "spec_step m (Set_Key k v) = m(k \<mapsto> v)"
| "spec_step m (Remove_Key k) = m(k := None)"
| "spec_step m Clear_Index = Map.empty"

locale index_map =
  fixes inv :: "'m \<Rightarrow> bool" and lookup :: "'m \<Rightarrow> u64 \<Rightarrow> int option"
    and get :: "'m \<Rightarrow> u64 \<Rightarrow> int" and set_key :: "'m \<Rightarrow> u64 \<Rightarrow> int \<Rightarrow> 'm"
    and remove_key :: "'m \<Rightarrow> u64 \<Rightarrow> 'm" and clear :: "'m \<Rightarrow> 'm"
  assumes get: "inv m \<Longrightarrow> get m k = (case lookup m k of None \<Rightarrow> FAIL_value | Some v \<Rightarrow> v)"
    and inv_set: "inv m \<Longrightarrow> inv (set_key m k v)"
    and lookup_set: "inv m \<Longrightarrow> lookup (set_key m k v) = (lookup m)(k \<mapsto> v)"
    and inv_remove: "inv m \<Longrightarrow> inv (remove_key m k)"
    and lookup_remove: "inv m \<Longrightarrow> lookup (remove_key m k) = (lookup m)(k := None)"
    and inv_clear: "inv m \<Longrightarrow> inv (clear m)"
    and lookup_clear: "inv m \<Longrightarrow> lookup (clear m) = Map.empty"
begin

definition step :: "'m \<Rightarrow> index_op \<Rightarrow> 'm" where
  "step m op = (case op of Set_Key k v \<Rightarrow> set_key m k v | Remove_Key k \<Rightarrow> remove_key m k | Clear_Index \<Rightarrow> clear m)"

lemma step_refines: "inv m \<Longrightarrow> inv (step m op) \<and> lookup (step m op) = spec_step (lookup m) op"
  by (cases op) (auto simp: step_def inv_set lookup_set inv_remove lookup_remove inv_clear lookup_clear)

lemma session_refines:
  "inv m \<Longrightarrow> inv (foldl step m ops) \<and> lookup (foldl step m ops) = foldl spec_step (lookup m) ops"
  using step_refines by (induction ops arbitrary: m) auto

lemma session_get:
  "inv m \<Longrightarrow> get (foldl step m ops) k =
     (case foldl spec_step (lookup m) ops k of None \<Rightarrow> FAIL_value | Some v \<Rightarrow> v)"
  using session_refines [of m ops] by (simp add: get)

end

interpretation hashmap: index_map hm_inv hm_map zbx_hashmap_get zbx_hashmap_set zbx_hashmap_remove zbx_hashmap_clear
  by unfold_locales
    (simp_all add: hashmap_get_map hashmap_set_map hashmap_remove_map hashmap_clear_map)

fun hashmap_step :: "hashmap \<Rightarrow> index_op \<Rightarrow> hashmap" where
  "hashmap_step hm (Set_Key k v) = zbx_hashmap_set hm k v"
| "hashmap_step hm (Remove_Key k) = zbx_hashmap_remove hm k"
| "hashmap_step hm Clear_Index = zbx_hashmap_clear hm"

lemma hashmap_step_eq: "hashmap_step = hashmap.step"
proof (intro ext)
  show "hashmap_step hm op = hashmap.step hm op" for hm op
    by (cases op) (simp_all add: hashmap.step_def)
qed

lemma uint64_compare_eq: "zbx_default_uint64_compare_func x y = 0 \<longleftrightarrow> x = y"
  by (auto simp: zbx_default_uint64_compare_func_def return_if_not_equal_def)

lemma hm_create: "hm_inv (zbx_hashmap_create n)" "hm_map (zbx_hashmap_create n) = Map.empty"
  unfolding zbx_hashmap_create_def zbx_hashmap_create_ext_def
  by (rule hm_inv_init_slots, simp add: uint64_compare_eq)+

text \<open>C8: After any sequence of sets, removals and clears on a new hash map of any initial size, a
  lookup answers as the finite map does that the same updates build, and \<open>FAIL\<close> for an absent key;
  growing the table on the way loses, duplicates and misplaces no entry.\<close>

theorem hashmap_session_correct:
  "zbx_hashmap_get (foldl hashmap_step (zbx_hashmap_create n) ops) key =
     (case foldl spec_step Map.empty ops key of None \<Rightarrow> FAIL_value | Some v \<Rightarrow> v)"
  using hashmap.session_get [OF hm_create(1), of n ops key] by (simp add: hashmap_step_eq hm_create(2))

lemma hm_inv_card:
  assumes "hm_inv hm"
  shows "num_data hm = card (dom (hm_map hm))"
proof -
  have d: "distinct (map ekey (hm_entries hm))" and n: "num_data hm = length (hm_entries hm)"
    using assms by (simp_all add: hm_inv_def)
  have "dom (hm_map hm) = ekey ` set (hm_entries hm)"
    by (auto simp: hm_map_def entry_pairs_def dom_map_of_conv_image_fst image_image)
  then show ?thesis using distinct_card [OF d] n by simp
qed

text \<open>After any session \<open>num_data\<close> is the number of keys present, the load factor stays below
  five, and every entry lies in the slot its hash selects, within the slot's allocation.\<close>

theorem hashmap_session_invariant:
  "let hm = foldl hashmap_step (zbx_hashmap_create n) ops in
   num_data hm = card (dom (foldl spec_step Map.empty ops)) \<and>
   (num_slots hm = 0 \<or> num_data hm < num_slots hm * 5) \<and>
   list_all (\<lambda>t. let sl = slots hm ! t in length (entries sl) \<le> entries_alloc sl \<and>
     list_all (\<lambda>e. slot_index hm (ekey e) = t) (entries sl)) [0..<num_slots hm]"
proof -
  define hm where "hm = foldl hashmap_step (zbx_hashmap_create n) ops"
  have inv: "hm_inv hm" and m: "hm_map hm = foldl spec_step Map.empty ops"
    using hashmap.session_refines [OF hm_create(1), of n ops]
    by (simp_all add: hm_def hashmap_step_eq hm_create(2))
  have "slot_ok (slots hm ! t)" if "t < num_slots hm" for t
    using inv that by (simp add: hm_inv_def)
  moreover have "slot_index hm (ekey e) = t" if "t < num_slots hm" "e \<in> set (entries (slots hm ! t))" for t e
    using hm_inv_in_slot(1) [OF inv _ that(2)] that inv by (simp add: slot_index_def ehash_def hm_inv_def)
  moreover have "num_slots hm = 0 \<or> num_data hm < num_slots hm * 5" using inv by (auto simp: hm_inv_def)
  ultimately show ?thesis
    using hm_inv_card [OF inv] m by (simp add: hm_def [symmetric] Let_def list_all_iff slot_ok_def)
qed

end
