(* ===== verification/Binary_Heap.thy ===== *)
theory Binary_Heap
  imports Hashmap
begin

text \<open>
  The binary heap of \<open>src/src/libs/zbxalgo/binaryheap.c\<close>. The element array is the list of its
  live prefix with its allocated size (0 for a null array). With the direct option the heap keeps
  an index from keys to positions in a hash map; the proofs about it use the map through the
  locale \<open>index_map\<close> only, and those about the order use the callback through \<open>compare_func\<close>.
\<close>

subsection \<open>State\<close>

record 'd binary_heap_elem =
  bkey :: u64
  bdata :: 'd

record 'd binary_heap =
  elems :: "'d binary_heap_elem list"
  elems_alloc :: nat
  options :: u32
  bh_compare :: "'d binary_heap_elem \<Rightarrow> 'd binary_heap_elem \<Rightarrow> int"
  key_index :: hashmap

definition ZBX_BINARY_HEAP_OPTION_EMPTY :: u32 where
  "ZBX_BINARY_HEAP_OPTION_EMPTY = 0"

definition ZBX_BINARY_HEAP_OPTION_DIRECT :: u32 where
  "ZBX_BINARY_HEAP_OPTION_DIRECT = push_bit 0 1"

definition HAS_DIRECT_OPTION :: "'d binary_heap \<Rightarrow> bool" where
  "HAS_DIRECT_OPTION heap \<longleftrightarrow> 0 \<noteq> options heap AND ZBX_BINARY_HEAP_OPTION_DIRECT"

text \<open>Without the direct option \<open>key_index\<close> is a null pointer that no operation follows; the
  field then holds an empty map.\<close>

subsection \<open>Operations\<close>

definition swap :: "'d binary_heap \<Rightarrow> nat \<Rightarrow> nat \<Rightarrow> 'd binary_heap" where
  "swap heap index_1 index_2 =
     (let tmp = elems heap ! index_1;
          xs = (elems heap)[index_1 := elems heap ! index_2, index_2 := tmp];
          heap = heap\<lparr>elems := xs\<rparr>
      in if HAS_DIRECT_OPTION heap then
           heap\<lparr>key_index := zbx_hashmap_set
             (zbx_hashmap_set (key_index heap) (bkey (xs ! index_1)) (int index_1))
             (bkey (xs ! index_2)) (int index_2)\<rparr>
         else heap)"

lemma swap_fields [simp]:
  "elems (swap heap i j) = (elems heap)[i := elems heap ! j, j := elems heap ! i]"
  "elems_alloc (swap heap i j) = elems_alloc heap" "options (swap heap i j) = options heap"
  "bh_compare (swap heap i j) = bh_compare heap"
  by (simp_all add: swap_def Let_def)

text \<open>A failed reallocation ends the process; \<open>mem_ok\<close> is its outcome.\<close>

definition binary_heap_ensure_free_space :: "bool \<Rightarrow> 'd binary_heap \<Rightarrow> 'd binary_heap res" where
  "binary_heap_ensure_free_space mem_ok heap =
     (let heap = (if elems_alloc heap = 0 then heap\<lparr>elems := []\<rparr> else heap);
          tmp = (if elems_alloc heap = 0 then 32
                 else if length (elems heap) = elems_alloc heap
                 then max (elems_alloc heap + 1) (elems_alloc heap * 3 div 2)
                 else elems_alloc heap)
      in if elems_alloc heap \<noteq> tmp
         then if mem_ok then Inr (heap\<lparr>elems_alloc := tmp\<rparr>) else Inl Exit_Failure
         else Inr heap)"

function binary_heap_bubble_up :: "'d binary_heap \<Rightarrow> nat \<Rightarrow> 'd binary_heap \<times> nat" where
  "binary_heap_bubble_up heap index =
     (if 0 \<noteq> index then
        if bh_compare heap (elems heap ! ((index - 1) div 2)) (elems heap ! index) \<le> 0
        then (heap, index)
        else binary_heap_bubble_up (swap heap ((index - 1) div 2) index) ((index - 1) div 2)
      else (heap, index))"
  by pat_completeness auto
termination
  by (relation "measure snd") auto

function binary_heap_bubble_down :: "'d binary_heap \<Rightarrow> nat \<Rightarrow> 'd binary_heap \<times> nat" where
  "binary_heap_bubble_down heap index =
     (let left = 2 * index + 1; right = 2 * index + 2 in
      if length (elems heap) \<le> left then (heap, index)
      else if length (elems heap) \<le> right then
        if 0 < bh_compare heap (elems heap ! index) (elems heap ! left)
        then (swap heap index left, left) else (heap, index)
      else if bh_compare heap (elems heap ! left) (elems heap ! right) \<le> 0 then
        if 0 < bh_compare heap (elems heap ! index) (elems heap ! left)
        then binary_heap_bubble_down (swap heap index left) left else (heap, index)
      else
        if 0 < bh_compare heap (elems heap ! index) (elems heap ! right)
        then binary_heap_bubble_down (swap heap index right) right else (heap, index))"
  by pat_completeness auto
termination
  by (relation "measure (\<lambda>(heap, index). length (elems heap) - index)") auto

declare binary_heap_bubble_up.simps [simp del] binary_heap_bubble_down.simps [simp del]

definition zbx_binary_heap_create ::
  "('d binary_heap_elem \<Rightarrow> 'd binary_heap_elem \<Rightarrow> int) \<Rightarrow> u32 \<Rightarrow> 'd binary_heap" where
  "zbx_binary_heap_create cmp opts =
     (let heap = \<lparr>elems = [], elems_alloc = 0, options = opts, bh_compare = cmp,
                   key_index = zbx_hashmap_create 0\<rparr>
      in if HAS_DIRECT_OPTION heap
         then heap\<lparr>key_index := zbx_hashmap_create_ext 512 zbx_hash_splittable64 zbx_default_uint64_compare_func\<rparr>
         else heap)"

definition zbx_binary_heap_empty :: "'d binary_heap \<Rightarrow> bool" where
  "zbx_binary_heap_empty heap = (if 0 = length (elems heap) then SUCCEED else FAIL)"

definition zbx_binary_heap_find_min :: "'d binary_heap \<Rightarrow> 'd binary_heap_elem res" where
  "zbx_binary_heap_find_min heap =
     (if 0 = length (elems heap) then Inl Exit_Failure else Inr (elems heap ! 0))"

definition zbx_binary_heap_insert :: "bool \<Rightarrow> 'd binary_heap \<Rightarrow> 'd binary_heap_elem \<Rightarrow> 'd binary_heap res" where
  "zbx_binary_heap_insert mem_ok heap elem =
     (if HAS_DIRECT_OPTION heap \<and> FAIL_value \<noteq> zbx_hashmap_get (key_index heap) (bkey elem)
      then Inl Exit_Failure
      else rbind (binary_heap_ensure_free_space mem_ok heap) (\<lambda>heap.
        let index = length (elems heap)
        in if elems_alloc heap \<le> index then Inl Out_Of_Bounds
           else let heap = heap\<lparr>elems := elems heap @ [elem]\<rparr>;
                    (heap, index) = binary_heap_bubble_up heap index
                in if HAS_DIRECT_OPTION heap \<and> index = length (elems heap) - 1
                   then Inr (heap\<lparr>key_index := zbx_hashmap_set (key_index heap) (bkey elem) (int index)\<rparr>)
                   else Inr heap))"

definition zbx_binary_heap_update_direct :: "'d binary_heap \<Rightarrow> 'd binary_heap_elem \<Rightarrow> 'd binary_heap res" where
  "zbx_binary_heap_update_direct heap elem =
     (if \<not> HAS_DIRECT_OPTION heap then Inl Exit_Failure
      else let index = zbx_hashmap_get (key_index heap) (bkey elem) in
        if FAIL_value \<noteq> index then
          let index = nat index;
              heap = heap\<lparr>elems := (elems heap)[index := elem]\<rparr>;
              (heap, index') = binary_heap_bubble_up heap index
          in if index = index' then Inr (fst (binary_heap_bubble_down heap index)) else Inr heap
        else Inl Exit_Failure)"

definition zbx_binary_heap_remove_min :: "'d binary_heap \<Rightarrow> 'd binary_heap res" where
  "zbx_binary_heap_remove_min heap =
     (if 0 = length (elems heap) then Inl Exit_Failure
      else
        let heap = (if HAS_DIRECT_OPTION heap
                    then heap\<lparr>key_index := zbx_hashmap_remove (key_index heap) (bkey (elems heap ! 0))\<rparr>
                    else heap);
            n = length (elems heap) - 1;
            last_elem = elems heap ! n;
            heap = heap\<lparr>elems := take n (elems heap)\<rparr>
        in if 0 \<noteq> n then
             let heap = heap\<lparr>elems := (elems heap)[0 := last_elem]\<rparr>;
                 (heap, index) = binary_heap_bubble_down heap 0
             in if HAS_DIRECT_OPTION heap \<and> index = 0
                then Inr (heap\<lparr>key_index := zbx_hashmap_set (key_index heap) (bkey (elems heap ! index)) (int index)\<rparr>)
                else Inr heap
           else Inr heap)"

definition zbx_binary_heap_remove_direct :: "'d binary_heap \<Rightarrow> u64 \<Rightarrow> 'd binary_heap res" where
  "zbx_binary_heap_remove_direct heap key =
     (if \<not> HAS_DIRECT_OPTION heap then Inl Exit_Failure
      else let index = zbx_hashmap_get (key_index heap) key in
        if FAIL_value \<noteq> index then
          let index = nat index;
              heap = heap\<lparr>key_index := zbx_hashmap_remove (key_index heap) key\<rparr>;
              n = length (elems heap) - 1;
              last_elem = elems heap ! n;
              heap = heap\<lparr>elems := take n (elems heap)\<rparr>
          in if index \<noteq> n then
               let heap = heap\<lparr>elems := (elems heap)[index := last_elem]\<rparr>;
                   (heap, index') = binary_heap_bubble_up heap index
               in if index = index' then
                    let (heap, index') = binary_heap_bubble_down heap index
                    in if index = index'
                       then Inr (heap\<lparr>key_index := zbx_hashmap_set (key_index heap) (bkey (elems heap ! index)) (int index)\<rparr>)
                       else Inr heap
                  else Inr heap
             else Inr heap
        else Inl Exit_Failure)"

definition zbx_binary_heap_clear :: "'d binary_heap \<Rightarrow> 'd binary_heap" where
  "zbx_binary_heap_clear heap =
     (let heap = heap\<lparr>elems := []\<rparr> in
      if HAS_DIRECT_OPTION heap
      then heap\<lparr>key_index := zbx_hashmap_clear (key_index heap)\<rparr> else heap)"

text \<open>The callbacks are cleared as well; no operation may follow.\<close>

definition zbx_binary_heap_destroy :: "'d binary_heap \<Rightarrow> 'd binary_heap" where
  "zbx_binary_heap_destroy heap =
     (let heap = heap\<lparr>elems := [], elems_alloc := 0\<rparr> in
      if HAS_DIRECT_OPTION heap
      then heap\<lparr>key_index := zbx_hashmap_destroy (key_index heap), options := 0\<rparr> else heap)"

subsection \<open>Heap order on arrays\<close>

definition parent :: "nat \<Rightarrow> nat" where
  "parent i = (i - 1) div 2"

lemma parent_less: "0 < i \<Longrightarrow> parent i < i"
  by (auto simp: parent_def)

lemma parent_eq_iff: "0 < j \<Longrightarrow> parent j = i \<longleftrightarrow> j = 2 * i + 1 \<or> j = 2 * i + 2"
  by (auto simp: parent_def)

definition swap_list :: "'a list \<Rightarrow> nat \<Rightarrow> nat \<Rightarrow> 'a list" where
  "swap_list xs i j = xs[i := xs ! j, j := xs ! i]"

lemma length_swap_list [simp]: "length (swap_list xs i j) = length xs"
  by (simp add: swap_list_def)

lemma nth_swap_list:
  "i < length xs \<Longrightarrow> j < length xs \<Longrightarrow> swap_list xs i j ! k = (if k = i then xs ! j else if k = j then xs ! i else xs ! k)"
  by (simp add: swap_list_def nth_list_update)

lemma mset_swap_list: "i < length xs \<Longrightarrow> j < length xs \<Longrightarrow> mset (swap_list xs i j) = mset xs"
  unfolding swap_list_def by (rule mset_swap)

context compare_func
begin

definition is_heap :: "'a list \<Rightarrow> bool" where
  "is_heap xs \<longleftrightarrow> (\<forall>j < length xs. 0 < j \<longrightarrow> cmp (xs ! parent j) (xs ! j) \<le> 0)"

text \<open>The order may fail at position \<open>i\<close> only, and its parent is below its children.\<close>

definition hole :: "'a list \<Rightarrow> nat \<Rightarrow> bool" where
  "hole xs i \<longleftrightarrow>
     (\<forall>j < length xs. 0 < j \<longrightarrow> j \<noteq> i \<longrightarrow> parent j \<noteq> i \<longrightarrow> cmp (xs ! parent j) (xs ! j) \<le> 0) \<and>
     (0 < i \<longrightarrow> (\<forall>j < length xs. 0 < j \<longrightarrow> parent j = i \<longrightarrow> cmp (xs ! parent i) (xs ! j) \<le> 0))"

definition above_ok :: "'a list \<Rightarrow> nat \<Rightarrow> bool" where
  "above_ok xs i \<longleftrightarrow> (0 < i \<longrightarrow> cmp (xs ! parent i) (xs ! i) \<le> 0)"

definition below_ok :: "'a list \<Rightarrow> nat \<Rightarrow> bool" where
  "below_ok xs i \<longleftrightarrow> (\<forall>j < length xs. 0 < j \<longrightarrow> parent j = i \<longrightarrow> cmp (xs ! i) (xs ! j) \<le> 0)"

lemma is_heapI: "hole xs i \<Longrightarrow> above_ok xs i \<Longrightarrow> below_ok xs i \<Longrightarrow> is_heap xs"
  unfolding is_heap_def
proof (intro allI impI)
  fix j
  assume "hole xs i" "above_ok xs i" "below_ok xs i" and j: "j < length xs" "0 < j"
  then show "cmp (xs ! parent j) (xs ! j) \<le> 0"
    by (cases "j = i"; cases "parent j = i") (simp_all add: hole_def above_ok_def below_ok_def)
qed

lemma is_heap_hole:
  assumes "is_heap xs" "i < length xs"
  shows "hole xs i"
  unfolding hole_def
proof (intro conjI impI allI)
  fix j assume "0 < i" and j: "j < length xs" "0 < j" "parent j = i"
  then have "cmp (xs ! parent i) (xs ! i) \<le> 0" "cmp (xs ! i) (xs ! j) \<le> 0"
    using assms by (auto simp: is_heap_def)
  then show "cmp (xs ! parent i) (xs ! j) \<le> 0" by (rule cmp_trans)
qed (use assms in \<open>auto simp: is_heap_def\<close>)

lemma hole_update:
  assumes "hole xs i" "i < length xs"
  shows "hole (xs[i := x]) i"
  unfolding hole_def
proof (intro conjI impI allI)
  fix j assume "j < length (xs[i := x])" "0 < j" "j \<noteq> i" "parent j \<noteq> i"
  then show "cmp (xs[i := x] ! parent j) (xs[i := x] ! j) \<le> 0"
    using assms by (simp add: hole_def)
next
  fix j assume "0 < i" "j < length (xs[i := x])" "0 < j" "parent j = i"
  moreover from this have "parent i \<noteq> i" "j \<noteq> i" using parent_less [of i] parent_less [of j] by auto
  ultimately show "cmp (xs[i := x] ! parent i) (xs[i := x] ! j) \<le> 0"
    using assms by (simp add: hole_def)
qed

lemma is_heap_take: "is_heap xs \<Longrightarrow> is_heap (take n xs)"
  unfolding is_heap_def
proof (intro allI impI)
  fix j assume h: "\<forall>j < length xs. 0 < j \<longrightarrow> cmp (xs ! parent j) (xs ! j) \<le> 0"
    and j: "j < length (take n xs)" "0 < j"
  then have "parent j < n" using parent_less [of j] by simp
  then show "cmp (take n xs ! parent j) (take n xs ! j) \<le> 0" using h j by simp
qed

lemma is_heap_append: "is_heap xs \<Longrightarrow> hole (xs @ [x]) (length xs) \<and> below_ok (xs @ [x]) (length xs)"
proof
  assume h: "is_heap xs"
  have no_child: "parent j \<noteq> length xs" if "j < length (xs @ [x])" "0 < j" for j
    using that parent_less [of j] by simp
  show "below_ok (xs @ [x]) (length xs)"
    unfolding below_ok_def using no_child by blast
  have "cmp ((xs @ [x]) ! parent j) ((xs @ [x]) ! j) \<le> 0"
    if "j < length (xs @ [x])" "0 < j" "j \<noteq> length xs" for j
  proof -
    have "j < length xs" "parent j < length xs" using that parent_less [of j] by simp_all
    then show ?thesis using h that by (simp add: is_heap_def nth_append)
  qed
  then show "hole (xs @ [x]) (length xs)"
    unfolding hole_def using no_child by blast
qed

lemma heap_min: "is_heap xs \<Longrightarrow> i < length xs \<Longrightarrow> cmp (xs ! 0) (xs ! i) \<le> 0"
proof (induction i rule: less_induct)
  case (less i)
  show ?case
  proof (cases "i = 0")
    case False
    then have p: "parent i < i" by (simp add: parent_less)
    then have "cmp (xs ! 0) (xs ! parent i) \<le> 0" using less by simp
    moreover have "cmp (xs ! parent i) (xs ! i) \<le> 0" using less.prems False by (simp add: is_heap_def)
    ultimately show ?thesis by (rule cmp_trans)
  qed simp
qed

text \<open>One step up, and one step down to the smaller child.\<close>

lemma up_step:
  assumes h: "hole xs i" and i: "0 < i" "i < length xs" and gt: "0 < cmp (xs ! parent i) (xs ! i)"
  defines "ys \<equiv> swap_list xs (parent i) i"
  shows "hole ys (parent i)" "below_ok ys (parent i)"
proof -
  define p where "p = parent i"
  have p: "p < i" "p < length xs" using i parent_less [of i] by (simp_all add: p_def)
  have y: "ys ! k = (if k = p then xs ! i else if k = i then xs ! p else xs ! k)" for k
    using p i by (simp add: ys_def p_def [symmetric] nth_swap_list)
  have len: "length ys = length xs" by (simp add: ys_def)
  have xp: "cmp (xs ! i) (xs ! p) < 0" using gt cmp_swap by (simp add: p_def)
  have out: "cmp (xs ! parent j) (xs ! j) \<le> 0" if "j < length xs" "0 < j" "j \<noteq> i" "parent j \<noteq> i" for j
    using h that by (simp add: hole_def)
  have child: "cmp (xs ! p) (xs ! j) \<le> 0" if "j < length xs" "0 < j" "parent j = i" for j
    using h i that by (simp add: hole_def p_def)
  have sib: "cmp (xs ! p) (ys ! j) \<le> 0 \<and> cmp (ys ! p) (ys ! j) < 0"
    if j: "j < length xs" "0 < j" "parent j = p" for j
  proof (cases "j = i")
    case True
    then show ?thesis using xp p by (simp add: y)
  next
    case False
    have "p \<noteq> i" "j \<noteq> p" using p j parent_less [of j] by auto
    then have "cmp (xs ! p) (xs ! j) \<le> 0" using out [of j] j False by simp
    moreover from this have "cmp (xs ! i) (xs ! j) < 0" using xp cmp_less_trans by blast
    ultimately show ?thesis using False \<open>j \<noteq> p\<close> by (simp add: y)
  qed
  show "below_ok ys (parent i)"
    unfolding below_ok_def p_def [symmetric] len using sib less_imp_le by blast
  show "hole ys (parent i)"
    unfolding hole_def p_def [symmetric] len
  proof (intro conjI impI allI)
    fix j assume j: "j < length xs" "0 < j" "j \<noteq> p" "parent j \<noteq> p"
    then have "j \<noteq> i" by (auto simp: p_def)
    then show "cmp (ys ! parent j) (ys ! j) \<le> 0"
      using j out [of j] child [of j] by (cases "parent j = i") (simp_all add: y)
  next
    fix j assume j: "0 < p" "j < length xs" "0 < j" "parent j = p"
    have "parent p \<noteq> p" "parent p \<noteq> i" using j(1) p parent_less [of p] by auto
    then have "cmp (ys ! parent p) (xs ! p) \<le> 0" using out [of p] j(1) p by (simp add: y)
    then show "cmp (ys ! parent p) (ys ! j) \<le> 0" using sib [OF j(2-4)] cmp_trans by blast
  qed
qed

lemma down_step:
  assumes h: "hole xs i" "above_ok xs i" and c: "c < length xs" "0 < c" "parent c = i"
    and gt: "0 < cmp (xs ! i) (xs ! c)"
    and least: "\<And>j. j < length xs \<Longrightarrow> 0 < j \<Longrightarrow> parent j = i \<Longrightarrow> cmp (xs ! c) (xs ! j) \<le> 0"
  defines "ys \<equiv> swap_list xs i c"
  shows "hole ys c" "above_ok ys c"
proof -
  have i: "i < c" "i < length xs" using c parent_less [of c] by simp_all
  have y: "ys ! k = (if k = i then xs ! c else if k = c then xs ! i else xs ! k)" for k
    using c i by (simp add: ys_def nth_swap_list)
  have len: "length ys = length xs" by (simp add: ys_def)
  have cx: "cmp (xs ! c) (xs ! i) < 0" using gt cmp_swap by simp
  have out: "cmp (xs ! parent j) (xs ! j) \<le> 0" if "j < length xs" "0 < j" "j \<noteq> i" "parent j \<noteq> i" for j
    using h(1) that by (simp add: hole_def)
  show "above_ok ys c" using cx c i by (simp add: above_ok_def y)
  show "hole ys c"
    unfolding hole_def len
  proof (intro conjI impI allI)
    fix j assume j: "j < length xs" "0 < j" "j \<noteq> c" "parent j \<noteq> c"
    show "cmp (ys ! parent j) (ys ! j) \<le> 0"
    proof (cases "j = i")
      case True
      then have "parent i \<noteq> i" "cmp (xs ! parent i) (xs ! c) \<le> 0"
        using h(1) c j(2) parent_less [of i] by (auto simp: hole_def)
      then show ?thesis using True j(4) by (simp add: y)
    next
      case False
      then show ?thesis using j least [of j] out [of j] by (cases "parent j = i") (simp_all add: y)
    qed
  next
    fix j assume j: "0 < c" "j < length xs" "0 < j" "parent j = c"
    then have "j \<noteq> i" "j \<noteq> c" "c \<noteq> i" using i parent_less [of j] by auto
    then show "cmp (ys ! parent c) (ys ! j) \<le> 0" using out [of j] j c by (simp add: y)
  qed
qed

end

subsection \<open>Agreement of the key index\<close>

text \<open>Outside the keys \<open>K\<close> the index maps exactly the keys of the array, each to its position.\<close>

definition agrees :: "'d binary_heap_elem list \<Rightarrow> (u64 \<Rightarrow> int option) \<Rightarrow> u64 set \<Rightarrow> bool" where
  "agrees xs m K \<longleftrightarrow>
     (\<forall>k v. k \<notin> K \<longrightarrow> m k = Some v \<longleftrightarrow> (\<exists>p < length xs. bkey (xs ! p) = k \<and> v = int p))"

lemma agrees_mono: "agrees xs m K \<Longrightarrow> K \<subseteq> K' \<Longrightarrow> agrees xs m K'"
  unfolding agrees_def by blast

lemma agrees_None:
  "agrees xs m K \<Longrightarrow> k \<notin> K \<Longrightarrow> m k = None \<longleftrightarrow> k \<notin> bkey ` set xs"
proof -
  assume a: "agrees xs m K" "k \<notin> K"
  then have *: "m k = Some v \<longleftrightarrow> (\<exists>p < length xs. bkey (xs ! p) = k \<and> v = int p)" for v
    by (simp add: agrees_def)
  have "k \<in> bkey ` set xs \<longleftrightarrow> (\<exists>v. m k = Some v)"
    unfolding * by (metis (no_types, lifting) imageE image_eqI in_set_conv_nth)
  then show "m k = None \<longleftrightarrow> k \<notin> bkey ` set xs" by auto
qed

lemma distinct_keys_nth:
  "distinct (map bkey xs) \<Longrightarrow> p < length xs \<Longrightarrow> q < length xs \<Longrightarrow> bkey (xs ! p) = bkey (xs ! q) \<longleftrightarrow> p = q"
  using nth_eq_iff_index_eq [of "map bkey xs" p q] by simp

lemma agrees_swap:
  assumes a: "agrees xs m K" and d: "distinct (map bkey xs)" and ij: "i < length xs" "j < length xs" "i \<noteq> j"
    and K: "K \<subseteq> {bkey (xs ! i), bkey (xs ! j)}"
  shows "agrees (swap_list xs i j) (m(bkey (xs ! j) \<mapsto> int i, bkey (xs ! i) \<mapsto> int j)) {}"
  unfolding agrees_def
proof (intro allI impI)
  fix k v
  let ?m = "m(bkey (xs ! j) \<mapsto> int i, bkey (xs ! i) \<mapsto> int j)"
  have y: "bkey (swap_list xs i j ! p) = (if p = i then bkey (xs ! j) else if p = j then bkey (xs ! i) else bkey (xs ! p))" for p
    using ij by (simp add: nth_swap_list)
  consider "k = bkey (xs ! i)" | "k = bkey (xs ! j)" "k \<noteq> bkey (xs ! i)"
    | "k \<noteq> bkey (xs ! i)" "k \<noteq> bkey (xs ! j)" by blast
  then show "?m k = Some v \<longleftrightarrow> (\<exists>p < length (swap_list xs i j). bkey (swap_list xs i j ! p) = k \<and> v = int p)"
  proof cases
    case 1
    have "bkey (swap_list xs i j ! p) = k \<longleftrightarrow> p = j" if "p < length xs" for p
      using y [of p] distinct_keys_nth [OF d] that ij 1 by auto
    then show ?thesis using 1 ij by auto
  next
    case 2
    have "bkey (swap_list xs i j ! p) = k \<longleftrightarrow> p = i" if "p < length xs" for p
      using y [of p] distinct_keys_nth [OF d] that ij 2 by auto
    then show ?thesis using 2 ij by auto
  next
    case 3
    have "bkey (swap_list xs i j ! p) = k \<longleftrightarrow> bkey (xs ! p) = k" for p
      using y [of p] 3 by auto
    then show ?thesis using 3 a K unfolding agrees_def by auto
  qed
qed

lemma agrees_set:
  assumes "agrees xs m K" "K \<subseteq> {bkey (xs ! i)}" "i < length xs" "distinct (map bkey xs)"
  shows "agrees xs (m(bkey (xs ! i) \<mapsto> int i)) {}"
  unfolding agrees_def
proof (intro allI impI)
  fix k v
  show "(m(bkey (xs ! i) \<mapsto> int i)) k = Some v \<longleftrightarrow> (\<exists>p < length xs. bkey (xs ! p) = k \<and> v = int p)"
  proof (cases "k = bkey (xs ! i)")
    case True
    then show ?thesis using assms distinct_keys_nth [OF assms(4) _ assms(3)] by auto
  next
    case False
    then have "k \<notin> K" using assms(2) by blast
    then show ?thesis using assms(1) False by (simp add: agrees_def)
  qed
qed

definition index_ok :: "'d binary_heap \<Rightarrow> u64 set \<Rightarrow> bool" where
  "index_ok heap K \<longleftrightarrow> hm_inv (key_index heap) \<and> distinct (map bkey (elems heap)) \<and>
     agrees (elems heap) (hm_map (key_index heap)) K"

lemma index_ok_mono: "index_ok heap K \<Longrightarrow> K \<subseteq> K' \<Longrightarrow> index_ok heap K'"
  unfolding index_ok_def using agrees_mono by blast

lemma HAS_DIRECT_OPTION_cong: "options h = options h' \<Longrightarrow> HAS_DIRECT_OPTION h \<longleftrightarrow> HAS_DIRECT_OPTION h'"
  by (simp add: HAS_DIRECT_OPTION_def)

lemma elems_swap: "elems (swap heap i j) = swap_list (elems heap) i j"
  by (simp add: swap_list_def)

lemma index_ok_swap:
  assumes "index_ok heap K" "HAS_DIRECT_OPTION heap" "i < length (elems heap)" "j < length (elems heap)"
    "i \<noteq> j" "K \<subseteq> {bkey (elems heap ! i), bkey (elems heap ! j)}"
  shows "index_ok (swap heap i j) {}"
proof -
  let ?xs = "elems heap"
  have I: "hm_inv (key_index heap)" "distinct (map bkey ?xs)" "agrees ?xs (hm_map (key_index heap)) K"
    using assms(1) by (simp_all add: index_ok_def)
  have "key_index (swap heap i j) =
      zbx_hashmap_set (zbx_hashmap_set (key_index heap) (bkey (?xs ! j)) (int i)) (bkey (?xs ! i)) (int j)"
    using assms(2-5) by (simp add: swap_def Let_def HAS_DIRECT_OPTION_def)
  then have k: "hm_inv (key_index (swap heap i j))"
      "hm_map (key_index (swap heap i j)) =
        (hm_map (key_index heap))(bkey (?xs ! j) \<mapsto> int i, bkey (?xs ! i) \<mapsto> int j)"
    using I(1) by (simp_all add: hashmap.inv_set hashmap.lookup_set)
  have "mset (map bkey (swap_list ?xs i j)) = mset (map bkey ?xs)"
    using mset_swap_list [OF assms(3,4)] by simp
  then have "distinct (map bkey (swap_list ?xs i j))"
    using I(2) by (metis mset_eq_imp_distinct_iff)
  then show ?thesis
    unfolding index_ok_def k(2) elems_swap using k(1) agrees_swap [OF I(3,2) assms(3-6)] by simp
qed

subsection \<open>Bubbling\<close>

definition same_frame :: "'d binary_heap \<Rightarrow> 'd binary_heap \<Rightarrow> bool" where
  "same_frame h h' \<longleftrightarrow> mset (elems h') = mset (elems h) \<and> elems_alloc h' = elems_alloc h \<and>
     options h' = options h \<and> bh_compare h' = bh_compare h"

lemma same_frame_refl [simp]: "same_frame h h"
  by (simp add: same_frame_def)

lemma same_frame_trans: "same_frame a b \<Longrightarrow> same_frame b c \<Longrightarrow> same_frame a c"
  by (simp add: same_frame_def)

lemma same_frame_swap: "i < length (elems h) \<Longrightarrow> j < length (elems h) \<Longrightarrow> same_frame h (swap h i j)"
  by (simp add: same_frame_def elems_swap mset_swap_list del: swap_fields(1))

lemma bubble_up_step:
  "binary_heap_bubble_up heap index =
     (if 0 < index \<and> 0 < bh_compare heap (elems heap ! parent index) (elems heap ! index)
      then binary_heap_bubble_up (swap heap (parent index) index) (parent index)
      else (heap, index))"
  by (subst binary_heap_bubble_up.simps) (auto simp: parent_def)

lemma bubble_up_le: "binary_heap_bubble_up heap index = (heap', index') \<Longrightarrow> index' \<le> index"
proof (induction index arbitrary: heap rule: less_induct)
  case (less index)
  show ?case
    using less.prems parent_less [of index] less.IH [of "parent index" "swap heap (parent index) index"]
    by (auto simp: bubble_up_step [of heap index] split: if_splits)
qed

lemma bubble_up_correct:
  "\<lbrakk>compare_func (bh_compare heap); index < length (elems heap);
    compare_func.hole (bh_compare heap) (elems heap) index;
    binary_heap_bubble_up heap index = (heap', index')\<rbrakk> \<Longrightarrow>
   same_frame heap heap' \<and> index' < length (elems heap) \<and>
   (index' = index \<longrightarrow> heap' = heap) \<and>
   compare_func.hole (bh_compare heap) (elems heap') index' \<and>
   compare_func.above_ok (bh_compare heap) (elems heap') index' \<and>
   (index' \<noteq> index \<or> compare_func.below_ok (bh_compare heap) (elems heap) index \<longrightarrow>
     compare_func.below_ok (bh_compare heap) (elems heap') index') \<and>
   (index' \<noteq> index \<longrightarrow> HAS_DIRECT_OPTION heap \<longrightarrow> index_ok heap {bkey (elems heap ! index)} \<longrightarrow>
     index_ok heap' {})"
proof (induction index arbitrary: heap rule: less_induct)
  case (less index)
  let ?cmp = "bh_compare heap" and ?p = "parent index"
  note C = less.prems(1) and i = less.prems(2) and h = less.prems(3)
  show ?case
  proof (cases "0 < index \<and> 0 < ?cmp (elems heap ! ?p) (elems heap ! index)")
    case False
    then have e: "binary_heap_bubble_up heap index = (heap, index)" by (subst bubble_up_step) auto
    then have "heap' = heap" "index' = index" using less.prems(4) by simp_all
    moreover have "compare_func.above_ok ?cmp (elems heap) index"
      using False by (auto simp: compare_func.above_ok_def [OF C])
    ultimately show ?thesis using i h by auto
  next
    case True
    define h1 where "h1 = swap heap ?p index"
    have p: "?p < length (elems heap)" "?p < index" using True i parent_less [of index] by auto
    have e: "binary_heap_bubble_up h1 ?p = (heap', index')"
      using less.prems(4) True by (subst (asm) bubble_up_step) (simp add: h1_def)
    have f: "same_frame heap h1" "bh_compare h1 = ?cmp" "length (elems h1) = length (elems heap)"
      "options h1 = options heap"
      using same_frame_swap [OF p(1) i] by (simp_all add: h1_def)
    have st: "compare_func.hole ?cmp (elems h1) ?p" "compare_func.below_ok ?cmp (elems h1) ?p"
      using compare_func.up_step [OF C h _ i] True unfolding h1_def elems_swap by simp_all
    note ih = less.IH [OF p(2), of h1, unfolded f(2,3), OF C p(1) st(1) e]
    have le: "index' \<noteq> index" using bubble_up_le [OF e] p(2) by simp
    have "index_ok heap' {}" if "HAS_DIRECT_OPTION heap" "index_ok heap {bkey (elems heap ! index)}"
    proof -
      have "index_ok h1 {}" unfolding h1_def by (rule index_ok_swap [OF that(2,1)]) (use p i in auto)
      then show ?thesis
        using ih that(1) HAS_DIRECT_OPTION_cong [OF f(4)] index_ok_mono [of h1 "{}"] by (cases "index' = ?p") auto
    qed
    then show ?thesis using ih le st(2) same_frame_trans [OF f(1), of heap'] by auto
  qed
qed

definition smaller_child :: "'d binary_heap \<Rightarrow> nat \<Rightarrow> nat" where
  "smaller_child heap index =
     (if length (elems heap) \<le> 2 * index + 2 \<or>
         bh_compare heap (elems heap ! (2 * index + 1)) (elems heap ! (2 * index + 2)) \<le> 0
      then 2 * index + 1 else 2 * index + 2)"

lemma bubble_down_step:
  "binary_heap_bubble_down heap index =
     (let c = smaller_child heap index in
      if c < length (elems heap) \<and> 0 < bh_compare heap (elems heap ! index) (elems heap ! c)
      then binary_heap_bubble_down (swap heap index c) c else (heap, index))"
proof -
  have leaf: "binary_heap_bubble_down h i = (h, i)" if "length (elems h) \<le> 2 * i + 1" for h :: "'d binary_heap" and i
    using that by (subst binary_heap_bubble_down.simps) simp
  show ?thesis
    by (subst binary_heap_bubble_down.simps) (auto simp: smaller_child_def Let_def leaf)
qed

lemma smaller_child:
  assumes C: "compare_func (bh_compare heap)" and c: "smaller_child heap index < length (elems heap)"
  shows "parent (smaller_child heap index) = index" "index < smaller_child heap index"
    and "j < length (elems heap) \<Longrightarrow> 0 < j \<Longrightarrow> parent j = index \<Longrightarrow>
      bh_compare heap (elems heap ! smaller_child heap index) (elems heap ! j) \<le> 0"
proof -
  show "parent (smaller_child heap index) = index" "index < smaller_child heap index"
    by (auto simp: smaller_child_def parent_def)
  assume j: "j < length (elems heap)" "0 < j" "parent j = index"
  then have "j = 2 * index + 1 \<or> j = 2 * index + 2" by (simp add: parent_eq_iff)
  then show "bh_compare heap (elems heap ! smaller_child heap index) (elems heap ! j) \<le> 0"
    using j(1) compare_func.cmp_total [OF C] compare_func.cmp_refl [OF C]
    by (auto simp: smaller_child_def)
qed

lemma no_smaller_child:
  assumes C: "compare_func (bh_compare heap)"
    and stop: "\<not> (smaller_child heap index < length (elems heap) \<and>
      0 < bh_compare heap (elems heap ! index) (elems heap ! smaller_child heap index))"
  shows "compare_func.below_ok (bh_compare heap) (elems heap) index"
  unfolding compare_func.below_ok_def [OF C]
proof (intro allI impI)
  fix j assume j: "j < length (elems heap)" "0 < j" "parent j = index"
  then have "smaller_child heap index < length (elems heap)"
    by (auto simp: parent_eq_iff smaller_child_def)
  then have "bh_compare heap (elems heap ! index) (elems heap ! smaller_child heap index) \<le> 0"
    "bh_compare heap (elems heap ! smaller_child heap index) (elems heap ! j) \<le> 0"
    using stop smaller_child(3) [OF C _ j] by auto
  then show "bh_compare heap (elems heap ! index) (elems heap ! j) \<le> 0"
    by (rule compare_func.cmp_trans [OF C])
qed

lemma bubble_down_ge: "binary_heap_bubble_down heap index = (heap', index') \<Longrightarrow> index \<le> index'"
proof (induction "length (elems heap) - index" arbitrary: heap index rule: less_induct)
  case less
  let ?c = "smaller_child heap index"
  show ?case
  proof (cases "?c < length (elems heap) \<and> 0 < bh_compare heap (elems heap ! index) (elems heap ! ?c)")
    case False
    then show ?thesis using less.prems by (subst (asm) bubble_down_step) (auto simp: Let_def)
  next
    case True
    then have "binary_heap_bubble_down (swap heap index ?c) ?c = (heap', index')"
      using less.prems by (subst (asm) bubble_down_step) (simp add: Let_def)
    moreover have "index < ?c" by (auto simp: smaller_child_def)
    moreover from this have "length (elems heap) - ?c < length (elems heap) - index" using True by linarith
    ultimately show ?thesis using less.hyps [of "swap heap index ?c" ?c] by simp
  qed
qed

lemma bubble_down_correct:
  "\<lbrakk>compare_func (bh_compare heap); index < length (elems heap);
    compare_func.hole (bh_compare heap) (elems heap) index;
    compare_func.above_ok (bh_compare heap) (elems heap) index;
    binary_heap_bubble_down heap index = (heap', index')\<rbrakk> \<Longrightarrow>
   same_frame heap heap' \<and> (index' = index \<longrightarrow> heap' = heap) \<and>
   compare_func.is_heap (bh_compare heap) (elems heap') \<and>
   (index' \<noteq> index \<longrightarrow> HAS_DIRECT_OPTION heap \<longrightarrow> index_ok heap {bkey (elems heap ! index)} \<longrightarrow>
     index_ok heap' {})"
proof (induction "length (elems heap) - index" arbitrary: heap index rule: less_induct)
  case less
  let ?cmp = "bh_compare heap" and ?c = "smaller_child heap index"
  note C = less.prems(1) and i = less.prems(2) and h = less.prems(3) and a = less.prems(4)
  show ?case
  proof (cases "?c < length (elems heap) \<and> 0 < ?cmp (elems heap ! index) (elems heap ! ?c)")
    case False
    then have "heap' = heap" "index' = index"
      using less.prems(5) by (subst (asm) bubble_down_step, auto simp: Let_def)+
    then show ?thesis using compare_func.is_heapI [OF C h a no_smaller_child [OF C False]] by simp
  next
    case True
    then have c: "?c < length (elems heap)" "0 < ?cmp (elems heap ! index) (elems heap ! ?c)" by auto
    note sc = smaller_child [OF C c(1)]
    have c0: "0 < ?c" using sc(2) by simp
    define h1 where "h1 = swap heap index ?c"
    have e: "binary_heap_bubble_down h1 ?c = (heap', index')"
      using less.prems(5) True by (subst (asm) bubble_down_step) (simp add: h1_def Let_def)
    have f: "same_frame heap h1" "bh_compare h1 = ?cmp" "length (elems h1) = length (elems heap)"
      "options h1 = options heap"
      using same_frame_swap [OF i c(1)] by (simp_all add: h1_def)
    have st: "compare_func.hole ?cmp (elems h1) ?c" "compare_func.above_ok ?cmp (elems h1) ?c"
      using compare_func.down_step [OF C h a c(1) c0 sc(1) c(2) sc(3)] unfolding h1_def elems_swap by blast+
    have "length (elems heap) - ?c < length (elems heap) - index" using c(1) sc(2) by linarith
    note ih = less.hyps [of h1 ?c, unfolded f(2,3), OF this C c(1) st e]
    have le: "index' \<noteq> index" using bubble_down_ge [OF e] sc(2) by simp
    have "index_ok heap' {}" if "HAS_DIRECT_OPTION heap" "index_ok heap {bkey (elems heap ! index)}"
    proof -
      have "index_ok h1 {}" unfolding h1_def by (rule index_ok_swap [OF that(2,1)]) (use sc i c in auto)
      then show ?thesis
        using ih that(1) HAS_DIRECT_OPTION_cong [OF f(4)] index_ok_mono [of h1 "{}"] by (cases "index' = ?c") auto
    qed
    then show ?thesis using ih le same_frame_trans [OF f(1), of heap'] by auto
  qed
qed

subsection \<open>The operations\<close>

definition heap_inv :: "'d binary_heap \<Rightarrow> bool" where
  "heap_inv heap \<longleftrightarrow> compare_func (bh_compare heap) \<and> compare_func.is_heap (bh_compare heap) (elems heap) \<and>
     length (elems heap) \<le> elems_alloc heap \<and> (HAS_DIRECT_OPTION heap \<longrightarrow> index_ok heap {})"

definition heap_keys :: "'d binary_heap \<Rightarrow> u64 set" where
  "heap_keys heap = bkey ` set (elems heap)"

lemma same_frame_length: "same_frame h h' \<Longrightarrow> length (elems h') = length (elems h)"
  by (metis same_frame_def size_mset)

lemma same_frame_direct: "same_frame h h' \<Longrightarrow> HAS_DIRECT_OPTION h' \<longleftrightarrow> HAS_DIRECT_OPTION h"
  by (simp add: same_frame_def HAS_DIRECT_OPTION_def)

text \<open>What the index answers.\<close>

lemma index_get_absent:
  "index_ok heap {} \<Longrightarrow> k \<notin> heap_keys heap \<Longrightarrow> zbx_hashmap_get (key_index heap) k = FAIL_value"
  unfolding index_ok_def heap_keys_def
  using agrees_None [of "elems heap" "hm_map (key_index heap)" "{}" k] by (simp add: hashmap.get)

lemma index_get_present:
  "index_ok heap {} \<Longrightarrow> p < length (elems heap) \<Longrightarrow>
   zbx_hashmap_get (key_index heap) (bkey (elems heap ! p)) = int p"
proof -
  assume ix: "index_ok heap {}" and p: "p < length (elems heap)"
  then have "hm_map (key_index heap) (bkey (elems heap ! p)) = Some (int p)"
    unfolding index_ok_def agrees_def by blast
  then show ?thesis using ix by (simp add: index_ok_def hashmap.get)
qed

lemma index_get_iff:
  "index_ok heap {} \<Longrightarrow> FAIL_value \<noteq> zbx_hashmap_get (key_index heap) k \<longleftrightarrow> k \<in> heap_keys heap"
proof (cases "k \<in> heap_keys heap")
  case True
  assume ix: "index_ok heap {}"
  obtain p where "p < length (elems heap)" "k = bkey (elems heap ! p)"
    using True by (auto simp: heap_keys_def in_set_conv_nth)
  then have "zbx_hashmap_get (key_index heap) k = int p" using index_get_present [OF ix] by simp
  then show ?thesis using True by (simp add: FAIL_value_def)
qed (simp add: index_get_absent)

text \<open>Storing the position of the element at \<open>i\<close>.\<close>

definition set_position :: "'d binary_heap \<Rightarrow> nat \<Rightarrow> 'd binary_heap" where
  "set_position heap i = heap\<lparr>key_index := zbx_hashmap_set (key_index heap) (bkey (elems heap ! i)) (int i)\<rparr>"

lemma set_position_fields [simp]:
  "elems (set_position h i) = elems h" "elems_alloc (set_position h i) = elems_alloc h"
  "options (set_position h i) = options h" "bh_compare (set_position h i) = bh_compare h"
  by (simp_all add: set_position_def)

lemma index_ok_set_position:
  assumes "index_ok heap {bkey (elems heap ! i)}" "i < length (elems heap)"
  shows "index_ok (set_position heap i) {}"
  using assms agrees_set [of "elems heap" "hm_map (key_index heap)" _ i]
  unfolding index_ok_def by (auto simp: set_position_def hashmap.inv_set hashmap.lookup_set)

lemma index_ok_snoc:
  assumes "index_ok heap {}" "bkey e \<notin> heap_keys heap" "key_index h1 = key_index heap"
    "elems h1 = elems heap @ [e]"
  shows "index_ok h1 {bkey e}"
proof -
  have "(\<exists>p < length (elems h1). bkey (elems h1 ! p) = k \<and> v = int p) \<longleftrightarrow>
        (\<exists>p < length (elems heap). bkey (elems heap ! p) = k \<and> v = int p)"
    if "k \<noteq> bkey e" for k and v :: int
    using that by (auto simp: assms(4) nth_append less_Suc_eq)
  then have "agrees (elems h1) (hm_map (key_index h1)) {bkey e}"
    using assms(1,3) by (simp add: index_ok_def agrees_def)
  then show ?thesis
    using assms by (auto simp: index_ok_def heap_keys_def)
qed

lemma ensure_free_space:
  assumes "length (elems heap) \<le> elems_alloc heap"
  shows "binary_heap_ensure_free_space mem_ok heap =
     (if length (elems heap) = elems_alloc heap \<and> \<not> mem_ok then Inl Exit_Failure
      else Inr (heap\<lparr>elems_alloc := (if elems_alloc heap = 0 then 32
        else if length (elems heap) = elems_alloc heap then max (elems_alloc heap + 1) (elems_alloc heap * 3 div 2)
        else elems_alloc heap)\<rparr>))"
  using assms by (auto simp: binary_heap_ensure_free_space_def Let_def max_def)

lemma heap_insert:
  assumes inv: "heap_inv heap"
  shows "case zbx_binary_heap_insert mem_ok heap e of
      Inl f \<Rightarrow> f = Exit_Failure \<and> (HAS_DIRECT_OPTION heap \<and> bkey e \<in> heap_keys heap \<or>
        length (elems heap) = elems_alloc heap \<and> \<not> mem_ok)
    | Inr heap' \<Rightarrow> heap_inv heap' \<and> mset (elems heap') = add_mset e (mset (elems heap)) \<and>
        options heap' = options heap \<and> bh_compare heap' = bh_compare heap \<and>
        \<not> (HAS_DIRECT_OPTION heap \<and> bkey e \<in> heap_keys heap)"
proof -
  let ?D = "HAS_DIRECT_OPTION heap" and ?n = "length (elems heap)"
  have C: "compare_func (bh_compare heap)" and hp: "compare_func.is_heap (bh_compare heap) (elems heap)"
    and al: "?n \<le> elems_alloc heap" and ix: "?D \<Longrightarrow> index_ok heap {}"
    using inv by (simp_all add: heap_inv_def)
  have dup: "?D \<and> FAIL_value \<noteq> zbx_hashmap_get (key_index heap) (bkey e) \<longleftrightarrow> ?D \<and> bkey e \<in> heap_keys heap"
    using ix index_get_iff by blast
  show ?thesis
  proof (cases "?D \<and> bkey e \<in> heap_keys heap")
    case True
    then show ?thesis using dup by (simp add: zbx_binary_heap_insert_def)
  next
    case nodup: False
    show ?thesis
    proof (cases "?n = elems_alloc heap \<and> \<not> mem_ok")
      case True
      then show ?thesis
        using dup nodup by (simp add: zbx_binary_heap_insert_def ensure_free_space [OF al])
    next
      case False
      obtain alloc where en: "binary_heap_ensure_free_space mem_ok heap = Inr (heap\<lparr>elems_alloc := alloc\<rparr>)"
          and alloc: "?n < alloc"
        using False al by (auto simp: ensure_free_space [OF al] max_def)
      define h1 where "h1 = heap\<lparr>elems_alloc := alloc, elems := elems heap @ [e]\<rparr>"
      obtain h2 i where up: "binary_heap_bubble_up h1 ?n = (h2, i)" by (cases "binary_heap_bubble_up h1 ?n")
      have f1: "elems h1 = elems heap @ [e]" "bh_compare h1 = bh_compare heap" "options h1 = options heap"
        "key_index h1 = key_index heap" "elems_alloc h1 = alloc" "HAS_DIRECT_OPTION h1 \<longleftrightarrow> ?D"
        by (simp_all add: h1_def HAS_DIRECT_OPTION_def)
      have hole: "compare_func.hole (bh_compare h1) (elems h1) ?n" "compare_func.below_ok (bh_compare h1) (elems h1) ?n"
        using compare_func.is_heap_append [OF C hp, of e] by (simp_all add: f1)
      have U: "same_frame h1 h2" "i < length (elems h1)" "i = ?n \<longrightarrow> h2 = h1"
        "compare_func.hole (bh_compare heap) (elems h2) i \<and> compare_func.above_ok (bh_compare heap) (elems h2) i \<and>
         compare_func.below_ok (bh_compare heap) (elems h2) i"
        "i \<noteq> ?n \<longrightarrow> ?D \<longrightarrow> index_ok h1 {bkey e} \<longrightarrow> index_ok h2 {}"
        using bubble_up_correct [OF _ _ hole(1) up] hole(2) C by (simp_all add: f1)
      have hp2: "compare_func.is_heap (bh_compare heap) (elems h2)"
        using U(4) compare_func.is_heapI [OF C] by blast
      have fr: "mset (elems h2) = add_mset e (mset (elems heap))" "options h2 = options heap"
        "bh_compare h2 = bh_compare heap" "elems_alloc h2 = alloc" "HAS_DIRECT_OPTION h2 \<longleftrightarrow> ?D"
        "length (elems h2) = Suc ?n"
        using U(1) same_frame_direct [OF U(1)] same_frame_length [OF U(1)]
        by (simp_all add: same_frame_def f1)
      have ix1: "?D \<Longrightarrow> index_ok h1 {bkey e}"
        using nodup ix f1 by (intro index_ok_snoc [of heap]) auto
      define r where "r = (if ?D \<and> i = ?n then set_position h2 ?n else h2)"
      have "zbx_binary_heap_insert mem_ok heap e = Inr r"
      proof (cases "?D \<and> i = ?n")
        case True
        then show ?thesis
          using dup nodup en alloc up U(3) fr f1
          by (simp add: zbx_binary_heap_insert_def h1_def [symmetric] r_def set_position_def Let_def)
      next
        case False
        then show ?thesis
          using dup nodup en alloc up fr
          by (auto simp: zbx_binary_heap_insert_def h1_def [symmetric] r_def Let_def)
      qed
      moreover have "?D \<longrightarrow> index_ok r {}"
      proof
        assume D: ?D
        show "index_ok r {}"
        proof (cases "i = ?n")
          case True
          then show ?thesis
            using D ix1 U(3) f1 by (simp add: r_def) (rule index_ok_set_position; simp)
        qed (use D ix1 U(5) in \<open>simp add: r_def\<close>)
      qed
      moreover have "elems r = elems h2" "options r = options h2" "bh_compare r = bh_compare h2"
        "elems_alloc r = elems_alloc h2"
        by (simp_all add: r_def)
      moreover from this have "HAS_DIRECT_OPTION r \<longleftrightarrow> ?D" using fr(2) by (simp add: HAS_DIRECT_OPTION_def)
      ultimately show ?thesis
        using hp2 fr C alloc nodup by (auto simp: heap_inv_def)
    qed
  qed
qed

text \<open>Restoring the order after the element at \<open>i\<close> has been replaced.\<close>

lemma sift_correct:
  assumes C: "compare_func (bh_compare h)" and i: "i < length (elems h)"
    and hole: "compare_func.hole (bh_compare h) (elems h) i"
    and up: "binary_heap_bubble_up h i = (h2, i2)" and down: "binary_heap_bubble_down h i = (h3, i3)"
  shows "i2 \<noteq> i \<Longrightarrow> same_frame h h2 \<and> compare_func.is_heap (bh_compare h) (elems h2) \<and>
      (HAS_DIRECT_OPTION h \<longrightarrow> index_ok h {bkey (elems h ! i)} \<longrightarrow> index_ok h2 {})"
    and "i2 = i \<Longrightarrow> h2 = h"
    and "i2 = i \<Longrightarrow> same_frame h h3 \<and> compare_func.is_heap (bh_compare h) (elems h3) \<and> (i3 = i \<longrightarrow> h3 = h) \<and>
      (i3 \<noteq> i \<longrightarrow> HAS_DIRECT_OPTION h \<longrightarrow> index_ok h {bkey (elems h ! i)} \<longrightarrow> index_ok h3 {})"
proof -
  note U = bubble_up_correct [OF C i hole up]
  show "i2 \<noteq> i \<Longrightarrow> same_frame h h2 \<and> compare_func.is_heap (bh_compare h) (elems h2) \<and>
      (HAS_DIRECT_OPTION h \<longrightarrow> index_ok h {bkey (elems h ! i)} \<longrightarrow> index_ok h2 {})"
    using U compare_func.is_heapI [OF C, of "elems h2" i2] by blast
  show "i2 = i \<Longrightarrow> h2 = h" using U by blast
  assume "i2 = i"
  then have "compare_func.above_ok (bh_compare h) (elems h) i" using U by auto
  from bubble_down_correct [OF C i hole this down]
  show "same_frame h h3 \<and> compare_func.is_heap (bh_compare h) (elems h3) \<and> (i3 = i \<longrightarrow> h3 = h) \<and>
      (i3 \<noteq> i \<longrightarrow> HAS_DIRECT_OPTION h \<longrightarrow> index_ok h {bkey (elems h ! i)} \<longrightarrow> index_ok h3 {})"
    by blast
qed

lemma take_update_swap_remove:
  "i < length xs \<Longrightarrow> (take (length xs - 1) xs)[i := xs ! (length xs - 1)] = swap_remove i xs"
  by (cases xs rule: rev_cases) (auto simp: swap_remove_def list_update_append nth_append butlast_append list_update_beyond)

lemma take_swap_remove: "xs \<noteq> [] \<Longrightarrow> take (length xs - 1) xs = swap_remove (length xs - 1) xs"
  by (cases xs rule: rev_cases) (auto simp: swap_remove_def list_update_append)

lemma nth_swap_remove:
  "i < length xs \<Longrightarrow> p < length xs - 1 \<Longrightarrow>
   swap_remove i xs ! p = (if p = i then xs ! (length xs - 1) else xs ! p)"
  by (cases xs rule: rev_cases) (auto simp: swap_remove_def list_update_append nth_append nth_butlast nth_list_update)

lemma filter_mset_key:
  assumes "distinct (map bkey xs)" "i < length xs"
  shows "filter_mset (\<lambda>x. bkey x \<noteq> bkey (xs ! i)) (mset xs) = mset xs - {#xs ! i#}"
proof -
  have "xs = take i xs @ xs ! i # drop (Suc i) xs" using assms(2) by (rule id_take_nth_drop)
  then obtain ys zs x where xs: "xs = ys @ x # zs" "x = xs ! i" by blast
  have "filter (\<lambda>y. bkey y \<noteq> bkey x) ys = ys" "filter (\<lambda>y. bkey y \<noteq> bkey x) zs = zs"
    using assms(1) unfolding xs(1) by (auto intro!: filter_True simp: rev_image_eqI [symmetric]) (metis imageI)+
  then have "filter_mset (\<lambda>y. bkey y \<noteq> bkey x) (mset xs) = mset ys + mset zs"
    by (subst xs(1)) (simp flip: mset_filter)
  also have "\<dots> = mset xs - {#x#}" by (subst xs(1)) simp
  finally show ?thesis by (simp add: xs(2) [symmetric])
qed

lemma agrees_swap_remove:
  assumes a: "agrees xs m {}" and d: "distinct (map bkey xs)" and i: "i < length xs"
  defines "n \<equiv> length xs - 1"
  shows "agrees (swap_remove i xs) (m(bkey (xs ! i) := None)) (if i = n then {} else {bkey (xs ! n)})"
    and "distinct (map bkey (swap_remove i xs))"
proof -
  have n: "n < length xs" using i by (simp add: n_def)
  have "mset (map bkey xs) = add_mset (bkey (xs ! i)) (mset (map bkey (swap_remove i xs)))"
    using i by (simp add: mset_swap_remove image_mset_Diff)
  then have "mset (map bkey xs) = mset (bkey (xs ! i) # map bkey (swap_remove i xs))" by simp
  then have "distinct (bkey (xs ! i) # map bkey (swap_remove i xs))"
    using d by (metis mset_eq_imp_distinct_iff)
  then show dd: "distinct (map bkey (swap_remove i xs))" by simp
  show "agrees (swap_remove i xs) (m(bkey (xs ! i) := None)) (if i = n then {} else {bkey (xs ! n)})"
    unfolding agrees_def
  proof (intro allI impI)
    fix k v
    assume k: "k \<notin> (if i = n then {} else {bkey (xs ! n)})"
    have "(\<exists>p < length (swap_remove i xs). bkey (swap_remove i xs ! p) = k \<and> v = int p) \<longleftrightarrow>
        (\<exists>p < length xs. bkey (xs ! p) = k \<and> p \<noteq> i \<and> v = int p)" (is "?L \<longleftrightarrow> ?R")
    proof
      assume ?L
      then obtain p where p: "p < n" "bkey (swap_remove i xs ! p) = k" "v = int p" by (auto simp: n_def)
      then have "p \<noteq> i" using k nth_swap_remove [OF i, of p] n_def by (auto split: if_splits)
      then have "bkey (xs ! p) = k" using p nth_swap_remove [OF i, of p] by (simp add: n_def)
      then show ?R using p \<open>p \<noteq> i\<close> n by auto
    next
      assume ?R
      then obtain p where p: "p < length xs" "bkey (xs ! p) = k" "p \<noteq> i" "v = int p" by blast
      have "p \<noteq> n" using k p(2,3) by (auto split: if_splits)
      then have "p < n" using p(1) by (simp add: n_def)
      then show ?L using p nth_swap_remove [OF i, of p] by (auto simp: n_def intro!: exI [of _ p])
    qed
    moreover have "(m(bkey (xs ! i) := None)) k = Some v \<longleftrightarrow>
        (\<exists>p < length xs. bkey (xs ! p) = k \<and> p \<noteq> i \<and> v = int p)"
    proof (cases "k = bkey (xs ! i)")
      case True
      then show ?thesis using distinct_keys_nth [OF d _ i] by auto
    next
      case False
      then show ?thesis using a unfolding agrees_def by auto
    qed
    ultimately show "(m(bkey (xs ! i) := None)) k = Some v \<longleftrightarrow>
        (\<exists>p < length (swap_remove i xs). bkey (swap_remove i xs ! p) = k \<and> v = int p)" by simp
  qed
qed

text \<open>The heap with the element at \<open>i\<close> replaced by the last one and its key dropped.\<close>

definition cut_at :: "'d binary_heap \<Rightarrow> nat \<Rightarrow> 'd binary_heap" where
  "cut_at heap i = heap\<lparr>elems := swap_remove i (elems heap),
     key_index := (if HAS_DIRECT_OPTION heap
       then zbx_hashmap_remove (key_index heap) (bkey (elems heap ! i)) else key_index heap)\<rparr>"

lemma cut_at_fields [simp]:
  "elems (cut_at h i) = swap_remove i (elems h)" "elems_alloc (cut_at h i) = elems_alloc h"
  "options (cut_at h i) = options h" "bh_compare (cut_at h i) = bh_compare h"
  "HAS_DIRECT_OPTION (cut_at h i) \<longleftrightarrow> HAS_DIRECT_OPTION h"
  by (simp_all add: cut_at_def HAS_DIRECT_OPTION_def)

lemma cut_at_index:
  assumes "index_ok heap {}" "HAS_DIRECT_OPTION heap" "i < length (elems heap)"
  shows "index_ok (cut_at heap i)
    (if i = length (elems heap) - 1 then {} else {bkey (elems heap ! (length (elems heap) - 1))})"
  using assms agrees_swap_remove [of "elems heap" "hm_map (key_index heap)" i]
  unfolding index_ok_def cut_at_fields by (simp add: cut_at_def hashmap.inv_remove hashmap.lookup_remove)

lemma cut_at_hole:
  assumes C: "compare_func cmp" and h: "compare_func.is_heap cmp xs" and i: "i < length xs - 1"
  shows "compare_func.hole cmp (swap_remove i xs) i"
proof -
  have "compare_func.is_heap cmp (take (length xs - 1) xs)"
    using compare_func.is_heap_take [OF C h] .
  from compare_func.is_heap_hole [OF C this, of i]
  have "compare_func.hole cmp (take (length xs - 1) xs) i" using i by simp
  from compare_func.hole_update [OF C this, of "xs ! (length xs - 1)"]
  show ?thesis using i take_update_swap_remove [of i xs] by simp
qed

lemma cut_at_last_heap:
  "compare_func cmp \<Longrightarrow> compare_func.is_heap cmp xs \<Longrightarrow> xs \<noteq> [] \<Longrightarrow>
   compare_func.is_heap cmp (swap_remove (length xs - 1) xs)"
  by (metis take_swap_remove compare_func.is_heap_take)

text \<open>Finishing a removal at \<open>i\<close>: the common part of \<open>remove_min\<close> and \<open>remove_direct\<close>.\<close>

lemma heap_inv_cut:
  assumes inv: "heap_inv heap" and i: "i < length (elems heap)"
    and h: "same_frame (cut_at heap i) h'" "compare_func.is_heap (bh_compare heap) (elems h')"
    and ix: "HAS_DIRECT_OPTION heap \<Longrightarrow> index_ok h' {}"
  shows "heap_inv h' \<and> mset (elems heap) = add_mset (elems heap ! i) (mset (elems h')) \<and>
     options h' = options heap \<and> bh_compare h' = bh_compare heap"
proof -
  have "HAS_DIRECT_OPTION h' \<longleftrightarrow> HAS_DIRECT_OPTION heap" using same_frame_direct [OF h(1)] by simp
  moreover have "length (elems h') \<le> elems_alloc h'"
  proof -
    have "length (elems h') = length (elems heap) - 1" using same_frame_length [OF h(1)] by simp
    moreover have "elems_alloc h' = elems_alloc heap" using h(1) by (simp add: same_frame_def)
    moreover have "length (elems heap) \<le> elems_alloc heap" using inv by (simp add: heap_inv_def)
    ultimately show ?thesis by linarith
  qed
  moreover have "mset (elems heap) = add_mset (elems heap ! i) (mset (swap_remove i (elems heap)))"
    using i by (simp add: mset_swap_remove)
  ultimately show ?thesis
    using inv h ix by (auto simp: heap_inv_def same_frame_def)
qed

lemma cut_at_positions:
  assumes ix: "index_ok heap {}" and D: "HAS_DIRECT_OPTION heap" and i: "i < length (elems heap) - 1"
  shows "index_ok (cut_at heap i) {bkey (elems (cut_at heap i) ! i)}"
proof -
  have "elems (cut_at heap i) ! i = elems heap ! (length (elems heap) - 1)"
    using i nth_swap_remove [of i "elems heap" i] by simp
  then show ?thesis using cut_at_index [OF ix D, of i] i by simp
qed

text \<open>The element sifted down from \<open>i\<close>, its position stored if it did not move.\<close>

lemma sift_down_finish:
  assumes inv: "heap_inv heap" and i: "i < length (elems heap) - 1"
    and up: "binary_heap_bubble_up (cut_at heap i) i = (h2, i)"
    and down: "binary_heap_bubble_down (cut_at heap i) i = (h3, i3)"
  defines "h' \<equiv> (if HAS_DIRECT_OPTION heap \<and> i3 = i then set_position h3 i else h3)"
  shows "heap_inv h' \<and> mset (elems heap) = add_mset (elems heap ! i) (mset (elems h')) \<and>
     options h' = options heap \<and> bh_compare h' = bh_compare heap"
proof -
  let ?h1 = "cut_at heap i"
  have C: "compare_func (bh_compare heap)" and hp: "compare_func.is_heap (bh_compare heap) (elems heap)"
    and ix: "HAS_DIRECT_OPTION heap \<Longrightarrow> index_ok heap {}"
    using inv by (simp_all add: heap_inv_def)
  have C1: "compare_func (bh_compare ?h1)" "i < length (elems ?h1)"
      "compare_func.hole (bh_compare ?h1) (elems ?h1) i"
    using C i cut_at_hole [OF C hp i] by simp_all
  note S = sift_correct(3) [OF C1 up down refl, unfolded cut_at_fields(4)]
  have "same_frame ?h1 h'" using S by (simp add: h'_def same_frame_def)
  moreover have "compare_func.is_heap (bh_compare heap) (elems h')" using S by (auto simp: h'_def)
  moreover have "index_ok h' {}" if D: "HAS_DIRECT_OPTION heap"
  proof -
    note pos = cut_at_positions [OF ix [OF D] D i]
    show ?thesis
    proof (cases "i3 = i")
      case True
      then have "h' = set_position ?h1 i" using S D by (simp add: h'_def)
      then show ?thesis using index_ok_set_position [OF pos C1(2)] by simp
    next
      case False
      then show ?thesis using S pos D by (simp add: h'_def)
    qed
  qed
  ultimately show ?thesis using heap_inv_cut [OF inv, of i h'] i by simp
qed

lemma heap_remove_min:
  assumes inv: "heap_inv heap" and ne: "elems heap \<noteq> []"
  shows "\<exists>h'. zbx_binary_heap_remove_min heap = Inr h' \<and> heap_inv h' \<and>
     mset (elems heap) = add_mset (elems heap ! 0) (mset (elems h')) \<and>
     options h' = options heap \<and> bh_compare h' = bh_compare heap"
proof -
  let ?D = "HAS_DIRECT_OPTION heap" and ?n = "length (elems heap) - 1"
  have C: "compare_func (bh_compare heap)" and hp: "compare_func.is_heap (bh_compare heap) (elems heap)"
    and ix: "?D \<Longrightarrow> index_ok heap {}"
    using inv by (simp_all add: heap_inv_def)
  show ?thesis
  proof (cases "0 < ?n")
    case False
    then have n: "?n = 0" by simp
    have e: "zbx_binary_heap_remove_min heap = Inr (cut_at heap 0)"
      using ne n take_swap_remove [OF ne]
      by (simp add: zbx_binary_heap_remove_min_def Let_def cut_at_def HAS_DIRECT_OPTION_def)
    have "compare_func.is_heap (bh_compare heap) (elems (cut_at heap 0))"
      using cut_at_last_heap [OF C hp ne] n by simp
    moreover have "?D \<Longrightarrow> index_ok (cut_at heap 0) {}" using cut_at_index [OF ix, of 0] ne n by simp
    ultimately show ?thesis using heap_inv_cut [OF inv, of 0 "cut_at heap 0"] ne e by simp
  next
    case True
    have "binary_heap_bubble_up (cut_at heap 0) 0 = (cut_at heap 0, 0)" by (subst bubble_up_step) simp
    moreover obtain h3 i3 where d: "binary_heap_bubble_down (cut_at heap 0) 0 = (h3, i3)"
      by (cases "binary_heap_bubble_down (cut_at heap 0) 0")
    moreover have "zbx_binary_heap_remove_min heap = Inr (if ?D \<and> i3 = 0 then set_position h3 0 else h3)"
    proof -
      have cut: "(if ?D then heap\<lparr>key_index := zbx_hashmap_remove (key_index heap) (bkey (elems heap ! 0))\<rparr>
          else heap)\<lparr>elems := swap_remove 0 (elems heap)\<rparr> = cut_at heap 0"
        by (simp add: cut_at_def)
      have "elems (if ?D then heap\<lparr>key_index := zbx_hashmap_remove (key_index heap) (bkey (elems heap ! 0))\<rparr>
          else heap) = elems heap" by simp
      moreover have "(take ?n (elems heap))[0 := elems heap ! ?n] = swap_remove 0 (elems heap)"
        using ne by (simp add: take_update_swap_remove del: One_nat_def)
      moreover have "HAS_DIRECT_OPTION h3 \<longleftrightarrow> ?D"
        using sift_correct(3) [OF _ _ _ _ d] True cut_at_hole [OF C hp] C
          \<open>binary_heap_bubble_up (cut_at heap 0) 0 = (cut_at heap 0, 0)\<close> same_frame_direct [of "cut_at heap 0" h3]
        by simp
      ultimately show ?thesis
        unfolding zbx_binary_heap_remove_min_def Let_def using ne True d cut
        by (simp add: set_position_def)
    qed
    ultimately show ?thesis using sift_down_finish [OF inv True] by blast
  qed
qed

lemma heap_remove_direct:
  assumes inv: "heap_inv heap" and D: "HAS_DIRECT_OPTION heap"
  shows "if key \<in> heap_keys heap then
       (\<exists>h'. zbx_binary_heap_remove_direct heap key = Inr h' \<and> heap_inv h' \<and>
         mset (elems h') = filter_mset (\<lambda>x. bkey x \<noteq> key) (mset (elems heap)) \<and> options h' = options heap \<and>
         bh_compare h' = bh_compare heap)
     else zbx_binary_heap_remove_direct heap key = Inl Exit_Failure"
proof -
  let ?n = "length (elems heap) - 1" and ?get = "zbx_hashmap_get (key_index heap) key"
  have C: "compare_func (bh_compare heap)" and hp: "compare_func.is_heap (bh_compare heap) (elems heap)"
    and ix: "index_ok heap {}"
    using inv D by (simp_all add: heap_inv_def)
  have dk: "distinct (map bkey (elems heap))" using ix by (simp add: index_ok_def)
  show ?thesis
  proof (cases "key \<in> heap_keys heap")
    case False
    then show ?thesis using D index_get_iff [OF ix, of key] by (simp add: zbx_binary_heap_remove_direct_def Let_def)
  next
    case True
    then obtain i where i: "i < length (elems heap)" "key = bkey (elems heap ! i)"
      by (auto simp: heap_keys_def in_set_conv_nth)
    have get: "?get = int i" using index_get_present [OF ix i(1)] i(2) by simp
    have finish: ?thesis if r: "zbx_binary_heap_remove_direct heap key = Inr h'"
      and h': "heap_inv h' \<and> mset (elems heap) = add_mset (elems heap ! i) (mset (elems h')) \<and>
        options h' = options heap \<and> bh_compare h' = bh_compare heap" for h'
    proof -
      have "mset (elems h') = mset (elems heap) - {#elems heap ! i#}" using h' by simp
      also have "\<dots> = filter_mset (\<lambda>x. bkey x \<noteq> key) (mset (elems heap))"
        using filter_mset_key [OF dk i(1)] i(2) by simp
      finally have "mset (elems h') = filter_mset (\<lambda>x. bkey x \<noteq> key) (mset (elems heap))" .
      then show ?thesis using True r h' by auto
    qed
    have cut: "heap\<lparr>key_index := zbx_hashmap_remove (key_index heap) key, elems := swap_remove i (elems heap)\<rparr>
        = cut_at heap i"
      using D i(2) by (simp add: cut_at_def)
    show ?thesis
    proof (cases "i = ?n")
      case last: True
      have ne: "elems heap \<noteq> []" using i(1) by auto
      have e: "zbx_binary_heap_remove_direct heap key = Inr (cut_at heap i)"
        using D get last cut take_swap_remove [OF ne]
        by (simp add: zbx_binary_heap_remove_direct_def Let_def FAIL_value_def)
      have "compare_func.is_heap (bh_compare heap) (elems (cut_at heap i))"
        using cut_at_last_heap [OF C hp ne] last by simp
      moreover have "index_ok (cut_at heap i) {}" using cut_at_index [OF ix D i(1)] last by simp
      ultimately have "heap_inv (cut_at heap i) \<and> mset (elems heap) = add_mset (elems heap ! i) (mset (elems (cut_at heap i))) \<and>
        options (cut_at heap i) = options heap \<and> bh_compare (cut_at heap i) = bh_compare heap"
        using heap_inv_cut [OF inv i(1), of "cut_at heap i"] by simp
      from finish [OF e this] show ?thesis .
    next
      case False
      then have lt: "i < ?n" using i(1) by simp
      obtain h2 i2 where up: "binary_heap_bubble_up (cut_at heap i) i = (h2, i2)"
        by (cases "binary_heap_bubble_up (cut_at heap i) i")
      obtain h3 i3 where down: "binary_heap_bubble_down (cut_at heap i) i = (h3, i3)"
        by (cases "binary_heap_bubble_down (cut_at heap i) i")
      have C1: "compare_func (bh_compare (cut_at heap i))" "i < length (elems (cut_at heap i))"
        "compare_func.hole (bh_compare (cut_at heap i)) (elems (cut_at heap i)) i"
        using C lt cut_at_hole [OF C hp lt] by simp_all
      note S = sift_correct [OF C1 up down, unfolded cut_at_fields(4)]
      have tk: "(take ?n (elems heap))[i := elems heap ! ?n] = swap_remove i (elems heap)"
        using i(1) by (rule take_update_swap_remove)
      have cond: "\<not> (\<not> HAS_DIRECT_OPTION heap)" "FAIL_value \<noteq> int i" "i \<noteq> ?n"
        using D False by (simp_all add: FAIL_value_def)
      have e: "zbx_binary_heap_remove_direct heap key =
          (if i = i2 then if i = i3 then Inr (set_position h3 i) else Inr h3 else Inr h2)"
      proof -
        have "zbx_binary_heap_remove_direct heap key =
          (let (heap, index') = binary_heap_bubble_up (cut_at heap i) i
           in if i = index' then let (heap, index') = binary_heap_bubble_down heap i
              in if i = index' then Inr (set_position heap i) else Inr heap else Inr heap)"
          unfolding zbx_binary_heap_remove_direct_def Let_def get nat_int set_position_def
          using cond tk cut by simp
        then show ?thesis using up down S(2) by (cases "i2 = i"; cases "i3 = i") (simp_all add: not_sym)
      qed
      show ?thesis
      proof (cases "i2 = i")
        case True
        then show ?thesis
          using finish [OF _ sift_down_finish [OF inv lt up [unfolded True] down]] e D
          by (cases "i3 = i") auto
      next
        case False
        have "index_ok h2 {}" using S(1) False cut_at_positions [OF ix D lt] D by simp
        then have "heap_inv h2 \<and> mset (elems heap) = add_mset (elems heap ! i) (mset (elems h2)) \<and>
          options h2 = options heap \<and> bh_compare h2 = bh_compare heap"
          using heap_inv_cut [OF inv i(1), of h2] S(1) [OF False] by blast
        then show ?thesis using finish [of h2] e False by simp
      qed
    qed
  qed
qed

lemma heap_update_direct:
  assumes inv: "heap_inv heap" and D: "HAS_DIRECT_OPTION heap"
  shows "if bkey e \<in> heap_keys heap then
       (\<exists>h'. zbx_binary_heap_update_direct heap e = Inr h' \<and> heap_inv h' \<and>
         mset (elems h') = add_mset e (filter_mset (\<lambda>x. bkey x \<noteq> bkey e) (mset (elems heap))) \<and>
         options h' = options heap \<and> bh_compare h' = bh_compare heap)
     else zbx_binary_heap_update_direct heap e = Inl Exit_Failure"
proof -
  let ?get = "zbx_hashmap_get (key_index heap) (bkey e)" and ?xs = "elems heap"
  have C: "compare_func (bh_compare heap)" and hp: "compare_func.is_heap (bh_compare heap) ?xs"
    and ix: "index_ok heap {}"
    using inv D by (simp_all add: heap_inv_def)
  have dk: "distinct (map bkey ?xs)" using ix by (simp add: index_ok_def)
  show ?thesis
  proof (cases "bkey e \<in> heap_keys heap")
    case False
    then show ?thesis using D index_get_iff [OF ix, of "bkey e"] by (simp add: zbx_binary_heap_update_direct_def Let_def)
  next
    case True
    then obtain i where i: "i < length ?xs" "bkey e = bkey (?xs ! i)"
      by (auto simp: heap_keys_def in_set_conv_nth)
    have get: "?get = int i" using index_get_present [OF ix i(1)] i(2) by simp
    define h1 where "h1 = heap\<lparr>elems := ?xs[i := e]\<rparr>"
    have f1: "elems h1 = ?xs[i := e]" "bh_compare h1 = bh_compare heap" "options h1 = options heap"
      "key_index h1 = key_index heap" "elems_alloc h1 = elems_alloc heap" "HAS_DIRECT_OPTION h1"
      using D by (simp_all add: h1_def HAS_DIRECT_OPTION_def)
    have keys: "map bkey (?xs[i := e]) = map bkey ?xs"
    proof -
      have "map bkey (?xs[i := e]) = (map bkey ?xs)[i := map bkey ?xs ! i]" using i by (simp add: map_update)
      then show ?thesis by (simp only: list_update_id)
    qed
    have key_nth: "bkey (?xs[i := e] ! p) = bkey (?xs ! p)" for p
      using i by (cases "p = i") simp_all
    have ix1: "index_ok h1 {}"
      using ix unfolding index_ok_def f1 agrees_def keys length_list_update key_nth .
    have C1: "compare_func (bh_compare h1)" "i < length (elems h1)" "compare_func.hole (bh_compare h1) (elems h1) i"
      using C i compare_func.hole_update [OF C compare_func.is_heap_hole [OF C hp i(1)] i(1), of e]
      by (simp_all add: f1)
    obtain h2 i2 where up: "binary_heap_bubble_up h1 i = (h2, i2)" by (cases "binary_heap_bubble_up h1 i")
    obtain h3 i3 where down: "binary_heap_bubble_down h1 i = (h3, i3)" by (cases "binary_heap_bubble_down h1 i")
    note S = sift_correct [OF C1 up down, unfolded f1(2)]
    define h' where "h' = (if i = i2 then h3 else h2)"
    have e: "zbx_binary_heap_update_direct heap e = Inr h'"
      using D get up down S(2)
      by (cases "i2 = i") (simp_all add: not_sym zbx_binary_heap_update_direct_def Let_def FAIL_value_def h1_def [symmetric] h'_def)
    have fr: "same_frame h1 h'" "compare_func.is_heap (bh_compare heap) (elems h')"
      using S by (auto simp: h'_def)
    have "index_ok h' {}"
      using S ix1 f1(6) index_ok_mono [OF ix1, of "{bkey (elems h1 ! i)}"]
      by (cases "i2 = i"; cases "i3 = i") (auto simp: h'_def)
    moreover have "length (elems h') \<le> elems_alloc h'"
    proof -
      have "elems_alloc h' = elems_alloc heap" "length (elems h') = length ?xs"
        using fr(1) same_frame_length [OF fr(1)] f1 by (simp_all add: same_frame_def)
      then show ?thesis using inv by (simp add: heap_inv_def)
    qed
    ultimately have "heap_inv h'" using C fr by (auto simp: heap_inv_def same_frame_def f1)
    moreover have "mset (elems h') = add_mset e (filter_mset (\<lambda>x. bkey x \<noteq> bkey e) (mset ?xs))"
      using fr(1) filter_mset_key [OF dk i(1)] i by (simp add: same_frame_def f1 mset_update)
    ultimately show ?thesis using True e fr(1) f1(2,3) by (auto simp: same_frame_def)
  qed
qed

lemma heap_find_min:
  assumes "heap_inv heap" "elems heap \<noteq> []"
  shows "zbx_binary_heap_find_min heap = Inr (elems heap ! 0) \<and> elems heap ! 0 \<in> set (elems heap) \<and>
    (\<forall>x \<in> set (elems heap). bh_compare heap (elems heap ! 0) x \<le> 0)"
  using assms compare_func.heap_min [of "bh_compare heap" "elems heap"]
  by (auto simp: zbx_binary_heap_find_min_def heap_inv_def in_set_conv_nth)

lemma heap_create_inv:
  assumes "compare_func cmp"
  shows "heap_inv (zbx_binary_heap_create cmp opts) \<and> bh_compare (zbx_binary_heap_create cmp opts) = cmp \<and>
    elems (zbx_binary_heap_create cmp opts) = []"
proof -
  have e: "elems (zbx_binary_heap_create cmp opts) = []" "bh_compare (zbx_binary_heap_create cmp opts) = cmp"
    by (simp_all add: zbx_binary_heap_create_def Let_def)
  have "index_ok (zbx_binary_heap_create cmp opts) {}" if "HAS_DIRECT_OPTION (zbx_binary_heap_create cmp opts)"
  proof -
    have k: "key_index (zbx_binary_heap_create cmp opts) = zbx_hashmap_create 512"
      using that by (auto simp: zbx_binary_heap_create_def HAS_DIRECT_OPTION_def zbx_hashmap_create_def Let_def
          split: if_splits)
    show ?thesis unfolding index_ok_def k e(1) using hm_create [of 512] by (simp add: agrees_def)
  qed
  then show ?thesis
    using assms by (simp add: heap_inv_def e compare_func.is_heap_def)
qed

lemma heap_clear_inv:
  assumes "heap_inv heap"
  shows "heap_inv (zbx_binary_heap_clear heap)" "bh_compare (zbx_binary_heap_clear heap) = bh_compare heap"
    "elems (zbx_binary_heap_clear heap) = []"
proof -
  show e: "bh_compare (zbx_binary_heap_clear heap) = bh_compare heap" "elems (zbx_binary_heap_clear heap) = []"
    by (simp_all add: zbx_binary_heap_clear_def Let_def)
  have D: "HAS_DIRECT_OPTION (zbx_binary_heap_clear heap) \<longleftrightarrow> HAS_DIRECT_OPTION heap"
    by (simp add: zbx_binary_heap_clear_def HAS_DIRECT_OPTION_def Let_def)
  have "index_ok (zbx_binary_heap_clear heap) {}" if "HAS_DIRECT_OPTION heap"
  proof -
    have k: "key_index (zbx_binary_heap_clear heap) = zbx_hashmap_clear (key_index heap)"
      using that by (simp add: zbx_binary_heap_clear_def HAS_DIRECT_OPTION_def Let_def)
    have "hm_inv (key_index heap)" using assms that by (simp add: heap_inv_def index_ok_def)
    then show ?thesis
      unfolding index_ok_def k e(2) by (simp add: hashmap.inv_clear hashmap.lookup_clear agrees_def)
  qed
  then show "heap_inv (zbx_binary_heap_clear heap)"
    using assms by (simp add: heap_inv_def e D compare_func.is_heap_def)
qed

subsection \<open>Reachable heaps\<close>

text \<open>The heaps that a program reaches with the public operations, as long as none of them exits.\<close>

inductive heap_reach ::
  "('d binary_heap_elem \<Rightarrow> 'd binary_heap_elem \<Rightarrow> int) \<Rightarrow> u32 \<Rightarrow> 'd binary_heap \<Rightarrow> bool"
  for cmp opts where
  create: "heap_reach cmp opts (zbx_binary_heap_create cmp opts)"
| insert: "heap_reach cmp opts h \<Longrightarrow> zbx_binary_heap_insert mem_ok h e = Inr h' \<Longrightarrow> heap_reach cmp opts h'"
| remove_min: "heap_reach cmp opts h \<Longrightarrow> zbx_binary_heap_remove_min h = Inr h' \<Longrightarrow> heap_reach cmp opts h'"
| update_direct: "heap_reach cmp opts h \<Longrightarrow> zbx_binary_heap_update_direct h e = Inr h' \<Longrightarrow> heap_reach cmp opts h'"
| remove_direct: "heap_reach cmp opts h \<Longrightarrow> zbx_binary_heap_remove_direct h k = Inr h' \<Longrightarrow> heap_reach cmp opts h'"
| clear: "heap_reach cmp opts h \<Longrightarrow> heap_reach cmp opts (zbx_binary_heap_clear h)"

lemma heap_op_inv:
  assumes "heap_inv h" "bh_compare h = cmp"
  shows "zbx_binary_heap_insert mem_ok h e = Inr h' \<Longrightarrow> heap_inv h' \<and> bh_compare h' = cmp \<and> options h' = options h"
    and "zbx_binary_heap_remove_min h = Inr h' \<Longrightarrow> heap_inv h' \<and> bh_compare h' = cmp \<and> options h' = options h"
    and "zbx_binary_heap_update_direct h e = Inr h' \<Longrightarrow> heap_inv h' \<and> bh_compare h' = cmp \<and> options h' = options h"
    and "zbx_binary_heap_remove_direct h k = Inr h' \<Longrightarrow> heap_inv h' \<and> bh_compare h' = cmp \<and> options h' = options h"
proof -
  show "zbx_binary_heap_insert mem_ok h e = Inr h' \<Longrightarrow> heap_inv h' \<and> bh_compare h' = cmp \<and> options h' = options h"
    using heap_insert [OF assms(1), where mem_ok = mem_ok and e = e] assms(2) by auto
  show "zbx_binary_heap_remove_min h = Inr h' \<Longrightarrow> heap_inv h' \<and> bh_compare h' = cmp \<and> options h' = options h"
    using heap_remove_min [OF assms(1)] assms(2)
    by (cases "elems h = []") (auto simp: zbx_binary_heap_remove_min_def)
  show "zbx_binary_heap_update_direct h e = Inr h' \<Longrightarrow> heap_inv h' \<and> bh_compare h' = cmp \<and> options h' = options h"
    using heap_update_direct [OF assms(1), of e] assms(2)
    by (cases "HAS_DIRECT_OPTION h") (auto simp: zbx_binary_heap_update_direct_def split: if_splits)
  show "zbx_binary_heap_remove_direct h k = Inr h' \<Longrightarrow> heap_inv h' \<and> bh_compare h' = cmp \<and> options h' = options h"
    using heap_remove_direct [OF assms(1), of k] assms(2)
    by (cases "HAS_DIRECT_OPTION h") (auto simp: zbx_binary_heap_remove_direct_def split: if_splits)
qed

lemma heap_reach_inv:
  assumes "compare_func cmp" "heap_reach cmp opts h"
  shows "heap_inv h \<and> bh_compare h = cmp \<and> options h = opts"
  using assms(2)
proof induction
  case create
  show ?case using heap_create_inv [OF assms(1), of opts] by (simp add: zbx_binary_heap_create_def Let_def)
next
  case (clear h)
  then show ?case
    using heap_clear_inv [of h] by (simp add: zbx_binary_heap_clear_def Let_def)
qed (use heap_op_inv in metis)+

lemma heap_reachable_correct_parts:
  assumes "compare_func cmp" "heap_reach cmp opts h"
  shows "if elems h = [] then zbx_binary_heap_find_min h = Inl Exit_Failure
      else \<exists>m. zbx_binary_heap_find_min h = Inr m \<and> m \<in> set (elems h) \<and> (\<forall>x \<in> set (elems h). cmp m x \<le> 0)"
    and "HAS_DIRECT_OPTION h \<Longrightarrow> p < length (elems h) \<Longrightarrow>
      zbx_hashmap_get (key_index h) (bkey (elems h ! p)) = int p"
    and "HAS_DIRECT_OPTION h \<Longrightarrow> k \<notin> bkey ` set (elems h) \<Longrightarrow> zbx_hashmap_get (key_index h) k = FAIL_value"
proof -
  note inv = heap_reach_inv [OF assms]
  have ix: "HAS_DIRECT_OPTION h \<Longrightarrow> index_ok h {}" using inv by (simp add: heap_inv_def)
  show "if elems h = [] then zbx_binary_heap_find_min h = Inl Exit_Failure
      else \<exists>m. zbx_binary_heap_find_min h = Inr m \<and> m \<in> set (elems h) \<and> (\<forall>x \<in> set (elems h). cmp m x \<le> 0)"
    using heap_find_min [of h] inv by (auto simp: zbx_binary_heap_find_min_def)
  show "HAS_DIRECT_OPTION h \<Longrightarrow> p < length (elems h) \<Longrightarrow>
      zbx_hashmap_get (key_index h) (bkey (elems h ! p)) = int p"
    by (rule index_get_present [OF ix])
  show "HAS_DIRECT_OPTION h \<Longrightarrow> k \<notin> bkey ` set (elems h) \<Longrightarrow> zbx_hashmap_get (key_index h) k = FAIL_value"
    by (rule index_get_absent [OF ix]) (simp_all add: heap_keys_def)
qed

text \<open>C4: In every reachable heap the root is a least element, \<open>find_min\<close> returns it without
  looking at the others, and with the direct option the index answers the position of every key
  present and \<open>FAIL\<close> for every other key.\<close>

theorem heap_reachable_correct:
  assumes "compare_func cmp" "heap_reach cmp opts h"
  shows "(if elems h = [] then zbx_binary_heap_find_min h = Inl Exit_Failure
      else \<exists>m. zbx_binary_heap_find_min h = Inr m \<and> m \<in> set (elems h) \<and> (\<forall>x \<in> set (elems h). cmp m x \<le> 0)) \<and>
      (HAS_DIRECT_OPTION h \<longrightarrow> p < length (elems h) \<longrightarrow> zbx_hashmap_get (key_index h) (bkey (elems h ! p)) = int p) \<and>
      (HAS_DIRECT_OPTION h \<longrightarrow> k \<notin> bkey ` set (elems h) \<longrightarrow> zbx_hashmap_get (key_index h) k = FAIL_value)"
  by (rule conjI, rule heap_reachable_correct_parts(1) [OF assms], rule conjI, intro impI, rule heap_reachable_correct_parts(2) [OF assms], assumption+, intro impI, rule heap_reachable_correct_parts(3) [OF assms], assumption+)

text \<open>Elements ordered by their key, used by the witnesses.\<close>

definition by_key :: "'d binary_heap_elem \<Rightarrow> 'd binary_heap_elem \<Rightarrow> int" where
  "by_key x y = zbx_default_uint64_compare_func (bkey x) (bkey y)"

interpretation by_key_cmp: compare_func by_key
  by unfold_locales (auto simp: by_key_def zbx_default_uint64_compare_func_def return_if_not_equal_chain)

lemma by_key_axioms: "compare_func by_key"
  by (rule by_key_cmp.compare_func_axioms)

text \<open>A direct heap with one element can be reached.\<close>

lemma heap_one_element:
  "\<exists>h :: 'd binary_heap. heap_reach by_key 1 h \<and> mset (elems h) = {#e#} \<and> HAS_DIRECT_OPTION h"
proof -
  let ?h0 = "zbx_binary_heap_create by_key 1 :: 'd binary_heap"
  have "heap_inv ?h0 \<and> bh_compare ?h0 = by_key \<and> elems ?h0 = []" by (rule heap_create_inv [OF by_key_axioms])
  then have i0: "heap_inv ?h0" "elems ?h0 = []" by simp_all
  have D: "HAS_DIRECT_OPTION ?h0"
    by (simp add: HAS_DIRECT_OPTION_def zbx_binary_heap_create_def ZBX_BINARY_HEAP_OPTION_DIRECT_def Let_def)
  obtain h where h: "zbx_binary_heap_insert True ?h0 e = Inr h"
    using heap_insert [OF i0(1), where mem_ok = True and e = e] i0(2)
    by (cases "zbx_binary_heap_insert True ?h0 e") (auto simp: heap_keys_def)
  then have "mset (elems h) = {#e#}" "options h = options ?h0"
    using heap_insert [OF i0(1), where mem_ok = True and e = e] i0(2) by auto
  then show ?thesis
    using heap_reach.insert [OF heap_reach.create h] D HAS_DIRECT_OPTION_cong [of h ?h0] by auto
qed

theorem heap_reachable_correct_witness:
  "\<exists>h :: nat binary_heap. heap_reach by_key 1 h \<and> elems h \<noteq> [] \<and>
     zbx_hashmap_get (key_index h) (bkey (elems h ! 0)) = 0 \<and>
     zbx_hashmap_get (key_index h) 9 = FAIL_value \<and>
     (\<exists>m. zbx_binary_heap_find_min h = Inr m \<and> m \<in> set (elems h) \<and> (\<forall>x \<in> set (elems h). by_key m x \<le> 0))"
proof -
  obtain h :: "nat binary_heap" where h: "heap_reach by_key 1 h" "mset (elems h) = {#\<lparr>bkey = 7, bdata = 1\<rparr>#}"
      "HAS_DIRECT_OPTION h"
    using heap_one_element by blast
  then have e: "elems h = [\<lparr>bkey = 7, bdata = 1\<rparr>]" by simp
  from heap_reachable_correct [OF by_key_axioms h(1), of 0 9]
  show ?thesis
    using h(1,3) e by (intro exI [of _ h]) auto
qed

lemma heap_queue_ops_correct_parts:
  assumes "compare_func cmp" "heap_reach cmp opts h"
  shows "case zbx_binary_heap_insert mem_ok h e of
      Inr h' \<Rightarrow> \<not> (HAS_DIRECT_OPTION h \<and> bkey e \<in> bkey ` set (elems h)) \<and>
        (mem_ok \<or> length (elems h) < elems_alloc h) \<and> length (elems h') \<le> elems_alloc h' \<and>
        mset (elems h') = add_mset e (mset (elems h))
    | Inl f \<Rightarrow> f = Exit_Failure \<and> (HAS_DIRECT_OPTION h \<and> bkey e \<in> bkey ` set (elems h) \<or>
        \<not> mem_ok \<and> length (elems h) = elems_alloc h)"
    and "case zbx_binary_heap_remove_min h of
      Inr h' \<Rightarrow> elems h \<noteq> [] \<and> mset (elems h) = add_mset (elems h ! 0) (mset (elems h'))
    | Inl f \<Rightarrow> f = Exit_Failure \<and> elems h = []"
proof -
  have inv: "heap_inv h" using heap_reach_inv [OF assms] by blast
  have full: "\<exists>f. zbx_binary_heap_insert mem_ok h e = Inl f" if "\<not> mem_ok" "\<not> length (elems h) < elems_alloc h"
    using that inv by (auto simp: zbx_binary_heap_insert_def ensure_free_space heap_inv_def)
  show "case zbx_binary_heap_insert mem_ok h e of
      Inr h' \<Rightarrow> \<not> (HAS_DIRECT_OPTION h \<and> bkey e \<in> bkey ` set (elems h)) \<and>
        (mem_ok \<or> length (elems h) < elems_alloc h) \<and> length (elems h') \<le> elems_alloc h' \<and>
        mset (elems h') = add_mset e (mset (elems h))
    | Inl f \<Rightarrow> f = Exit_Failure \<and> (HAS_DIRECT_OPTION h \<and> bkey e \<in> bkey ` set (elems h) \<or>
        \<not> mem_ok \<and> length (elems h) = elems_alloc h)"
    using heap_insert [OF inv, where mem_ok = mem_ok and e = e] full
    by (cases mem_ok; cases "zbx_binary_heap_insert mem_ok h e") (auto simp: heap_keys_def heap_inv_def)
  show "case zbx_binary_heap_remove_min h of
      Inr h' \<Rightarrow> elems h \<noteq> [] \<and> mset (elems h) = add_mset (elems h ! 0) (mset (elems h'))
    | Inl f \<Rightarrow> f = Exit_Failure \<and> elems h = []"
  proof (cases "elems h = []")
    case True
    then show ?thesis by (simp add: zbx_binary_heap_remove_min_def)
  next
    case False
    then show ?thesis using heap_remove_min [OF inv] by auto
  qed
qed

text \<open>C6: On every reachable heap an insertion adds exactly the new element, within the allocated size, and it exits
  exactly for a duplicate key of a direct heap or when the array is full and cannot be enlarged; removing the
  minimum takes the root away and nothing else, and exits exactly on an empty heap.\<close>

theorem heap_queue_ops_correct:
  assumes "compare_func cmp" "heap_reach cmp opts h"
  shows "(case zbx_binary_heap_insert mem_ok h e of
      Inr h' \<Rightarrow> \<not> (HAS_DIRECT_OPTION h \<and> bkey e \<in> bkey ` set (elems h)) \<and>
        (mem_ok \<or> length (elems h) < elems_alloc h) \<and> length (elems h') \<le> elems_alloc h' \<and>
        mset (elems h') = add_mset e (mset (elems h))
    | Inl f \<Rightarrow> f = Exit_Failure \<and> (HAS_DIRECT_OPTION h \<and> bkey e \<in> bkey ` set (elems h) \<or>
        \<not> mem_ok \<and> length (elems h) = elems_alloc h)) \<and>
    (case zbx_binary_heap_remove_min h of
      Inr h' \<Rightarrow> elems h \<noteq> [] \<and> mset (elems h) = add_mset (elems h ! 0) (mset (elems h'))
    | Inl f \<Rightarrow> f = Exit_Failure \<and> elems h = [])"
  by (rule conjI, rule heap_queue_ops_correct_parts(1) [OF assms], rule heap_queue_ops_correct_parts(2) [OF assms])

theorem heap_queue_ops_correct_witness:
  "\<exists>h h' :: nat binary_heap. heap_reach by_key 1 h \<and>
     zbx_binary_heap_insert True h \<lparr>bkey = 7, bdata = 2\<rparr> = Inl Exit_Failure \<and>
     (\<exists>h2. zbx_binary_heap_insert True h \<lparr>bkey = 8, bdata = 2\<rparr> = Inr h2) \<and>
     zbx_binary_heap_remove_min h = Inr h' \<and> elems h' = []"
proof -
  obtain h :: "nat binary_heap" where h: "heap_reach by_key 1 h" "mset (elems h) = {#\<lparr>bkey = 7, bdata = 1\<rparr>#}"
      "HAS_DIRECT_OPTION h"
    using heap_one_element by blast
  then have e: "elems h = [\<lparr>bkey = 7, bdata = 1\<rparr>]" by simp
  note R = heap_queue_ops_correct [OF by_key_axioms h(1)]
  obtain h' where "zbx_binary_heap_remove_min h = Inr h'" "elems h' = []"
    using R [THEN conjunct2] e by (cases "zbx_binary_heap_remove_min h") auto
  moreover have "zbx_binary_heap_insert True h \<lparr>bkey = 7, bdata = 2\<rparr> = Inl Exit_Failure"
    using heap_queue_ops_correct [OF by_key_axioms h(1), where mem_ok = True and e = "\<lparr>bkey = 7, bdata = 2\<rparr>", THEN conjunct1] h(3) e
    by (cases "zbx_binary_heap_insert True h \<lparr>bkey = 7, bdata = 2\<rparr>") auto
  moreover have "\<exists>h2. zbx_binary_heap_insert True h \<lparr>bkey = 8, bdata = 2\<rparr> = Inr h2"
    using heap_queue_ops_correct [OF by_key_axioms h(1), where mem_ok = True and e = "\<lparr>bkey = 8, bdata = 2\<rparr>", THEN conjunct1] e
    by (cases "zbx_binary_heap_insert True h \<lparr>bkey = 8, bdata = 2\<rparr>") auto
  ultimately show ?thesis using h(1) by blast
qed

lemma heap_direct_ops_correct_parts:
  assumes "compare_func cmp" "heap_reach cmp opts h"
  shows "case zbx_binary_heap_update_direct h e of
      Inr h' \<Rightarrow> HAS_DIRECT_OPTION h \<and> bkey e \<in> bkey ` set (elems h) \<and>
        mset (elems h') = add_mset e (filter_mset (\<lambda>x. bkey x \<noteq> bkey e) (mset (elems h)))
    | Inl f \<Rightarrow> f = Exit_Failure \<and> \<not> (HAS_DIRECT_OPTION h \<and> bkey e \<in> bkey ` set (elems h))"
    and "case zbx_binary_heap_remove_direct h k of
      Inr h' \<Rightarrow> HAS_DIRECT_OPTION h \<and> k \<in> bkey ` set (elems h) \<and>
        mset (elems h') = filter_mset (\<lambda>x. bkey x \<noteq> k) (mset (elems h))
    | Inl f \<Rightarrow> f = Exit_Failure \<and> \<not> (HAS_DIRECT_OPTION h \<and> k \<in> bkey ` set (elems h))"
proof -
  have inv: "heap_inv h" using heap_reach_inv [OF assms] by blast
  show "case zbx_binary_heap_update_direct h e of
      Inr h' \<Rightarrow> HAS_DIRECT_OPTION h \<and> bkey e \<in> bkey ` set (elems h) \<and>
        mset (elems h') = add_mset e (filter_mset (\<lambda>x. bkey x \<noteq> bkey e) (mset (elems h)))
    | Inl f \<Rightarrow> f = Exit_Failure \<and> \<not> (HAS_DIRECT_OPTION h \<and> bkey e \<in> bkey ` set (elems h))"
  proof (cases "HAS_DIRECT_OPTION h")
    case True
    then show ?thesis using heap_update_direct [OF inv True, of e] by (auto simp: heap_keys_def split: if_splits)
  qed (simp add: zbx_binary_heap_update_direct_def)
  show "case zbx_binary_heap_remove_direct h k of
      Inr h' \<Rightarrow> HAS_DIRECT_OPTION h \<and> k \<in> bkey ` set (elems h) \<and>
        mset (elems h') = filter_mset (\<lambda>x. bkey x \<noteq> k) (mset (elems h))
    | Inl f \<Rightarrow> f = Exit_Failure \<and> \<not> (HAS_DIRECT_OPTION h \<and> k \<in> bkey ` set (elems h))"
  proof (cases "HAS_DIRECT_OPTION h")
    case True
    then show ?thesis using heap_remove_direct [OF inv True, of k] by (auto simp: heap_keys_def split: if_splits)
  qed (simp add: zbx_binary_heap_remove_direct_def)
qed

text \<open>C5: On every reachable heap with the direct option an update replaces the element of the key
  and a removal takes it away, whatever its position; a key that is absent ends the process, and
  without the direct option both always do.\<close>

theorem heap_direct_ops_correct:
  assumes "compare_func cmp" "heap_reach cmp opts h"
  shows "(case zbx_binary_heap_update_direct h e of
      Inr h' \<Rightarrow> HAS_DIRECT_OPTION h \<and> bkey e \<in> bkey ` set (elems h) \<and>
        mset (elems h') = add_mset e (filter_mset (\<lambda>x. bkey x \<noteq> bkey e) (mset (elems h)))
    | Inl f \<Rightarrow> f = Exit_Failure \<and> \<not> (HAS_DIRECT_OPTION h \<and> bkey e \<in> bkey ` set (elems h))) \<and>
      (case zbx_binary_heap_remove_direct h k of
      Inr h' \<Rightarrow> HAS_DIRECT_OPTION h \<and> k \<in> bkey ` set (elems h) \<and>
        mset (elems h') = filter_mset (\<lambda>x. bkey x \<noteq> k) (mset (elems h))
    | Inl f \<Rightarrow> f = Exit_Failure \<and> \<not> (HAS_DIRECT_OPTION h \<and> k \<in> bkey ` set (elems h)))"
  by (rule conjI, rule heap_direct_ops_correct_parts(1) [OF assms], rule heap_direct_ops_correct_parts(2) [OF assms])

theorem heap_direct_ops_correct_witness:
  "\<exists>h h1 h2 :: nat binary_heap. heap_reach by_key 1 h \<and>
     zbx_binary_heap_update_direct h \<lparr>bkey = 7, bdata = 2\<rparr> = Inr h1 \<and> elems h1 = [\<lparr>bkey = 7, bdata = 2\<rparr>] \<and>
     zbx_binary_heap_remove_direct h 7 = Inr h2 \<and> elems h2 = [] \<and>
     zbx_binary_heap_remove_direct h 8 = Inl Exit_Failure"
proof -
  obtain h :: "nat binary_heap" where h: "heap_reach by_key 1 h" "mset (elems h) = {#\<lparr>bkey = 7, bdata = 1\<rparr>#}"
      "HAS_DIRECT_OPTION h"
    using heap_one_element by blast
  then have e: "elems h = [\<lparr>bkey = 7, bdata = 1\<rparr>]" by simp
  note R = heap_direct_ops_correct [OF by_key_axioms h(1)]
  obtain h1 where "zbx_binary_heap_update_direct h \<lparr>bkey = 7, bdata = 2\<rparr> = Inr h1" "elems h1 = [\<lparr>bkey = 7, bdata = 2\<rparr>]"
    using R [of "\<lparr>bkey = 7, bdata = 2\<rparr>", THEN conjunct1] h(3) e by (auto split: sum.splits)
  moreover obtain h2 where "zbx_binary_heap_remove_direct h 7 = Inr h2" "elems h2 = []"
    using R [THEN conjunct2, of 7] h(3) e by (auto split: sum.splits)
  moreover have "zbx_binary_heap_remove_direct h 8 = Inl Exit_Failure"
    using R [THEN conjunct2, of 8] h(3) e by (auto split: sum.splits)
  ultimately show ?thesis using h(1) by blast
qed

subsection \<open>Sorting with the heap\<close>

fun heap_fill :: "'d binary_heap \<Rightarrow> 'd binary_heap_elem list \<Rightarrow> 'd binary_heap res" where
  "heap_fill h [] = Inr h"
| "heap_fill h (e # es) = rbind (zbx_binary_heap_insert True h e) (\<lambda>h. heap_fill h es)"

fun heap_drain :: "nat \<Rightarrow> 'd binary_heap \<Rightarrow> 'd binary_heap_elem list res" where
  "heap_drain 0 h = Inr []"
| "heap_drain (Suc n) h = rbind (zbx_binary_heap_find_min h) (\<lambda>m.
     rbind (zbx_binary_heap_remove_min h) (\<lambda>h. rbind (heap_drain n h) (\<lambda>xs. Inr (m # xs))))"

lemma heap_fill_correct:
  "heap_inv h \<Longrightarrow> \<not> HAS_DIRECT_OPTION h \<Longrightarrow>
   \<exists>h'. heap_fill h xs = Inr h' \<and> heap_inv h' \<and> bh_compare h' = bh_compare h \<and>
     mset (elems h') = mset (elems h) + mset xs"
proof (induction xs arbitrary: h)
  case (Cons e es)
  obtain h1 where h1: "zbx_binary_heap_insert True h e = Inr h1"
    using heap_insert [OF Cons.prems(1), where mem_ok = True and e = e] Cons.prems(2)
    by (cases "zbx_binary_heap_insert True h e") auto
  then have i1: "heap_inv h1" "mset (elems h1) = add_mset e (mset (elems h))" "options h1 = options h"
      "bh_compare h1 = bh_compare h"
    using heap_insert [OF Cons.prems(1), where mem_ok = True and e = e] by auto
  then have "\<not> HAS_DIRECT_OPTION h1" using Cons.prems(2) HAS_DIRECT_OPTION_cong by blast
  from Cons.IH [OF i1(1) this] show ?case using h1 i1 by auto
qed simp

lemma heap_drain_correct:
  "heap_inv h \<Longrightarrow> n = length (elems h) \<Longrightarrow>
   \<exists>ys. heap_drain n h = Inr ys \<and> mset ys = mset (elems h) \<and> sorted_wrt (\<lambda>a b. bh_compare h a b \<le> 0) ys"
proof (induction n arbitrary: h)
  case (Suc n)
  have ne: "elems h \<noteq> []" using Suc.prems(2) by auto
  obtain h' where h': "zbx_binary_heap_remove_min h = Inr h'" "heap_inv h'"
      "mset (elems h) = add_mset (elems h ! 0) (mset (elems h'))" "bh_compare h' = bh_compare h"
    using heap_remove_min [OF Suc.prems(1) ne] by blast
  have "n = length (elems h')" using arg_cong [OF h'(3), of size] Suc.prems(2) by simp
  from Suc.IH [OF h'(2) this] obtain ys where ys: "heap_drain n h' = Inr ys" "mset ys = mset (elems h')"
      "sorted_wrt (\<lambda>a b. bh_compare h a b \<le> 0) ys" using h'(4) by auto
  note m = heap_find_min [OF Suc.prems(1) ne]
  have "set ys \<subseteq> set (elems h)"
    using mset_eq_setD [OF ys(2)] h'(3) by (metis set_mset_add_mset_insert set_mset_mset subset_insertI)
  then have "\<forall>y \<in> set ys. bh_compare h (elems h ! 0) y \<le> 0" using m by blast
  then show ?case using ys h' m by (intro exI [of _ "elems h ! 0 # ys"]) simp
qed simp

text \<open>C7: Inserting any list of elements into a new heap and popping until it is empty yields the
  list sorted by the comparison callback, and no operation exits on the way.\<close>

theorem heap_sort_correct:
  assumes "compare_func cmp"
  shows "\<exists>h ys. heap_fill (zbx_binary_heap_create cmp ZBX_BINARY_HEAP_OPTION_EMPTY) xs = Inr h \<and>
    heap_drain (length xs) h = Inr ys \<and> mset ys = mset xs \<and> sorted_wrt (\<lambda>a b. cmp a b \<le> 0) ys"
proof -
  let ?h0 = "zbx_binary_heap_create cmp ZBX_BINARY_HEAP_OPTION_EMPTY"
  have i0: "heap_inv ?h0" "bh_compare ?h0 = cmp" "elems ?h0 = []"
    using heap_create_inv [OF assms] by blast+
  have "\<not> HAS_DIRECT_OPTION ?h0"
    by (simp add: HAS_DIRECT_OPTION_def zbx_binary_heap_create_def ZBX_BINARY_HEAP_OPTION_EMPTY_def Let_def)
  from heap_fill_correct [OF i0(1) this, of xs] obtain h where h: "heap_fill ?h0 xs = Inr h" "heap_inv h"
      "bh_compare h = cmp" "mset (elems h) = mset xs" using i0 by auto
  then have "length xs = length (elems h)" by (metis size_mset)
  from heap_drain_correct [OF h(2) this] show ?thesis using h by auto
qed

theorem heap_sort_correct_witness:
  "\<exists>h ys. heap_fill (zbx_binary_heap_create by_key ZBX_BINARY_HEAP_OPTION_EMPTY)
     [\<lparr>bkey = 3, bdata = ()\<rparr>, \<lparr>bkey = 1, bdata = ()\<rparr>, \<lparr>bkey = 2, bdata = ()\<rparr>] = Inr h \<and>
    heap_drain 3 h = Inr ys \<and> mset ys = mset [\<lparr>bkey = 3, bdata = ()\<rparr>, \<lparr>bkey = 1, bdata = ()\<rparr>, \<lparr>bkey = 2, bdata = ()\<rparr>] \<and>
    sorted_wrt (\<lambda>a b. by_key a b \<le> 0) ys"
  using heap_sort_correct [OF by_key_axioms,
      of "[\<lparr>bkey = 3, bdata = ()\<rparr>, \<lparr>bkey = 1, bdata = ()\<rparr>, \<lparr>bkey = 2, bdata = ()\<rparr>]"]
  by (simp add: numeral_3_eq_3)

end
