(* ===== verification/Hashset.thy ===== *)
theory Hashset
  imports Buckets Algo_Defs
begin

text \<open>
  The hash set of \<open>src/src/libs/zbxalgo/hashset.c\<close>. A chain of entries is a list; an entry carries
  its address, because the interface hands out and takes back pointers to entries. The allocator
  may be one that returns null (shared memory), so every allocation takes its outcome as an
  argument: a flag for the slot array, an optional fresh address for an entry. A null slot array
  that is indexed is a fault. Freeing and the clean callback have no effect on the model.
\<close>

subsection \<open>State\<close>

record hashset_entry =
  eaddr :: nat
  hash :: u32
  edata :: "u8 list"

record hashset =
  hs_slots :: "hashset_entry list list option"
  hs_num_slots :: nat
  hs_num_data :: nat
  hs_hash_func :: "u8 list \<Rightarrow> u32"
  hs_compare_func :: "u8 list \<Rightarrow> u8 list \<Rightarrow> int"

text \<open>\<open>hs->slots[slot]\<close>, and an assignment to it.\<close>

definition get_chain :: "hashset \<Rightarrow> nat \<Rightarrow> hashset_entry list res" where
  "get_chain hs slot = (case hs_slots hs of None \<Rightarrow> Inl Null_Deref | Some bs \<Rightarrow> Inr (bs ! slot))"

definition set_chain :: "hashset \<Rightarrow> nat \<Rightarrow> hashset_entry list \<Rightarrow> hashset" where
  "set_chain hs slot c = hs\<lparr>hs_slots := map_option (\<lambda>bs. bs[slot := c]) (hs_slots hs)\<rparr>"

subsection \<open>Slots\<close>

text \<open>The number of slots is stored before the allocation is checked.\<close>

definition zbx_hashset_init_slots :: "bool \<Rightarrow> hashset \<Rightarrow> nat \<Rightarrow> hashset \<times> bool" where
  "zbx_hashset_init_slots mem_ok hs init_size =
     (let hs = hs\<lparr>hs_num_data := 0\<rparr> in
      if 0 < init_size then
        let hs = hs\<lparr>hs_num_slots := next_prime init_size\<rparr> in
        if \<not> mem_ok then (hs\<lparr>hs_slots := None\<rparr>, FAIL)
        else (hs\<lparr>hs_slots := Some (replicate (hs_num_slots hs) [])\<rparr>, SUCCEED)
      else (hs\<lparr>hs_num_slots := 0, hs_slots := None\<rparr>, SUCCEED))"

definition zbx_hashset_create_ext ::
  "bool \<Rightarrow> nat \<Rightarrow> (u8 list \<Rightarrow> u32) \<Rightarrow> (u8 list \<Rightarrow> u8 list \<Rightarrow> int) \<Rightarrow> hashset" where
  "zbx_hashset_create_ext mem_ok init_size hf cf =
     fst (zbx_hashset_init_slots mem_ok
       \<lparr>hs_slots = None, hs_num_slots = 0, hs_num_data = 0, hs_hash_func = hf, hs_compare_func = cf\<rparr>
       init_size)"

text \<open>The default allocator does not return on failure.\<close>

definition zbx_hashset_create :: "nat \<Rightarrow> (u8 list \<Rightarrow> u32) \<Rightarrow> (u8 list \<Rightarrow> u8 list \<Rightarrow> int) \<Rightarrow> hashset" where
  "zbx_hashset_create init_size hf cf = zbx_hashset_create_ext True init_size hf cf"

definition zbx_hashset_destroy :: "hashset \<Rightarrow> hashset" where
  "zbx_hashset_destroy hs = hs\<lparr>hs_num_data := 0, hs_num_slots := 0, hs_slots := None\<rparr>"

text \<open>
  The walk along the chain of slot \<open>s\<close> while growing: \<open>kept\<close> has been passed, the entries that
  belong elsewhere are unlinked and put in front of their new chain.
\<close>

fun rehash_chain :: "nat \<Rightarrow> nat \<Rightarrow> hashset_entry list \<Rightarrow> hashset_entry list \<Rightarrow>
    hashset_entry list list \<Rightarrow> hashset_entry list list" where
  "rehash_chain inc_slots s kept [] bs = bs"
| "rehash_chain inc_slots s kept (e # rest) bs =
     (let new_slot = unat (hash e) mod inc_slots in
      if s \<noteq> new_slot
      then rehash_chain inc_slots s kept rest (bs[new_slot := e # bs ! new_slot, s := kept @ rest])
      else rehash_chain inc_slots s (kept @ [e]) rest bs)"

definition hashset_rehash :: "nat \<Rightarrow> nat \<Rightarrow> hashset_entry list list \<Rightarrow> hashset_entry list list" where
  "hashset_rehash num_slots inc_slots bs =
     (let bs = bs @ replicate (inc_slots - num_slots) [] in
      fold (\<lambda>s bs. rehash_chain inc_slots s [] (bs ! s) bs) [0..<num_slots] bs)"

text \<open>After a failed \<open>init_slots\<close> the slot array is null and its size is not: the reallocated
  array then starts with slots that were never written, and following them is a fault.\<close>

definition zbx_hashset_reserve :: "bool \<Rightarrow> hashset \<Rightarrow> nat \<Rightarrow> (hashset \<times> bool) res" where
  "zbx_hashset_reserve mem_ok hs num_slots_req =
     (if hs_num_slots hs = 0 then
        let (hs, ok) = zbx_hashset_init_slots mem_ok hs (max 10 (num_slots_req * (2 - 4 div 5) + 1))
        in if \<not> ok then Inr (hs, FAIL) else Inr (hs, SUCCEED)
      else if hs_num_slots hs * 4 div 5 \<le> num_slots_req then
        let inc_slots = next_prime (hs_num_slots hs * 3 div 2) in
        if \<not> mem_ok then Inr (hs, FAIL)
        else case hs_slots hs of
          None \<Rightarrow> Inl Null_Deref
        | Some bs \<Rightarrow> Inr (hs\<lparr>hs_slots := Some (hashset_rehash (hs_num_slots hs) inc_slots bs),
                            hs_num_slots := inc_slots\<rparr>, SUCCEED)
      else Inr (hs, SUCCEED))"

subsection \<open>Entries\<close>

definition entry_matches :: "hashset \<Rightarrow> u8 list \<Rightarrow> hashset_entry \<Rightarrow> bool" where
  "entry_matches hs data e \<longleftrightarrow> hash e = hs_hash_func hs data \<and> hs_compare_func hs (edata e) data = 0"

definition data_slot :: "hashset \<Rightarrow> u8 list \<Rightarrow> nat" where
  "data_slot hs data = unat (hs_hash_func hs data) mod hs_num_slots hs"

text \<open>
  The bytes a new entry gets: the first \<open>offset\<close> are zeroed, those up to \<open>n\<close> copied; the rest of
  the \<open>size\<close> allocated bytes is left to the caller and not part of the model.
\<close>

definition entry_bytes :: "u8 list \<Rightarrow> nat \<Rightarrow> nat \<Rightarrow> u8 list" where
  "entry_bytes data offset n = replicate offset 0 @ take (n - offset) (drop offset data)"

definition zbx_hashset_insert_ext ::
  "bool \<Rightarrow> bool \<Rightarrow> nat option \<Rightarrow> hashset \<Rightarrow> u8 list \<Rightarrow> nat \<Rightarrow> nat \<Rightarrow> bool \<Rightarrow>
   (hashset \<times> hashset_entry option) res" where
  "zbx_hashset_insert_ext init_ok reserve_ok fresh hs data offset n uniq =
     (let (hs, ok) = (if hs_num_slots hs = 0 then zbx_hashset_init_slots init_ok hs 10 else (hs, SUCCEED)) in
      if \<not> ok then Inr (hs, None)
      else rbind (if \<not> uniq
                  then rbind (get_chain hs (data_slot hs data)) (\<lambda>c. Inr (find (entry_matches hs data) c))
                  else Inr None)
        (\<lambda>entry. case entry of
           Some e \<Rightarrow> Inr (hs, Some e)
         | None \<Rightarrow>
             rbind (zbx_hashset_reserve reserve_ok hs (hs_num_data hs + 1)) (\<lambda>(hs, ok).
               if \<not> ok then Inr (hs, None)
               else case fresh of
                 None \<Rightarrow> Inr (hs, None)
               | Some a \<Rightarrow>
                   let slot = data_slot hs data;
                       e = \<lparr>eaddr = a, hash = hs_hash_func hs data, edata = entry_bytes data offset n\<rparr>
                   in rbind (get_chain hs slot) (\<lambda>c.
                        Inr ((set_chain hs slot (e # c))\<lparr>hs_num_data := hs_num_data hs + 1\<rparr>, Some e)))))"

definition zbx_hashset_insert ::
  "bool \<Rightarrow> bool \<Rightarrow> nat option \<Rightarrow> hashset \<Rightarrow> u8 list \<Rightarrow> (hashset \<times> hashset_entry option) res" where
  "zbx_hashset_insert init_ok reserve_ok fresh hs data =
     zbx_hashset_insert_ext init_ok reserve_ok fresh hs data 0 (length data) False"

definition zbx_hashset_search :: "hashset \<Rightarrow> u8 list \<Rightarrow> hashset_entry option res" where
  "zbx_hashset_search hs data =
     (if hs_num_slots hs = 0 then Inr None
      else rbind (get_chain hs (data_slot hs data)) (\<lambda>c. Inr (find (entry_matches hs data) c)))"

text \<open>Unlinking the first entry of a chain that satisfies a test; \<open>None\<close> if there is none.\<close>

fun unlink :: "('e \<Rightarrow> bool) \<Rightarrow> 'e list \<Rightarrow> 'e list option" where
  "unlink P [] = None"
| "unlink P (e # es) = (if P e then Some es else map_option ((#) e) (unlink P es))"

definition unlink_at :: "hashset \<Rightarrow> nat \<Rightarrow> (hashset_entry \<Rightarrow> bool) \<Rightarrow> hashset res" where
  "unlink_at hs slot P =
     rbind (get_chain hs slot) (\<lambda>c. case unlink P c of
         None \<Rightarrow> Inr hs
       | Some c' \<Rightarrow> Inr ((set_chain hs slot c')\<lparr>hs_num_data := hs_num_data hs - 1\<rparr>))"

definition zbx_hashset_remove :: "hashset \<Rightarrow> u8 list \<Rightarrow> hashset res" where
  "zbx_hashset_remove hs data =
     (if hs_num_slots hs = 0 then Inr hs
      else unlink_at hs (data_slot hs data) (entry_matches hs data))"

definition zbx_hashset_remove_direct :: "hashset \<Rightarrow> hashset_entry \<Rightarrow> hashset res" where
  "zbx_hashset_remove_direct hs data_entry =
     (if hs_num_slots hs = 0 then Inr hs
      else unlink_at hs (unat (hash data_entry) mod hs_num_slots hs) (\<lambda>e. eaddr e = eaddr data_entry))"

definition zbx_hashset_clear :: "hashset \<Rightarrow> hashset" where
  "zbx_hashset_clear hs =
     hs\<lparr>hs_slots := map_option (map (\<lambda>c. [])) (hs_slots hs), hs_num_data := 0\<rparr>"

subsection \<open>Iterators\<close>

text \<open>The iterator's entry pointer is an address (\<open>None\<close> for null).\<close>

record hashset_iter =
  it_slot :: int
  it_entry :: "nat option"

definition ITER_START :: int where
  "ITER_START = -1"

definition ITER_FINISH :: int where
  "ITER_FINISH = -2"

definition zbx_hashset_iter_reset :: "hashset_iter \<Rightarrow> hashset_iter" where
  "zbx_hashset_iter_reset iter = iter\<lparr>it_slot := ITER_START\<rparr>"

text \<open>The chain behind the entry at an address.\<close>

fun chain_after :: "nat \<Rightarrow> hashset_entry list \<Rightarrow> hashset_entry list" where
  "chain_after a [] = []"
| "chain_after a (e # es) = (if eaddr e = a then es else chain_after a es)"

text \<open>The loop that looks for the next slot with a chain, from \<open>slot\<close> on.\<close>

function iter_scan :: "hashset_entry list list \<Rightarrow> nat \<Rightarrow> hashset_iter \<Rightarrow> hashset_iter \<times> hashset_entry option" where
  "iter_scan bs slot iter =
     (if slot < length bs then
        case bs ! slot of
          [] \<Rightarrow> iter_scan bs (slot + 1) iter
        | e # _ \<Rightarrow> (iter\<lparr>it_slot := int slot, it_entry := Some (eaddr e)\<rparr>, Some e)
      else (iter\<lparr>it_slot := ITER_FINISH\<rparr>, None))"
  by pat_completeness auto
termination
  by (relation "measure (\<lambda>(bs, slot, iter). length bs - slot)") auto

declare iter_scan.simps [simp del]

definition zbx_hashset_iter_next :: "hashset \<Rightarrow> hashset_iter \<Rightarrow> (hashset_iter \<times> hashset_entry option) res" where
  "zbx_hashset_iter_next hs iter =
     (if it_slot iter = ITER_FINISH then Inr (iter, None)
      else
        let bs = (case hs_slots hs of None \<Rightarrow> [] | Some bs \<Rightarrow> bs);
            next_entries = (if it_slot iter \<noteq> ITER_START
                            then case it_entry iter of
                              None \<Rightarrow> []
                            | Some a \<Rightarrow> chain_after a (bs ! nat (it_slot iter))
                            else [])
        in case next_entries of
             e # _ \<Rightarrow> Inr (iter\<lparr>it_entry := Some (eaddr e)\<rparr>, Some e)
           | [] \<Rightarrow> if hs_slots hs = None \<and> nat (it_slot iter + 1) < hs_num_slots hs then Inl Null_Deref
                   else Inr (iter_scan bs (nat (it_slot iter + 1)) iter))"

text \<open>The entry in front of the one at an address.\<close>

fun chain_before :: "nat \<Rightarrow> hashset_entry list \<Rightarrow> hashset_entry option" where
  "chain_before a (p # e # es) = (if eaddr e = a then Some p else chain_before a (e # es))"
| "chain_before a _ = None"

text \<open>An entry pointer that is not in the chain makes the search for its predecessor run off the
  end of the chain.\<close>

definition zbx_hashset_iter_remove :: "hashset \<Rightarrow> hashset_iter \<Rightarrow> (hashset \<times> hashset_iter) res" where
  "zbx_hashset_iter_remove hs iter =
     (if it_slot iter = ITER_START \<or> it_slot iter = ITER_FINISH \<or> it_entry iter = None
      then Inl Exit_Failure
      else
        let slot = nat (it_slot iter); a = the (it_entry iter) in
        rbind (get_chain hs slot) (\<lambda>c. case c of
            [] \<Rightarrow> Inl Null_Deref
          | e # es \<Rightarrow>
              if eaddr e = a
              then Inr ((set_chain hs slot es)\<lparr>hs_num_data := hs_num_data hs - 1\<rparr>,
                        iter\<lparr>it_slot := it_slot iter - 1, it_entry := None\<rparr>)
              else case (chain_before a c, unlink (\<lambda>x. eaddr x = a) c) of
                  (Some prev, Some c') \<Rightarrow>
                    Inr ((set_chain hs slot c')\<lparr>hs_num_data := hs_num_data hs - 1\<rparr>,
                         iter\<lparr>it_entry := Some (eaddr prev)\<rparr>)
                | _ \<Rightarrow> Inl Null_Deref))"

text \<open>Copying: the allocator gives an address for each entry in turn, or null. The code does not check for null, so it is
  a fault, for the slot array too.\<close>

fun copy_chain :: "nat \<Rightarrow> nat option list \<Rightarrow> hashset_entry list \<Rightarrow> (hashset_entry list \<times> nat option list) res" where
  "copy_chain entry_size addrs [] = Inr ([], addrs)"
| "copy_chain entry_size (Some a # addrs) (e # es) =
     rbind (copy_chain entry_size addrs es) (\<lambda>(es', addrs).
       Inr (e\<lparr>eaddr := a, edata := take entry_size (edata e)\<rparr> # es', addrs))"
| "copy_chain entry_size addrs (e # es) = Inl Null_Deref"

fun copy_chains :: "nat \<Rightarrow> nat option list \<Rightarrow> hashset_entry list list \<Rightarrow> hashset_entry list list res" where
  "copy_chains entry_size addrs [] = Inr []"
| "copy_chains entry_size addrs (c # cs) =
     rbind (copy_chain entry_size addrs c) (\<lambda>(c', addrs).
       rbind (copy_chains entry_size addrs cs) (\<lambda>cs'. Inr (c' # cs')))"

definition zbx_hashset_copy :: "bool \<Rightarrow> nat option list \<Rightarrow> hashset \<Rightarrow> nat \<Rightarrow> hashset res" where
  "zbx_hashset_copy mem_ok addrs src entry_size =
     (if \<not> mem_ok then Inl Null_Deref
      else rbind (copy_chains entry_size addrs (case hs_slots src of None \<Rightarrow> [] | Some bs \<Rightarrow> bs)) (\<lambda>bs.
        Inr (src\<lparr>hs_slots := Some bs\<rparr>)))"

definition copied_entry :: "nat \<Rightarrow> nat \<Rightarrow> hashset_entry \<Rightarrow> hashset_entry" where
  "copied_entry entry_size a e = e\<lparr>eaddr := a, edata := take entry_size (edata e)\<rparr>"

lemma copy_chain_entries:
  "length es \<le> length as \<Longrightarrow>
    copy_chain n (map Some as) es = Inr (map2 (copied_entry n) as es, map Some (drop (length es) as))"
proof (induction es arbitrary: as)
  case (Cons e es)
  then show ?case by (cases as) (simp_all add: copied_entry_def)
qed simp

lemma zip_take_length: "zip (take (length ys) xs) ys = zip xs ys"
proof (induction ys arbitrary: xs)
  case (Cons y ys)
  then show ?case by (cases xs) simp_all
qed simp

lemma copy_chains_entries:
  "length (concat cs) \<le> length as \<Longrightarrow>
    \<exists>cs'. copy_chains n (map Some as) cs = Inr cs' \<and> map length cs' = map length cs \<and>
      concat cs' = map2 (copied_entry n) as (concat cs)"
proof (induction cs arbitrary: as)
  case (Cons c cs)
  define k where "k = length c"
  have "length (concat cs) \<le> length (drop k as)" using Cons.prems by (simp add: k_def)
  from Cons.IH [OF this] obtain cs' where cs': "copy_chains n (map Some (drop k as)) cs = Inr cs'"
    "map length cs' = map length cs" "concat cs' = map2 (copied_entry n) (drop k as) (concat cs)" by blast
  have "map2 (copied_entry n) as (c @ concat cs) = map2 (copied_entry n) as c @ map2 (copied_entry n) (drop k as) (concat cs)"
    by (simp add: zip_append2 k_def zip_take_length)
  then show ?case using Cons.prems cs' by (simp add: copy_chain_entries k_def [symmetric])
qed simp

text \<open>If no allocation fails, a copy has the entries of the set with their bytes at new addresses, in the same slots.\<close>

lemma hashset_copy_entries:
  assumes "hs_slots hs = Some bs" "length (concat bs) \<le> length as"
  shows "\<exists>bs'. zbx_hashset_copy True (map Some as) hs n = Inr (hs\<lparr>hs_slots := Some bs'\<rparr>) \<and>
    map length bs' = map length bs \<and> concat bs' = map2 (copied_entry n) as (concat bs)"
  using copy_chains_entries [OF assms(2), of n] assms(1) by (auto simp: zbx_hashset_copy_def)

subsection \<open>Growing keeps the entries and places them\<close>

definition entry_hash :: "hashset_entry \<Rightarrow> nat" where
  "entry_hash e = unat (hash e)"

lemma rehash_chain_correct:
  "\<lbrakk>bs ! s = kept @ rest; s < length bs; s < m; inc = length bs;
    settled_buckets entry_hash inc m s (length kept) bs\<rbrakk> \<Longrightarrow>
   length (rehash_chain inc s kept rest bs) = length bs \<and>
   mset (concat (rehash_chain inc s kept rest bs)) = mset (concat bs) \<and>
   settled_buckets entry_hash inc m (Suc s) 0 (rehash_chain inc s kept rest bs)"
proof (induction rest arbitrary: kept bs)
  case Nil
  have "settled_buckets entry_hash inc m (Suc s) 0 bs"
    by (rule settled_buckets_next [OF Nil.prems(5)]) (simp add: Nil.prems(1))
  then show ?case by simp
next
  case (Cons e rest)
  let ?n = "entry_hash e mod inc"
  have n: "?n < length bs" using Cons.prems(2) by (simp only: Cons.prems(4)) (rule mod_less_divisor, linarith)
  show ?case
  proof (cases "?n = s")
    case True
    have "settled_buckets entry_hash inc m s (length (kept @ [e])) bs"
      using settled_buckets_keep [OF Cons.prems(5,1) True] by simp
    moreover have "bs ! s = (kept @ [e]) @ rest" using Cons.prems(1) by simp
    moreover have "rehash_chain inc s kept (e # rest) bs = rehash_chain inc s (kept @ [e]) rest bs"
      using True by (simp add: entry_hash_def)
    ultimately show ?thesis
      using Cons.IH [OF _ Cons.prems(2-4), of "kept @ [e]"] by (simp only:)
  next
    case False
    define bs' where "bs' = bs[?n := e # bs ! ?n, s := kept @ rest]"
    have b: "length bs' = length bs" "bs' ! s = kept @ rest" using Cons.prems(2) by (simp_all add: bs'_def)
    have "mset (concat bs') = mset (concat bs)"
      unfolding bs'_def by (rule mset_concat_move [OF n Cons.prems(2) False]) (simp add: Cons.prems(1))
    moreover have "settled_buckets entry_hash inc m s (length kept) bs'"
      unfolding bs'_def by (rule settled_buckets_move [OF Cons.prems(5) n False refl Cons.prems(3,1)])
    moreover have "rehash_chain inc s kept (e # rest) bs = rehash_chain inc s kept rest bs'"
      using not_sym [OF False] unfolding entry_hash_def bs'_def by (simp only: rehash_chain.simps Let_def if_True simp_thms)
    ultimately show ?thesis
      using Cons.IH [of bs' kept] b Cons.prems(2-4) by (simp only:)
  qed
qed

lemma rehash_chains_correct:
  "\<lbrakk>k \<le> m; m \<le> length bs; inc = length bs; settled_buckets entry_hash inc m 0 0 bs\<rbrakk> \<Longrightarrow>
   let r = fold (\<lambda>s bs. rehash_chain inc s [] (bs ! s) bs) [0..<k] bs in
   length r = length bs \<and> mset (concat r) = mset (concat bs) \<and> settled_buckets entry_hash inc m k 0 r"
proof (induction k)
  case (Suc k)
  define r where "r = fold (\<lambda>s bs. rehash_chain inc s [] (bs ! s) bs) [0..<k] bs"
  have r: "length r = length bs" "mset (concat r) = mset (concat bs)" "settled_buckets entry_hash inc m k 0 r"
    using Suc unfolding r_def Let_def by auto
  have "k < length r" "k < m" "inc = length r" using Suc.prems r(1) by auto
  have e: "fold (\<lambda>s bs. rehash_chain inc s [] (bs ! s) bs) [0..<Suc k] bs = rehash_chain inc k [] (r ! k) r"
    by (simp add: r_def)
  have "settled_buckets entry_hash inc m k (length ([] :: hashset_entry list)) r" using r(3) by simp
  from rehash_chain_correct [OF _ \<open>k < length r\<close> \<open>k < m\<close> \<open>inc = length r\<close> this, of "r ! k"]
  show ?case unfolding e Let_def using r(1,2) by simp
qed simp

lemma hashset_rehash_correct:
  assumes "length bs = m" "m \<le> inc"
  shows "length (hashset_rehash m inc bs) = inc" "mset (concat (hashset_rehash m inc bs)) = mset (concat bs)"
    "placed entry_hash (hashset_rehash m inc bs)"
proof -
  define bs0 where "bs0 = bs @ replicate (inc - m) []"
  have l: "length bs0 = inc" "concat bs0 = concat bs" using assms by (simp_all add: bs0_def)
  have "bs0 ! t = []" if "t < length bs0" "m \<le> t" for t
    using that assms by (simp add: bs0_def nth_append)
  then have "settled_buckets entry_hash inc m 0 0 bs0" unfolding settled_buckets_def by simp
  note R = rehash_chains_correct [OF order_refl _ l(1) [symmetric] this, unfolded l Let_def, OF assms(2)]
  have e: "hashset_rehash m inc bs = fold (\<lambda>s bs. rehash_chain inc s [] (bs ! s) bs) [0..<m] bs0"
    by (simp add: hashset_rehash_def bs0_def Let_def)
  show "length (hashset_rehash m inc bs) = inc" "mset (concat (hashset_rehash m inc bs)) = mset (concat bs)"
    using R unfolding e by blast+
  show "placed entry_hash (hashset_rehash m inc bs)"
    using R settled_buckets_placed [of entry_hash inc m "hashset_rehash m inc bs"] unfolding e by simp
qed

subsection \<open>Contract and invariant\<close>

text \<open>What the set needs of its callbacks: equality under \<open>compare_func\<close> is an equivalence that
  the hash respects.\<close>

locale hash_contract =
  fixes hf :: "u8 list \<Rightarrow> u32" and cf :: "u8 list \<Rightarrow> u8 list \<Rightarrow> int"
  assumes eq_refl: "cf x x = 0"
    and eq_sym: "cf x y = 0 \<Longrightarrow> cf y x = 0"
    and eq_trans: "cf x y = 0 \<Longrightarrow> cf y z = 0 \<Longrightarrow> cf x z = 0"
    and eq_hash: "cf x y = 0 \<Longrightarrow> hf x = hf y"

interpretation string_keys: hash_contract zbx_default_string_hash_func zbx_default_str_compare_func
  by unfold_locales (simp_all add: zbx_default_str_compare_func_def strcmp_eq_0)

definition hs_entries :: "hashset \<Rightarrow> hashset_entry list" where
  "hs_entries hs = (case hs_slots hs of None \<Rightarrow> [] | Some bs \<Rightarrow> concat bs)"

definition entries_ok :: "(u8 list \<Rightarrow> u32) \<Rightarrow> (u8 list \<Rightarrow> u8 list \<Rightarrow> int) \<Rightarrow> hashset_entry list \<Rightarrow> bool" where
  "entries_ok hf cf es \<longleftrightarrow> distinct (map eaddr es) \<and> (\<forall>e \<in> set es. hash e = hf (edata e)) \<and>
     (\<forall>e \<in> set es. \<forall>e' \<in> set es. cf (edata e) (edata e') = 0 \<longrightarrow> e = e')"

definition hs_inv :: "hashset \<Rightarrow> bool" where
  "hs_inv hs \<longleftrightarrow> hash_contract (hs_hash_func hs) (hs_compare_func hs) \<and>
     entries_ok (hs_hash_func hs) (hs_compare_func hs) (hs_entries hs) \<and>
     hs_num_data hs = length (hs_entries hs) \<and>
     (case hs_slots hs of
        None \<Rightarrow> hs_num_slots hs = 0
      | Some bs \<Rightarrow> hs_num_slots hs = length bs \<and> 2 \<le> length bs \<and> placed entry_hash bs)"

lemma entries_ok_mset:
  assumes "mset es = mset es'"
  shows "entries_ok hf cf es \<longleftrightarrow> entries_ok hf cf es'"
proof -
  have "set es = set es'" by (rule mset_eq_setD [OF assms])
  moreover have "distinct (map eaddr es) \<longleftrightarrow> distinct (map eaddr es')"
    by (metis assms mset_eq_imp_distinct_iff mset_map)
  ultimately show ?thesis by (simp add: entries_ok_def)
qed

lemma entries_ok_del: "entries_ok hf cf es \<Longrightarrow> mset es = add_mset x (mset es') \<Longrightarrow> entries_ok hf cf es'"
proof -
  assume "entries_ok hf cf es" "mset es = add_mset x (mset es')"
  then have "entries_ok hf cf (x # es')" using entries_ok_mset [of es "x # es'"] by simp
  then show ?thesis by (auto simp: entries_ok_def)
qed

lemma entries_ok_add:
  assumes "hash_contract hf cf" "entries_ok hf cf es" "mset es' = add_mset x (mset es)"
    "hash x = hf (edata x)" "\<forall>e \<in> set es. cf (edata e) (edata x) \<noteq> 0" "eaddr x \<notin> eaddr ` set es"
  shows "entries_ok hf cf es'"
proof -
  have "\<forall>e \<in> set es. cf (edata x) (edata e) \<noteq> 0"
    using assms(5) hash_contract.eq_sym [OF assms(1)] by blast
  then have "entries_ok hf cf (x # es)" using assms unfolding entries_ok_def by auto
  then show ?thesis using entries_ok_mset [of es' "x # es"] assms(3) by simp
qed

lemma hs_invD:
  assumes "hs_inv hs"
  shows "hash_contract (hs_hash_func hs) (hs_compare_func hs)"
    and "entries_ok (hs_hash_func hs) (hs_compare_func hs) (hs_entries hs)"
    and "hs_num_data hs = length (hs_entries hs)"
    and "hs_num_slots hs = 0 \<longleftrightarrow> hs_slots hs = None"
    and "hs_slots hs = Some bs \<Longrightarrow> hs_num_slots hs = length bs \<and> 2 \<le> length bs \<and> placed entry_hash bs \<and>
      bs \<noteq> [] \<and> hs_entries hs = concat bs"
  using assms by (auto simp: hs_inv_def hs_entries_def split: option.splits)

lemma hs_invI:
  assumes "hs_slots hs = Some bs" "hs_num_slots hs = length bs" "2 \<le> length bs" "placed entry_hash bs"
    "hash_contract (hs_hash_func hs) (hs_compare_func hs)"
    "entries_ok (hs_hash_func hs) (hs_compare_func hs) (concat bs)" "hs_num_data hs = length (concat bs)"
  shows "hs_inv hs"
  using assms by (simp add: hs_inv_def hs_entries_def)

text \<open>The chain of the data's slot has every entry that equals the data.\<close>

lemma find_in_chain:
  assumes inv: "hs_inv hs" and bs: "hs_slots hs = Some bs"
  shows "case find (entry_matches hs data) (bs ! data_slot hs data) of
      Some e \<Rightarrow> e \<in> set (hs_entries hs) \<and> e \<in> set (bs ! data_slot hs data) \<and> hs_compare_func hs (edata e) data = 0
    | None \<Rightarrow> \<forall>e \<in> set (hs_entries hs). hs_compare_func hs (edata e) data \<noteq> 0"
    and "data_slot hs data < length bs"
proof -
  note D = hs_invD [OF inv]
  have b: "hs_num_slots hs = length bs" "placed entry_hash bs" "bs \<noteq> []" "hs_entries hs = concat bs"
    using D(5) [OF bs] by auto
  let ?t = "data_slot hs data"
  show t: "?t < length bs" using b by (simp add: data_slot_def)
  then have "bs ! ?t \<in> set bs" by simp
  then have sub: "set (bs ! ?t) \<subseteq> set (hs_entries hs)" by (auto simp: b(4))
  have "e \<in> set (bs ! ?t) \<and> entry_matches hs data e"
    if e: "e \<in> set (hs_entries hs)" "hs_compare_func hs (edata e) data = 0" for e
  proof -
    have h: "hash e = hs_hash_func hs (edata e)" using D(2) e(1) by (simp add: entries_ok_def)
    also have "\<dots> = hs_hash_func hs data" by (rule hash_contract.eq_hash [OF D(1) e(2)])
    finally have h: "hash e = hs_hash_func hs data" .
    then have "e \<in> set (bs ! ?t)"
      using in_bucket_iff [OF b(2,3), of e] e(1) by (simp add: b data_slot_def entry_hash_def)
    then show ?thesis using h e(2) by (simp add: entry_matches_def)
  qed
  then show "case find (entry_matches hs data) (bs ! ?t) of
      Some e \<Rightarrow> e \<in> set (hs_entries hs) \<and> e \<in> set (bs ! ?t) \<and> hs_compare_func hs (edata e) data = 0
    | None \<Rightarrow> \<forall>e \<in> set (hs_entries hs). hs_compare_func hs (edata e) data \<noteq> 0"
    using sub by (fastforce split: option.split simp: find_None_iff find_Some_iff entry_matches_def)
qed

lemma hashset_search:
  assumes inv: "hs_inv hs"
  shows "\<exists>r. zbx_hashset_search hs data = Inr r \<and> (case r of
      Some e \<Rightarrow> e \<in> set (hs_entries hs) \<and> hs_compare_func hs (edata e) data = 0
    | None \<Rightarrow> \<forall>e \<in> set (hs_entries hs). hs_compare_func hs (edata e) data \<noteq> 0)"
proof (cases "hs_slots hs")
  case None
  then show ?thesis using hs_invD(4) [OF inv] by (simp add: zbx_hashset_search_def hs_entries_def)
next
  case (Some bs)
  then show ?thesis
    using find_in_chain(1) [OF inv Some, of data] hs_invD(4) [OF inv]
    by (auto simp: zbx_hashset_search_def get_chain_def split: option.splits)
qed

subsection \<open>Removal\<close>

lemma unlink_find:
  "case find P c of None \<Rightarrow> unlink P c = None
   | Some x \<Rightarrow> \<exists>c'. unlink P c = Some c' \<and> mset c = add_mset x (mset c')"
  by (induction c) (auto split: option.splits)

lemma hs_shrink_chain:
  assumes inv: "hs_inv hs" and bs: "hs_slots hs = Some bs" and t: "t < length bs"
    and c: "mset (bs ! t) = add_mset x (mset c)"
  defines "hs' \<equiv> (set_chain hs t c)\<lparr>hs_num_data := hs_num_data hs - 1\<rparr>"
  shows "hs_inv hs'" "mset (hs_entries hs) = add_mset x (mset (hs_entries hs'))"
proof -
  note D = hs_invD [OF inv] and B = hs_invD(5) [OF inv bs]
  have s: "hs_slots hs' = Some (bs[t := c])" by (simp add: hs'_def set_chain_def bs)
  have f: "hs_num_slots hs' = hs_num_slots hs" "hs_num_data hs' = hs_num_data hs - 1"
    "hs_hash_func hs' = hs_hash_func hs" "hs_compare_func hs' = hs_compare_func hs"
    by (simp_all add: hs'_def set_chain_def)
  show m: "mset (hs_entries hs) = add_mset x (mset (hs_entries hs'))"
    using mset_concat_sub [OF t, of c "{#x#}"] c B by (simp add: hs_entries_def s)
  have "placed entry_hash (bs[t := c])"
  proof (rule placed_update)
    fix e assume "e \<in> set c"
    then have "e \<in> set (bs ! t)" using c by (metis insert_iff set_mset_add_mset_insert set_mset_mset)
    then show "entry_hash e mod length bs = t" using placedD [of entry_hash bs t e] B t by simp
  qed (use B in simp)
  moreover have "entries_ok (hs_hash_func hs) (hs_compare_func hs) (hs_entries hs')"
    by (rule entries_ok_del [OF D(2) m])
  moreover have "hs_num_data hs' = length (hs_entries hs')"
    using arg_cong [OF m, of size] D(3) f(2) by simp
  ultimately show "hs_inv hs'"
    using B D(1) f by (intro hs_invI [OF s]) (simp_all add: hs_entries_def s)
qed

lemma hs_unlink_at:
  assumes inv: "hs_inv hs" and bs: "hs_slots hs = Some bs" and t: "t < length bs"
  shows "\<exists>hs'. unlink_at hs t P = Inr hs' \<and> hs_inv hs' \<and> hs_hash_func hs' = hs_hash_func hs \<and>
     hs_compare_func hs' = hs_compare_func hs \<and>
     (case find P (bs ! t) of None \<Rightarrow> hs' = hs | Some x \<Rightarrow> mset (hs_entries hs) = add_mset x (mset (hs_entries hs')))"
proof (cases "find P (bs ! t)")
  case None
  then have "unlink P (bs ! t) = None" using unlink_find [of P "bs ! t"] by simp
  then show ?thesis using None inv bs by (simp add: unlink_at_def get_chain_def)
next
  case (Some x)
  then obtain c where c: "unlink P (bs ! t) = Some c" "mset (bs ! t) = add_mset x (mset c)"
    using unlink_find [of P "bs ! t"] by auto
  then show ?thesis
    using Some hs_shrink_chain [OF inv bs t c(2)] bs by (simp add: unlink_at_def get_chain_def set_chain_def)
qed

text \<open>In a set without equal entries, taking out the match leaves the others.\<close>

lemma filter_match:
  assumes inv: "hs_inv hs" and e: "e \<in> set (hs_entries hs)" "hs_compare_func hs (edata e) data = 0"
    and m: "mset (hs_entries hs) = add_mset e M"
  shows "M = filter_mset (\<lambda>x. hs_compare_func hs (edata x) data \<noteq> 0) (mset (hs_entries hs))"
proof -
  note D = hs_invD [OF inv]
  let ?cf = "hs_compare_func hs"
  have d: "distinct (hs_entries hs)" using D(2) by (auto simp: entries_ok_def distinct_map)
  obtain ys where ys: "M = mset ys" by (metis ex_mset)
  then have "distinct (e # ys)" using d m by (metis mset.simps(2) mset_eq_imp_distinct_iff)
  then have "e \<notin># M" using ys by simp
  have "?cf (edata x) data \<noteq> 0" if "x \<in># M" for x
  proof
    assume "?cf (edata x) data = 0"
    then have "?cf (edata x) (edata e) = 0"
      using hash_contract.eq_trans [OF D(1)] hash_contract.eq_sym [OF D(1) e(2)] by blast
    moreover have "x \<in> set (hs_entries hs)" using that m by (metis insert_iff set_mset_add_mset_insert set_mset_mset)
    ultimately have "x = e" using D(2) e(1) unfolding entries_ok_def by blast
    then show False using that \<open>e \<notin># M\<close> by simp
  qed
  then have "filter_mset (\<lambda>x. ?cf (edata x) data \<noteq> 0) M = M" by (simp add: filter_mset_eq_conv)
  then show ?thesis using e(2) by (simp add: m)
qed

lemma hashset_remove:
  assumes inv: "hs_inv hs"
  shows "\<exists>hs'. zbx_hashset_remove hs data = Inr hs' \<and> hs_inv hs' \<and> hs_hash_func hs' = hs_hash_func hs \<and>
     hs_compare_func hs' = hs_compare_func hs \<and>
     mset (hs_entries hs') = filter_mset (\<lambda>x. hs_compare_func hs (edata x) data \<noteq> 0) (mset (hs_entries hs))"
proof (cases "hs_slots hs")
  case None
  then show ?thesis using inv hs_invD(4) [OF inv] by (simp add: zbx_hashset_remove_def hs_entries_def)
next
  case (Some bs)
  note F = find_in_chain [OF inv Some, of data]
  obtain hs' where U: "unlink_at hs (data_slot hs data) (entry_matches hs data) = Inr hs'" "hs_inv hs'"
      "hs_hash_func hs' = hs_hash_func hs" "hs_compare_func hs' = hs_compare_func hs"
      "case find (entry_matches hs data) (bs ! data_slot hs data) of
         None \<Rightarrow> hs' = hs | Some x \<Rightarrow> mset (hs_entries hs) = add_mset x (mset (hs_entries hs'))"
    using hs_unlink_at [OF inv Some F(2)] by blast
  have r: "zbx_hashset_remove hs data = Inr hs'"
    using U(1) hs_invD(4) [OF inv] Some by (simp add: zbx_hashset_remove_def)
  show ?thesis
  proof (cases "find (entry_matches hs data) (bs ! data_slot hs data)")
    case None
    then have "\<forall>e \<in> set (hs_entries hs). hs_compare_func hs (edata e) data \<noteq> 0" using F(1) by simp
    then have "filter_mset (\<lambda>x. hs_compare_func hs (edata x) data \<noteq> 0) (mset (hs_entries hs)) = mset (hs_entries hs)"
      by (simp add: filter_mset_eq_conv)
    then show ?thesis using None U r by simp
  next
    case (Some x)
    then show ?thesis using F(1) U r filter_match [OF inv, of x data "mset (hs_entries hs')"] by auto
  qed
qed

lemma hashset_remove_direct:
  assumes inv: "hs_inv hs" and e: "e \<in> set (hs_entries hs)"
  shows "\<exists>hs'. zbx_hashset_remove_direct hs e = Inr hs' \<and> hs_inv hs' \<and> hs_hash_func hs' = hs_hash_func hs \<and>
     hs_compare_func hs' = hs_compare_func hs \<and> mset (hs_entries hs) = add_mset e (mset (hs_entries hs'))"
proof -
  obtain bs where bs: "hs_slots hs = Some bs" using e by (cases "hs_slots hs") (auto simp: hs_entries_def)
  note B = hs_invD(5) [OF inv bs] and D = hs_invD [OF inv]
  let ?t = "unat (hash e) mod hs_num_slots hs"
  have t: "?t < length bs" using B by simp
  have et: "e \<in> set (bs ! ?t)" using in_bucket_iff [of entry_hash bs e] B e by (simp add: entry_hash_def)
  have sub: "set (bs ! ?t) \<subseteq> set (hs_entries hs)" using set_bucket_subset [OF t] B by simp
  have "inj_on eaddr (set (hs_entries hs))" using D(2) by (simp add: entries_ok_def distinct_map)
  then have "find (\<lambda>x. eaddr x = eaddr e) (bs ! ?t) = Some e"
    using et sub by (cases "find (\<lambda>x. eaddr x = eaddr e) (bs ! ?t)")
      (auto simp: find_None_iff find_Some_iff inj_on_def subset_iff)
  then show ?thesis
    using hs_unlink_at [OF inv bs t, of "\<lambda>x. eaddr x = eaddr e"] D(4) bs
    by (auto simp: zbx_hashset_remove_direct_def)
qed

lemma hashset_clear:
  assumes inv: "hs_inv hs"
  shows "hs_inv (zbx_hashset_clear hs) \<and> hs_entries (zbx_hashset_clear hs) = []"
proof (cases "hs_slots hs")
  case None
  then show ?thesis
    using hs_invD [OF inv] by (simp add: hs_inv_def zbx_hashset_clear_def hs_entries_def entries_ok_def)
next
  case (Some bs)
  have "placed entry_hash (map (\<lambda>c. []) bs)" by (simp add: placed_def)
  then show ?thesis
    using hs_invD [OF inv] hs_invD(5) [OF inv Some] Some
    by (simp add: hs_inv_def zbx_hashset_clear_def hs_entries_def entries_ok_def)
qed

subsection \<open>Creation and insertion\<close>

lemma next_prime_2: "2 \<le> next_prime n"
  using next_prime_props [of n] by (auto simp: is_prime_def split: if_splits)

lemma init_slots_inv:
  assumes "hash_contract (hs_hash_func hs) (hs_compare_func hs)"
  shows "hs_inv (fst (zbx_hashset_init_slots True hs n))" "snd (zbx_hashset_init_slots True hs n)"
    "hs_entries (fst (zbx_hashset_init_slots True hs n)) = []"
    "0 < n \<Longrightarrow> hs_num_slots (fst (zbx_hashset_init_slots True hs n)) \<noteq> 0"
  using assms next_prime_2 [of n]
  by (simp_all add: zbx_hashset_init_slots_def Let_def hs_inv_def hs_entries_def entries_ok_def)

lemma init_slots_funcs [simp]:
  "hs_hash_func (fst (zbx_hashset_init_slots ok hs n)) = hs_hash_func hs"
  "hs_compare_func (fst (zbx_hashset_init_slots ok hs n)) = hs_compare_func hs"
  by (simp_all add: zbx_hashset_init_slots_def Let_def)

lemma hashset_reserve:
  assumes inv: "hs_inv hs" and ok: "hs_num_slots hs = 0 \<Longrightarrow> mem_ok"
  shows "\<exists>hs' r. zbx_hashset_reserve mem_ok hs req = Inr (hs', r) \<and> hs_inv hs' \<and>
    hs_hash_func hs' = hs_hash_func hs \<and> hs_compare_func hs' = hs_compare_func hs \<and>
    mset (hs_entries hs') = mset (hs_entries hs) \<and> (mem_ok \<longrightarrow> r) \<and> (hs_num_slots hs' \<noteq> 0) \<and>
    hs_num_data hs' = hs_num_data hs"
proof (cases "hs_slots hs")
  case None
  then have z: "hs_num_slots hs = 0" "hs_entries hs = []" and mem_ok
    using hs_invD(4) [OF inv] ok by (simp_all add: hs_entries_def)
  let ?r = "zbx_hashset_init_slots True hs (max 10 (req * (2 - 4 div 5) + 1))"
  note I = init_slots_inv [OF hs_invD(1) [OF inv], of "max 10 (req * (2 - 4 div 5) + 1)"]
  have "zbx_hashset_reserve mem_ok hs req = Inr (fst ?r, True)"
    using I(2) z(1) \<open>mem_ok\<close> by (simp add: zbx_hashset_reserve_def case_prod_unfold)
  moreover have "hs_num_data (fst ?r) = hs_num_data hs"
    using hs_invD(3) [OF inv] hs_invD(3) [OF I(1)] I(3) z(2) by simp
  ultimately show ?thesis using I z(2) by auto
next
  case (Some bs)
  note B = hs_invD(5) [OF inv Some] and D = hs_invD [OF inv]
  show ?thesis
  proof (cases "hs_num_slots hs * 4 div 5 \<le> req \<and> mem_ok")
    case False
    then show ?thesis using inv B by (auto simp: zbx_hashset_reserve_def Let_def)
  next
    case True
    let ?inc = "next_prime (hs_num_slots hs * 3 div 2)"
    have "hs_num_slots hs * 3 div 2 \<le> ?inc" using next_prime_props by blast
    then have inc: "length bs \<le> ?inc" using B by linarith
    note R = hashset_rehash_correct [OF refl inc]
    let ?bs = "hashset_rehash (length bs) ?inc bs"
    define hs' where "hs' = hs\<lparr>hs_slots := Some ?bs, hs_num_slots := ?inc\<rparr>"
    have f: "hs_slots hs' = Some ?bs" "hs_num_slots hs' = ?inc" "hs_num_data hs' = hs_num_data hs"
      "hs_hash_func hs' = hs_hash_func hs" "hs_compare_func hs' = hs_compare_func hs"
      by (simp_all add: hs'_def)
    have "entries_ok (hs_hash_func hs) (hs_compare_func hs) (concat ?bs)"
      using entries_ok_mset [OF R(2)] D(2) B by simp
    moreover have "length (concat ?bs) = length (concat bs)" by (metis R(2) size_mset)
    ultimately have "hs_inv hs'"
      using R(1,3) inc B D by (intro hs_invI [OF f(1)]) (simp_all add: f)
    moreover have "zbx_hashset_reserve mem_ok hs req = Inr (hs', True)"
      using True B Some by (simp add: zbx_hashset_reserve_def Let_def hs'_def)
    moreover have "mset (hs_entries hs') = mset (hs_entries hs)"
      using R(2) B by (simp add: hs_entries_def f)
    ultimately show ?thesis using f B inc by auto
  qed
qed

lemma entry_bytes_all [simp]: "entry_bytes data 0 (length data) = data"
  by (simp add: entry_bytes_def)

text \<open>Adding an entry in front of its chain.\<close>

lemma hs_grow_chain:
  assumes inv: "hs_inv hs" and n: "hs_num_slots hs \<noteq> 0"
    and new: "\<forall>x \<in> set (hs_entries hs). hs_compare_func hs (edata x) (edata e) \<noteq> 0"
    and h: "hash e = hs_hash_func hs (edata e)" and a: "eaddr e \<notin> eaddr ` set (hs_entries hs)"
  defines "t \<equiv> data_slot hs (edata e)"
  shows "\<exists>bs. hs_slots hs = Some bs \<and>
    hs_inv ((set_chain hs t (e # bs ! t))\<lparr>hs_num_data := hs_num_data hs + 1\<rparr>) \<and>
    mset (hs_entries ((set_chain hs t (e # bs ! t))\<lparr>hs_num_data := hs_num_data hs + 1\<rparr>)) =
      add_mset e (mset (hs_entries hs))"
proof -
  obtain bs where bs: "hs_slots hs = Some bs" using n hs_invD(4) [OF inv] by (cases "hs_slots hs") auto
  note D = hs_invD [OF inv] and B = hs_invD(5) [OF inv bs]
  have t: "t < length bs" using B by (simp add: t_def data_slot_def)
  let ?hs = "(set_chain hs t (e # bs ! t))\<lparr>hs_num_data := hs_num_data hs + 1\<rparr>"
  have f: "hs_slots ?hs = Some (bs[t := e # bs ! t])" "hs_num_slots ?hs = hs_num_slots hs"
    "hs_num_data ?hs = hs_num_data hs + 1" "hs_hash_func ?hs = hs_hash_func hs"
    "hs_compare_func ?hs = hs_compare_func hs"
    by (simp_all add: set_chain_def bs)
  have m: "mset (hs_entries ?hs) = add_mset e (mset (hs_entries hs))"
  proof -
    have "hs_entries ?hs = concat (bs[t := e # bs ! t])" by (simp only: hs_entries_def f(1) option.case)
    then show ?thesis using mset_concat_add [OF t, of "e # bs ! t" "{#e#}"] B by simp
  qed
  have "placed entry_hash (bs[t := e # bs ! t])"
  proof (rule placed_update)
    fix x assume "x \<in> set (e # bs ! t)"
    then show "entry_hash x mod length bs = t"
      using placedD [of entry_hash bs t x] B t h by (auto simp: t_def data_slot_def entry_hash_def)
  qed (use B in simp)
  moreover have "entries_ok (hs_hash_func hs) (hs_compare_func hs) (hs_entries ?hs)"
    by (rule entries_ok_add [OF D(1,2) m h new a])
  moreover have "hs_num_data ?hs = length (hs_entries ?hs)"
    using arg_cong [OF m, of size] D(3) f(3) by simp
  ultimately have "hs_inv ?hs"
    using B D(1) f by (intro hs_invI [OF f(1)]) (simp_all add: hs_entries_def)
  then show ?thesis using m bs by blast
qed

lemma reserve_flag:
  "zbx_hashset_reserve mem_ok hs req = Inr (hs', r) \<Longrightarrow> hs_num_slots hs \<noteq> 0 \<Longrightarrow>
    r = (mem_ok \<or> \<not> hs_num_slots hs * 4 div 5 \<le> req) \<and> (r \<or> hs' = hs)"
  by (auto simp: zbx_hashset_reserve_def Let_def split: if_splits option.splits)

text \<open>Whether the insertion of a new value grows the slot array.\<close>

definition grows :: "hashset \<Rightarrow> bool" where
  "grows hs \<longleftrightarrow> hs_num_slots hs \<noteq> 0 \<and> hs_num_slots hs * 4 div 5 \<le> hs_num_data hs + 1"

lemma hashset_insert:
  assumes inv: "hs_inv hs" and fresh: "\<forall>a. addr = Some a \<longrightarrow> a \<notin> eaddr ` set (hs_entries hs)"
    and n: "n = length data"
  shows "\<exists>hs' r. zbx_hashset_insert_ext True reserve_ok addr hs data 0 n False = Inr (hs', r) \<and> hs_inv hs' \<and>
    hs_hash_func hs' = hs_hash_func hs \<and> hs_compare_func hs' = hs_compare_func hs \<and>
    (if \<exists>e \<in> set (hs_entries hs). hs_compare_func hs (edata e) data = 0 then
       hs' = hs \<and> (\<exists>e. r = Some e \<and> e \<in> set (hs_entries hs) \<and> hs_compare_func hs (edata e) data = 0)
     else case r of
       Some e \<Rightarrow> edata e = data \<and> addr = Some (eaddr e) \<and> (reserve_ok \<or> \<not> grows hs) \<and>
         mset (hs_entries hs') = add_mset e (mset (hs_entries hs))
     | None \<Rightarrow> mset (hs_entries hs') = mset (hs_entries hs) \<and>
         (if grows hs \<and> \<not> reserve_ok then hs' = hs else addr = None))"
proof -
  define hs1 where "hs1 = (if hs_num_slots hs = 0 then fst (zbx_hashset_init_slots True hs 10) else hs)"
  note D = hs_invD [OF inv]
  have h1: "hs_inv hs1" "mset (hs_entries hs1) = mset (hs_entries hs)" "hs_hash_func hs1 = hs_hash_func hs"
    "hs_compare_func hs1 = hs_compare_func hs" "hs_num_slots hs1 \<noteq> 0"
    using inv init_slots_inv [OF D(1), of 10] D(4) by (auto simp: hs1_def hs_entries_def split: if_splits)
  have s1: "set (hs_entries hs1) = set (hs_entries hs)" using mset_eq_setD [OF h1(2)] .
  have "10 \<le> next_prime 10" using next_prime_props by blast
  then have "8 \<le> next_prime 10 * 4 div 5" by linarith
  then have start_room: "hs_num_slots hs = 0 \<Longrightarrow> \<not> hs_num_slots hs1 * 4 div 5 \<le> hs_num_data hs1 + 1"
    by (simp add: hs1_def zbx_hashset_init_slots_def)
  have start: "(if hs_num_slots hs = 0 then zbx_hashset_init_slots True hs 10 else (hs, True)) = (hs1, True)"
    using init_slots_inv(2) [OF D(1), of 10] by (simp add: hs1_def prod_eq_iff)
  obtain bs where bs: "hs_slots hs1 = Some bs"
    using h1(5) hs_invD(4) [OF h1(1)] by (cases "hs_slots hs1") auto
  note F = find_in_chain [OF h1(1) bs, of data]
  let ?f = "find (entry_matches hs1 data) (bs ! data_slot hs1 data)"
  show ?thesis
  proof (cases ?f)
    case (Some e)
    then have "zbx_hashset_insert_ext True reserve_ok addr hs data 0 n False = Inr (hs1, Some e)"
      using bs unfolding zbx_hashset_insert_ext_def start by (simp add: get_chain_def)
    moreover have e: "e \<in> set (hs_entries hs)" "hs_compare_func hs (edata e) data = 0"
      using F(1) Some s1 h1(4) by auto
    moreover have "hs1 = hs" using e(1) D(4) by (auto simp: hs1_def hs_entries_def split: option.splits)
    ultimately show ?thesis using inv by auto
  next
    case None
    then have no: "\<forall>e \<in> set (hs_entries hs). hs_compare_func hs (edata e) data \<noteq> 0"
      using F(1) s1 h1(4) by auto
    obtain hs2 r where R: "zbx_hashset_reserve reserve_ok hs1 (hs_num_data hs1 + 1) = Inr (hs2, r)" "hs_inv hs2"
        "hs_hash_func hs2 = hs_hash_func hs1" "hs_compare_func hs2 = hs_compare_func hs1"
        "mset (hs_entries hs2) = mset (hs_entries hs1)" "reserve_ok \<longrightarrow> r" "hs_num_slots hs2 \<noteq> 0"
        "hs_num_data hs2 = hs_num_data hs1"
      using hashset_reserve [OF h1(1), of reserve_ok "hs_num_data hs1 + 1"] h1(5) by blast
    have fl: "r = (reserve_ok \<or> \<not> grows hs)" "r \<or> hs2 = hs"
      using reserve_flag [OF R(1) h1(5)] start_room by (auto simp: grows_def hs1_def split: if_splits)
    have s2: "set (hs_entries hs2) = set (hs_entries hs)" using mset_eq_setD [OF R(5)] s1 by simp
    show ?thesis
    proof (cases "r \<and> addr \<noteq> None")
      case False
      then have "zbx_hashset_insert_ext True reserve_ok addr hs data 0 n False = Inr (hs2, None)"
        using None bs R(1) unfolding zbx_hashset_insert_ext_def start
        by (auto simp: get_chain_def split: option.split)
      then show ?thesis using R h1 no False fl by auto
    next
      case True
      then obtain a where a: "addr = Some a" r by auto
      define e where "e = \<lparr>eaddr = a, hash = hs_hash_func hs2 data, edata = data\<rparr>"
      have ed: "edata e = data" "eaddr e = a" "hash e = hs_hash_func hs2 (edata e)" by (simp_all add: e_def)
      obtain bs2 where G: "hs_slots hs2 = Some bs2"
        "hs_inv ((set_chain hs2 (data_slot hs2 data) (e # bs2 ! data_slot hs2 data))\<lparr>hs_num_data := hs_num_data hs2 + 1\<rparr>)"
        "mset (hs_entries ((set_chain hs2 (data_slot hs2 data) (e # bs2 ! data_slot hs2 data))\<lparr>hs_num_data := hs_num_data hs2 + 1\<rparr>)) =
          add_mset e (mset (hs_entries hs2))"
        using hs_grow_chain [OF R(2,7) _ ed(3)] no fresh [rule_format, OF a(1)] s2 R(4) h1(4) by (auto simp: ed)
      have "zbx_hashset_insert_ext True reserve_ok addr hs data 0 n False =
          Inr ((set_chain hs2 (data_slot hs2 data) (e # bs2 ! data_slot hs2 data))\<lparr>hs_num_data := hs_num_data hs2 + 1\<rparr>, Some e)"
        using None bs R(1) a G(1) n unfolding zbx_hashset_insert_ext_def start
        by (simp add: get_chain_def e_def Let_def)
      then show ?thesis using G R h1 no a fl(1) ed(1,2) by (auto simp: set_chain_def)
    qed
  qed
qed

lemma hashset_insert_served:
  assumes inv: "hs_inv hs" and k: "k \<notin> eaddr ` set (hs_entries hs)"
  shows "\<exists>hs' r. zbx_hashset_insert_ext True True (Some k) hs d 0 (length d) False = Inr (hs', r) \<and> hs_inv hs' \<and>
    hs_hash_func hs' = hs_hash_func hs \<and> hs_compare_func hs' = hs_compare_func hs \<and>
    (if \<exists>e \<in> set (hs_entries hs). hs_compare_func hs (edata e) d = 0
     then mset (hs_entries hs') = mset (hs_entries hs) \<and> (\<exists>e. r = Some e \<and> e \<in> set (hs_entries hs) \<and> hs_compare_func hs (edata e) d = 0)
     else case r of
       Some e \<Rightarrow> edata e = d \<and> Some k = Some (eaddr e) \<and> mset (hs_entries hs') = add_mset e (mset (hs_entries hs))
     | None \<Rightarrow> mset (hs_entries hs') = mset (hs_entries hs) \<and> (\<not> True \<or> Some k = None))"
    (is "\<exists>hs' r. ?I hs' r \<and> ?inv hs' \<and> ?hf hs' \<and> ?cf hs' \<and> (if ?present then ?same hs' r else ?new hs' r)")
proof -
  have "\<forall>a. Some k = Some a \<longrightarrow> a \<notin> eaddr ` set (hs_entries hs)" using k by simp
  from hashset_insert [OF inv this refl, where reserve_ok = True and data = d] obtain hs' r where
    R: "?I hs' r" "?inv hs'" "?hf hs'" "?cf hs'"
      "if ?present then hs' = hs \<and> (\<exists>e. r = Some e \<and> e \<in> set (hs_entries hs) \<and> hs_compare_func hs (edata e) d = 0)
       else case r of
         Some e \<Rightarrow> edata e = d \<and> Some k = Some (eaddr e) \<and> (True \<or> \<not> grows hs) \<and>
           mset (hs_entries hs') = add_mset e (mset (hs_entries hs))
       | None \<Rightarrow> mset (hs_entries hs') = mset (hs_entries hs) \<and>
           (if grows hs \<and> \<not> True then hs' = hs else Some k = None)"
    by - (elim exE conjE, rule that, assumption+)
  have "if ?present then ?same hs' r else ?new hs' r"
  proof (cases ?present)
    case True
    then show ?thesis using R(5) by simp
  next
    case False
    then show ?thesis using R(5) unfolding if_not_P [OF False] by (cases r) simp_all
  qed
  then show ?thesis using R(1-4) by (intro exI [of _ hs'] exI [of _ r] conjI)
qed

subsection \<open>Iteration\<close>

text \<open>The iterator stands behind the entries \<open>K\<close> and before \<open>R\<close>: at the end of a slot, or on an entry.\<close>

definition iter_at :: "hashset_entry list list \<Rightarrow> hashset_entry list \<Rightarrow> hashset_iter \<Rightarrow> hashset_entry list \<Rightarrow> bool" where
  "iter_at bs K it R \<longleftrightarrow> - 1 \<le> it_slot it \<and> it_slot it < int (length bs) \<and>
     (if it_slot it = ITER_START \<or> it_entry it = None then
        K = concat (take (nat (it_slot it + 1)) bs) \<and> R = concat (drop (nat (it_slot it + 1)) bs)
      else \<exists>pre e post. bs ! nat (it_slot it) = pre @ e # post \<and> it_entry it = Some (eaddr e) \<and>
        K = concat (take (nat (it_slot it)) bs) @ pre @ [e] \<and> R = post @ concat (drop (Suc (nat (it_slot it))) bs))"

lemma iter_at_entries: "iter_at bs K it R \<Longrightarrow> concat bs = K @ R"
proof -
  assume a: "iter_at bs K it R"
  show ?thesis
  proof (cases "it_slot it = ITER_START \<or> it_entry it = None")
    case True
    then show ?thesis using a by (simp add: iter_at_def flip: concat_append)
  next
    case False
    then obtain pre e post where p: "bs ! nat (it_slot it) = pre @ e # post"
        "K = concat (take (nat (it_slot it)) bs) @ pre @ [e]" "R = post @ concat (drop (Suc (nat (it_slot it))) bs)"
        and s: "- 1 \<le> it_slot it" "it_slot it < int (length bs)"
      using a by (auto simp: iter_at_def)
    have "nat (it_slot it) < length bs" using s False by (auto simp: ITER_START_def)
    then have "concat bs = concat (take (nat (it_slot it)) bs @ bs ! nat (it_slot it) # drop (Suc (nat (it_slot it))) bs)"
      by (simp add: id_take_nth_drop [symmetric])
    then show ?thesis using p by simp
  qed
qed

lemma iter_scan_correct:
  "s \<le> length bs \<Longrightarrow> iter_scan bs s it = (it', r) \<Longrightarrow>
   case concat (drop s bs) of
     [] \<Rightarrow> r = None \<and> it_slot it' = ITER_FINISH
   | e # R \<Rightarrow> r = Some e \<and> it_entry it' = Some (eaddr e) \<and> iter_at bs (concat (take s bs) @ [e]) it' R"
proof (induction bs s it rule: iter_scan.induct)
  case (1 bs s it)
  show ?case
  proof (cases "s < length bs")
    case False
    then show ?thesis using "1.prems" by (subst (asm) iter_scan.simps) auto
  next
    case True
    have split: "drop s bs = bs ! s # drop (Suc s) bs" "take (Suc s) bs = take s bs @ [bs ! s]"
      using True by (simp_all add: Cons_nth_drop_Suc take_Suc_conv_app_nth)
    show ?thesis
    proof (cases "bs ! s")
      case Nil
      then have "iter_scan bs (s + 1) it = (it', r)"
        using "1.prems"(2) True by (subst (asm) iter_scan.simps) simp
      moreover have "concat (take (s + 1) bs) = concat (take s bs)" "concat (drop (s + 1) bs) = concat (drop s bs)"
        using Nil by (simp_all add: split)
      ultimately show ?thesis using "1.IH" [OF True Nil] True by (simp only: Suc_eq_plus1 [symmetric] Suc_leI)
    next
      case (Cons e es)
      then have "it' = it\<lparr>it_slot := int s, it_entry := Some (eaddr e)\<rparr>" "r = Some e"
        using "1.prems"(2) True by (subst (asm) iter_scan.simps, simp)+
      moreover from this have "iter_at bs (concat (take s bs) @ [e]) it' (es @ concat (drop (Suc s) bs))"
        using True Cons unfolding iter_at_def ITER_START_def by (auto intro!: exI [of _ "[]"])
      ultimately show ?thesis using Cons by (simp add: split)
    qed
  qed
qed

lemma chain_after_split:
  "distinct (map eaddr (pre @ e # post)) \<Longrightarrow> chain_after (eaddr e) (pre @ e # post) = post"
  by (induction pre) auto

lemma unlink_split:
  "distinct (map eaddr (pre @ e # post)) \<Longrightarrow>
   unlink (\<lambda>x. eaddr x = eaddr e) (pre @ e # post) = Some (pre @ post)"
  by (induction pre) auto

lemma chain_before_split:
  "distinct (map eaddr (pre @ p # e # post)) \<Longrightarrow> chain_before (eaddr e) (pre @ p # e # post) = Some p"
proof (induction pre)
  case (Cons q pre)
  then show ?case by (cases pre) auto
qed simp

lemma distinct_bucket:
  assumes "distinct (map eaddr (concat bs))" "t < length bs"
  shows "distinct (map eaddr (bs ! t))"
proof -
  have "concat bs = concat (take t bs) @ bs ! t @ concat (drop (Suc t) bs)"
    using id_take_nth_drop [OF assms(2)] by (metis concat.simps(2) concat_append)
  then show ?thesis using assms(1) by simp
qed

lemma iter_next_correct:
  assumes bs: "hs_slots hs = Some bs" and d: "distinct (map eaddr (concat bs))" and at: "iter_at bs K it R"
  shows "\<exists>it' r. zbx_hashset_iter_next hs it = Inr (it', r) \<and>
    (case R of [] \<Rightarrow> r = None | e # R' \<Rightarrow> r = Some e \<and> it_entry it' = Some (eaddr e) \<and> it_slot it' \<noteq> ITER_START \<and>
       iter_at bs (K @ [e]) it' R')"
proof -
  let ?s = "nat (it_slot it)" and ?s1 = "nat (it_slot it + 1)"
  have rng: "- 1 \<le> it_slot it" "it_slot it < int (length bs)" using at by (simp_all add: iter_at_def)
  then have nf: "it_slot it \<noteq> ITER_FINISH" by (simp add: ITER_FINISH_def)
  have le: "?s1 \<le> length bs" using rng by linarith
  obtain it1 r1 where sc: "iter_scan bs ?s1 it = (it1, r1)" by (cases "iter_scan bs ?s1 it")
  note S = iter_scan_correct [OF le sc]
  have nostart: "it_slot it' \<noteq> ITER_START" if "iter_at bs (K' @ [e]) it' R'" for K' e it' R'
    using that by (auto simp: iter_at_def ITER_START_def)
  show ?thesis
  proof (cases "it_slot it = ITER_START \<or> it_entry it = None")
    case True
    then have KR: "K = concat (take ?s1 bs)" "R = concat (drop ?s1 bs)" using at by (auto simp: iter_at_def)
    have "zbx_hashset_iter_next hs it = Inr (it1, r1)"
      using True nf sc bs by (auto simp: zbx_hashset_iter_next_def Let_def)
    then show ?thesis using S [folded KR] nostart by (cases R) auto
  next
    case False
    then obtain pre e post where p: "bs ! ?s = pre @ e # post" "it_entry it = Some (eaddr e)"
        "K = concat (take ?s bs) @ pre @ [e]" "R = post @ concat (drop (Suc ?s) bs)"
      using at by (auto simp: iter_at_def)
    have s: "?s < length bs" "?s1 = Suc ?s" "0 \<le> it_slot it"
      using rng False by (auto simp: ITER_START_def)
    have after: "chain_after (eaddr e) (bs ! ?s) = post"
      using distinct_bucket [OF d s(1)] chain_after_split [of pre e post] unfolding p(1) by simp
    show ?thesis
    proof (cases post)
      case Nil
      have tk: "concat (take ?s1 bs) = K" using s(1,2) p Nil by (simp add: take_Suc_conv_app_nth)
      have "zbx_hashset_iter_next hs it = Inr (it1, r1)"
        using False nf sc bs after p(2) Nil by (simp add: zbx_hashset_iter_next_def Let_def)
      moreover have "concat (drop ?s1 bs) = R" using p(4) Nil s(2) by simp
      moreover from this have "case R of [] \<Rightarrow> r1 = None \<and> it_slot it1 = ITER_FINISH
        | e # R \<Rightarrow> r1 = Some e \<and> it_entry it1 = Some (eaddr e) \<and> iter_at bs (K @ [e]) it1 R"
        using S [unfolded tk] by (simp only:)
      ultimately show ?thesis using nostart by (cases R) auto
    next
      case (Cons e2 post2)
      define it2 where "it2 = it\<lparr>it_entry := Some (eaddr e2)\<rparr>"
      have "zbx_hashset_iter_next hs it = Inr (it2, Some e2)"
        using False nf bs after p(2) Cons by (simp add: zbx_hashset_iter_next_def Let_def it2_def)
      moreover have "iter_at bs (K @ [e2]) it2 (post2 @ concat (drop (Suc ?s) bs))"
        unfolding iter_at_def using rng False p Cons
        by (auto simp: it2_def intro!: exI [of _ "pre @ [e]"] exI [of _ e2])
      ultimately show ?thesis using p(4) Cons False by (auto simp: it2_def)
    qed
  qed
qed

lemma iter_remove_correct:
  assumes inv: "hs_inv hs" and bs: "hs_slots hs = Some bs" and at: "iter_at bs (K @ [e]) it R"
    and it: "it_slot it \<noteq> ITER_START" "it_entry it = Some (eaddr e)"
  shows "\<exists>hs' it' bs'. zbx_hashset_iter_remove hs it = Inr (hs', it') \<and> hs_inv hs' \<and> hs_slots hs' = Some bs' \<and>
     iter_at bs' K it' R"
proof -
  let ?s = "nat (it_slot it)"
  note D = hs_invD [OF inv] and B = hs_invD(5) [OF inv bs]
  have d: "distinct (map eaddr (concat bs))" using D(2) B by (simp add: entries_ok_def)
  obtain pre e2 post where p: "bs ! ?s = pre @ e2 # post" "eaddr e2 = eaddr e"
      "K @ [e] = concat (take ?s bs) @ pre @ [e2]" "R = post @ concat (drop (Suc ?s) bs)"
    using at it by (auto simp: iter_at_def)
  have K: "e2 = e" "K = concat (take ?s bs) @ pre" using p(3) by (simp_all add: append_assoc [symmetric] del: append_assoc)
  have rng: "0 \<le> it_slot it" "it_slot it < int (length bs)"
    using at it(1) by (auto simp: iter_at_def ITER_START_def)
  then have s: "?s < length bs" by linarith
  have guard: "\<not> (it_slot it = ITER_START \<or> it_slot it = ITER_FINISH \<or> it_entry it = None)"
    using rng it by (auto simp: ITER_START_def ITER_FINISH_def)
  have dc: "distinct (map eaddr (pre @ e # post))" using distinct_bucket [OF d s] p(1) K(1) by simp
  define bs' where "bs' = bs[?s := pre @ post]"
  define hs' where "hs' = (set_chain hs ?s (pre @ post))\<lparr>hs_num_data := hs_num_data hs - 1\<rparr>"
  have h: "hs_inv hs'" "hs_slots hs' = Some bs'"
    using hs_shrink_chain(1) [OF inv bs s, of e "pre @ post"] p(1) K(1) bs
    by (simp_all add: hs'_def set_chain_def bs'_def)
  have tk: "take ?s bs' = take ?s bs" "drop (Suc ?s) bs' = drop (Suc ?s) bs" "bs' ! ?s = pre @ post"
    using s by (simp_all add: bs'_def)
  have get: "get_chain hs ?s = Inr (pre @ e # post)" using bs p(1) K(1) by (simp add: get_chain_def)
  show ?thesis
  proof (cases pre rule: rev_cases)
    case Nil
    define it' where "it' = it\<lparr>it_slot := it_slot it - 1, it_entry := None\<rparr>"
    have "drop ?s bs' = (pre @ post) # drop (Suc ?s) bs'"
      using s tk(3) by (metis Cons_nth_drop_Suc bs'_def length_list_update)
    then have "iter_at bs' K it' R"
      using rng K(2) p(4) tk Nil by (simp add: iter_at_def it'_def bs'_def)
    moreover have "zbx_hashset_iter_remove hs it = Inr (hs', it')"
      using guard get it(2) Nil unfolding zbx_hashset_iter_remove_def hs'_def it'_def by simp
    ultimately show ?thesis using h by blast
  next
    case (snoc pre' q)
    define it' where "it' = it\<lparr>it_entry := Some (eaddr q)\<rparr>"
    have "iter_at bs' K it' R"
      unfolding iter_at_def
      using rng K(2) p(4) tk snoc it(1) s
      by (auto simp: it'_def bs'_def intro!: exI [of _ pre'] exI [of _ q])
    moreover have "zbx_hashset_iter_remove hs it = Inr (hs', it')"
    proof -
      have "chain_before (eaddr e) (pre @ e # post) = Some q"
        using chain_before_split [of pre' q e post] dc snoc by simp
      moreover have "unlink (\<lambda>x. eaddr x = eaddr e) (pre @ e # post) = Some (pre @ post)"
        by (rule unlink_split [OF dc])
      moreover obtain x xs where "pre @ e # post = x # xs" "eaddr x \<noteq> eaddr e"
        using dc snoc by (cases pre') auto
      ultimately show ?thesis
        using guard get it(2) unfolding zbx_hashset_iter_remove_def hs'_def it'_def by auto
    qed
    ultimately show ?thesis using h by blast
  qed
qed

text \<open>The loop that clients write: visit every entry and remove those that satisfy a test.\<close>

fun hs_sweep :: "nat \<Rightarrow> (hashset_entry \<Rightarrow> bool) \<Rightarrow> hashset \<Rightarrow> hashset_iter \<Rightarrow> (hashset \<times> hashset_entry list) res" where
  "hs_sweep 0 P hs it = Inr (hs, [])"
| "hs_sweep (Suc n) P hs it = rbind (zbx_hashset_iter_next hs it) (\<lambda>(it, r).
     case r of
       None \<Rightarrow> Inr (hs, [])
     | Some e \<Rightarrow> rbind (if P e then zbx_hashset_iter_remove hs it else Inr (hs, it)) (\<lambda>(hs, it).
         rbind (hs_sweep n P hs it) (\<lambda>(hs, es). Inr (hs, e # es))))"

lemma hs_sweep_correct:
  "\<lbrakk>hs_inv hs; hs_slots hs = Some bs; iter_at bs K it R; length R < n\<rbrakk> \<Longrightarrow>
   \<exists>hs'. hs_sweep n P hs it = Inr (hs', R) \<and> hs_inv hs' \<and> hs_entries hs' = K @ filter (\<lambda>e. \<not> P e) R"
proof (induction R arbitrary: hs bs K it n)
  case Nil
  obtain m where n: "n = Suc m" using Nil.prems(4) by (cases n) auto
  have d: "distinct (map eaddr (concat bs))"
    using hs_invD(2,5) [OF Nil.prems(1)] Nil.prems(2) by (auto simp: entries_ok_def)
  obtain it' where "zbx_hashset_iter_next hs it = Inr (it', None)"
    using iter_next_correct [OF Nil.prems(2) d Nil.prems(3)] by auto
  then show ?case
    using n Nil.prems(1) iter_at_entries [OF Nil.prems(3)] hs_invD(5) [OF Nil.prems(1,2)] by simp
next
  case (Cons e R)
  obtain m where n: "n = Suc m" "length R < m" using Cons.prems(4) by (cases n) auto
  have d: "distinct (map eaddr (concat bs))"
    using hs_invD(2,5) [OF Cons.prems(1)] Cons.prems(2) by (auto simp: entries_ok_def)
  obtain it' where it': "zbx_hashset_iter_next hs it = Inr (it', Some e)" "it_entry it' = Some (eaddr e)"
      "it_slot it' \<noteq> ITER_START" "iter_at bs (K @ [e]) it' R"
    using iter_next_correct [OF Cons.prems(2) d Cons.prems(3)] by auto
  show ?case
  proof (cases "P e")
    case True
    obtain hs1 it1 bs1 where r: "zbx_hashset_iter_remove hs it' = Inr (hs1, it1)" "hs_inv hs1"
        "hs_slots hs1 = Some bs1" "iter_at bs1 K it1 R"
      using iter_remove_correct [OF Cons.prems(1,2) it'(4,3,2)] by blast
    from Cons.IH [OF r(2-4) n(2)] show ?thesis using it'(1) r(1) True n(1) by auto
  next
    case False
    from Cons.IH [OF Cons.prems(1,2) it'(4) n(2)] show ?thesis using it'(1) False n(1) by auto
  qed
qed

subsection \<open>Properties\<close>

lemma hs_create_inv:
  assumes "hash_contract hf cf"
  shows "hs_inv (zbx_hashset_create n hf cf) \<and> hs_entries (zbx_hashset_create n hf cf) = [] \<and>
    hs_hash_func (zbx_hashset_create n hf cf) = hf \<and> hs_compare_func (zbx_hashset_create n hf cf) = cf"
  using init_slots_inv [of "\<lparr>hs_slots = None, hs_num_slots = 0, hs_num_data = 0, hs_hash_func = hf, hs_compare_func = cf\<rparr>" n]
    assms
  by (simp add: zbx_hashset_create_def zbx_hashset_create_ext_def)

text \<open>A session with an allocator that succeeds and gives the \<open>k\<close>-th operation the address \<open>k\<close>.\<close>

datatype hashset_op = Insert_Data "u8 list" | Remove_Data "u8 list" | Clear_Set

fun hs_run :: "hashset \<Rightarrow> nat \<Rightarrow> hashset_op list \<Rightarrow> hashset res" where
  "hs_run hs k [] = Inr hs"
| "hs_run hs k (Insert_Data d # ops) =
     rbind (zbx_hashset_insert True True (Some k) hs d) (\<lambda>(hs, _). hs_run hs (Suc k) ops)"
| "hs_run hs k (Remove_Data d # ops) = rbind (zbx_hashset_remove hs d) (\<lambda>hs. hs_run hs (Suc k) ops)"
| "hs_run hs k (Clear_Set # ops) = hs_run (zbx_hashset_clear hs) (Suc k) ops"

text \<open>The set of values it should hold: of values that compare equal the first one stays.\<close>

fun hs_spec :: "(u8 list \<Rightarrow> u8 list \<Rightarrow> int) \<Rightarrow> u8 list set \<Rightarrow> hashset_op list \<Rightarrow> u8 list set" where
  "hs_spec cf S [] = S"
| "hs_spec cf S (Insert_Data d # ops) = hs_spec cf (if \<exists>x \<in> S. cf x d = 0 then S else insert d S) ops"
| "hs_spec cf S (Remove_Data d # ops) = hs_spec cf {x \<in> S. cf x d \<noteq> 0} ops"
| "hs_spec cf S (Clear_Set # ops) = hs_spec cf {} ops"

lemma hs_run_correct:
  "\<lbrakk>hs_inv hs; \<forall>a \<in> eaddr ` set (hs_entries hs). a < k\<rbrakk> \<Longrightarrow>
   \<exists>hs'. hs_run hs k ops = Inr hs' \<and> hs_inv hs' \<and> hs_compare_func hs' = hs_compare_func hs \<and>
     edata ` set (hs_entries hs') = hs_spec (hs_compare_func hs) (edata ` set (hs_entries hs)) ops"
proof (induction ops arbitrary: hs k)
  case Nil
  then show ?case by simp
next
  case (Cons op ops)
  note inv = Cons.prems(1) and lt = Cons.prems(2)
  show ?case
  proof (cases op)
    case (Insert_Data d)
    have "k \<notin> eaddr ` set (hs_entries hs)" using lt by auto
    then obtain hs' r where I: "zbx_hashset_insert_ext True True (Some k) hs d 0 (length d) False = Inr (hs', r)"
        "hs_inv hs'" "hs_hash_func hs' = hs_hash_func hs" "hs_compare_func hs' = hs_compare_func hs"
        "if \<exists>e \<in> set (hs_entries hs). hs_compare_func hs (edata e) d = 0
         then mset (hs_entries hs') = mset (hs_entries hs) \<and> (\<exists>e. r = Some e \<and> e \<in> set (hs_entries hs) \<and> hs_compare_func hs (edata e) d = 0)
         else case r of
           Some e \<Rightarrow> edata e = d \<and> Some k = Some (eaddr e) \<and> mset (hs_entries hs') = add_mset e (mset (hs_entries hs))
         | None \<Rightarrow> mset (hs_entries hs') = mset (hs_entries hs) \<and> (\<not> True \<or> Some k = None)"
      using hashset_insert_served [OF inv, of k d] by - (drule meta_mp, assumption, elim exE conjE, rule that, assumption+)
    have step: "edata ` set (hs_entries hs') =
        (if \<exists>x \<in> edata ` set (hs_entries hs). hs_compare_func hs x d = 0 then edata ` set (hs_entries hs)
         else insert d (edata ` set (hs_entries hs))) \<and> (\<forall>a \<in> eaddr ` set (hs_entries hs'). a < Suc k)"
    proof (cases "\<exists>e \<in> set (hs_entries hs). hs_compare_func hs (edata e) d = 0")
      case True
      then have "set (hs_entries hs') = set (hs_entries hs)" using I(5) mset_eq_setD by auto
      then show ?thesis using True lt by auto
    next
      case False
      then obtain e where e: "edata e = d" "eaddr e = k" "mset (hs_entries hs') = add_mset e (mset (hs_entries hs))"
        using I(5) by (auto split: option.splits)
      then have "set (hs_entries hs') = insert e (set (hs_entries hs))"
        by (metis set_mset_add_mset_insert set_mset_mset)
      then show ?thesis using False e lt by auto
    qed
    then show ?thesis
      using Cons.IH [OF I(2), of "Suc k"] I(1,4) Insert_Data by (simp add: zbx_hashset_insert_def)
  next
    case (Remove_Data d)
    obtain hs' where R: "zbx_hashset_remove hs d = Inr hs'" "hs_inv hs'" "hs_compare_func hs' = hs_compare_func hs"
        "mset (hs_entries hs') = filter_mset (\<lambda>x. hs_compare_func hs (edata x) d \<noteq> 0) (mset (hs_entries hs))"
      using hashset_remove [OF inv] by blast
    have s: "set (hs_entries hs') = {e \<in> set (hs_entries hs). hs_compare_func hs (edata e) d \<noteq> 0}"
      using arg_cong [OF R(4), of set_mset] by simp
    have "edata ` set (hs_entries hs') = {x \<in> edata ` set (hs_entries hs). hs_compare_func hs x d \<noteq> 0}"
      unfolding s by auto
    moreover have "\<forall>a \<in> eaddr ` set (hs_entries hs'). a < Suc k" using lt s by auto
    ultimately show ?thesis using Cons.IH [OF R(2), of "Suc k"] R(1,3) Remove_Data by simp
  next
    case Clear_Set
    have "hs_compare_func (zbx_hashset_clear hs) = hs_compare_func hs" by (simp add: zbx_hashset_clear_def)
    then show ?thesis
      using Cons.IH [of "zbx_hashset_clear hs" "Suc k"] hashset_clear [OF inv] Clear_Set by simp
  qed
qed

text \<open>C1: A hash set built on callbacks that meet the contract holds, after any session of
  insertions, removals and clears, exactly the values that the abstract set of the session holds;
  \<open>num_data\<close> counts them and a search finds a value equal to the one asked for if there is one.
  No operation faults, and growing on the way loses nothing.\<close>

theorem hashset_session_correct:
  assumes "hash_contract hf cf"
  shows "\<exists>hs. hs_run (zbx_hashset_create n hf cf) 0 ops = Inr hs \<and>
    edata ` set (hs_entries hs) = hs_spec cf {} ops \<and> hs_num_data hs = card (hs_spec cf {} ops) \<and>
    (\<exists>r. zbx_hashset_search hs d = Inr r \<and>
       (case r of Some e \<Rightarrow> edata e \<in> hs_spec cf {} ops \<and> cf (edata e) d = 0
        | None \<Rightarrow> \<forall>x \<in> hs_spec cf {} ops. cf x d \<noteq> 0))"
proof -
  have "\<forall>a \<in> eaddr ` set (hs_entries (zbx_hashset_create n hf cf)). a < 0"
    using hs_create_inv [OF assms, of n] by simp
  then obtain hs where hs: "hs_run (zbx_hashset_create n hf cf) 0 ops = Inr hs" "hs_inv hs"
      "hs_compare_func hs = cf" "edata ` set (hs_entries hs) = hs_spec cf {} ops"
    using hs_run_correct [of "zbx_hashset_create n hf cf" 0 ops] hs_create_inv [OF assms, of n] by auto
  note D = hs_invD [OF hs(2)]
  have "distinct (hs_entries hs)" using D(2) by (auto simp: entries_ok_def distinct_map)
  moreover have "inj_on edata (set (hs_entries hs))"
    using D(2) hash_contract.eq_refl [OF D(1)] by (auto simp: entries_ok_def inj_on_def)
  ultimately have "hs_num_data hs = card (edata ` set (hs_entries hs))"
    by (simp add: D(3) card_image distinct_card)
  moreover obtain r where "zbx_hashset_search hs d = Inr r" "case r of
      Some e \<Rightarrow> e \<in> set (hs_entries hs) \<and> hs_compare_func hs (edata e) d = 0
    | None \<Rightarrow> \<forall>e \<in> set (hs_entries hs). hs_compare_func hs (edata e) d \<noteq> 0"
    using hashset_search [OF hs(2), of d] by blast
  ultimately show ?thesis
    using hs(1,3) unfolding hs(4) [symmetric]
    by (intro exI [of _ hs]) (cases r; auto)
qed

theorem hashset_session_correct_witness:
  "\<exists>hs. hs_run (zbx_hashset_create 5 zbx_default_string_hash_func zbx_default_str_compare_func) 0
      [Insert_Data [1, 2], Insert_Data [3], Insert_Data [1, 2], Remove_Data [3]] = Inr hs \<and>
    edata ` set (hs_entries hs) = {[1, 2]} \<and> hs_num_data hs = 1 \<and> zbx_hashset_search hs [3] = Inr None"
proof -
  have spec: "hs_spec zbx_default_str_compare_func {}
      [Insert_Data [1, 2], Insert_Data [3], Insert_Data [1, 2], Remove_Data [3]] = {[1, 2]}"
    by (auto simp: zbx_default_str_compare_func_def strcmp_eq_0)
  from hashset_session_correct [OF string_keys.hash_contract_axioms, of 5
      "[Insert_Data [1, 2], Insert_Data [3], Insert_Data [1, 2], Remove_Data [3]]" "[3]", unfolded spec]
  show ?thesis
    by (auto simp: zbx_default_str_compare_func_def strcmp_eq_0 split: option.splits)
qed

text \<open>C3: An insertion returns null exactly when the first slot array cannot be allocated, or when a new
  value needs more slots and they cannot be allocated, or when there is no space for its entry; the values then are
  as they were, and a set that failed to grow is not changed at all. A value that is already there is found without
  allocating or changing anything, and every other value is added as an entry at the allocated address. Only a failure to
  allocate the first slot array leaves the set unusable.\<close>

theorem hashset_insert_out_of_memory:
  assumes "hs_inv hs" "\<And>a. addr = Some a \<Longrightarrow> a \<notin> eaddr ` set (hs_entries hs)"
  shows "\<exists>hs' r. zbx_hashset_insert init_ok reserve_ok addr hs data = Inr (hs', r) \<and>
    (if hs_num_slots hs = 0 \<and> \<not> init_ok then r = None \<and> hs_entries hs = [] \<and> hs_entries hs' = []
     else hs_inv hs' \<and>
      (if \<exists>e \<in> set (hs_entries hs). hs_compare_func hs (edata e) data = 0 then
         hs' = hs \<and> (\<exists>e \<in> set (hs_entries hs). r = Some e \<and> hs_compare_func hs (edata e) data = 0)
       else if hs_num_slots hs \<noteq> 0 \<and> hs_num_slots hs * 4 div 5 \<le> hs_num_data hs + 1 \<and> \<not> reserve_ok then r = None \<and> hs' = hs
       else case addr of
         None \<Rightarrow> r = None \<and> mset (hs_entries hs') = mset (hs_entries hs)
       | Some a \<Rightarrow> \<exists>e. r = Some e \<and> eaddr e = a \<and> edata e = data \<and>
           mset (hs_entries hs') = add_mset e (mset (hs_entries hs))))"
proof (cases "hs_num_slots hs = 0 \<and> \<not> init_ok")
  case True
  then have "hs_entries hs = []" using hs_invD(4) [OF assms(1)] by (auto simp: hs_entries_def)
  then show ?thesis
    using True by (simp add: zbx_hashset_insert_def zbx_hashset_insert_ext_def zbx_hashset_init_slots_def hs_entries_def)
next
  case False
  then have init: "zbx_hashset_insert init_ok reserve_ok addr hs data = zbx_hashset_insert_ext True reserve_ok addr hs data 0 (length data) False"
    by (auto simp: zbx_hashset_insert_def zbx_hashset_insert_ext_def)
  let ?present = "\<exists>e \<in> set (hs_entries hs). hs_compare_func hs (edata e) data = 0"
  have fresh: "\<forall>a. addr = Some a \<longrightarrow> a \<notin> eaddr ` set (hs_entries hs)" using assms(2) by blast
  obtain hs' r where R: "zbx_hashset_insert_ext True reserve_ok addr hs data 0 (length data) False = Inr (hs', r)" "hs_inv hs'"
      "if ?present then hs' = hs \<and> (\<exists>e. r = Some e \<and> e \<in> set (hs_entries hs) \<and> hs_compare_func hs (edata e) data = 0)
       else case r of
         Some e \<Rightarrow> edata e = data \<and> addr = Some (eaddr e) \<and> (reserve_ok \<or> \<not> grows hs) \<and>
           mset (hs_entries hs') = add_mset e (mset (hs_entries hs))
       | None \<Rightarrow> mset (hs_entries hs') = mset (hs_entries hs) \<and>
           (if grows hs \<and> \<not> reserve_ok then hs' = hs else addr = None)"
    using hashset_insert [OF assms(1) fresh refl, where reserve_ok = reserve_ok and data = data]
    by - (elim exE conjE, rule that, assumption+)
  have full: "hs_num_slots hs \<noteq> 0 \<and> hs_num_slots hs * 4 div 5 \<le> hs_num_data hs + 1 \<and> \<not> reserve_ok \<longleftrightarrow> grows hs \<and> \<not> reserve_ok"
    by (auto simp: grows_def)
  show ?thesis
  proof (cases ?present)
    case True
    then have "\<exists>e \<in> set (hs_entries hs). r = Some e \<and> hs_compare_func hs (edata e) data = 0" "hs' = hs" using R(3) by auto
    then show ?thesis unfolding init full if_not_P [OF False] if_P [OF True]
      by - (intro exI conjI, rule R(1), rule R(2), assumption, assumption)
  next
    case new: False
    note C = R(3) [unfolded if_not_P [OF new]]
    show ?thesis
      unfolding init full if_not_P [OF False] if_not_P [OF new]
    proof (intro exI conjI)
      show "if grows hs \<and> \<not> reserve_ok then r = None \<and> hs' = hs
        else case addr of
           None \<Rightarrow> r = None \<and> mset (hs_entries hs') = mset (hs_entries hs)
         | Some a \<Rightarrow> \<exists>e. r = Some e \<and> eaddr e = a \<and> edata e = data \<and>
             mset (hs_entries hs') = add_mset e (mset (hs_entries hs))"
        using C by (cases r; cases addr) (auto split: if_splits)
    qed (rule R(1), rule R(2))
  qed
qed

text \<open>A set with two strings, for the witnesses.\<close>

lemma two_strings:
  "\<exists>hs. hs_inv hs \<and> hs_compare_func hs = zbx_default_str_compare_func \<and> edata ` set (hs_entries hs) = {[1], [2]}"
proof -
  let ?hs = "zbx_hashset_create 5 zbx_default_string_hash_func zbx_default_str_compare_func"
  have "hs_spec zbx_default_str_compare_func {} [Insert_Data [1], Insert_Data [2]] = {[1], [2]}"
    by (auto simp: zbx_default_str_compare_func_def strcmp_eq_0 return_if_not_equal_def)
  then show ?thesis
    using hs_run_correct [of ?hs 0 "[Insert_Data [1], Insert_Data [2]]"]
      hs_create_inv [OF string_keys.hash_contract_axioms, of 5] by auto
qed

theorem hashset_insert_out_of_memory_witness:
  "\<exists>hs hs'. edata ` set (hs_entries hs) = {[1], [2]} \<and>
     zbx_hashset_insert True False None hs [3] = Inr (hs', None) \<and> edata ` set (hs_entries hs') = {[1], [2]}"
proof -
  obtain hs where hs: "hs_inv hs" "hs_compare_func hs = zbx_default_str_compare_func"
      "edata ` set (hs_entries hs) = {[1], [2]}" using two_strings by blast
  have "\<not> (\<exists>e \<in> set (hs_entries hs). hs_compare_func hs (edata e) [3] = 0)"
  proof
    assume "\<exists>e \<in> set (hs_entries hs). hs_compare_func hs (edata e) [3] = 0"
    then have "[3] \<in> edata ` set (hs_entries hs)"
      unfolding hs(2) zbx_default_str_compare_func_def strcmp_eq_0 by force
    then show False unfolding hs(3) by simp
  qed
  then obtain hs' where "zbx_hashset_insert True False None hs [3] = Inr (hs', None)"
      "mset (hs_entries hs') = mset (hs_entries hs)"
    using hashset_insert_out_of_memory [OF hs(1), of None True False "[3]"] by (auto split: if_splits)
  then show ?thesis using hs(3) mset_eq_setD by metis
qed

text \<open>If the slot array cannot be allocated, creation still records its size, and the next
  search, insertion or removal follows the null array.\<close>

theorem hashset_failed_create_faults:
  assumes "0 < n"
  shows "let hs = zbx_hashset_create_ext False n hf cf in
    zbx_hashset_search hs d = Inl Null_Deref \<and> zbx_hashset_remove hs d = Inl Null_Deref \<and>
    zbx_hashset_insert init_ok reserve_ok addr hs d = Inl Null_Deref"
  using assms next_prime_pos(2) [of n]
  by (simp add: zbx_hashset_create_ext_def zbx_hashset_init_slots_def zbx_hashset_search_def
      zbx_hashset_remove_def zbx_hashset_insert_def zbx_hashset_insert_ext_def unlink_at_def get_chain_def Let_def)

theorem hashset_failed_create_faults_witness:
  "zbx_hashset_search (zbx_hashset_create_ext False 5 zbx_default_string_hash_func zbx_default_str_compare_func) [1]
     = Inl Null_Deref"
  using hashset_failed_create_faults [of 5 zbx_default_string_hash_func zbx_default_str_compare_func "[1]" True True None]
  by (simp add: Let_def)

text \<open>C2: The iterator visits every entry exactly once, in the order of the chains, also when the
  loop removes entries through it; the set ends with the entries that were not removed.\<close>

theorem hashset_sweep_correct:
  assumes "hs_inv hs"
  shows "\<exists>hs'. hs_sweep (Suc (hs_num_data hs)) P hs (zbx_hashset_iter_reset it) = Inr (hs', hs_entries hs) \<and>
    hs_inv hs' \<and> hs_entries hs' = filter (\<lambda>e. \<not> P e) (hs_entries hs)"
proof (cases "hs_slots hs")
  case None
  have "iter_scan [] 0 x = (x\<lparr>it_slot := ITER_FINISH\<rparr>, None)" for x by (subst iter_scan.simps) simp
  then show ?thesis
    using assms None hs_invD(4) [OF assms]
    by (simp add: zbx_hashset_iter_next_def zbx_hashset_iter_reset_def hs_entries_def ITER_START_def ITER_FINISH_def)
next
  case (Some bs)
  have "iter_at bs [] (zbx_hashset_iter_reset it) (concat bs)"
    by (simp add: iter_at_def zbx_hashset_iter_reset_def ITER_START_def)
  then show ?thesis
    using hs_sweep_correct [OF assms Some, of "[]" _ "concat bs" "Suc (hs_num_data hs)" P]
      hs_invD(3,5) [OF assms] Some by simp
qed

theorem hashset_sweep_correct_witness:
  "\<exists>hs hs'. edata ` set (hs_entries hs) = {[1], [2]} \<and>
     hs_sweep (Suc (hs_num_data hs)) (\<lambda>e. edata e = [1]) hs (zbx_hashset_iter_reset \<lparr>it_slot = 0, it_entry = None\<rparr>)
       = Inr (hs', hs_entries hs) \<and> edata ` set (hs_entries hs') = {[2]}"
proof -
  obtain hs where hs: "hs_inv hs" "edata ` set (hs_entries hs) = {[1], [2]}" using two_strings by blast
  from hashset_sweep_correct [OF hs(1), of "\<lambda>e. edata e = [1]" "\<lparr>it_slot = 0, it_entry = None\<rparr>"]
  show ?thesis
  proof (elim exE conjE)
    fix hs'
    assume sw: "hs_sweep (Suc (hs_num_data hs)) (\<lambda>e. edata e = [1]) hs
        (zbx_hashset_iter_reset \<lparr>it_slot = 0, it_entry = None\<rparr>) = Inr (hs', hs_entries hs)"
      and rest: "hs_entries hs' = filter (\<lambda>e. \<not> edata e = [1]) (hs_entries hs)"
    have "edata ` set (hs_entries hs') = edata ` set (hs_entries hs) - {[1]}"
      unfolding rest by auto
    then have two: "edata ` set (hs_entries hs') = {[2]}" unfolding hs(2) by simp
    show ?thesis by (intro exI conjI) (rule hs(2), rule sw, rule two)
  qed
qed

end
