(* ===== verification/Linked_List.thy ===== *)
theory Linked_List
  imports Prelude
begin

text \<open>
  The singly linked list of \<open>src/src/libs/zbxalgo/linked_list.c\<close> on an explicit store: items live
  at addresses, the list has a head and a tail pointer, iterators hold pointers to items. The
  allocator's answer is an argument (\<open>None\<close>: null). Reading an address with no item is a fault.
\<close>

subsection \<open>State\<close>

record 'v list_item =
  lnext :: "nat option"
  ldata :: 'v

record 'v linked_list =
  store :: "nat \<Rightarrow> 'v list_item option"
  head :: "nat option"
  tail :: "nat option"

text \<open>An iterator names its list by an identity (\<open>None\<close> for an iterator that is not set).\<close>

record list_iterator =
  ilist :: "nat option"
  current :: "nat option"
  inext :: "nat option"

definition item_at :: "'v linked_list \<Rightarrow> nat \<Rightarrow> 'v list_item res" where
  "item_at l a = (case store l a of None \<Rightarrow> Inl Null_Deref | Some it \<Rightarrow> Inr it)"

subsection \<open>List operations\<close>

definition zbx_list_create :: "'v linked_list" where
  "zbx_list_create = \<lparr>store = (\<lambda>_. None), head = None, tail = None\<rparr>"

definition list_create_item :: "nat option \<Rightarrow> 'v linked_list \<Rightarrow> 'v \<Rightarrow> 'v linked_list \<times> nat option" where
  "list_create_item mem l v =
     (case mem of
        None \<Rightarrow> (l, None)
      | Some a \<Rightarrow> (l\<lparr>store := (store l)(a \<mapsto> \<lparr>lnext = None, ldata = v\<rparr>)\<rparr>, Some a))"

definition set_next :: "'v linked_list \<Rightarrow> nat \<Rightarrow> nat option \<Rightarrow> 'v linked_list res" where
  "set_next l a n = rbind (item_at l a) (\<lambda>it. Inr (l\<lparr>store := (store l)(a \<mapsto> it\<lparr>lnext := n\<rparr>)\<rparr>))"

definition zbx_list_insert_after ::
  "nat option \<Rightarrow> 'v linked_list \<Rightarrow> nat option \<Rightarrow> 'v \<Rightarrow> ('v linked_list \<times> nat option \<times> bool) res" where
  "zbx_list_insert_after mem l after v =
     (case list_create_item mem l v of
        (l, None) \<Rightarrow> Inr (l, None, FAIL)
      | (l, Some item) \<Rightarrow>
          let after = (if after = None then tail l else after) in
          rbind (case after of
                   Some a \<Rightarrow> rbind (item_at l a) (\<lambda>it.
                     rbind (set_next l item (lnext it)) (\<lambda>l. set_next l a (Some item)))
                 | None \<Rightarrow> Inr (l\<lparr>head := Some item\<rparr>))
            (\<lambda>l. Inr (if after = tail l then l\<lparr>tail := Some item\<rparr> else l, Some item, SUCCEED)))"

definition zbx_list_append ::
  "nat option \<Rightarrow> 'v linked_list \<Rightarrow> 'v \<Rightarrow> ('v linked_list \<times> nat option \<times> bool) res" where
  "zbx_list_append mem l v = zbx_list_insert_after mem l None v"

definition zbx_list_prepend ::
  "nat option \<Rightarrow> 'v linked_list \<Rightarrow> 'v \<Rightarrow> ('v linked_list \<times> nat option \<times> bool) res" where
  "zbx_list_prepend mem l v =
     (case list_create_item mem l v of
        (l, None) \<Rightarrow> Inr (l, None, FAIL)
      | (l, Some item) \<Rightarrow>
          rbind (set_next l item (head l)) (\<lambda>l.
            let l = l\<lparr>head := Some item\<rparr>
            in Inr (if tail l = None then l\<lparr>tail := Some item\<rparr> else l, Some item, SUCCEED)))"

definition zbx_list_pop :: "'v linked_list \<Rightarrow> ('v linked_list \<times> 'v option \<times> bool) res" where
  "zbx_list_pop l =
     (case head l of
        None \<Rightarrow> Inr (l, None, FAIL)
      | Some h \<Rightarrow> rbind (item_at l h) (\<lambda>it.
          let l = l\<lparr>head := lnext it, store := (store l)(h := None)\<rparr>
          in Inr (if head l = None then l\<lparr>tail := None\<rparr> else l, Some (ldata it), SUCCEED)))"

definition zbx_list_peek :: "'v linked_list \<Rightarrow> 'v option res" where
  "zbx_list_peek l =
     (case head l of None \<Rightarrow> Inr None | Some h \<Rightarrow> rbind (item_at l h) (\<lambda>it. Inr (Some (ldata it))))"

text \<open>Popping until the list is empty.\<close>

partial_function (option) zbx_list_destroy :: "'v linked_list \<Rightarrow> 'v linked_list res option" where
  "zbx_list_destroy l =
     (case zbx_list_pop l of
        Inl f \<Rightarrow> Some (Inl f)
      | Inr (l, _, ok) \<Rightarrow> if ok then zbx_list_destroy l else Some (Inr l))"

subsection \<open>Iterators\<close>

definition zbx_list_iterator_init :: "nat \<Rightarrow> 'v linked_list \<Rightarrow> list_iterator" where
  "zbx_list_iterator_init ident l = \<lparr>ilist = Some ident, current = None, inext = head l\<rparr>"

definition zbx_list_iterator_next :: "'v linked_list \<Rightarrow> list_iterator \<Rightarrow> (list_iterator \<times> bool) res" where
  "zbx_list_iterator_next l it =
     (case inext it of
        Some n \<Rightarrow> rbind (item_at l n) (\<lambda>i. Inr (it\<lparr>current := Some n, inext := lnext i\<rparr>, SUCCEED))
      | None \<Rightarrow> Inr (it\<lparr>current := None\<rparr>, FAIL))"

definition zbx_list_iterator_init_with ::
  "nat \<Rightarrow> 'v linked_list \<Rightarrow> nat option \<Rightarrow> (list_iterator \<times> bool) res" where
  "zbx_list_iterator_init_with ident l n =
     (case n of
        None \<Rightarrow> zbx_list_iterator_next l (zbx_list_iterator_init ident l)
      | Some a \<Rightarrow> rbind (item_at l a) (\<lambda>i.
          Inr (\<lparr>ilist = Some ident, current = Some a, inext = lnext i\<rparr>, SUCCEED)))"

definition zbx_list_iterator_peek :: "'v linked_list \<Rightarrow> list_iterator \<Rightarrow> 'v option res" where
  "zbx_list_iterator_peek l it =
     (case current it of None \<Rightarrow> Inr None | Some a \<Rightarrow> rbind (item_at l a) (\<lambda>i. Inr (Some (ldata i))))"

definition zbx_list_iterator_clear :: "list_iterator \<Rightarrow> list_iterator" where
  "zbx_list_iterator_clear it = \<lparr>ilist = None, current = None, inext = None\<rparr>"

definition zbx_list_iterator_equal :: "list_iterator \<Rightarrow> list_iterator \<Rightarrow> bool" where
  "zbx_list_iterator_equal i1 i2 =
     (if ilist i1 = ilist i2 \<and> current i1 = current i2 then SUCCEED else FAIL)"

definition zbx_list_iterator_isset :: "list_iterator \<Rightarrow> bool" where
  "zbx_list_iterator_isset it = (if ilist it = None then FAIL else SUCCEED)"

definition zbx_list_iterator_update :: "'v linked_list \<Rightarrow> list_iterator \<Rightarrow> list_iterator res" where
  "zbx_list_iterator_update l it =
     (case current it of None \<Rightarrow> Inr it | Some a \<Rightarrow> rbind (item_at l a) (\<lambda>i. Inr (it\<lparr>inext := lnext i\<rparr>)))"

definition zbx_list_iterator_remove_next ::
  "'v linked_list \<Rightarrow> list_iterator \<Rightarrow> ('v linked_list \<times> list_iterator \<times> 'v option) res" where
  "zbx_list_iterator_remove_next l it =
     (case (current it, inext it) of
        (Some c, Some n) \<Rightarrow> rbind (item_at l n) (\<lambda>i.
          let l = (if tail l = Some n then l\<lparr>tail := Some c\<rparr> else l) in
          rbind (set_next l c (lnext i)) (\<lambda>l.
            Inr (l\<lparr>store := (store l)(n := None)\<rparr>, it\<lparr>inext := lnext i\<rparr>, Some (ldata i))))
      | _ \<Rightarrow> Inr (l, it, None))"

subsection \<open>The chain from the head\<close>

fun lseg :: "(nat \<Rightarrow> 'v list_item option) \<Rightarrow> nat option \<Rightarrow> nat list \<Rightarrow> nat option \<Rightarrow> bool" where
  "lseg st p [] q \<longleftrightarrow> p = q"
| "lseg st p (a # xs) q \<longleftrightarrow> p = Some a \<and> (case st a of None \<Rightarrow> False | Some it \<Rightarrow> lseg st (lnext it) xs q)"

definition list_rep :: "'v linked_list \<Rightarrow> nat list \<Rightarrow> bool" where
  "list_rep l xs \<longleftrightarrow> lseg (store l) (head l) xs None \<and> distinct xs \<and>
     tail l = (if xs = [] then None else Some (last xs))"

definition values_of :: "'v linked_list \<Rightarrow> nat list \<Rightarrow> 'v list" where
  "values_of l xs = map (\<lambda>a. ldata (the (store l a))) xs"

lemma lseg_append [simp]: "lseg st p (xs @ ys) q \<longleftrightarrow> (\<exists>r. lseg st p xs r \<and> lseg st r ys q)"
  by (induction xs arbitrary: p) (auto split: option.splits)

lemma lseg_other [simp]: "a \<notin> set xs \<Longrightarrow> lseg (st(a := x)) p xs q \<longleftrightarrow> lseg st p xs q"
  by (induction xs arbitrary: p) (auto split: option.splits)

lemma lseg_in: "lseg st p xs q \<Longrightarrow> a \<in> set xs \<Longrightarrow> \<exists>it. st a = Some it"
  by (induction xs arbitrary: p) (auto split: option.splits)

lemma lseg_head: "lseg st p xs None \<Longrightarrow> p = (if xs = [] then None else Some (hd xs))"
  by (cases xs) auto

lemma values_of_other [simp]:
  "a \<notin> set xs \<Longrightarrow> values_of (l\<lparr>store := (store l)(a := x)\<rparr>) xs = values_of l xs"
  by (auto simp: values_of_def)

lemma values_of_simps [simp]:
  "values_of l [] = []" "values_of l (a # xs) = ldata (the (store l a)) # values_of l xs"
  by (simp_all add: values_of_def)

lemma values_of_cong:
  "(\<And>a. a \<in> set xs \<Longrightarrow> ldata (the (store l a)) = ldata (the (store l' a))) \<Longrightarrow> values_of l xs = values_of l' xs"
  by (simp add: values_of_def)

subsection \<open>The operations on the chain\<close>

lemma fresh_not_in: "list_rep l xs \<Longrightarrow> store l n = None \<Longrightarrow> n \<notin> set xs"
  using lseg_in unfolding list_rep_def by fastforce

text \<open>Linking a new item behind the item at \<open>a\<close>.\<close>

lemma insert_after_item:
  assumes rep: "list_rep l (xs @ a # ys)" and n: "store l n = None" and aft: "after = Some a \<or> after = None \<and> ys = []"
  shows "\<exists>l'. zbx_list_insert_after (Some n) l after v = Inr (l', Some n, SUCCEED) \<and>
    list_rep l' (xs @ a # n # ys) \<and>
    values_of l' (xs @ a # n # ys) = values_of l (xs @ [a]) @ v # values_of l ys \<and>
    dom (store l') = insert n (dom (store l))"
proof -
  have nin: "n \<notin> set (xs @ a # ys)" by (rule fresh_not_in [OF rep n])
  have seg: "lseg (store l) (head l) (xs @ a # ys) None" and d: "distinct (xs @ a # ys)"
    and tl: "tail l = Some (last (a # ys))"
    using rep by (simp_all add: list_rep_def)
  obtain it where it: "store l a = Some it" "lseg (store l) (head l) xs (Some a)" "lseg (store l) (lnext it) ys None"
    using seg by (auto split: option.splits)
  have after: "(if after = None then tail l else after) = Some a" using aft tl by auto
  have an: "a \<noteq> n" "a \<notin> set xs" "a \<notin> set ys" "n \<notin> set xs" "n \<notin> set ys" using nin d by auto
  define l' where "l' = l\<lparr>store := (store l)(n \<mapsto> \<lparr>lnext = lnext it, ldata = v\<rparr>, a \<mapsto> it\<lparr>lnext := Some n\<rparr>),
      tail := (if tail l = Some a then Some n else tail l)\<rparr>"
  define l1 where "l1 = l\<lparr>store := (store l)(n \<mapsto> \<lparr>lnext = None, ldata = v\<rparr>)\<rparr>"
  define l2 where "l2 = l\<lparr>store := (store l)(n \<mapsto> \<lparr>lnext = lnext it, ldata = v\<rparr>, a \<mapsto> it\<lparr>lnext := Some n\<rparr>)\<rparr>"
  have c: "list_create_item (Some n) l v = (l1, Some n)" by (simp add: list_create_item_def l1_def)
  have af: "(if after = None then tail l1 else after) = Some a" using after by (auto simp: l1_def split: if_splits)
  have st: "rbind (item_at l1 a) (\<lambda>it. rbind (set_next l1 n (lnext it)) (\<lambda>l. set_next l a (Some n))) = Inr l2"
    using it(1) an(1) by (simp add: item_at_def set_next_def l1_def l2_def fun_upd_twist)
  have l2: "(if Some a = tail l2 then l2\<lparr>tail := Some n\<rparr> else l2) = l'" by (auto simp: l'_def l2_def)
  have r: "zbx_list_insert_after (Some n) l after v = Inr (l', Some n, SUCCEED)"
    unfolding zbx_list_insert_after_def c prod.case option.case Let_def af st rbind.simps l2 ..
  have "lseg (store l') (head l') (xs @ a # n # ys) None"
    using it an by (simp add: l'_def)
  moreover have "tail l' = Some (last (a # n # ys))"
  proof -
    have "last (a # ys) = a \<longleftrightarrow> ys = []" using an(3) by (cases ys rule: rev_cases) auto
    then show ?thesis using tl by (auto simp: l'_def)
  qed
  ultimately have "list_rep l' (xs @ a # n # ys)" using d nin by (auto simp: list_rep_def)
  moreover have "values_of l' (xs @ a # n # ys) = values_of l (xs @ [a]) @ v # values_of l ys"
    using it(1) an by (simp add: values_of_def l'_def)
  moreover have "dom (store l') = insert n (dom (store l))" using it(1) by (auto simp: l'_def)
  ultimately show ?thesis using r by blast
qed

lemma append_empty:
  assumes "list_rep l []"
  shows "\<exists>l'. zbx_list_append (Some n) l v = Inr (l', Some n, SUCCEED) \<and> list_rep l' [n] \<and>
    values_of l' [n] = [v] \<and> dom (store l') = insert n (dom (store l))"
  using assms
  by (simp add: list_rep_def zbx_list_append_def zbx_list_insert_after_def list_create_item_def values_of_def)

lemma list_append:
  assumes rep: "list_rep l xs" and n: "store l n = None"
  shows "\<exists>l'. zbx_list_append (Some n) l v = Inr (l', Some n, SUCCEED) \<and> list_rep l' (xs @ [n]) \<and>
    values_of l' (xs @ [n]) = values_of l xs @ [v] \<and>
    dom (store l') = insert n (dom (store l))"
proof (cases xs rule: rev_cases)
  case Nil
  then show ?thesis using append_empty [of l n v] rep by (simp add: values_of_def)
next
  case (snoc ys a)
  then show ?thesis
    using insert_after_item [of l ys a "[]" n None v] rep n by (simp add: zbx_list_append_def values_of_def)
qed

lemma list_prepend:
  assumes rep: "list_rep l xs" and n: "store l n = None"
  shows "\<exists>l'. zbx_list_prepend (Some n) l v = Inr (l', Some n, SUCCEED) \<and> list_rep l' (n # xs) \<and>
    values_of l' (n # xs) = v # values_of l xs \<and>
    dom (store l') = insert n (dom (store l))"
proof -
  have nin: "n \<notin> set xs" by (rule fresh_not_in [OF rep n])
  define l' where "l' = l\<lparr>store := (store l)(n \<mapsto> \<lparr>lnext = head l, ldata = v\<rparr>), head := Some n,
     tail := (if tail l = None then Some n else tail l)\<rparr>"
  have "zbx_list_prepend (Some n) l v = Inr (l', Some n, SUCCEED)"
    by (simp add: zbx_list_prepend_def list_create_item_def item_at_def set_next_def l'_def Let_def)
  moreover have "list_rep l' (n # xs)" using rep nin by (auto simp: list_rep_def l'_def)
  moreover have "values_of l' (n # xs) = v # values_of l xs" using nin by (auto simp: values_of_def l'_def)
  moreover have "dom (store l') = insert n (dom (store l))" by (auto simp: l'_def)
  ultimately show ?thesis by blast
qed

lemma list_pop:
  "list_rep l [] \<Longrightarrow> zbx_list_pop l = Inr (l, None, FAIL)"
  "list_rep l (a # xs) \<Longrightarrow> \<exists>l'. zbx_list_pop l = Inr (l', Some (ldata (the (store l a))), SUCCEED) \<and>
     list_rep l' xs \<and> values_of l' xs = values_of l xs \<and> store l' = (store l)(a := None)"
proof -
  show "list_rep l [] \<Longrightarrow> zbx_list_pop l = Inr (l, None, FAIL)"
    by (simp add: list_rep_def zbx_list_pop_def)
  assume rep: "list_rep l (a # xs)"
  then obtain it where it: "head l = Some a" "store l a = Some it" "lseg (store l) (lnext it) xs None" "a \<notin> set xs"
      "distinct xs" "tail l = Some (last (a # xs))"
    by (auto simp: list_rep_def split: option.splits)
  define l' where "l' = l\<lparr>head := lnext it, store := (store l)(a := None),
      tail := (if lnext it = None then None else tail l)\<rparr>"
  have "zbx_list_pop l = Inr (l', Some (ldata it), SUCCEED)"
    using it by (simp add: zbx_list_pop_def item_at_def l'_def Let_def)
  moreover have "list_rep l' xs"
    using it lseg_head [OF it(3)] by (auto simp: list_rep_def l'_def)
  moreover have "values_of l' xs = values_of l xs" using it(4) by (auto simp: values_of_def l'_def)
  moreover have "store l' = (store l)(a := None)" by (simp add: l'_def)
  ultimately show "\<exists>l'. zbx_list_pop l = Inr (l', Some (ldata (the (store l a))), SUCCEED) \<and>
     list_rep l' xs \<and> values_of l' xs = values_of l xs \<and> store l' = (store l)(a := None)"
    using it(2) by auto
qed

lemma list_destroy: "list_rep l xs \<Longrightarrow> \<exists>l'. zbx_list_destroy l = Some (Inr l') \<and> list_rep l' []"
proof (induction xs arbitrary: l)
  case Nil
  then show ?case using list_pop(1) [OF Nil] by (subst zbx_list_destroy.simps) simp
next
  case (Cons a xs)
  obtain l' where "zbx_list_pop l = Inr (l', Some (ldata (the (store l a))), SUCCEED)" "list_rep l' xs"
    using list_pop(2) [OF Cons.prems] by blast
  then show ?case using Cons.IH [of l'] by (subst zbx_list_destroy.simps) simp
qed

text \<open>Unlinking the item behind the iterator.\<close>

lemma remove_next_item:
  assumes rep: "list_rep l (xs @ c # n # ys)" and it: "current it = Some c" "inext it = Some n"
  shows "\<exists>l' it'. zbx_list_iterator_remove_next l it = Inr (l', it', Some (ldata (the (store l n)))) \<and>
    list_rep l' (xs @ c # ys) \<and> values_of l' (xs @ c # ys) = values_of l (xs @ c # ys) \<and>
    current it' = Some c \<and> inext it' = (if ys = [] then None else Some (hd ys)) \<and> store l' n = None"
proof -
  have seg: "lseg (store l) (head l) (xs @ c # n # ys) None" and d: "distinct (xs @ c # n # ys)"
    and tl: "tail l = Some (last (n # ys))"
    using rep by (simp_all add: list_rep_def)
  obtain ic i where i: "store l c = Some ic" "lnext ic = Some n" "lseg (store l) (head l) xs (Some c)"
      "store l n = Some i" "lseg (store l) (lnext i) ys None"
    using seg by (auto split: option.splits)
  define l' where "l' = l\<lparr>tail := (if tail l = Some n then Some c else tail l),
     store := (store l)(c \<mapsto> ic\<lparr>lnext := lnext i\<rparr>, n := None)\<rparr>"
  have r: "zbx_list_iterator_remove_next l it = Inr (l', it\<lparr>inext := lnext i\<rparr>, Some (ldata i))"
    using it i by (auto simp: zbx_list_iterator_remove_next_def item_at_def set_next_def l'_def Let_def)
  have "lseg (store l') (head l') (xs @ c # ys) None" using i d by (simp add: l'_def)
  moreover have "tail l' = Some (last (c # ys))"
  proof -
    have "last (n # ys) = n \<longleftrightarrow> ys = []" using d by (cases ys rule: rev_cases) auto
    then show ?thesis using tl by (auto simp: l'_def)
  qed
  ultimately have "list_rep l' (xs @ c # ys)" using d by (auto simp: list_rep_def)
  moreover have "values_of l' (xs @ c # ys) = values_of l (xs @ c # ys)"
    using i(1) d by (auto simp: values_of_def l'_def)
  moreover have "store l' n = None" by (simp add: l'_def)
  ultimately show ?thesis using r i(4) it(1) lseg_head [OF i(5)] by auto
qed

subsection \<open>Properties\<close>

datatype 'v list_op = Append 'v | Prepend 'v | Pop

text \<open>A session in which the \<open>k\<close>-th operation gets the address \<open>k\<close>, with the popped values.\<close>

fun run_list_ops :: "'v linked_list \<Rightarrow> nat \<Rightarrow> 'v list_op list \<Rightarrow> ('v linked_list \<times> 'v option list) res" where
  "run_list_ops l k [] = Inr (l, [])"
| "run_list_ops l k (Append v # ops) =
     rbind (zbx_list_append (Some k) l v) (\<lambda>(l, _). run_list_ops l (Suc k) ops)"
| "run_list_ops l k (Prepend v # ops) =
     rbind (zbx_list_prepend (Some k) l v) (\<lambda>(l, _). run_list_ops l (Suc k) ops)"
| "run_list_ops l k (Pop # ops) =
     rbind (zbx_list_pop l) (\<lambda>(l, r, _). rbind (run_list_ops l (Suc k) ops) (\<lambda>(l, rs). Inr (l, r # rs)))"

fun spec_list_ops :: "'v list \<Rightarrow> 'v list_op list \<Rightarrow> 'v list \<times> 'v option list" where
  "spec_list_ops vs [] = (vs, [])"
| "spec_list_ops vs (Append v # ops) = spec_list_ops (vs @ [v]) ops"
| "spec_list_ops vs (Prepend v # ops) = spec_list_ops (v # vs) ops"
| "spec_list_ops vs (Pop # ops) =
     (case vs of
        [] \<Rightarrow> (let (vs', rs) = spec_list_ops [] ops in (vs', None # rs))
      | v # vs \<Rightarrow> (let (vs', rs) = spec_list_ops vs ops in (vs', Some v # rs)))"

lemma run_list_ops_correct:
  "list_rep l xs \<Longrightarrow> \<forall>a \<in> dom (store l). a < k \<Longrightarrow>
   \<exists>l' xs' rs. run_list_ops l k ops = Inr (l', rs) \<and> list_rep l' xs' \<and>
     spec_list_ops (values_of l xs) ops = (values_of l' xs', rs)"
proof (induction ops arbitrary: l xs k)
  case Nil
  then show ?case by auto
next
  case (Cons op ops)
  note rep = Cons.prems(1) and used = Cons.prems(2)
  have k: "store l k = None" using used by (cases "store l k") auto
  show ?case
  proof (cases op)
    case (Append v)
    obtain l' where l': "zbx_list_append (Some k) l v = Inr (l', Some k, SUCCEED)" "list_rep l' (xs @ [k])"
        "values_of l' (xs @ [k]) = values_of l xs @ [v]" "dom (store l') = insert k (dom (store l))"
      using list_append [OF rep k] by blast
    have "\<forall>a \<in> dom (store l'). a < Suc k" using used unfolding l'(4) by (blast intro: less_SucI lessI)
    from Cons.IH [OF l'(2) this] show ?thesis using l'(1,3) Append by simp
  next
    case (Prepend v)
    obtain l' where l': "zbx_list_prepend (Some k) l v = Inr (l', Some k, SUCCEED)" "list_rep l' (k # xs)"
        "values_of l' (k # xs) = v # values_of l xs" "dom (store l') = insert k (dom (store l))"
      using list_prepend [OF rep k] by blast
    have "\<forall>a \<in> dom (store l'). a < Suc k" using used unfolding l'(4) by (blast intro: less_SucI lessI)
    from Cons.IH [OF l'(2) this] show ?thesis using l'(1,3) Prepend by simp
  next
    case Pop
    show ?thesis
    proof (cases xs)
      case Nil
      have "\<forall>a \<in> dom (store l). a < Suc k" using used by (blast intro: less_SucI)
      from Cons.IH [OF rep this] show ?thesis
        using list_pop(1) [of l] rep Nil Pop by auto
    next
      case (Cons a ys)
      obtain l' where l': "zbx_list_pop l = Inr (l', Some (ldata (the (store l a))), SUCCEED)" "list_rep l' ys"
          "values_of l' ys = values_of l ys" "store l' = (store l)(a := None)"
        using list_pop(2) [of l a ys] rep Cons by blast
      have "dom (store l') \<subseteq> dom (store l)" using l'(4) by auto
      then have "\<forall>a \<in> dom (store l'). a < Suc k" using used by (blast intro: less_SucI)
      from Cons.IH [OF l'(2) this] show ?thesis
        using l'(1,3) Cons Pop by auto
    qed
  qed
qed

text \<open>C18: Every session of appends, prepends and pops on a new list answers and ends as the plain
  sequence does, without touching a null or a freed item; destroying it afterwards terminates.\<close>

theorem list_session_refines:
  "\<exists>l xs rs. run_list_ops zbx_list_create 0 ops = Inr (l, rs) \<and>
     spec_list_ops [] ops = (values_of l xs, rs) \<and> lseg (store l) (head l) xs None \<and>
     (\<exists>l'. zbx_list_destroy l = Some (Inr l') \<and> head l' = None \<and> tail l' = None)"
proof -
  have "list_rep zbx_list_create []" by (simp add: list_rep_def zbx_list_create_def)
  moreover have "\<forall>a \<in> dom (store zbx_list_create). a < (0::nat)" by (simp add: zbx_list_create_def)
  ultimately obtain l xs rs where *: "run_list_ops zbx_list_create 0 ops = Inr (l, rs)" "list_rep l xs"
      "spec_list_ops (values_of (zbx_list_create :: 'a linked_list) []) ops = (values_of l xs, rs)"
    using run_list_ops_correct [of zbx_list_create "[]" 0 ops] by blast
  moreover have "\<exists>l'. zbx_list_destroy l = Some (Inr l') \<and> head l' = None \<and> tail l' = None"
    using list_destroy [OF *(2)] by (auto simp: list_rep_def)
  ultimately show ?thesis by (auto simp: list_rep_def)
qed

lemma list_splice_correct_parts:
  assumes "list_rep l (xs @ a # ys)"
  shows "store l n = None \<Longrightarrow> \<exists>l'. zbx_list_insert_after (Some n) l (Some a) v = Inr (l', Some n, SUCCEED) \<and>
      list_rep l' (xs @ a # n # ys) \<and>
      values_of l' (xs @ a # n # ys) = values_of l (xs @ [a]) @ v # values_of l ys"
    and "current it = Some a \<Longrightarrow> inext it = (if ys = [] then None else Some (hd ys)) \<Longrightarrow>
      \<exists>l' it' r. zbx_list_iterator_remove_next l it = Inr (l', it', r) \<and>
      list_rep l' (xs @ a # tl ys) \<and> values_of l' (xs @ a # tl ys) = values_of l (xs @ a # tl ys) \<and>
      r = (if ys = [] then None else Some (hd (values_of l ys)))"
proof -
  show "store l n = None \<Longrightarrow> \<exists>l'. zbx_list_insert_after (Some n) l (Some a) v = Inr (l', Some n, SUCCEED) \<and>
      list_rep l' (xs @ a # n # ys) \<and>
      values_of l' (xs @ a # n # ys) = values_of l (xs @ [a]) @ v # values_of l ys"
    using insert_after_item [OF assms, of n "Some a" v] by blast
  assume it: "current it = Some a" "inext it = (if ys = [] then None else Some (hd ys))"
  show "\<exists>l' it' r. zbx_list_iterator_remove_next l it = Inr (l', it', r) \<and>
      list_rep l' (xs @ a # tl ys) \<and> values_of l' (xs @ a # tl ys) = values_of l (xs @ a # tl ys) \<and>
      r = (if ys = [] then None else Some (hd (values_of l ys)))"
  proof (cases ys)
    case Nil
    then have "zbx_list_iterator_remove_next l it = Inr (l, it, None)"
      using it by (simp add: zbx_list_iterator_remove_next_def)
    then show ?thesis using assms Nil by auto
  next
    case (Cons n zs)
    then have rep: "list_rep l (xs @ a # n # zs)" and nx: "inext it = Some n" using assms it(2) by simp_all
    obtain l' it' where "zbx_list_iterator_remove_next l it = Inr (l', it', Some (ldata (the (store l n))))"
        "list_rep l' (xs @ a # zs)" "values_of l' (xs @ a # zs) = values_of l (xs @ a # zs)"
      using remove_next_item [OF rep it(1) nx] by blast
    then show ?thesis using Cons by auto
  qed
qed

text \<open>Inserting after an item and removing the item behind an iterator change the sequence at
  that place only and keep the tail pointer right, also at the end of the list.\<close>

theorem list_splice_correct:
  assumes "list_rep l (xs @ a # ys)"
  shows "(store l n = None \<longrightarrow> (\<exists>l'. zbx_list_insert_after (Some n) l (Some a) v = Inr (l', Some n, SUCCEED) \<and>
      list_rep l' (xs @ a # n # ys) \<and>
      values_of l' (xs @ a # n # ys) = values_of l (xs @ [a]) @ v # values_of l ys)) \<and>
      (current it = Some a \<longrightarrow> inext it = (if ys = [] then None else Some (hd ys)) \<longrightarrow> (\<exists>l' it' r. zbx_list_iterator_remove_next l it = Inr (l', it', r) \<and>
      list_rep l' (xs @ a # tl ys) \<and> values_of l' (xs @ a # tl ys) = values_of l (xs @ a # tl ys) \<and>
      r = (if ys = [] then None else Some (hd (values_of l ys)))))"
  by (rule conjI, intro impI, rule list_splice_correct_parts(1) [OF assms], assumption+, intro impI, rule list_splice_correct_parts(2) [OF assms], assumption+)

theorem list_splice_correct_witness:
  "\<exists>l' l'' it' :: list_iterator.
     zbx_list_insert_after (Some 8) \<lparr>store = [5 \<mapsto> \<lparr>lnext = None, ldata = (10::nat)\<rparr>], head = Some 5, tail = Some 5\<rparr>
       (Some 5) 20 = Inr (l', Some 8, SUCCEED) \<and> values_of l' [5, 8] = [10, 20] \<and>
     zbx_list_iterator_remove_next l' \<lparr>ilist = Some 1, current = Some 5, inext = Some 8\<rparr> = Inr (l'', it', Some 20) \<and>
     list_rep l'' [5]"
proof -
  let ?l = "\<lparr>store = [5 \<mapsto> \<lparr>lnext = None, ldata = (10::nat)\<rparr>], head = Some 5, tail = Some 5\<rparr>"
  have "list_rep ?l ([] @ 5 # [])" by (simp add: list_rep_def)
  from list_splice_correct [OF this, of 8 20] obtain l' where l': "zbx_list_insert_after (Some 8) ?l (Some 5) 20
      = Inr (l', Some 8, SUCCEED)" "list_rep l' ([] @ 5 # [8])" "values_of l' [5, 8] = [10, 20]" by auto
  from list_splice_correct [OF l'(2), THEN conjunct2, of "\<lparr>ilist = Some 1, current = Some 5, inext = Some 8\<rparr>"]
  obtain l'' it' where "zbx_list_iterator_remove_next l' \<lparr>ilist = Some 1, current = Some 5, inext = Some 8\<rparr>
      = Inr (l'', it', Some 20)" "list_rep l'' [5]" using l'(3) by auto
  then show ?thesis using l' by blast
qed

end
