(* ===== verification/Int128.thy ===== *)
theory Int128
  imports Prelude
begin

text \<open>
  128-bit unsigned arithmetic on pairs of 64-bit words, \<open>src/src/libs/zbxalgo/int128.c\<close>. Every
  routine is related to the natural number \<open>n128\<close> that a pair stands for.
\<close>

subsection \<open>Operations\<close>

record uint128 =
  hi :: u64
  lo :: u64

definition uset128 :: "u64 \<Rightarrow> u64 \<Rightarrow> uint128" where
  "uset128 hi64 lo64 = \<lparr>hi = hi64, lo = lo64\<rparr>"

definition UINT32_BIT_MASK :: u64 where
  "UINT32_BIT_MASK = NOT (push_bit 32 (NOT 0))"

definition udec128_128 :: "uint128 \<Rightarrow> uint128 \<Rightarrow> uint128" where
  "udec128_128 base v =
     (let lo0 = lo base;
          base = base\<lparr>lo := lo base - lo v\<rparr>;
          base = (if lo0 < lo base then base\<lparr>hi := hi base - 1\<rparr> else base)
      in base\<lparr>hi := hi base - hi v\<rparr>)"

text \<open>The shifts are used with fewer than 128 bits.\<close>

definition ushiftr128 :: "uint128 \<Rightarrow> nat \<Rightarrow> uint128" where
  "ushiftr128 base bits =
     (if 0 = bits then base
      else if 64 \<le> bits then \<lparr>hi = 0, lo = drop_bit (bits - 64) (hi base)\<rparr>
      else
        let base = base\<lparr>lo := drop_bit bits (lo base)\<rparr>;
            base = base\<lparr>lo := lo base OR push_bit (64 - bits) (hi base)\<rparr>
        in base\<lparr>hi := drop_bit bits (hi base)\<rparr>)"

definition ushiftl128 :: "uint128 \<Rightarrow> nat \<Rightarrow> uint128" where
  "ushiftl128 base bits =
     (if 0 = bits then base
      else if 64 \<le> bits then \<lparr>hi = push_bit (bits - 64) (lo base), lo = 0\<rparr>
      else
        let base = base\<lparr>hi := push_bit bits (hi base)\<rparr>;
            base = base\<lparr>hi := hi base OR drop_bit (64 - bits) (lo base)\<rparr>
        in base\<lparr>lo := push_bit bits (lo base)\<rparr>)"

definition ucmp128_128 :: "uint128 \<Rightarrow> uint128 \<Rightarrow> int" where
  "ucmp128_128 v1 v2 =
     (if hi v1 \<noteq> hi v2 then if hi v1 < hi v2 then -1 else 1
      else if lo v1 = lo v2 then 0
      else if lo v1 < lo v2 then -1 else 1)"

definition zbx_uinc128_64 :: "uint128 \<Rightarrow> u64 \<Rightarrow> uint128" where
  "zbx_uinc128_64 base v =
     (let low = lo base;
          base = base\<lparr>lo := lo base + v\<rparr>
      in if lo base < low then base\<lparr>hi := hi base + 1\<rparr> else base)"

definition zbx_uinc128_128 :: "uint128 \<Rightarrow> uint128 \<Rightarrow> uint128" where
  "zbx_uinc128_128 base v =
     (let low = lo base;
          base = base\<lparr>lo := lo base + lo v\<rparr>;
          base = (if lo base < low then base\<lparr>hi := hi base + 1\<rparr> else base)
      in base\<lparr>hi := hi base + hi v\<rparr>)"

definition umul64_32_shift :: "uint128 \<Rightarrow> u64 \<Rightarrow> u64 \<Rightarrow> nat \<Rightarrow> uint128" where
  "umul64_32_shift base v factor shift =
     (let buffer = uset128 0 ((v AND UINT32_BIT_MASK) * factor);
          buffer = ushiftl128 buffer shift;
          base = zbx_uinc128_128 base buffer;
          buffer = uset128 0 (drop_bit 32 v * factor);
          buffer = ushiftl128 buffer (32 + shift)
      in zbx_uinc128_128 base buffer)"

definition zbx_umul64_64 :: "u64 \<Rightarrow> u64 \<Rightarrow> uint128" where
  "zbx_umul64_64 v factor =
     (let result = uset128 0 0;
          result = umul64_32_shift result v (factor AND UINT32_BIT_MASK) 0
      in umul64_32_shift result v (drop_bit 32 factor) 32)"

text \<open>The inner loop lowers the divisor and the result bit until the divisor fits.\<close>

partial_function (option) udiv_align :: "uint128 \<Rightarrow> uint128 \<Rightarrow> u64 \<Rightarrow> (uint128 \<times> u64) option" where
  "udiv_align reminder divisor result_mask =
     (if ucmp128_128 reminder divisor < 0
      then udiv_align reminder (ushiftr128 divisor 1) (drop_bit 1 result_mask)
      else Some (divisor, result_mask))"

partial_function (option) udiv_loop ::
  "uint128 \<Rightarrow> uint128 \<Rightarrow> u64 \<Rightarrow> u64 \<Rightarrow> (uint128 \<times> u64) option" where
  "udiv_loop reminder divisor result_mask result_lo =
     (if hi reminder \<noteq> 0 then
        Option.bind (udiv_align reminder divisor result_mask) (\<lambda>(divisor, result_mask).
          udiv_loop (udec128_128 reminder divisor) divisor result_mask (result_lo OR result_mask))
      else Some (reminder, result_lo))"

text \<open>\<open>None\<close>: the loop does not end. Dividing by zero is a fault, in either branch.\<close>

definition zbx_udiv128_64 :: "uint128 \<Rightarrow> u64 \<Rightarrow> uint128 res option" where
  "zbx_udiv128_64 dividend v =
     (let result_mask = push_bit 63 1 in
      if v = 0 then Some (Inl Div_By_Zero)
      else if hi dividend = 0 then Some (Inr \<lparr>hi = 0, lo = lo dividend div v\<rparr>)
      else
        let result_hi = (if v \<le> hi dividend then hi dividend div v else 0);
            reminder = (if v \<le> hi dividend then dividend\<lparr>hi := hi dividend - result_hi * v\<rparr> else dividend);
            divisor = ushiftr128 (uset128 v 0) 1
        in Option.bind (udiv_loop reminder divisor result_mask 0) (\<lambda>(reminder, result_lo).
             Some (Inr \<lparr>hi = result_hi, lo = result_lo OR lo reminder div v\<rparr>)))"

subsection \<open>The number a pair stands for\<close>

definition n128 :: "uint128 \<Rightarrow> nat" where
  "n128 x = unat (hi x) * 2 ^ 64 + unat (lo x)"

lemma unat_u64_less: "unat (w :: u64) < 2 ^ 64"
  using unsigned_less [of w] by simp

lemma n128_less: "n128 x < 2 ^ 128"
proof -
  have "n128 x \<le> (2 ^ 64 - 1) * 2 ^ 64 + (2 ^ 64 - 1)"
    unfolding n128_def using unat_u64_less [of "hi x"] unat_u64_less [of "lo x"] by simp
  then show ?thesis by simp
qed

lemma n128_uset [simp]: "n128 (uset128 0 w) = unat w" "n128 (uset128 w 0) = unat w * 2 ^ 64"
  by (simp_all add: n128_def uset128_def)

lemma n128_div_mod: "n128 x div 2 ^ 64 = unat (hi x)" "n128 x mod 2 ^ 64 = unat (lo x)"
  using unat_u64_less [of "lo x"] by (simp_all add: n128_def)

lemma n128_inject: "n128 x = n128 y \<longleftrightarrow> x = y"
proof
  assume "n128 x = n128 y"
  then have "unat (hi x) = unat (hi y)" "unat (lo x) = unat (lo y)"
    using n128_div_mod [of x] n128_div_mod [of y] by simp_all
  then show "x = y" by (intro uint128.equality) (auto intro: unsigned_word_eqI)
qed simp

lemma n128_less_iff:
  "n128 x < n128 y \<longleftrightarrow> unat (hi x) < unat (hi y) \<or> unat (hi x) = unat (hi y) \<and> unat (lo x) < unat (lo y)"
proof (cases "unat (hi x)" "unat (hi y)" rule: linorder_cases)
  case less
  then have "unat (hi x) * 2 ^ 64 + 2 ^ 64 \<le> unat (hi y) * (2 ^ 64 :: nat)"
    by (metis Suc_leI mult_Suc mult_le_mono1 add.commute)
  then show ?thesis using less unat_u64_less [of "lo x"] by (simp add: n128_def)
next
  case equal
  then show ?thesis by (simp add: n128_def)
next
  case greater
  then have "unat (hi y) * 2 ^ 64 + 2 ^ 64 \<le> unat (hi x) * (2 ^ 64 :: nat)"
    by (metis Suc_leI mult_Suc mult_le_mono1 add.commute)
  then show ?thesis using greater unat_u64_less [of "lo y"] by (simp add: n128_def)
qed

lemma ucmp_n128: "ucmp128_128 x y < 0 \<longleftrightarrow> n128 x < n128 y"
proof -
  have "hi x = hi y \<longleftrightarrow> unat (hi x) = unat (hi y)" "lo x = lo y \<longleftrightarrow> unat (lo x) = unat (lo y)"
    by (auto intro: unsigned_word_eqI)
  then show ?thesis by (auto simp: ucmp128_128_def n128_less_iff word_less_nat_alt)
qed

text \<open>Addition and subtraction with the carry.\<close>

lemma carry_add:
  fixes a b :: u64
  shows "unat (a + b) + (if a + b < a then 2 ^ 64 else 0) = unat a + unat b"
  using unat_u64_less [of a] unat_u64_less [of b]
  by (auto simp: unat_plus_if' word_less_nat_alt)

lemma carry_sub:
  fixes a b :: u64
  shows "unat (a - b) + unat b = unat a + (if a < a - b then 2 ^ 64 else 0)"
  using unat_u64_less [of a] unat_u64_less [of b]
  by (auto simp: unat_sub_if' word_less_nat_alt)

lemma unat_add_mod: "unat (a + b) = (unat a + unat b) mod 2 ^ 64" for a b :: u64
  by (simp add: unat_word_ariths)

lemma mod_128_split:
  fixes h l :: nat
  assumes "l < 2 ^ 64"
  shows "(h mod 2 ^ 64) * 2 ^ 64 + l = (h * 2 ^ 64 + l) mod 2 ^ 128"
proof -
  have "(2::nat) ^ 128 = 2 ^ 64 * 2 ^ 64" by simp
  then have "(h * 2 ^ 64 + l) mod 2 ^ 128 = 2 ^ 64 * ((h * 2 ^ 64 + l) div 2 ^ 64 mod 2 ^ 64) + (h * 2 ^ 64 + l) mod 2 ^ 64"
    by (simp only: mod_mult2_eq)
  also have "(h * 2 ^ 64 + l) div 2 ^ 64 = h" using assms by simp
  also have "(h * 2 ^ 64 + l) mod 2 ^ 64 = l" using assms by simp
  finally show ?thesis by (simp only: mult.commute)
qed

lemma n128_uinc128_128: "n128 (zbx_uinc128_128 x y) = (n128 x + n128 y) mod 2 ^ 128"
proof -
  define c where "c = (if lo x + lo y < lo x then 1 else 0 :: u64)"
  have "c = 0 \<or> c = 1" by (simp add: c_def)
  then have uc: "unat c = (if lo x + lo y < lo x then 1 else 0)" by (auto simp: c_def)
  have e: "zbx_uinc128_128 x y = \<lparr>hi = hi x + c + hi y, lo = lo x + lo y\<rparr>"
    by (simp add: zbx_uinc128_128_def Let_def c_def)
  have "unat (hi x + c + hi y) = (unat (hi x) + unat c + unat (hi y)) mod 2 ^ 64"
    by (simp only: unat_add_mod mod_add_left_eq)
  then have "n128 (zbx_uinc128_128 x y) =
      ((unat (hi x) + unat c + unat (hi y)) * 2 ^ 64 + unat (lo x + lo y)) mod 2 ^ 128"
    unfolding e n128_def using mod_128_split [OF unat_u64_less] by simp
  also have "(unat (hi x) + unat c + unat (hi y)) * 2 ^ 64 + unat (lo x + lo y) = n128 x + n128 y"
    using carry_add [of "lo x" "lo y"] by (auto simp: n128_def uc algebra_simps split: if_splits)
  finally show ?thesis .
qed

lemma n128_uinc128_64: "n128 (zbx_uinc128_64 x v) = (n128 x + unat v) mod 2 ^ 128"
proof -
  have "zbx_uinc128_64 x v = zbx_uinc128_128 x (uset128 0 v)"
    by (simp add: zbx_uinc128_64_def zbx_uinc128_128_def uset128_def Let_def)
  then show ?thesis using n128_uinc128_128 [of x "uset128 0 v"] by simp
qed

lemma n128_udec128_128:
  assumes "n128 y \<le> n128 x"
  shows "n128 (udec128_128 x y) = n128 x - n128 y"
proof -
  define d where "d = udec128_128 x y"
  define b where "b = (if lo x < lo x - lo y then 1 else 0 :: u64)"
  have "b = 0 \<or> b = 1" by (simp add: b_def)
  then have ub: "unat b = (if lo x < lo x - lo y then 1 else 0)" by (auto simp: b_def)
  have e: "hi d = hi x - b - hi y" "lo d = lo x - lo y"
    by (simp_all add: d_def udec128_128_def Let_def b_def)
  have "hi x = hi d + b + hi y" by (simp add: e)
  then have "unat (hi x) = (unat (hi d) + unat b + unat (hi y)) mod 2 ^ 64"
    by (simp only: unat_add_mod mod_add_left_eq)
  then have "n128 x = ((unat (hi d) + unat b + unat (hi y)) * 2 ^ 64 + unat (lo x)) mod 2 ^ 128"
    unfolding n128_def using mod_128_split [OF unat_u64_less] by simp
  also have "(unat (hi d) + unat b + unat (hi y)) * 2 ^ 64 + unat (lo x) = n128 d + n128 y"
    using carry_sub [of "lo x" "lo y"] by (auto simp: n128_def ub e(2) algebra_simps split: if_splits)
  finally have s: "n128 x = (n128 d + n128 y) mod 2 ^ 128" .
  have "n128 d + n128 y < 2 ^ 128"
  proof (rule ccontr)
    assume "\<not> n128 d + n128 y < 2 ^ 128"
    then have "n128 x = n128 d + n128 y - 2 ^ 128"
      using s n128_less [of d] n128_less [of y] by (simp add: mod_if)
    then show False using assms n128_less [of d] \<open>\<not> n128 d + n128 y < 2 ^ 128\<close> by linarith
  qed
  then show ?thesis using s by (simp add: d_def)
qed

subsection \<open>Shifts and multiplication\<close>

lemma nat_or_disjoint:
  fixes c y :: nat
  assumes "y < 2 ^ k"
  shows "c * 2 ^ k OR y = c * 2 ^ k + y"
proof -
  have y: "take_bit k y = y" using assms by (rule take_bit_nat_eq_self)
  have "bit (push_bit k c AND y) n = bit (0::nat) n" for n
  proof -
    have "bit y n \<longleftrightarrow> n < k \<and> bit y n" by (metis y bit_take_bit_iff)
    then show ?thesis by (auto simp: bit_and_iff bit_push_bit_iff)
  qed
  then have "push_bit k c AND y = 0" by (intro bit_eqI) simp
  then show ?thesis by (simp add: disjunctive_add_eq_or push_bit_eq_mult)
qed

lemma unat_or_disjoint:
  fixes x y :: u64
  assumes "unat x = c * 2 ^ k" "unat y < 2 ^ k"
  shows "unat (x OR y) = unat x + unat y" "unat (y OR x) = unat x + unat y"
proof -
  show "unat (x OR y) = unat x + unat y"
    by (simp only: unsigned_or_eq assms(1) nat_or_disjoint [OF assms(2)])
  then show "unat (y OR x) = unat x + unat y" by (simp only: or.commute)
qed

lemma n128_ushiftr128:
  assumes "bits < 128"
  shows "n128 (ushiftr128 x bits) = n128 x div 2 ^ bits"
proof -
  consider "bits = 0" | "64 \<le> bits" | "0 < bits" "bits < 64" by linarith
  then show ?thesis
  proof cases
    case 1
    then show ?thesis by (simp add: ushiftr128_def)
  next
    case 2
    then have "(2::nat) ^ bits = 2 ^ 64 * 2 ^ (bits - 64)" by (simp only: power_add [symmetric]) simp
    then have "n128 x div 2 ^ bits = n128 x div 2 ^ 64 div 2 ^ (bits - 64)" by (simp only: div_mult2_eq)
    also have "\<dots> = unat (drop_bit (bits - 64) (hi x))" by (simp only: n128_div_mod unat_drop_bit)
    finally show ?thesis using 2 by (simp add: ushiftr128_def n128_def)
  next
    case 3
    define k where "k = 64 - bits"
    have bk: "(2::nat) ^ 64 = 2 ^ k * 2 ^ bits" unfolding k_def power_add [symmetric] using 3 by simp
    let ?h = "unat (hi x)" and ?l = "unat (lo x)"
    have ph0: "unat (push_bit k (hi x)) = ?h * 2 ^ k mod 2 ^ 64" using unat_push_bit [of k "hi x"] by simp
    have bk': "(2::nat) ^ 64 = 2 ^ bits * 2 ^ k" unfolding bk by (rule mult.commute)
    have ph: "unat (push_bit k (hi x)) = ?h mod 2 ^ bits * 2 ^ k"
      by (simp only: ph0 bk' mult_mod_left)
    have "unat (drop_bit bits (lo x)) = ?l div 2 ^ bits" by (simp only: unat_drop_bit)
    moreover have "?l div 2 ^ bits < 2 ^ k"
      using unat_u64_less [of "lo x"] bk by (simp add: less_mult_imp_div_less)
    ultimately have lo: "unat (drop_bit bits (lo x) OR push_bit k (hi x)) = ?h mod 2 ^ bits * 2 ^ k + ?l div 2 ^ bits"
      using unat_or_disjoint(2) [OF ph, of "drop_bit bits (lo x)"] ph by simp
    have e: "ushiftr128 x bits = \<lparr>hi = drop_bit bits (hi x), lo = drop_bit bits (lo x) OR push_bit k (hi x)\<rparr>"
      using 3 by (simp add: ushiftr128_def Let_def k_def)
    have "n128 x div 2 ^ bits = (?l + ?h * 2 ^ k * 2 ^ bits) div 2 ^ bits"
      unfolding n128_def bk by (simp add: ac_simps)
    also have "\<dots> = ?h * 2 ^ k + ?l div 2 ^ bits" by simp
    also have "\<dots> = (?h div 2 ^ bits * 2 ^ bits + ?h mod 2 ^ bits) * 2 ^ k + ?l div 2 ^ bits"
      by (simp only: div_mult_mod_eq)
    also have "\<dots> = n128 (ushiftr128 x bits)"
    proof -
      have "unat (drop_bit bits (hi x)) = ?h div 2 ^ bits" by (simp only: unat_drop_bit)
      then show ?thesis unfolding e n128_def uint128.simps lo bk by (simp only: distrib_right) (simp add: ac_simps)
    qed
    finally show ?thesis ..
  qed
qed

lemma shiftl_arith: "(h * b + q) * (k * b) + r * b = h * b * (k * b) + (q * k + r) * b" for h b q k r :: nat
  by (simp add: algebra_simps)

lemma shiftl_arith2: "h * b * m + l * b = (h * m + l) * b" for h b l m :: nat
  by (simp add: algebra_simps)

lemma n128_ushiftl128:
  assumes "bits < 128"
  shows "n128 (ushiftl128 x bits) = n128 x * 2 ^ bits mod 2 ^ 128"
proof -
  consider "bits = 0" | "64 \<le> bits" | "0 < bits" "bits < 64" by linarith
  then show ?thesis
  proof cases
    case 1
    then show ?thesis using n128_less [of x] by (simp add: ushiftl128_def)
  next
    case 2
    define k where "k = bits - 64"
    have bk: "(2::nat) ^ bits = 2 ^ k * 2 ^ 64" unfolding k_def power_add [symmetric] using 2 by simp
    have "n128 (ushiftl128 x bits) = unat (lo x) * 2 ^ k mod 2 ^ 64 * 2 ^ 64"
      using 2 by (simp add: ushiftl128_def n128_def k_def [symmetric] del: push_bit_numeral) (simp only: unat_push_bit, simp)
    also have "\<dots> = (unat (lo x) * 2 ^ k * 2 ^ 64 + 0) mod 2 ^ 128"
      using mod_128_split [of 0 "unat (lo x) * 2 ^ k"] by simp
    also have "\<dots> = (unat (lo x) * 2 ^ bits + unat (hi x) * 2 ^ k * 2 ^ 128) mod 2 ^ 128"
      unfolding bk mult.assoc [symmetric] add_0_right by (rule mod_mult_self1 [symmetric])
    also have "\<dots> = n128 x * 2 ^ bits mod 2 ^ 128"
    proof -
      have "(2::nat) ^ 64 * 2 ^ bits = 2 ^ k * 2 ^ 128" unfolding bk by simp
      then show ?thesis unfolding n128_def by (simp only: distrib_right mult.assoc add.commute)
    qed
    finally show ?thesis .
  next
    case 3
    define k where "k = 64 - bits"
    have bk: "(2::nat) ^ 64 = 2 ^ k * 2 ^ bits" unfolding k_def power_add [symmetric] using 3 by simp
    let ?h = "unat (hi x)" and ?l = "unat (lo x)"
    have "unat (push_bit bits (hi x)) = ?h * 2 ^ bits mod (2 ^ k * 2 ^ bits)"
      by (simp only: unat_push_bit) (simp add: bk [symmetric])
    also have "\<dots> = ?h mod 2 ^ k * 2 ^ bits" by (simp only: mult_mod_left)
    finally have ph: "unat (push_bit bits (hi x)) = ?h mod 2 ^ k * 2 ^ bits" .
    have dl: "unat (drop_bit k (lo x)) = ?l div 2 ^ k" by (simp only: unat_drop_bit)
    moreover have dlt: "?l div 2 ^ k < 2 ^ bits"
      using unat_u64_less [of "lo x"] bk by (simp add: less_mult_imp_div_less mult.commute)
    ultimately have hi: "unat (push_bit bits (hi x) OR drop_bit k (lo x)) = ?h mod 2 ^ k * 2 ^ bits + ?l div 2 ^ k"
      using unat_or_disjoint(1) [OF ph, of "drop_bit k (lo x)"] ph by simp
    have e: "ushiftl128 x bits = \<lparr>hi = push_bit bits (hi x) OR drop_bit k (lo x), lo = push_bit bits (lo x)\<rparr>"
      using 3 by (simp add: ushiftl128_def Let_def k_def)
    have lo: "unat (push_bit bits (lo x)) = ?l mod 2 ^ k * 2 ^ bits"
    proof -
      have "unat (push_bit bits (lo x)) = ?l * 2 ^ bits mod (2 ^ k * 2 ^ bits)"
        by (simp only: unat_push_bit) (simp add: bk [symmetric])
      then show ?thesis by (simp only: mult_mod_left)
    qed
    have lolt: "?l mod 2 ^ k * 2 ^ bits < 2 ^ 64" using unat_u64_less [of "push_bit bits (lo x)"] lo by simp
    have "(?h mod 2 ^ k * 2 ^ bits + ?l div 2 ^ k) = (?h * 2 ^ bits + ?l div 2 ^ k) mod 2 ^ 64"
    proof -
      have "(?h * 2 ^ bits + ?l div 2 ^ k) mod (2 ^ bits * 2 ^ k) =
          2 ^ bits * ((?h * 2 ^ bits + ?l div 2 ^ k) div 2 ^ bits mod 2 ^ k) + (?h * 2 ^ bits + ?l div 2 ^ k) mod 2 ^ bits"
        by (rule mod_mult2_eq)
      also have "(?h * 2 ^ bits + ?l div 2 ^ k) div 2 ^ bits = ?h" using dlt by simp
      also have "(?h * 2 ^ bits + ?l div 2 ^ k) mod 2 ^ bits = ?l div 2 ^ k" using dlt by simp
      finally show ?thesis unfolding bk by (simp add: ac_simps)
    qed
    then have "n128 (ushiftl128 x bits) =
        (?h * 2 ^ bits + ?l div 2 ^ k) mod 2 ^ 64 * 2 ^ 64 + ?l mod 2 ^ k * 2 ^ bits"
      unfolding e n128_def uint128.simps hi lo by simp
    also have "\<dots> = ((?h * 2 ^ bits + ?l div 2 ^ k) * 2 ^ 64 + ?l mod 2 ^ k * 2 ^ bits) mod 2 ^ 128"
      by (rule mod_128_split [OF lolt])
    also have "(?h * 2 ^ bits + ?l div 2 ^ k) * 2 ^ 64 + ?l mod 2 ^ k * 2 ^ bits =
        ?h * 2 ^ bits * 2 ^ 64 + (?l div 2 ^ k * 2 ^ k + ?l mod 2 ^ k) * 2 ^ bits"
      unfolding bk by (rule shiftl_arith)
    also have "\<dots> = n128 x * 2 ^ bits"
      unfolding div_mult_mod_eq n128_def by (rule shiftl_arith2)
    finally show ?thesis .
  qed
qed

lemma unat_low_half: "unat (v AND UINT32_BIT_MASK) = unat v mod 2 ^ 32"
proof -
  have "UINT32_BIT_MASK = mask 32" by (simp add: UINT32_BIT_MASK_def mask_eq_exp_minus_1)
  then have "v AND UINT32_BIT_MASK = take_bit 32 v" by (simp add: take_bit_eq_mask)
  then show ?thesis by (simp only:) (subst unsigned_take_bit_eq, simp only: take_bit_eq_mod)
qed

lemma unat_mult_32:
  fixes a f :: u64
  assumes "unat a < 2 ^ 32" "unat f < 2 ^ 32"
  shows "unat (a * f) = unat a * unat f"
proof -
  have "unat a * unat f < 2 ^ 32 * 2 ^ 32" using assms by (intro mult_strict_mono) auto
  then show ?thesis by (simp add: unat_word_ariths)
qed

lemma n128_umul64_32_shift:
  assumes f: "unat f < 2 ^ 32" and s: "s \<le> 32"
  shows "n128 (umul64_32_shift base v f s) = (n128 base + unat v * unat f * 2 ^ s) mod 2 ^ 128"
proof -
  let ?A = "unat v mod 2 ^ 32 * unat f" and ?B = "unat v div 2 ^ 32 * unat f"
  have A: "unat ((v AND UINT32_BIT_MASK) * f) = ?A"
    using f by (subst unat_mult_32) (simp_all only: unat_low_half mod_less_divisor zero_less_numeral zero_less_power)
  have d: "unat (drop_bit 32 v) = unat v div 2 ^ 32" by (simp only: unat_drop_bit)
  have "unat v div 2 ^ 32 < 2 ^ 32" using unat_u64_less [of v] by (simp add: less_mult_imp_div_less)
  then have B: "unat (drop_bit 32 v * f) = ?B" using f by (subst unat_mult_32) (simp_all only: d)
  have sb: "s < 128" "32 + s < 128" using s by simp_all
  have "n128 (umul64_32_shift base v f s) =
      ((n128 base + ?A * 2 ^ s mod 2 ^ 128) mod 2 ^ 128 + ?B * 2 ^ (32 + s) mod 2 ^ 128) mod 2 ^ 128"
    unfolding umul64_32_shift_def Let_def
    by (simp only: n128_uinc128_128 n128_ushiftl128 [OF sb(1)] n128_ushiftl128 [OF sb(2)] n128_uset A B)
  also have "\<dots> = (n128 base + ?A * 2 ^ s + ?B * 2 ^ (32 + s)) mod 2 ^ 128"
    by (simp only: mod_add_left_eq mod_add_right_eq)
  also have "n128 base + ?A * 2 ^ s + ?B * 2 ^ (32 + s) =
      n128 base + (unat v div 2 ^ 32 * 2 ^ 32 + unat v mod 2 ^ 32) * unat f * 2 ^ s"
  proof -
    have "b + a * f * 2 ^ s + c * f * 2 ^ (32 + s) = b + (c * 2 ^ 32 + a) * f * (2::nat) ^ s" for a b c f :: nat
      by (simp add: power_add algebra_simps)
    then show ?thesis .
  qed
  finally show ?thesis by (simp only: div_mult_mod_eq)
qed

text \<open>The product of two 64-bit values is exact: the 128-bit result is the product of the two
  numbers, with every carry between the halves accounted for.\<close>

theorem umul64_64_exact: "n128 (zbx_umul64_64 v f) = unat v * unat f"
proof -
  have f1: "unat (f AND UINT32_BIT_MASK) < 2 ^ 32" by (simp only: unat_low_half) simp
  have f2: "unat (drop_bit 32 f) = unat f div 2 ^ 32" by (simp only: unat_drop_bit)
  then have f2': "unat (drop_bit 32 f) < 2 ^ 32" using unat_u64_less [of f] by (simp add: less_mult_imp_div_less)
  have "n128 (zbx_umul64_64 v f) =
      ((n128 (uset128 0 0) + unat v * (unat f mod 2 ^ 32) * 2 ^ 0) mod 2 ^ 128 + unat v * (unat f div 2 ^ 32) * 2 ^ 32) mod 2 ^ 128"
    unfolding zbx_umul64_64_def Let_def
    by (simp only: n128_umul64_32_shift [OF f1] n128_umul64_32_shift [OF f2'] unat_low_half f2 le0 order_refl)
  also have "\<dots> = (unat v * (unat f mod 2 ^ 32) + unat v * (unat f div 2 ^ 32) * 2 ^ 32) mod 2 ^ 128"
    by (simp only: mod_add_left_eq n128_uset unsigned_0 power_0 mult_1_right add_0 mult_zero_left)
  also have "unat v * (unat f mod 2 ^ 32) + unat v * (unat f div 2 ^ 32) * 2 ^ 32 =
      unat v * (unat f div 2 ^ 32 * 2 ^ 32 + unat f mod 2 ^ 32)"
    by (simp only: distrib_left mult.assoc add.commute)
  also have "\<dots> = unat v * unat f" by (simp only: div_mult_mod_eq)
  also have "\<dots> mod 2 ^ 128 = unat v * unat f"
  proof (rule mod_less)
    have "unat v * unat f < 2 ^ 64 * 2 ^ 64"
      using unat_u64_less [of v] unat_u64_less [of f] by (intro mult_strict_mono) auto
    then show "unat v * unat f < 2 ^ 128" by simp
  qed
  finally show ?thesis .
qed

subsection \<open>Division\<close>

lemma udiv_align_correct:
  "\<lbrakk>n128 divisor = d * 2 ^ m; unat result_mask = 2 ^ m; d \<le> n128 reminder\<rbrakk> \<Longrightarrow>
   \<exists>divisor' mask' j. udiv_align reminder divisor result_mask = Some (divisor', mask') \<and> j \<le> m \<and>
     n128 divisor' = d * 2 ^ j \<and> unat mask' = 2 ^ j \<and> d * 2 ^ j \<le> n128 reminder \<and>
     (j < m \<longrightarrow> n128 reminder < d * 2 ^ Suc j)"
proof (induction m arbitrary: divisor result_mask)
  case 0
  then have "\<not> ucmp128_128 reminder divisor < 0" by (simp add: ucmp_n128)
  then show ?case using 0 by (subst udiv_align.simps) auto
next
  case (Suc m)
  show ?case
  proof (cases "ucmp128_128 reminder divisor < 0")
    case False
    then have "d * 2 ^ Suc m \<le> n128 reminder" using Suc.prems(1) by (simp add: ucmp_n128)
    then show ?thesis
      using False Suc.prems by (subst udiv_align.simps) (auto intro!: exI [of _ "Suc m"])
  next
    case True
    have lt: "n128 reminder < d * 2 ^ Suc m" using True Suc.prems(1) by (simp add: ucmp_n128)
    have d1: "n128 (ushiftr128 divisor 1) = d * 2 ^ m"
      using n128_ushiftr128 [of 1 divisor] Suc.prems(1) by simp
    have m1: "unat (drop_bit 1 result_mask) = 2 ^ m"
      using unat_drop_bit [of 1 result_mask] Suc.prems(2) by simp
    obtain divisor' mask' j where r: "udiv_align reminder (ushiftr128 divisor 1) (drop_bit 1 result_mask) = Some (divisor', mask')"
        "j \<le> m" "n128 divisor' = d * 2 ^ j" "unat mask' = 2 ^ j" "d * 2 ^ j \<le> n128 reminder"
        "j < m \<longrightarrow> n128 reminder < d * 2 ^ Suc j"
      using Suc.IH [OF d1 m1 Suc.prems(3)] by blast
    have "n128 reminder < d * 2 ^ Suc j" using r(2,6) lt by (cases "j = m") auto
    moreover have "udiv_align reminder divisor result_mask = Some (divisor', mask')"
      using True r(1) by (subst udiv_align.simps) simp
    ultimately show ?thesis using r by (intro exI [of _ divisor'] exI [of _ mask'] exI [of _ j]) auto
  qed
qed

lemma udiv_loop_correct:
  "\<lbrakk>n128 divisor = d * 2 ^ m; unat result_mask = 2 ^ m; 0 < d; d < 2 ^ 64; n128 reminder < d * 2 ^ b;
    b \<le> Suc m; 2 ^ b dvd unat result_lo\<rbrakk> \<Longrightarrow>
   \<exists>reminder' result' b'. udiv_loop reminder divisor result_mask result_lo = Some (reminder', result') \<and>
     hi reminder' = 0 \<and> n128 reminder' + unat result' * d = n128 reminder + unat result_lo * d \<and>
     n128 reminder' < d * 2 ^ b' \<and> 2 ^ b' dvd unat result'"
proof (induction b arbitrary: reminder divisor result_mask result_lo m rule: less_induct)
  case (less b)
  note prems = less.prems
  show ?case
  proof (cases "hi reminder = 0")
    case True
    then have "udiv_loop reminder divisor result_mask result_lo = Some (reminder, result_lo)"
      by (subst udiv_loop.simps) simp
    then show ?thesis using True prems by blast
  next
    case False
    then have "1 \<le> unat (hi reminder)" using unat_gt_0 [of "hi reminder"] by simp
    then have "2 ^ 64 \<le> unat (hi reminder) * 2 ^ 64" by simp
    then have "2 ^ 64 \<le> n128 reminder" unfolding n128_def by linarith
    then have dr: "d \<le> n128 reminder" using prems(4) by linarith
    obtain divisor' mask' j where al: "udiv_align reminder divisor result_mask = Some (divisor', mask')" "j \<le> m"
        "n128 divisor' = d * 2 ^ j" "unat mask' = 2 ^ j" "d * 2 ^ j \<le> n128 reminder"
        "j < m \<longrightarrow> n128 reminder < d * 2 ^ Suc j"
      using udiv_align_correct [OF prems(1,2) dr] by blast
    have "d * 2 ^ j < d * 2 ^ b" using al(5) prems(5) by linarith
    then have jb: "j < b" using prems(3) by (simp add: power_strict_increasing_iff)
    have up: "n128 reminder < d * 2 ^ Suc j"
    proof (cases "j < m")
      case False
      then have "b = Suc j" using al(2) jb prems(6) by linarith
      then show ?thesis using prems(5) by simp
    qed (use al(6) in simp)
    define r1 where "r1 = udec128_128 reminder divisor'"
    have r1: "n128 r1 = n128 reminder - d * 2 ^ j"
      unfolding r1_def using n128_udec128_128 [of divisor' reminder] al(3,5) by simp
    have "(2::nat) ^ Suc j dvd 2 ^ b" using jb by (intro le_imp_power_dvd) simp
    then have "2 ^ Suc j dvd unat result_lo" using prems(7) by (rule dvd_trans)
    then obtain c where c: "unat result_lo = c * 2 ^ Suc j" by (metis dvd_div_mult_self)
    have res: "unat (result_lo OR mask') = unat result_lo + 2 ^ j"
      using unat_or_disjoint(1) [OF c, of mask'] al(4) by simp
    have "n128 r1 < d * 2 ^ j" using r1 up al(5) by simp
    moreover have "2 ^ j dvd unat (result_lo OR mask')" unfolding res c by simp
    ultimately obtain reminder' result' b' where ih: "udiv_loop r1 divisor' mask' (result_lo OR mask') = Some (reminder', result')"
        "hi reminder' = 0" "n128 reminder' + unat result' * d = n128 r1 + unat (result_lo OR mask') * d"
        "n128 reminder' < d * 2 ^ b'" "2 ^ b' dvd unat result'"
      using less.IH [OF jb al(3,4) prems(3,4), of r1 "result_lo OR mask'"] by auto
    have "n128 r1 + unat (result_lo OR mask') * d = n128 reminder + unat result_lo * d"
      using al(5) by (simp add: r1 res algebra_simps)
    moreover have "udiv_loop reminder divisor result_mask result_lo = Some (reminder', result')"
      using False al(1) ih(1) by (subst udiv_loop.simps) (simp add: r1_def)
    ultimately show ?thesis using ih by metis
  qed
qed

text \<open>C19: Dividing a 128-bit value by a non-zero 64-bit value terminates and gives the exact
  quotient; only division by zero is a fault.\<close>

theorem udiv128_64_exact:
  "if v = 0 then zbx_udiv128_64 dividend v = Some (Inl Div_By_Zero)
   else \<exists>q. zbx_udiv128_64 dividend v = Some (Inr q) \<and> n128 q = n128 dividend div unat v"
proof (cases "v = 0 \<or> hi dividend = 0")
  case True
  then show ?thesis by (auto simp: zbx_udiv128_64_def n128_def unat_div)
next
  case False
  define d where "d = unat v"
  have d: "0 < d" "d < 2 ^ 64" using False unat_gt_0 [of v] unat_u64_less [of v] by (simp_all add: d_def)
  define qh where "qh = (if v \<le> hi dividend then hi dividend div v else 0)"
  define r0 where "r0 = (if v \<le> hi dividend then dividend\<lparr>hi := hi dividend - qh * v\<rparr> else dividend)"
  have qh: "unat qh = unat (hi dividend) div d"
    by (simp add: qh_def d_def unat_div word_le_nat_alt)
  have r0: "unat (hi r0) = unat (hi dividend) mod d" "lo r0 = lo dividend"
  proof -
    have "hi dividend - hi dividend div v * v = hi dividend mod v" by (rule minus_div_mult_eq_mod)
    then show "unat (hi r0) = unat (hi dividend) mod d"
      by (simp add: r0_def qh_def d_def unat_mod word_le_nat_alt)
  qed (simp add: r0_def)
  have "unat (hi r0) < d" using d r0 by simp
  then have "unat (hi r0) * 2 ^ 64 + 2 ^ 64 \<le> d * 2 ^ 64"
    by (metis Suc_leI mult_Suc mult_le_mono1 add.commute)
  then have lt: "n128 r0 < d * 2 ^ 64" unfolding n128_def using unat_u64_less [of "lo r0"] by linarith
  have div0: "n128 (ushiftr128 (uset128 v 0) 1) = d * 2 ^ 63"
    using n128_ushiftr128 [of 1 "uset128 v 0"] by (simp add: d_def)
  have mask: "unat (push_bit 63 1 :: u64) = 2 ^ 63" by simp
  obtain r1 res b where L: "udiv_loop r0 (ushiftr128 (uset128 v 0) 1) (push_bit 63 1) 0 = Some (r1, res)"
      "hi r1 = 0" "n128 r1 + unat res * d = n128 r0 + unat (0 :: u64) * d" "n128 r1 < d * 2 ^ b" "2 ^ b dvd unat res"
    using udiv_loop_correct [OF div0 mask d lt, of 0] by auto
  have r1: "n128 r1 = unat (lo r1)" using L(2) by (simp add: n128_def)
  obtain c where c: "unat res = c * 2 ^ b" using L(5) by (metis dvd_div_mult_self)
  have fin: "unat (lo r1 div v) = n128 r1 div d" by (simp add: unat_div r1 d_def)
  moreover have "n128 r1 div d < 2 ^ b" using L(4) d by (simp add: less_mult_imp_div_less mult.commute)
  ultimately have "unat (res OR lo r1 div v) = unat res + n128 r1 div d"
    using unat_or_disjoint(1) [OF c, of "lo r1 div v"] by simp
  also have "\<dots> = n128 r0 div d"
  proof -
    have "n128 r0 = n128 r1 + unat res * d" using L(3) by simp
    then show ?thesis using d by simp
  qed
  finally have lo: "unat (res OR lo r1 div v) = n128 r0 div d" .
  have "n128 dividend = n128 r0 + unat qh * 2 ^ 64 * d"
  proof -
    have "unat (hi dividend) = unat qh * d + unat (hi r0)" by (simp only: qh r0(1) div_mult_mod_eq)
    then have "n128 dividend = (unat qh * d + unat (hi r0)) * 2 ^ 64 + unat (lo r0)"
      unfolding n128_def r0(2) by (simp only:)
    then show ?thesis unfolding n128_def by (simp add: algebra_simps)
  qed
  then have "n128 dividend div d = n128 r0 div d + unat qh * 2 ^ 64" using d by simp
  moreover have "zbx_udiv128_64 dividend v = Some (Inr \<lparr>hi = qh, lo = res OR lo r1 div v\<rparr>)"
    using False L(1) unfolding zbx_udiv128_64_def Let_def qh_def [symmetric] r0_def [symmetric] by simp
  ultimately show ?thesis using False lo by (simp add: n128_def d_def)
qed

lemma uinc128_exact_parts:
  "n128 (zbx_uinc128_64 x v) = (n128 x + unat v) mod 2 ^ 128"
  "n128 (zbx_uinc128_128 x y) = (n128 x + n128 y) mod 2 ^ 128"
  by (rule n128_uinc128_64, rule n128_uinc128_128)

text \<open>Incrementing by a 64-bit or 128-bit value adds modulo \<open>2 ^ 128\<close>, whatever the carry.\<close>

theorem uinc128_exact:
  "(n128 (zbx_uinc128_64 x v) = (n128 x + unat v) mod 2 ^ 128) \<and>
      (n128 (zbx_uinc128_128 x y) = (n128 x + n128 y) mod 2 ^ 128)"
  by (rule conjI, rule uinc128_exact_parts(1), rule uinc128_exact_parts(2))

end
