(* ===== verification/Vector.thy ===== *)
theory Vector
  imports Buckets Algo_Defs
begin

text \<open>
  The vectors that the macros \<open>ZBX_VECTOR_FUNC_IMPL\<close> and \<open>ZBX_PTR_VECTOR_IMPL\<close> of
  \<open>src/include/zbxalgo.h\<close> generate for each element type. A vector is its live prefix with the
  allocated size (0 for a null array); the in-place loops work on the prefix as an array. Sizes are
  unbounded. The lemmas on sorted vectors hold for any callback that meets \<open>compare_func\<close>.
\<close>

subsection \<open>State\<close>

record 'a vector =
  vvalues :: "'a list"
  values_alloc :: nat

definition values_num :: "'a vector \<Rightarrow> nat" where
  "values_num v = length (vvalues v)"

subsection \<open>Storage\<close>






subsection \<open>Adding and removing elements\<close>







subsection \<open>Sorting and searching\<close>

text \<open>\<open>qsort\<close> of the C library: some order of the elements that the callback accepts; the model
  picks the one of insertion sort.\<close>

fun insert_by :: "('a \<Rightarrow> 'a \<Rightarrow> int) \<Rightarrow> 'a \<Rightarrow> 'a list \<Rightarrow> 'a list" where
  "insert_by cmp x [] = [x]"
| "insert_by cmp x (y # ys) = (if cmp x y \<le> 0 then x # y # ys else y # insert_by cmp x ys)"

definition qsort :: "('a \<Rightarrow> 'a \<Rightarrow> int) \<Rightarrow> 'a list \<Rightarrow> 'a list" where
  "qsort cmp xs = foldr (insert_by cmp) xs []"

definition zbx_vector_sort :: "'a vector \<Rightarrow> ('a \<Rightarrow> 'a \<Rightarrow> int) \<Rightarrow> 'a vector" where
  "zbx_vector_sort v cmp = (if 2 \<le> values_num v then v\<lparr>vvalues := qsort cmp (vvalues v)\<rparr> else v)"

function uniq_loop :: "('a \<Rightarrow> 'a \<Rightarrow> int) \<Rightarrow> 'a list \<Rightarrow> nat \<Rightarrow> nat \<Rightarrow> 'a list \<times> nat" where
  "uniq_loop cmp xs i j =
     (if i < length xs then
        if 0 \<noteq> cmp (xs ! (i - 1)) (xs ! i)
        then uniq_loop cmp (xs[j := xs ! i]) (i + 1) (j + 1)
        else uniq_loop cmp xs (i + 1) j
      else (xs, j))"
  by pat_completeness auto
termination
  by (relation "measure (\<lambda>(cmp, xs, i, j). length xs - i)") auto

declare uniq_loop.simps [simp del]

definition zbx_vector_uniq :: "'a vector \<Rightarrow> ('a \<Rightarrow> 'a \<Rightarrow> int) \<Rightarrow> 'a vector" where
  "zbx_vector_uniq v cmp =
     (if 2 \<le> values_num v
      then let (xs, j) = uniq_loop cmp (vvalues v) 1 1 in v\<lparr>vvalues := take j xs\<rparr>
      else v)"

function nearestindex_loop :: "('a \<Rightarrow> 'a \<Rightarrow> int) \<Rightarrow> 'a list \<Rightarrow> 'a \<Rightarrow> nat \<Rightarrow> nat \<Rightarrow> nat" where
  "nearestindex_loop cmp xs x lo hi =
     (if 1 \<le> hi - lo then
        let mid = (lo + hi) div 2;
            c = cmp (xs ! mid) x
        in if c < 0 then nearestindex_loop cmp xs x (mid + 1) hi
           else if c = 0 then mid
           else nearestindex_loop cmp xs x lo mid
      else hi)"
  by pat_completeness auto
termination
  by (relation "measure (\<lambda>(cmp, xs, x, lo, hi). hi - lo)") auto

declare nearestindex_loop.simps [simp del]

definition zbx_vector_nearestindex :: "'a vector \<Rightarrow> 'a \<Rightarrow> ('a \<Rightarrow> 'a \<Rightarrow> int) \<Rightarrow> nat" where
  "zbx_vector_nearestindex v x cmp = nearestindex_loop cmp (vvalues v) x 0 (values_num v)"

text \<open>\<open>bsearch\<close> of the C library, as binary search with the key as the first argument.\<close>

function bsearch_loop :: "('a \<Rightarrow> 'a \<Rightarrow> int) \<Rightarrow> 'a list \<Rightarrow> 'a \<Rightarrow> nat \<Rightarrow> nat \<Rightarrow> nat option" where
  "bsearch_loop cmp xs key l u =
     (if l < u then
        let idx = (l + u) div 2;
            c = cmp key (xs ! idx)
        in if c < 0 then bsearch_loop cmp xs key l idx
           else if c > 0 then bsearch_loop cmp xs key (idx + 1) u
           else Some idx
      else None)"
  by pat_completeness auto
termination
  by (relation "measure (\<lambda>(cmp, xs, key, l, u). u - l)") auto

declare bsearch_loop.simps [simp del]

definition zbx_vector_bsearch :: "'a vector \<Rightarrow> 'a \<Rightarrow> ('a \<Rightarrow> 'a \<Rightarrow> int) \<Rightarrow> int" where
  "zbx_vector_bsearch v x cmp =
     (case (if values_num v = 0 then None else bsearch_loop cmp (vvalues v) x 0 (values_num v)) of
        Some i \<Rightarrow> int i
      | None \<Rightarrow> FAIL_value)"

text \<open>The search from \<open>*index\<close> on, which is left at the position reached.\<close>

function zbx_vector_lsearch :: "'a vector \<Rightarrow> 'a \<Rightarrow> nat \<Rightarrow> ('a \<Rightarrow> 'a \<Rightarrow> int) \<Rightarrow> nat \<times> bool" where
  "zbx_vector_lsearch v x index cmp =
     (if index < values_num v then
        let c = cmp (vvalues v ! index) x in
        if c < 0 then zbx_vector_lsearch v x (index + 1) cmp
        else if c = 0 then (index, SUCCEED) else (index, FAIL)
      else (index, FAIL))"
  by pat_completeness auto
termination
  by (relation "measure (\<lambda>(v, x, index, cmp). values_num v - index)") auto

declare zbx_vector_lsearch.simps [simp del]

function search_loop :: "('a \<Rightarrow> 'a \<Rightarrow> int) \<Rightarrow> 'a list \<Rightarrow> 'a \<Rightarrow> nat \<Rightarrow> int" where
  "search_loop cmp xs x index =
     (if index < length xs then
        if cmp (xs ! index) x = 0 then int index else search_loop cmp xs x (index + 1)
      else FAIL_value)"
  by pat_completeness auto
termination
  by (relation "measure (\<lambda>(cmp, xs, x, index). length xs - index)") auto

declare search_loop.simps [simp del]

definition zbx_vector_search :: "'a vector \<Rightarrow> 'a \<Rightarrow> ('a \<Rightarrow> 'a \<Rightarrow> int) \<Rightarrow> int" where
  "zbx_vector_search v x cmp = search_loop cmp (vvalues v) x 0"

subsection \<open>Set difference of sorted vectors\<close>

text \<open>\<open>block_start\<close> is set when the first element is deleted and not read before.\<close>

function setdiff_loop ::
  "('a \<Rightarrow> 'a \<Rightarrow> int) \<Rightarrow> 'a list \<Rightarrow> 'a list \<Rightarrow> nat \<Rightarrow> nat \<Rightarrow> nat \<Rightarrow> nat \<Rightarrow> 'a list \<times> nat \<times> nat" where
  "setdiff_loop cmp right left left_index right_index deleted block_start =
     (if left_index < length left \<and> right_index < length right then
        let c = cmp (left ! left_index) (right ! right_index);
            left_index' = (if c \<le> 0 then left_index + 1 else left_index);
            right_index' = (if 0 \<le> c then right_index + 1 else right_index)
        in if c \<noteq> 0 then setdiff_loop cmp right left left_index' right_index' deleted block_start
           else
             let left' = (if 0 < deleted
                          then memmove_list left (block_start + 1 - (deleted + 1)) block_start
                                 (left_index' - 1 - block_start)
                          else left)
             in setdiff_loop cmp right left' left_index' right_index' (deleted + 1) left_index'
      else (left, deleted, block_start))"
  by pat_completeness auto
termination
proof (relation "measure (\<lambda>(cmp, right, left, li, ri, d, b). length right - ri + (length right + length left - li))")
qed (auto simp: memmove_list_def)

declare setdiff_loop.simps [simp del]

definition zbx_vector_setdiff :: "'a vector \<Rightarrow> 'a vector \<Rightarrow> ('a \<Rightarrow> 'a \<Rightarrow> int) \<Rightarrow> 'a vector" where
  "zbx_vector_setdiff left right cmp =
     (let (xs, deleted, block_start) = setdiff_loop cmp (vvalues right) (vvalues left) 0 0 0 0 in
      if 0 < deleted
      then left\<lparr>vvalues := take (length xs - deleted)
             (memmove_list xs (block_start - deleted) block_start (length xs - block_start))\<rparr>
      else left\<lparr>vvalues := xs\<rparr>)"

subsection \<open>Storage lemmas\<close>





subsection \<open>Removing adjacent duplicates\<close>

fun uniq_tail :: "('a \<Rightarrow> 'a \<Rightarrow> int) \<Rightarrow> 'a \<Rightarrow> 'a list \<Rightarrow> 'a list" where
  "uniq_tail cmp p [] = []"
| "uniq_tail cmp p (y # ys) = (if 0 \<noteq> cmp p y then y # uniq_tail cmp y ys else uniq_tail cmp y ys)"

lemma uniq_loop_correct:
  "\<lbrakk>0 < i; j \<le> i; i \<le> length xs; uniq_loop cmp xs i j = (xs', j')\<rbrakk> \<Longrightarrow>
   take j' xs' = take j xs @ uniq_tail cmp (xs ! (i - 1)) (drop i xs)"
proof (induction cmp xs i j rule: uniq_loop.induct)
  case (1 cmp xs i j)
  show ?case
  proof (cases "i < length xs")
    case False
    then show ?thesis using "1.prems" by (subst (asm) uniq_loop.simps) simp
  next
    case True
    have d: "drop i xs = xs ! i # drop (Suc i) xs" using True by (simp add: Cons_nth_drop_Suc)
    show ?thesis
    proof (cases "0 \<noteq> cmp (xs ! (i - 1)) (xs ! i)")
      case ne: True
      let ?xs = "xs[j := xs ! i]"
      have x: "?xs ! i = xs ! i" "drop (i + 1) ?xs = drop (Suc i) xs" "take (j + 1) ?xs = take j xs @ [xs ! i]"
        using True "1.prems"(2) by (cases "j = i"; simp add: take_Suc_conv_app_nth)+
      have "uniq_loop cmp ?xs (i + 1) (j + 1) = (xs', j')"
        using "1.prems"(4) True ne by (subst (asm) uniq_loop.simps) simp
      from "1.IH"(1) [OF True ne _ _ _ this] show ?thesis
        using True "1.prems" x d ne by simp
    next
      case eq: False
      have "uniq_loop cmp xs (i + 1) j = (xs', j')"
        using "1.prems"(4) True eq by (subst (asm) uniq_loop.simps) simp
      from "1.IH"(2) [OF True eq _ _ _ this] show ?thesis
        using True "1.prems" d eq by simp
    qed
  qed
qed

lemma vector_uniq_list:
  "vvalues (zbx_vector_uniq v cmp) =
     (case vvalues v of [] \<Rightarrow> [] | x # xs \<Rightarrow> x # uniq_tail cmp x xs)"
proof (cases "vvalues v")
  case Nil
  then show ?thesis by (simp add: zbx_vector_uniq_def values_num_def)
next
  case (Cons x xs)
  obtain ys j where u: "uniq_loop cmp (vvalues v) 1 1 = (ys, j)" by (cases "uniq_loop cmp (vvalues v) 1 1")
  show ?thesis
  proof (cases "xs = []")
    case False
    then have "2 \<le> values_num v" using Cons by (cases xs) (simp_all add: values_num_def)
    then show ?thesis
      using uniq_loop_correct [OF _ _ _ u] u Cons by (simp add: zbx_vector_uniq_def)
  qed (use Cons in \<open>simp add: zbx_vector_uniq_def values_num_def\<close>)
qed

subsection \<open>The set difference as a merge\<close>

fun merge_diff :: "('a \<Rightarrow> 'a \<Rightarrow> int) \<Rightarrow> 'a list \<Rightarrow> 'a list \<Rightarrow> 'a list" where
  "merge_diff cmp [] right = []"
| "merge_diff cmp left [] = left"
| "merge_diff cmp (x # left) (y # right) =
     (if cmp x y < 0 then x # merge_diff cmp left (y # right)
      else if cmp x y = 0 then merge_diff cmp left right
      else merge_diff cmp (x # left) right)"

text \<open>The state of the loop: \<open>whole\<close> is the original left vector, of which the part before
  \<open>block_start\<close> has been compacted and the part after it not touched.\<close>

definition setdiff_inv :: "('a \<Rightarrow> 'a \<Rightarrow> int) \<Rightarrow> 'a list \<Rightarrow> 'a list \<Rightarrow> 'a list \<Rightarrow> nat \<Rightarrow> nat \<Rightarrow> nat \<Rightarrow> nat \<Rightarrow> bool" where
  "setdiff_inv cmp whole right left li ri d b \<longleftrightarrow>
     length left = length whole \<and> d \<le> b \<and> b \<le> li \<and> li \<le> length whole \<and> drop b left = drop b whole \<and>
     take (b - d) left @ seg whole b li @ merge_diff cmp (drop li whole) (drop ri right) =
       merge_diff cmp whole right"

lemma setdiff_inv_nth: "setdiff_inv cmp whole right left li ri d b \<Longrightarrow> li < length whole \<Longrightarrow> left ! li = whole ! li"
proof -
  assume "setdiff_inv cmp whole right left li ri d b" "li < length whole"
  then have "b \<le> li" "drop b left = drop b whole" "length left = length whole" by (simp_all add: setdiff_inv_def)
  then show ?thesis using \<open>li < length whole\<close> by (metis le_add_diff_inverse less_imp_le nth_drop order_trans)
qed

lemma setdiff_inv_keep:
  assumes inv: "setdiff_inv cmp whole right left li ri d b" and lt: "li < length whole" "ri < length right"
    and c: "cmp (whole ! li) (right ! ri) < 0"
  shows "setdiff_inv cmp whole right left (Suc li) ri d b"
proof -
  have "drop li whole = whole ! li # drop (Suc li) whole" "drop ri right = right ! ri # drop (Suc ri) right"
    using lt by (simp_all add: Cons_nth_drop_Suc)
  moreover have "seg whole b (Suc li) = seg whole b li @ [whole ! li]"
    using inv lt by (intro seg_snoc) (simp_all add: setdiff_inv_def)
  ultimately show ?thesis using inv lt c by (simp add: setdiff_inv_def)
qed

lemma setdiff_inv_skip:
  assumes inv: "setdiff_inv cmp whole right left li ri d b" and lt: "li < length whole" "ri < length right"
    and c: "0 < cmp (whole ! li) (right ! ri)"
  shows "setdiff_inv cmp whole right left li (Suc ri) d b"
proof -
  have "drop li whole = whole ! li # drop (Suc li) whole" "drop ri right = right ! ri # drop (Suc ri) right"
    using lt by (simp_all add: Cons_nth_drop_Suc)
  then show ?thesis using inv lt c by (simp add: setdiff_inv_def)
qed

lemma memmove_compact:
  assumes "d \<le> b" "b \<le> e" "e \<le> length xs"
  shows "take (e - d) (memmove_list xs (b - d) b (e - b)) = take (b - d) xs @ seg xs b e"
    "drop e (memmove_list xs (b - d) b (e - b)) = drop e xs"
proof -
  have l: "length (memmove_list xs (b - d) b (e - b)) = length xs" using assms by simp
  show "take (e - d) (memmove_list xs (b - d) b (e - b)) = take (b - d) xs @ seg xs b e"
    using assms by (intro nth_equalityI) (auto simp: nth_memmove_list nth_append)
  show "drop e (memmove_list xs (b - d) b (e - b)) = drop e xs"
    using assms by (intro nth_equalityI) (auto simp: nth_memmove_list)
qed

lemma seg_drop_eq: "drop b xs = drop b ys \<Longrightarrow> seg xs b e = seg ys b e"
  by (simp add: seg_def)

lemma setdiff_inv_delete:
  assumes inv: "setdiff_inv cmp whole right left li ri d b" and lt: "li < length whole" "ri < length right"
    and c: "cmp (whole ! li) (right ! ri) = 0" and z: "d = 0 \<Longrightarrow> b = 0"
  defines "left' \<equiv> (if 0 < d then memmove_list left (b + 1 - (d + 1)) b (li + 1 - 1 - b) else left)"
  shows "setdiff_inv cmp whole right left' (li + 1) (ri + 1) (d + 1) (li + 1)"
proof -
  note I = inv [unfolded setdiff_inv_def]
  have dr: "drop li whole = whole ! li # drop (Suc li) whole" "drop ri right = right ! ri # drop (Suc ri) right"
    using lt by (simp_all add: Cons_nth_drop_Suc)
  have *: "take (li - d) left' = take (b - d) left @ seg left b li \<and> drop li left' = drop li left \<and> length left' = length left"
  proof (cases "d = 0")
    case True
    then have "b = 0" by (rule z)
    then show ?thesis using True by (simp add: left'_def seg_def)
  next
    case False
    then have "left' = memmove_list left (b - d) b (li - b)" by (simp add: left'_def)
    moreover have "length (memmove_list left (b - d) b (li - b)) = length left"
      by (rule length_memmove_list) (use I in arith)+
    ultimately show ?thesis using memmove_compact [of d b li left] I by simp
  qed
  have "seg left b li = seg whole b li" using I by (intro seg_drop_eq) simp
  moreover have "drop (Suc li) left' = drop (Suc li) whole"
  proof -
    have "drop li left = drop li whole" using I by (metis drop_drop le_add_diff_inverse add.commute)
    then have "drop 1 (drop li left') = drop 1 (drop li whole)" using * by simp
    then show ?thesis by simp
  qed
  ultimately show ?thesis
    using * I lt c dr by (auto simp: setdiff_inv_def)
qed

lemma setdiff_loop_correct:
  "\<lbrakk>setdiff_inv cmp whole right left li ri d b; d = 0 \<longrightarrow> b = 0;
    setdiff_loop cmp right left li ri d b = (left', d', b')\<rbrakk> \<Longrightarrow>
   length left' = length whole \<and> d' \<le> b' \<and> b' \<le> length whole \<and> (d' = 0 \<longrightarrow> b' = 0) \<and>
   take (b' - d') left' @ drop b' left' = merge_diff cmp whole right"
proof (induction cmp right left li ri d b rule: setdiff_loop.induct)
  case (1 cmp right left li ri d b)
  note inv = "1.prems"(1) and z = "1.prems"(2)
  have len: "length left = length whole" using inv by (simp add: setdiff_inv_def)
  show ?case
  proof (cases "li < length left \<and> ri < length right")
    case False
    then have "left' = left" "d' = d" "b' = b" using "1.prems"(3) by (subst (asm) setdiff_loop.simps, simp)+
    moreover have "merge_diff cmp (drop li whole) (drop ri right) = drop li whole"
    proof (cases "li < length whole")
      case True
      then have "drop ri right = []" using False len by simp
      then show ?thesis by (cases "drop li whole") simp_all
    qed simp
    moreover have "seg whole b li @ drop li whole = drop b whole"
      using inv by (simp add: seg_def setdiff_inv_def) (metis append_take_drop_id drop_drop le_add_diff_inverse add.commute)
    ultimately show ?thesis using inv z by (auto simp: setdiff_inv_def)
  next
    case True
    define c where "c = cmp (whole ! li) (right ! ri)"
    have lt: "li < length whole" "ri < length right" using True len by simp_all
    have nth: "left ! li = whole ! li" using setdiff_inv_nth [OF inv lt(1)] .
    note unf = "1.prems"(3) [unfolded setdiff_loop.simps [of cmp right left li ri d b] nth c_def [symmetric] Let_def]
    note IH = "1.IH" [OF True, unfolded nth c_def [symmetric], OF refl refl refl]
    consider "c < 0" | "c = 0" | "0 < c" by linarith
    then show ?thesis
    proof cases
      case 1
      then show ?thesis
        using IH(1) unf True z setdiff_inv_keep [OF inv lt] by (simp add: c_def)
    next
      case 2
      then have le: "(if c \<le> 0 then li + 1 else li) = li + 1" "(if 0 \<le> c then ri + 1 else ri) = ri + 1"
        by simp_all
      show ?thesis
        using IH(2) [unfolded le] unf [unfolded le] 2 True z setdiff_inv_delete [OF inv lt, folded c_def] by simp
    next
      case 3
      then show ?thesis
        using IH(1) unf True z setdiff_inv_skip [OF inv lt] by (simp add: c_def)
    qed
  qed
qed

lemma vector_setdiff_merge:
  "vvalues (zbx_vector_setdiff left right cmp) = merge_diff cmp (vvalues left) (vvalues right)"
proof -
  obtain xs d b where r: "setdiff_loop cmp (vvalues right) (vvalues left) 0 0 0 0 = (xs, d, b)"
    by (metis prod_cases3)
  have "setdiff_inv cmp (vvalues left) (vvalues right) (vvalues left) 0 0 0 0" by (simp add: setdiff_inv_def)
  from setdiff_loop_correct [OF this _ r]
  have L: "length xs = length (vvalues left)" "d \<le> b" "b \<le> length xs" "d = 0 \<longrightarrow> b = 0"
      "take (b - d) xs @ drop b xs = merge_diff cmp (vvalues left) (vvalues right)" by simp_all
  show ?thesis
  proof (cases "d = 0")
    case True
    then show ?thesis using L r by (simp add: zbx_vector_setdiff_def)
  next
    case False
    have "take (length xs - d) (memmove_list xs (b - d) b (length xs - b)) = take (b - d) xs @ drop b xs"
      using memmove_compact(1) [OF L(2,3) order_refl] by (simp add: seg_def)
    then show ?thesis using False L r by (simp add: zbx_vector_setdiff_def)
  qed
qed

subsection \<open>Sorted vectors\<close>

lemma mset_insert_by: "mset (insert_by cmp x ys) = add_mset x (mset ys)"
  by (induction ys) auto

lemma mset_qsort: "mset (qsort cmp xs) = mset xs"
  by (induction xs) (simp_all add: qsort_def mset_insert_by)

lemma set_insert_by: "set (insert_by cmp x ys) = insert x (set ys)"
  by (metis mset_insert_by set_mset_add_mset_insert set_mset_mset)

context compare_func
begin

abbreviation ascending :: "'a list \<Rightarrow> bool" where
  "ascending \<equiv> sorted_wrt (\<lambda>a b. cmp a b \<le> 0)"

abbreviation strictly_ascending :: "'a list \<Rightarrow> bool" where
  "strictly_ascending \<equiv> sorted_wrt (\<lambda>a b. cmp a b < 0)"

lemma ascending_insert_by: "ascending ys \<Longrightarrow> ascending (insert_by cmp x ys)"
proof (induction ys)
  case (Cons y ys)
  show ?case
  proof (cases "cmp x y \<le> 0")
    case True
    then show ?thesis using Cons.prems cmp_trans [of x y] by auto
  next
    case False
    then have "cmp y x \<le> 0" using cmp_total [of x y] by simp
    then show ?thesis using Cons False by (auto simp: set_insert_by)
  qed
qed simp

lemma ascending_qsort: "ascending (qsort cmp xs)"
  by (induction xs) (simp_all add: qsort_def ascending_insert_by)

lemma uniq_tail_strict:
  "ascending (p # ys) \<Longrightarrow> strictly_ascending (uniq_tail cmp p ys) \<and> (\<forall>y \<in> set (uniq_tail cmp p ys). cmp p y < 0) \<and>
     set (uniq_tail cmp p ys) \<subseteq> set ys \<and> (\<forall>y \<in> set ys. \<exists>z \<in> insert p (set (uniq_tail cmp p ys)). cmp z y = 0)"
proof (induction ys arbitrary: p)
  case (Cons y ys)
  then have le: "cmp p y \<le> 0" and ih: "strictly_ascending (uniq_tail cmp y ys)"
      "\<forall>z \<in> set (uniq_tail cmp y ys). cmp y z < 0" "set (uniq_tail cmp y ys) \<subseteq> set ys"
      "\<forall>x \<in> set ys. \<exists>z \<in> insert y (set (uniq_tail cmp y ys)). cmp z x = 0"
    by simp_all
  have lt: "\<forall>z \<in> set (uniq_tail cmp y ys). cmp p z < 0"
    using ih(2) le cmp_le_less_trans by blast
  show ?case
  proof (cases "cmp p y = 0")
    case False
    then have "cmp p y < 0" using le by simp
    then show ?thesis using False ih lt by auto
  next
    case True
    have "\<forall>x \<in> set (y # ys). \<exists>z \<in> insert p (set (uniq_tail cmp y ys)). cmp z x = 0"
    proof
      fix x assume x: "x \<in> set (y # ys)"
      show "\<exists>z \<in> insert p (set (uniq_tail cmp y ys)). cmp z x = 0"
      proof (cases "x = y \<or> cmp y x = 0")
        case xy: True
        then have "cmp p x = 0" using True cmp_eq_trans [of p y x] by auto
        then show ?thesis by blast
      next
        case False
        then obtain z where "z \<in> insert y (set (uniq_tail cmp y ys))" "cmp z x = 0" using ih(4) x by auto
        then show ?thesis using False by auto
      qed
    qed
    then show ?thesis using True ih(1,3) lt by auto
  qed
qed simp

lemma merge_diff_filter:
  "strictly_ascending left \<Longrightarrow> strictly_ascending right \<Longrightarrow>
   merge_diff cmp left right = filter (\<lambda>x. \<forall>y \<in> set right. cmp x y \<noteq> 0) left"
proof (induction left arbitrary: right)
  case (Cons x left)
  from Cons.prems(2) show ?case
  proof (induction right)
    case (Cons y right)
    note sl = \<open>strictly_ascending (x # left)\<close> and sr = \<open>strictly_ascending (y # right)\<close>
    consider "cmp x y < 0" | "cmp x y = 0" | "0 < cmp x y" by linarith
    then show ?case
    proof cases
      case 1
      have "cmp x z < 0" if "z \<in> set right" for z
        using 1 sr that cmp_less_trans [of x y z] by auto
      then have "\<forall>z \<in> set (y # right). cmp x z \<noteq> 0" using 1 by fastforce
      then show ?thesis using 1 Cons.prems sl \<open>\<And>right. _ \<Longrightarrow> _ \<Longrightarrow> merge_diff cmp left right = _\<close> by simp
    next
      case 2
      have "cmp z y \<noteq> 0" if "z \<in> set left" for z
      proof
        assume "cmp z y = 0"
        then have "cmp x z = 0" using 2 cmp_eq_trans [of x y z] cmp_sym_eq [of z y] by simp
        then show False using sl that by auto
      qed
      then have "filter (\<lambda>x. \<forall>y \<in> set (y # right). cmp x y \<noteq> 0) left = filter (\<lambda>x. \<forall>y \<in> set right. cmp x y \<noteq> 0) left"
        by (intro filter_cong) auto
      then show ?thesis
        using 2 sl sr \<open>\<And>right. _ \<Longrightarrow> _ \<Longrightarrow> merge_diff cmp left right = _\<close> by simp
    next
      case 3
      have "cmp z y \<noteq> 0" if "z \<in> set (x # left)" for z
      proof
        assume z: "cmp z y = 0"
        then have "z \<noteq> x" using 3 by auto
        then have "cmp x z < 0" using sl that by auto
        then have "cmp x y < 0" using z cmp_less_trans [of x z y] by simp
        then show False using 3 by simp
      qed
      then have "filter (\<lambda>x. \<forall>y \<in> set (y # right). cmp x y \<noteq> 0) (x # left) = filter (\<lambda>x. \<forall>y \<in> set right. cmp x y \<noteq> 0) (x # left)"
        by (intro filter_cong) auto
      then show ?thesis using 3 Cons.IH sr by simp
    qed
  qed simp
qed simp

text \<open>The binary searches.\<close>

lemma ascending_nth: "ascending xs \<Longrightarrow> i \<le> j \<Longrightarrow> j < length xs \<Longrightarrow> cmp (xs ! i) (xs ! j) \<le> 0"
  by (cases "i = j") (auto simp: sorted_wrt_iff_nth_less)

lemma nearestindex_loop_correct:
  "\<lbrakk>ascending xs; lo \<le> hi; hi \<le> length xs; \<forall>k < lo. cmp (xs ! k) x < 0;
    \<forall>k. hi \<le> k \<longrightarrow> k < length xs \<longrightarrow> 0 < cmp (xs ! k) x\<rbrakk> \<Longrightarrow>
   let r = nearestindex_loop cmp xs x lo hi in
     r < length xs \<and> cmp (xs ! r) x = 0 \<or>
     r \<le> length xs \<and> (\<forall>k < r. cmp (xs ! k) x < 0) \<and> (\<forall>k. r \<le> k \<longrightarrow> k < length xs \<longrightarrow> 0 < cmp (xs ! k) x)"
proof (induction "hi - lo" arbitrary: lo hi rule: less_induct)
  case less
  note prems = less.prems
  show ?case
  proof (cases "1 \<le> hi - lo")
    case False
    then have "nearestindex_loop cmp xs x lo hi = hi" "lo = hi"
      using prems(2) by (subst nearestindex_loop.simps, auto)
    then show ?thesis using prems by simp
  next
    case True
    define mid where "mid = (lo + hi) div 2"
    have m: "lo \<le> mid" "mid < hi" "mid < length xs" using True prems by (auto simp: mid_def)
    consider "cmp (xs ! mid) x < 0" | "cmp (xs ! mid) x = 0" | "0 < cmp (xs ! mid) x" by linarith
    then show ?thesis
    proof cases
      case 1
      have "\<forall>k < mid + 1. cmp (xs ! k) x < 0"
        using 1 ascending_nth [OF prems(1) _ m(3)] cmp_le_less_trans by (metis less_Suc_eq_le Suc_eq_plus1)
      moreover have "nearestindex_loop cmp xs x lo hi = nearestindex_loop cmp xs x (mid + 1) hi"
        using True 1 by (subst nearestindex_loop.simps) (simp add: mid_def)
      ultimately show ?thesis using less.hyps [of hi "mid + 1"] m prems by simp
    next
      case 2
      then have "nearestindex_loop cmp xs x lo hi = mid"
        using True by (subst nearestindex_loop.simps) (simp add: mid_def)
      then show ?thesis using 2 m by simp
    next
      case 3
      have "0 < cmp (xs ! k) x" if "mid \<le> k" "k < length xs" for k
        using 3 ascending_nth [OF prems(1) that] cmp_swap [of "xs ! mid" x] cmp_swap [of "xs ! k" x]
          cmp_less_trans [of x "xs ! mid" "xs ! k"] by simp
      moreover have "nearestindex_loop cmp xs x lo hi = nearestindex_loop cmp xs x lo mid"
        using True 3 by (subst nearestindex_loop.simps) (simp add: mid_def)
      ultimately show ?thesis using less.hyps [of mid lo] m prems by simp
    qed
  qed
qed

lemma bsearch_loop_correct:
  "\<lbrakk>ascending xs; hi \<le> length xs; \<forall>k < lo. cmp (xs ! k) x < 0;
    \<forall>k. hi \<le> k \<longrightarrow> k < length xs \<longrightarrow> 0 < cmp (xs ! k) x\<rbrakk> \<Longrightarrow>
   case bsearch_loop cmp xs x lo hi of
     Some i \<Rightarrow> i < length xs \<and> cmp (xs ! i) x = 0
   | None \<Rightarrow> \<forall>k < length xs. cmp (xs ! k) x \<noteq> 0"
proof (induction "hi - lo" arbitrary: lo hi rule: less_induct)
  case less
  note prems = less.prems
  show ?case
  proof (cases "lo < hi")
    case False
    have "cmp (xs ! k) x \<noteq> 0" if "k < length xs" for k
    proof (cases "k < lo")
      case True
      then have "cmp (xs ! k) x < 0" using prems(3) by blast
      then show ?thesis by simp
    next
      case nk: False
      have "hi \<le> k" using False nk by linarith
      then have "0 < cmp (xs ! k) x" using prems(4) that by blast
      then show ?thesis by simp
    qed
    then show ?thesis using False by (subst bsearch_loop.simps) simp
  next
    case True
    define mid where "mid = (lo + hi) div 2"
    have m: "lo \<le> mid" "mid < hi" "mid < length xs" using True prems by (auto simp: mid_def)
    have sw: "cmp x (xs ! mid) < 0 \<longleftrightarrow> 0 < cmp (xs ! mid) x" "0 < cmp x (xs ! mid) \<longleftrightarrow> cmp (xs ! mid) x < 0"
      using cmp_swap by auto
    consider "cmp (xs ! mid) x < 0" | "cmp (xs ! mid) x = 0" | "0 < cmp (xs ! mid) x" by linarith
    then show ?thesis
    proof cases
      case 1
      have "\<forall>k < mid + 1. cmp (xs ! k) x < 0"
        using 1 ascending_nth [OF prems(1) _ m(3)] cmp_le_less_trans by (metis less_Suc_eq_le Suc_eq_plus1)
      moreover have "bsearch_loop cmp xs x lo hi = bsearch_loop cmp xs x (mid + 1) hi"
        using True 1 sw by (subst bsearch_loop.simps) (simp add: mid_def)
      ultimately show ?thesis using less.hyps [of hi "mid + 1"] m prems by simp
    next
      case 2
      then have "bsearch_loop cmp xs x lo hi = Some mid"
        using True sw by (subst bsearch_loop.simps) (simp add: mid_def)
      then show ?thesis using 2 m by simp
    next
      case 3
      have "0 < cmp (xs ! k) x" if "mid \<le> k" "k < length xs" for k
        using 3 ascending_nth [OF prems(1) that] cmp_swap [of "xs ! mid" x] cmp_swap [of "xs ! k" x]
          cmp_less_trans [of x "xs ! mid" "xs ! k"] by simp
      moreover have "bsearch_loop cmp xs x lo hi = bsearch_loop cmp xs x lo mid"
        using True 3 sw by (subst bsearch_loop.simps) (simp add: mid_def)
      ultimately show ?thesis using less.hyps [of mid lo] m prems by simp
    qed
  qed
qed

lemma lsearch_correct:
  "\<lbrakk>ascending (vvalues v); i \<le> values_num v; \<forall>k < i. cmp (vvalues v ! k) x < 0;
    zbx_vector_lsearch v x i cmp = (j, found)\<rbrakk> \<Longrightarrow>
   i \<le> j \<and> j \<le> values_num v \<and> (\<forall>k < j. cmp (vvalues v ! k) x < 0) \<and>
   (if found then j < values_num v \<and> cmp (vvalues v ! j) x = 0
    else \<forall>k. j \<le> k \<longrightarrow> k < values_num v \<longrightarrow> 0 < cmp (vvalues v ! k) x)"
proof (induction "values_num v - i" arbitrary: i)
  case 0
  then have "\<not> i < values_num v" by simp
  then have "zbx_vector_lsearch v x i cmp = (i, FAIL)" by (subst zbx_vector_lsearch.simps) simp
  then show ?case using 0 by simp
next
  case (Suc n)
  then have lt: "i < values_num v" by simp
  let ?c = "cmp (vvalues v ! i) x"
  consider "?c < 0" | "?c = 0" | "0 < ?c" by linarith
  then show ?case
  proof cases
    case 1
    then have "zbx_vector_lsearch v x (Suc i) cmp = (j, found)"
      using Suc.prems(4) lt by (subst (asm) zbx_vector_lsearch.simps) simp
    moreover have "\<forall>k < Suc i. cmp (vvalues v ! k) x < 0" using 1 Suc.prems(3) less_Suc_eq by blast
    moreover have "n = values_num v - Suc i" "Suc i \<le> values_num v" using Suc.hyps(2) lt by simp_all
    ultimately show ?thesis using Suc.hyps(1) [of "Suc i"] Suc.prems(1) by simp
  next
    case 2
    then have "j = i" "found" using Suc.prems(4) lt by (subst (asm) zbx_vector_lsearch.simps, simp)+
    then show ?thesis using 2 lt Suc.prems(3) by simp
  next
    case 3
    then have "j = i" "\<not> found" using Suc.prems(4) lt by (subst (asm) zbx_vector_lsearch.simps, simp)+
    moreover have "0 < cmp (vvalues v ! k) x" if "i \<le> k" "k < values_num v" for k
      using 3 ascending_nth [OF Suc.prems(1) that(1)] that(2) cmp_swap [of "vvalues v ! i" x]
        cmp_swap [of "vvalues v ! k" x] cmp_less_trans [of x "vvalues v ! i" "vvalues v ! k"]
      by (simp add: values_num_def)
    ultimately show ?thesis using lt Suc.prems(3) by simp
  qed
qed

lemma vector_sort:
  "ascending (vvalues (zbx_vector_sort v cmp)) \<and> mset (vvalues (zbx_vector_sort v cmp)) = mset (vvalues v)"
proof (cases "2 \<le> values_num v")
  case False
  then show ?thesis
    by (cases "vvalues v"; cases "tl (vvalues v)") (auto simp: zbx_vector_sort_def values_num_def)
qed (simp add: zbx_vector_sort_def ascending_qsort mset_qsort)

lemma vector_uniq:
  assumes "ascending (vvalues v)"
  shows "strictly_ascending (vvalues (zbx_vector_uniq v cmp)) \<and>
    set (vvalues (zbx_vector_uniq v cmp)) \<subseteq> set (vvalues v) \<and>
    (\<forall>x \<in> set (vvalues v). \<exists>z \<in> set (vvalues (zbx_vector_uniq v cmp)). cmp z x = 0)"
proof (cases "vvalues v")
  case (Cons x xs)
  then have "ascending (x # xs)" using assms by simp
  from uniq_tail_strict [OF this] show ?thesis using Cons by (auto simp: vector_uniq_list)
qed (simp add: vector_uniq_list)

lemma strictly_ascending_unique:
  assumes "strictly_ascending xs" "y \<in> set xs" "z \<in> set xs" "cmp y x = 0" "cmp z x = 0"
  shows "y = z"
proof -
  have eq: "cmp y z = 0" "cmp z y = 0"
    using assms(4,5) cmp_eq_trans [of y x z] cmp_eq_trans [of z x y] cmp_sym_eq [of y x] cmp_sym_eq [of z x] by simp_all
  show ?thesis using assms(1-3) by (induction xs) (auto simp: eq)
qed

end

lemma search_loop_correct:
  "\<forall>k < i. cmp (xs ! k) x \<noteq> 0 \<Longrightarrow>
   (case search_loop cmp xs x i of r \<Rightarrow>
     r = FAIL_value \<and> (\<forall>k < length xs. cmp (xs ! k) x \<noteq> 0) \<or>
     (\<exists>j < length xs. r = int j \<and> cmp (xs ! j) x = 0 \<and> (\<forall>k < j. cmp (xs ! k) x \<noteq> 0)))"
proof (induction "length xs - i" arbitrary: i)
  case 0
  then have "search_loop cmp xs x i = FAIL_value" by (subst search_loop.simps) simp
  then show ?case using 0 by simp
next
  case (Suc n)
  then have lt: "i < length xs" by simp
  show ?case
  proof (cases "cmp (xs ! i) x = 0")
    case True
    then have "search_loop cmp xs x i = int i" using lt by (subst search_loop.simps) simp
    then show ?thesis using True lt Suc.prems by auto
  next
    case False
    then have "search_loop cmp xs x i = search_loop cmp xs x (Suc i)" using lt by (subst search_loop.simps) simp
    moreover have "\<forall>k < Suc i. cmp (xs ! k) x \<noteq> 0" using False Suc.prems less_Suc_eq by blast
    ultimately show ?thesis using Suc.hyps(1) [of "Suc i"] Suc.hyps(2) by simp
  qed
qed

subsection \<open>A session on a vector\<close>







subsection \<open>Properties\<close>


lemma vector_sort_uniq_parts:
  fixes v :: "'a vector"
  assumes "compare_func cmp"
  defines "w \<equiv> zbx_vector_uniq (zbx_vector_sort v cmp) cmp"
  shows "sorted_wrt (\<lambda>a b. cmp a b \<le> 0) (vvalues (zbx_vector_sort v cmp))"
    and "mset (vvalues (zbx_vector_sort v cmp)) = mset (vvalues v)"
    and "sorted_wrt (\<lambda>a b. cmp a b < 0) (vvalues w)"
    and "set (vvalues w) \<subseteq> set (vvalues v)"
    and "\<forall>x \<in> set (vvalues v). \<exists>!z. z \<in> set (vvalues w) \<and> cmp z x = 0"
proof -
  let ?s = "zbx_vector_sort v cmp"
  have sort: "sorted_wrt (\<lambda>a b. cmp a b \<le> 0) (vvalues ?s)" "mset (vvalues ?s) = mset (vvalues v)"
    using compare_func.vector_sort [OF assms(1), of v] by auto
  have "set (vvalues ?s) = set (vvalues v)" using sort(2) by (rule mset_eq_setD)
  then have uniq: "sorted_wrt (\<lambda>a b. cmp a b < 0) (vvalues w)" "set (vvalues w) \<subseteq> set (vvalues v)"
      "\<forall>x \<in> set (vvalues v). \<exists>z \<in> set (vvalues w). cmp z x = 0"
    using compare_func.vector_uniq [OF assms(1) sort(1)] by (simp_all add: w_def)
  show "sorted_wrt (\<lambda>a b. cmp a b \<le> 0) (vvalues (zbx_vector_sort v cmp))"
    and "mset (vvalues (zbx_vector_sort v cmp)) = mset (vvalues v)"
    and "sorted_wrt (\<lambda>a b. cmp a b < 0) (vvalues w)" and "set (vvalues w) \<subseteq> set (vvalues v)"
    using sort uniq by auto
  show "\<forall>x \<in> set (vvalues v). \<exists>!z. z \<in> set (vvalues w) \<and> cmp z x = 0"
    using uniq(3) compare_func.strictly_ascending_unique [OF assms(1) uniq(1)] by blast
qed

text \<open>C16: Sorting a vector and dropping adjacent duplicates leaves a strictly ascending vector that has,
  for every original element, exactly one that the comparison finds equal, and nothing new.\<close>

theorem vector_sort_uniq_correct:
  assumes "compare_func cmp"
  shows "let s = zbx_vector_sort v cmp; w = zbx_vector_uniq s cmp in
      sorted_wrt (\<lambda>a b. cmp a b \<le> 0) (vvalues s) \<and> mset (vvalues s) = mset (vvalues v) \<and>
      sorted_wrt (\<lambda>a b. cmp a b < 0) (vvalues w) \<and> set (vvalues w) \<subseteq> set (vvalues v) \<and>
      (\<forall>x \<in> set (vvalues v). \<exists>!z. z \<in> set (vvalues w) \<and> cmp z x = 0)"
  unfolding Let_def by (intro conjI vector_sort_uniq_parts [OF assms])

theorem vector_sort_uniq_correct_witness:
  "let v = \<lparr>vvalues = [3, 1, 3, 2, 1], values_alloc = 32\<rparr>; cmp = zbx_default_int_compare_func;
       w = zbx_vector_uniq (zbx_vector_sort v cmp) cmp
   in vvalues w = [1, 2, 3] \<and> sorted_wrt (\<lambda>a b. cmp a b < 0) (vvalues w)"
proof -
  have "vvalues (zbx_vector_uniq (zbx_vector_sort \<lparr>vvalues = [3, 1, 3, 2, 1], values_alloc = 32\<rparr>
      zbx_default_int_compare_func) zbx_default_int_compare_func) = [1, 2, 3]" by code_simp
  then show ?thesis
    using vector_sort_uniq_correct [OF int_cmp.compare_func_axioms, of "\<lparr>vvalues = [3, 1, 3, 2, 1], values_alloc = 32\<rparr>"]
    unfolding Let_def by simp
qed

lemma vector_search_parts:
  fixes v :: "'a vector" and x :: 'a
  assumes "compare_func cmp" "sorted_wrt (\<lambda>a b. cmp a b \<le> 0) (vvalues v)"
  defines "r \<equiv> zbx_vector_bsearch v x cmp" and "k \<equiv> zbx_vector_nearestindex v x cmp"
    and "j \<equiv> fst (zbx_vector_lsearch v x 0 cmp)"
  shows "if \<exists>y \<in> set (vvalues v). cmp y x = 0
         then 0 \<le> r \<and> nat r < values_num v \<and> cmp (vvalues v ! nat r) x = 0 \<and>
              k < values_num v \<and> cmp (vvalues v ! k) x = 0
         else r = FAIL_value \<and> k \<le> values_num v \<and> (\<forall>y \<in> set (take k (vvalues v)). cmp y x < 0) \<and>
              (\<forall>y \<in> set (drop k (vvalues v)). 0 < cmp y x)"
    and "(\<forall>y \<in> set (take j (vvalues v)). cmp y x < 0) \<and> (\<forall>y \<in> set (drop j (vvalues v)). 0 \<le> cmp y x) \<and>
         (snd (zbx_vector_lsearch v x 0 cmp) \<longleftrightarrow> (\<exists>y \<in> set (vvalues v). cmp y x = 0))"
proof -
  let ?xs = "vvalues v"
  have n: "values_num v = length ?xs" by (simp add: values_num_def)
  have b: "case bsearch_loop cmp ?xs x 0 (length ?xs) of
     Some i \<Rightarrow> i < length ?xs \<and> cmp (?xs ! i) x = 0 | None \<Rightarrow> \<forall>i < length ?xs. cmp (?xs ! i) x \<noteq> 0"
    using compare_func.bsearch_loop_correct [OF assms(1,2), of "length ?xs" 0 x] by simp
  have k: "k < length ?xs \<and> cmp (?xs ! k) x = 0 \<or>
     k \<le> length ?xs \<and> (\<forall>i < k. cmp (?xs ! i) x < 0) \<and> (\<forall>i. k \<le> i \<longrightarrow> i < length ?xs \<longrightarrow> 0 < cmp (?xs ! i) x)"
    using compare_func.nearestindex_loop_correct [OF assms(1,2), of 0 "length ?xs" x]
    by (simp add: k_def zbx_vector_nearestindex_def n Let_def)
  have kset: "(\<forall>i < k. cmp (?xs ! i) x < 0) \<Longrightarrow> k \<le> length ?xs \<Longrightarrow> \<forall>y \<in> set (take k ?xs). cmp y x < 0"
    "(\<forall>i. k \<le> i \<longrightarrow> i < length ?xs \<longrightarrow> 0 < cmp (?xs ! i) x) \<Longrightarrow> \<forall>y \<in> set (drop k ?xs). 0 < cmp y x"
    by (auto simp: in_set_conv_nth)
  show "if \<exists>y \<in> set ?xs. cmp y x = 0
         then 0 \<le> r \<and> nat r < values_num v \<and> cmp (?xs ! nat r) x = 0 \<and> k < values_num v \<and> cmp (?xs ! k) x = 0
         else r = FAIL_value \<and> k \<le> values_num v \<and> (\<forall>y \<in> set (take k ?xs). cmp y x < 0) \<and>
              (\<forall>y \<in> set (drop k ?xs). 0 < cmp y x)"
  proof (cases "\<exists>y \<in> set ?xs. cmp y x = 0")
    case True
    then obtain i where i: "i < length ?xs" "cmp (?xs ! i) x = 0" by (auto simp: in_set_conv_nth)
    then obtain m where "bsearch_loop cmp ?xs x 0 (length ?xs) = Some m" "m < length ?xs" "cmp (?xs ! m) x = 0"
      using b by (cases "bsearch_loop cmp ?xs x 0 (length ?xs)") auto
    then have "r = int m \<and> m < length ?xs \<and> cmp (?xs ! m) x = 0" using i by (auto simp: r_def zbx_vector_bsearch_def n)
    moreover have "k < length ?xs \<and> cmp (?xs ! k) x = 0"
    proof (rule ccontr)
      assume "\<not> ?thesis"
      then have "cmp (?xs ! i) x < 0 \<or> 0 < cmp (?xs ! i) x" using k i(1) by (meson linorder_not_less)
      then show False using i(2) by simp
    qed
    ultimately show ?thesis using True n by simp
  next
    case False
    then have no: "\<forall>i < length ?xs. cmp (?xs ! i) x \<noteq> 0" by (meson nth_mem)
    then have "r = FAIL_value" using b
      by (auto simp: r_def zbx_vector_bsearch_def n split: option.splits)
    moreover have "k \<le> length ?xs \<and> (\<forall>i < k. cmp (?xs ! i) x < 0) \<and>
        (\<forall>i. k \<le> i \<longrightarrow> i < length ?xs \<longrightarrow> 0 < cmp (?xs ! i) x)" using k no by blast
    ultimately show ?thesis using False n kset by simp
  qed
  obtain found where l: "zbx_vector_lsearch v x 0 cmp = (j, found)" by (metis j_def prod.collapse)
  have L: "j \<le> length ?xs" "\<forall>i < j. cmp (?xs ! i) x < 0"
      "if found then j < length ?xs \<and> cmp (?xs ! j) x = 0 else \<forall>i. j \<le> i \<longrightarrow> i < length ?xs \<longrightarrow> 0 < cmp (?xs ! i) x"
    using compare_func.lsearch_correct [OF assms(1,2) _ _ l] n by auto
  have up: "0 \<le> cmp (?xs ! i) x" if "j \<le> i" "i < length ?xs" for i
  proof (cases found)
    case True
    then have "cmp (?xs ! j) x = 0" using L(3) by simp
    then show ?thesis
      using compare_func.ascending_nth [OF assms(1,2) that] compare_func.cmp_le_less_trans [OF assms(1), of "?xs ! j" "?xs ! i" x]
      by linarith
  next
    case False
    then show ?thesis using L(3) that by fastforce
  qed
  have "found \<longleftrightarrow> (\<exists>y \<in> set ?xs. cmp y x = 0)"
  proof (cases found)
    case True
    then show ?thesis using L(3) nth_mem by auto
  next
    case False
    have "cmp (?xs ! i) x \<noteq> 0" if "i < length ?xs" for i
    proof (cases "i < j")
      case True
      then have "cmp (?xs ! i) x < 0" using L(2) by blast
      then show ?thesis by simp
    next
      case nl: False
      then have "0 < cmp (?xs ! i) x" using L(3) that False by simp
      then show ?thesis by simp
    qed
    then show ?thesis using False by (auto simp: in_set_conv_nth)
  qed
  moreover have "\<forall>y \<in> set (take j ?xs). cmp y x < 0" using L by (auto simp: in_set_conv_nth)
  moreover have "\<forall>y \<in> set (drop j ?xs). 0 \<le> cmp y x" using up by (auto simp: in_set_conv_nth)
  ultimately show "(\<forall>y \<in> set (take j ?xs). cmp y x < 0) \<and> (\<forall>y \<in> set (drop j ?xs). 0 \<le> cmp y x) \<and>
         (snd (zbx_vector_lsearch v x 0 cmp) \<longleftrightarrow> (\<exists>y \<in> set ?xs. cmp y x = 0))"
    by (simp add: l)
qed

text \<open>C17: On a sorted vector the binary search finds an equal element exactly when there is one, the
  nearest index is an equal element or the place where the value belongs, and the forward search stops
  at the first element that is not smaller, and says whether it is equal.\<close>

theorem vector_search_correct:
  assumes "compare_func cmp" "sorted_wrt (\<lambda>a b. cmp a b \<le> 0) (vvalues v)"
  shows "let r = zbx_vector_bsearch v x cmp; k = zbx_vector_nearestindex v x cmp;
             (j, found) = zbx_vector_lsearch v x 0 cmp
         in (if \<exists>y \<in> set (vvalues v). cmp y x = 0
             then found \<and> 0 \<le> r \<and> nat r < values_num v \<and> cmp (vvalues v ! nat r) x = 0 \<and>
                  k < values_num v \<and> cmp (vvalues v ! k) x = 0
             else \<not> found \<and> r = FAIL_value \<and> k \<le> values_num v \<and> (\<forall>y \<in> set (take k (vvalues v)). cmp y x < 0) \<and>
                  (\<forall>y \<in> set (drop k (vvalues v)). 0 < cmp y x)) \<and>
            (\<forall>y \<in> set (take j (vvalues v)). cmp y x < 0) \<and> (\<forall>y \<in> set (drop j (vvalues v)). 0 \<le> cmp y x)"
  using vector_search_parts [OF assms, of x] by (simp add: Let_def case_prod_beta split: if_splits)

theorem vector_search_correct_witness:
  "let v = \<lparr>vvalues = [1, 3, 5, 5, 9], values_alloc = 32\<rparr>; cmp = zbx_default_int_compare_func in
   0 \<le> zbx_vector_bsearch v 5 cmp \<and> vvalues v ! nat (zbx_vector_bsearch v 5 cmp) = 5 \<and>
   zbx_vector_bsearch v 4 cmp = FAIL_value \<and> zbx_vector_nearestindex v 4 cmp = 2 \<and>
   zbx_vector_lsearch v 5 0 cmp = (2, SUCCEED)"
proof -
  let ?v = "\<lparr>vvalues = [1, 3, 5, 5, 9 :: int], values_alloc = 32\<rparr>"
  have s: "sorted_wrt (\<lambda>a b. zbx_default_int_compare_func a b \<le> 0) (vvalues ?v)" by code_simp
  have e: "zbx_vector_nearestindex ?v 4 zbx_default_int_compare_func = 2"
    "zbx_vector_lsearch ?v 5 0 zbx_default_int_compare_func = (2, SUCCEED)"
    "zbx_vector_bsearch ?v 5 zbx_default_int_compare_func = 2" by code_simp+
  have ne: "\<not> (\<exists>y \<in> set (vvalues ?v). zbx_default_int_compare_func y 4 = 0)" by code_simp
  have "zbx_vector_bsearch ?v 4 zbx_default_int_compare_func = FAIL_value"
    using vector_search_correct [OF int_cmp.compare_func_axioms s, of 4]
    unfolding Let_def if_not_P [OF ne] case_prod_beta by blast
  then show ?thesis using e by simp
qed

text \<open>The set difference of two strictly ascending vectors, computed in place by block moves, keeps
  exactly the elements of the left one that the comparison finds equal to none of the right, in order.\<close>

theorem vector_setdiff_correct:
  assumes "compare_func cmp" "sorted_wrt (\<lambda>a b. cmp a b < 0) (vvalues left)"
    "sorted_wrt (\<lambda>a b. cmp a b < 0) (vvalues right)"
  shows "vvalues (zbx_vector_setdiff left right cmp) =
      filter (\<lambda>x. \<forall>y \<in> set (vvalues right). cmp x y \<noteq> 0) (vvalues left)"
  using compare_func.merge_diff_filter [OF assms] by (simp add: vector_setdiff_merge)

theorem vector_setdiff_correct_witness:
  "vvalues (zbx_vector_setdiff \<lparr>vvalues = [1, 2, 3, 4, 5, 6], values_alloc = 32\<rparr>
     \<lparr>vvalues = [0, 2, 3, 6, 7], values_alloc = 32\<rparr> zbx_default_int_compare_func) = [1, 4, 5]"
proof -
  have "sorted_wrt (\<lambda>a b. zbx_default_int_compare_func a b < 0) [1, 2, 3, 4, 5, 6]"
    "sorted_wrt (\<lambda>a b. zbx_default_int_compare_func a b < 0) [0, 2, 3, 6, 7]" by code_simp+
  then show ?thesis
    using vector_setdiff_correct [OF int_cmp.compare_func_axioms,
      of "\<lparr>vvalues = [1, 2, 3, 4, 5, 6], values_alloc = 32\<rparr>" "\<lparr>vvalues = [0, 2, 3, 6, 7], values_alloc = 32\<rparr>"]
    by (simp add: zbx_default_int_compare_func_def return_if_not_equal_def)
qed

end
