(* ===== verification/Base64.thy ===== *)
theory Base64
  imports C_String
begin

text \<open>
  The Base64 codec of \<open>src/src/libs/zbxcrypto/base64.c\<close>: the validator, the encoder with its limited
  output buffer, the encoder that splits its input into blocks for that buffer, and the decoder. Data
  are bytes, encoded text is a C string; sizes are unbounded.
\<close>

subsection \<open>Characters\<close>

definition is_valid_base64_char :: "char \<Rightarrow> bool" where
  "is_valid_base64_char c \<longleftrightarrow>
     (65 \<le> code c \<and> code c \<le> 90) \<or> (97 \<le> code c \<and> code c \<le> 122) \<or> (47 \<le> code c \<and> code c \<le> 57) \<or> c = CHR ''+''"

definition is_base64 :: "char \<Rightarrow> bool" where
  "is_base64 c \<longleftrightarrow>
     (65 \<le> code c \<and> code c \<le> 90) \<or> (97 \<le> code c \<and> code c \<le> 122) \<or> (48 \<le> code c \<and> code c \<le> 57) \<or>
     c = CHR ''+'' \<or> c = CHR ''/'' \<or> c = CHR ''=''"

definition char_base64_encode :: "u8 \<Rightarrow> char" where
  "char_base64_encode uc = ''ABCDEFGHIJKLMNOPQRSTUVWXYZabcdefghijklmnopqrstuvwxyz0123456789+/'' ! unat uc"

definition char_base64_decode :: "char \<Rightarrow> u8" where
  "char_base64_decode c =
     (if 65 \<le> code c \<and> code c \<le> 90 then of_nat (code c - 65)
      else if 97 \<le> code c \<and> code c \<le> 122 then of_nat (code c - 97 + 26)
      else if 48 \<le> code c \<and> code c \<le> 57 then of_nat (code c - 48 + 52)
      else if c = CHR ''+'' then 62
      else 63)"

subsection \<open>Validation\<close>

text \<open>The checks at an \<open>i\<close> divisible by 4: \<open>None\<close> is the \<open>continue\<close>.\<close>

definition validate_block :: "string \<Rightarrow> nat \<Rightarrow> bool option" where
  "validate_block p_str i =
     (let v = (\<lambda>k. is_valid_base64_char (cat p_str (i - k))) in
      if v 4 \<and> v 3 \<and> v 2 \<and> v 1 then (if cat p_str i = NUL then Some SUCCEED else None)
      else if cat p_str i = NUL then
        (if v 4 \<and> v 3 \<and> cat p_str (i - 2) = CHR ''='' \<and> cat p_str (i - 1) = CHR ''='' then Some SUCCEED
         else if v 4 \<and> v 3 \<and> v 2 \<and> cat p_str (i - 1) = CHR ''='' then Some SUCCEED
         else if v 4 \<and> v 3 \<and> v 2 \<and> v 1 then Some SUCCEED
         else Some FAIL)
      else Some FAIL)"

lemma validate_block_None: "validate_block p_str i = None \<Longrightarrow> cat p_str i \<noteq> NUL"
  unfolding validate_block_def Let_def by (simp only: option.distinct if_True simp_thms split: if_split_asm)

text \<open>The loop ends at the terminator: past it the index is a multiple of 4 only with a block checked
  there, which returns.\<close>

function base64_validate_loop :: "string \<Rightarrow> nat \<Rightarrow> bool" where
  "base64_validate_loop p_str i =
     (if cat p_str i \<noteq> NUL \<or> i mod 4 = 0 then
        if i mod 4 \<noteq> 0 then base64_validate_loop p_str (i + 1)
        else (case validate_block p_str i of Some r \<Rightarrow> r | None \<Rightarrow> base64_validate_loop p_str (i + 1))
      else FAIL)"
  by pat_completeness auto
termination
  by (relation "measure (\<lambda>(s, i). length s - i)")
    (auto simp: cat_def dest: validate_block_None split: if_splits)

declare base64_validate_loop.simps [simp del]

definition zbx_base64_validate :: "string \<Rightarrow> bool" where
  "zbx_base64_validate p_str = (if cur p_str = NUL then SUCCEED else base64_validate_loop p_str 1)"

subsection \<open>Encoding\<close>

definition ZBX_MAX_B64_LEN :: nat where
  "ZBX_MAX_B64_LEN = 16 * 1024"

text \<open>The four characters of one step; \<open>n\<close> is how many of the three bytes there are.\<close>

definition encode_group :: "u8 \<Rightarrow> u8 \<Rightarrow> u8 \<Rightarrow> nat \<Rightarrow> string" where
  "encode_group from1 from2 from3 n =
     (let to1 = drop_bit 2 from1 AND 0x3f;
          to2 = push_bit 4 (from1 AND 0x3) OR drop_bit 4 from2;
          to3 = push_bit 2 (from2 AND 0xf) OR drop_bit 6 from3;
          to4 = from3 AND 0x3f
      in [char_base64_encode to1, char_base64_encode to2,
          if 1 < n then char_base64_encode to3 else CHR ''='',
          if 2 < n then char_base64_encode to4 else CHR ''=''])"

text \<open>The characters from offset \<open>p\<close> of the output on.\<close>

function base64_encode_loop :: "u8 list \<Rightarrow> nat \<Rightarrow> nat \<Rightarrow> nat \<Rightarrow> string" where
  "base64_encode_loop p_str in_size i p =
     (if i < in_size then
        if p > ZBX_MAX_B64_LEN - 5 then []
        else
          let from1 = p_str ! i;
              from2 = (if i + 1 < in_size then p_str ! (i + 1) else 0);
              from3 = (if i + 2 < in_size then p_str ! (i + 2) else 0)
          in encode_group from1 from2 from3 (in_size - i) @ base64_encode_loop p_str in_size (i + 3) (p + 4)
      else [])"
  by pat_completeness auto
termination
  by (relation "measure (\<lambda>(s, n, i, p). n - i)") auto

declare base64_encode_loop.simps [simp del]

text \<open>The text written before the terminator; on an empty input nothing is written, not even it.\<close>

definition zbx_base64_encode :: "u8 list \<Rightarrow> nat \<Rightarrow> string" where
  "zbx_base64_encode p_str in_size = (if in_size = 0 then [] else base64_encode_loop p_str in_size 0 0)"

text \<open>The block loop: a call at offset \<open>pc_r\<close> of the output keeps what is before it.\<close>

fun encode_blocks :: "u8 list \<Rightarrow> nat \<Rightarrow> nat \<Rightarrow> nat \<Rightarrow> nat \<Rightarrow> nat \<Rightarrow> string \<Rightarrow> string \<times> nat \<times> nat" where
  "encode_blocks p_str c_per_block b_per_block 0 pc pc_r buf = (buf, pc, pc_r)"
| "encode_blocks p_str c_per_block b_per_block (Suc full_block_num) pc pc_r buf =
     encode_blocks p_str c_per_block b_per_block full_block_num (pc + c_per_block) (pc_r + b_per_block)
       (take pc_r buf @ zbx_base64_encode (drop pc p_str) c_per_block)"

text \<open>The result is the size of the buffer allocated and the text in it.\<close>

definition zbx_base64_encode_dyn :: "u8 list \<Rightarrow> nat \<Rightarrow> nat \<times> string" where
  "zbx_base64_encode_dyn p_str in_size =
     (let c_per_block = (ZBX_MAX_B64_LEN - 1) div 4 * 3;
          b_per_block = c_per_block div 3 * 4;
          full_block_num = in_size div c_per_block;
          bytes_left = in_size mod c_per_block;
          bytes_for_left = (bytes_left + 2) div 3 * 4;
          (buf, pc, pc_r) = encode_blocks p_str c_per_block b_per_block full_block_num 0 0 [];
          (buf, pc_r) = (if bytes_left \<noteq> 0
                         then (take pc_r buf @ zbx_base64_encode (drop pc p_str) bytes_left, pc_r + bytes_for_left)
                         else (buf, pc_r))
      in ((in_size + 2) div 3 * 4 + 1, take pc_r buf))"

subsection \<open>Decoding\<close>

definition emit :: "nat \<Rightarrow> u8 list \<Rightarrow> u8 \<Rightarrow> u8 list \<times> bool" where
  "emit maxsize out b = (out @ [b], length out + 1 = maxsize)"

text \<open>One block of four characters, of which \<open>from\<close> up to index \<open>lasti\<close> were read; the flag is the
  \<open>break\<close> at a full output.\<close>

definition decode_block :: "string \<Rightarrow> int \<Rightarrow> u8 list \<Rightarrow> nat \<Rightarrow> u8 list \<times> bool" where
  "decode_block from lasti out maxsize =
     (let to = map char_base64_decode from;
          (out, stop) = (if 1 \<le> lasti
                         then emit maxsize out (push_bit 2 (to ! 0) OR drop_bit 4 (to ! 1)) else (out, False))
      in if stop then (out, True) else
      let (out, stop) = (if 2 \<le> lasti \<and> CHR ''='' \<noteq> from ! 2
                         then emit maxsize out (push_bit 4 (to ! 1 AND 0xf) OR drop_bit 2 (to ! 2)) else (out, False))
      in if stop then (out, True) else
        if lasti = 3 \<and> CHR ''='' \<noteq> from ! 3
        then emit maxsize out (push_bit 6 (to ! 2 AND 0x3) OR to ! 3) else (out, False))"

fun base64_decode_loop :: "string \<Rightarrow> string \<Rightarrow> nat \<Rightarrow> int \<Rightarrow> u8 list \<Rightarrow> nat \<Rightarrow> u8 list" where
  "base64_decode_loop [] from i lasti out maxsize =
     (let from = take (nat (lasti + 1)) from @ replicate (4 - nat (lasti + 1)) (CHR ''A'')
      in if lasti \<noteq> -1 then fst (decode_block from lasti out maxsize) else out)"
| "base64_decode_loop (c # p) from i lasti out maxsize =
     (if \<not> is_base64 c then base64_decode_loop p from i lasti out maxsize
      else
        let from = from[i := c]; lasti = int i in
        if i < 3 then base64_decode_loop p from (i + 1) lasti out maxsize
        else
          let (out, stop) = decode_block from lasti out maxsize
          in if stop then out else base64_decode_loop p from 0 (-1) out maxsize)"

definition zbx_base64_decode :: "string \<Rightarrow> nat \<Rightarrow> u8 list" where
  "zbx_base64_decode p_b64str maxsize = base64_decode_loop p_b64str (replicate 4 NUL) 0 (-1) [] maxsize"

subsection \<open>Sextets\<close>

lemma sextet_chars:
  "list_all (\<lambda>k. let c = ''ABCDEFGHIJKLMNOPQRSTUVWXYZabcdefghijklmnopqrstuvwxyz0123456789+/'' ! k in
     char_base64_decode c = of_nat k \<and> is_base64 c \<and> is_valid_base64_char c \<and> c \<noteq> CHR ''='')
     (0 # 1 # [2..<64])"
  by (simp add: char_base64_decode_def is_base64_def is_valid_base64_char_def code_def Let_def)

lemma base64_char:
  assumes "uc < 64"
  shows "char_base64_decode (char_base64_encode uc) = uc \<and> is_base64 (char_base64_encode uc) \<and>
    is_valid_base64_char (char_base64_encode uc) \<and> char_base64_encode uc \<noteq> CHR ''=''"
proof -
  have "unat uc < 64" using assms by (simp add: word_less_nat_alt)
  then have "unat uc \<in> set (0 # 1 # [2..<64])"
    by (simp only: set_simps set_upt insert_iff atLeastLessThan_iff) arith
  then show ?thesis using sextet_chars unfolding list_all_iff Let_def char_base64_encode_def
    by (metis of_nat_unat ucast_id)
qed

lemma mask_numerals:
  "(0x3f :: u8) = mask 6" "(0x3 :: u8) = mask 2" "(0xf :: u8) = mask 4"
  by (simp_all add: mask_eq_exp_minus_1)

lemma LENGTH_u8: "LENGTH(8) = 8"
  by simp

lemma u8_eqI:
  fixes a b :: u8
  assumes "\<And>n. n \<in> {0, 1, 2, 3, 4, 5, 6, 7} \<Longrightarrow> bit a n \<longleftrightarrow> bit b n"
  shows "a = b"
proof (rule bit_word_eqI)
  fix n :: nat assume "n < LENGTH(8)"
  then have "n \<in> {0, 1, 2, 3, 4, 5, 6, 7}" by auto
  then show "bit a n \<longleftrightarrow> bit b n" by (rule assms)
qed

lemmas u8_bits = bit_and_iff bit_or_iff bit_push_bit_iff bit_drop_bit_eq bit_mask_iff o_apply

lemma sextet_bounds:
  fixes a b c :: u8
  shows "drop_bit 2 a AND 0x3f < 64" "push_bit 4 (a AND 0x3) OR drop_bit 4 b < 64"
    "push_bit 2 (b AND 0xf) OR drop_bit 6 c < 64" "c AND 0x3f < 64"
proof -
  have *: "w < 64" if "\<And>n. 6 \<le> n \<Longrightarrow> n < 8 \<Longrightarrow> \<not> bit w n" for w :: u8
  proof -
    have "take_bit 6 w = w" by (rule bit_word_eqI) (metis bit_take_bit_iff not_less that LENGTH_u8)
    then have "unat w < 2 ^ 6" by (metis unsigned_take_bit_eq take_bit_nat_less_exp)
    then show ?thesis by (simp add: word_less_nat_alt)
  qed
  show "drop_bit 2 a AND 0x3f < 64" "push_bit 4 (a AND 0x3) OR drop_bit 4 b < 64"
    "push_bit 2 (b AND 0xf) OR drop_bit 6 c < 64" "c AND 0x3f < 64"
    unfolding mask_numerals
    by (rule *, auto simp: bit_and_iff bit_or_iff bit_push_bit_iff bit_drop_bit_eq bit_mask_iff dest: bit_imp_le_length)+
qed

lemma sextets_join:
  fixes a b c :: u8
  shows "push_bit 2 (drop_bit 2 a AND 0x3f) OR drop_bit 4 (push_bit 4 (a AND 0x3) OR drop_bit 4 b) = a"
    "push_bit 4 ((push_bit 4 (a AND 0x3) OR drop_bit 4 b) AND 0xf) OR drop_bit 2 (push_bit 2 (b AND 0xf) OR drop_bit 6 c) = b"
    "push_bit 6 ((push_bit 2 (b AND 0xf) OR drop_bit 6 c) AND 0x3) OR (c AND 0x3f) = c"
  unfolding mask_numerals
  by (rule u8_eqI, simp only: u8_bits, auto simp del: add_2_eq_Suc add_2_eq_Suc' dest: bit_imp_le_length)+

subsection \<open>The encoding as a function on lists\<close>

fun b64 :: "u8 list \<Rightarrow> string" where
  "b64 [] = []"
| "b64 [a] = encode_group a 0 0 1"
| "b64 [a, b] = encode_group a b 0 2"
| "b64 (a # b # c # r) = encode_group a b c 3 @ b64 r"

lemma length_encode_group [simp]: "length (encode_group a b c n) = 4"
  by (simp add: encode_group_def)

lemma encode_group_3: "3 \<le> n \<Longrightarrow> encode_group a b c n = encode_group a b c 3"
  by (simp add: encode_group_def)

lemma length_b64: "length (b64 xs) = (length xs + 2) div 3 * 4"
  by (induction xs rule: b64.induct) (simp_all, presburger)

lemma b64_append: "length xs mod 3 = 0 \<Longrightarrow> b64 (xs @ ys) = b64 xs @ b64 ys"
  by (induction xs rule: b64.induct) simp_all

lemma b64_step:
  assumes "xs \<noteq> []"
  shows "b64 xs = encode_group (xs ! 0) (if 1 < length xs then xs ! 1 else 0) (if 2 < length xs then xs ! 2 else 0) (length xs)
    @ b64 (drop 3 xs)"
  using assms encode_group_3 [of "length xs"] by (cases xs rule: b64.cases) (auto simp: numeral_2_eq_2)

text \<open>The buffer limit cuts the input after a whole number of groups.\<close>

definition max_groups :: nat where
  "max_groups = (ZBX_MAX_B64_LEN - 1) div 4"

lemma max_groups_eq: "max_groups = 4095"
  by (simp add: max_groups_def ZBX_MAX_B64_LEN_def)

lemma base64_encode_loop_eq:
  "in_size = length xs \<Longrightarrow>
   base64_encode_loop xs in_size i (4 * g) = b64 (take (3 * (max_groups - g)) (drop i xs))"
proof (induction "in_size - i" arbitrary: i g rule: less_induct)
  case less
  show ?case
  proof (cases "i < in_size")
    case False
    then show ?thesis using less.prems by (subst base64_encode_loop.simps) simp
  next
    case True
    show ?thesis
    proof (cases "max_groups \<le> g")
      case full: True
      then have "4 * g > ZBX_MAX_B64_LEN - 5" by (simp add: max_groups_eq ZBX_MAX_B64_LEN_def)
      then show ?thesis using full True by (subst base64_encode_loop.simps) simp
    next
      case room: False
      then have ng: "\<not> 4 * g > ZBX_MAX_B64_LEN - 5" by (simp add: max_groups_eq ZBX_MAX_B64_LEN_def)
      define ys where "ys = drop i xs"
      define t where "t = take (3 * (max_groups - g)) ys"
      have m: "3 * (max_groups - g) = 3 + 3 * (max_groups - (g + 1))" using room by simp
      have len: "length ys = in_size - i" "ys \<noteq> []" using True less.prems by (simp_all add: ys_def)
      have t: "t \<noteq> []" "t ! 0 = xs ! i" "1 < length t \<longleftrightarrow> i + 1 < in_size" "2 < length t \<longleftrightarrow> i + 2 < in_size"
        using len True less.prems room by (auto simp: t_def m ys_def)
      have n: "i + 1 < in_size \<Longrightarrow> t ! 1 = xs ! (i + 1)" "i + 2 < in_size \<Longrightarrow> t ! 2 = xs ! (i + 2)"
        using less.prems by (simp_all add: t_def m ys_def)
      have e: "encode_group x y z (length t) = encode_group x y z (in_size - i)" for x y z
        using t(3,4) by (simp add: encode_group_def less_diff_conv add.commute)
      have "base64_encode_loop xs in_size i (4 * g) =
          encode_group (xs ! i) (if i + 1 < in_size then xs ! (i + 1) else 0)
            (if i + 2 < in_size then xs ! (i + 2) else 0) (in_size - i) @ base64_encode_loop xs in_size (i + 3) (4 * (g + 1))"
        using True ng by (subst base64_encode_loop.simps) (simp add: Let_def add.commute)
      also have "base64_encode_loop xs in_size (i + 3) (4 * (g + 1)) = b64 (take (3 * (max_groups - (g + 1))) (drop (i + 3) xs))"
        using less.hyps [of "i + 3" "g + 1"] True less.prems by simp
      also have "take (3 * (max_groups - (g + 1))) (drop (i + 3) xs) = drop 3 t"
        by (simp add: t_def m ys_def drop_take add.commute)
      finally show ?thesis using b64_step [OF t(1)] t n by (simp add: e t_def [symmetric] ys_def [symmetric])
    qed
  qed
qed

lemma base64_encode_eq: "zbx_base64_encode xs (length xs) = b64 (take (3 * max_groups) xs)"
  using base64_encode_loop_eq [of "length xs" xs 0 0] by (simp add: zbx_base64_encode_def)

lemma base64_encode_loop_prefix:
  "in_size \<le> length xs \<Longrightarrow> base64_encode_loop xs in_size i p = base64_encode_loop (take in_size xs) in_size i p"
proof (induction "in_size - i" arbitrary: i p rule: less_induct)
  case less
  show ?case
    using less.hyps [of "i + 3" "p + 4"] less.prems
    by (subst (1 2) base64_encode_loop.simps) (simp add: Let_def)
qed

lemma base64_encode_prefix:
  assumes "n \<le> length xs" "n \<le> 3 * max_groups"
  shows "zbx_base64_encode xs n = b64 (take n xs)"
proof -
  have "zbx_base64_encode xs n = zbx_base64_encode (take n xs) (length (take n xs))"
    using assms base64_encode_loop_prefix [of n xs] by (simp add: zbx_base64_encode_def min_absorb2)
  then show ?thesis using assms base64_encode_eq [of "take n xs"] by simp
qed

lemma whole_groups:
  assumes "n mod 3 = 0"
  shows "(n + 2) div 3 * 4 = n div 3 * (4 :: nat)"
proof -
  obtain m where "n = m * 3" using assms by (metis mod_0_imp_dvd dvdE mult.commute)
  then show ?thesis by simp
qed

lemma encode_blocks_eq:
  "\<lbrakk>pc + k * (3 * max_groups) \<le> length xs; buf = b64 (take pc xs); pc mod 3 = 0; pc_r = pc div 3 * 4\<rbrakk> \<Longrightarrow>
   encode_blocks xs (3 * max_groups) (max_groups * 4) k pc pc_r buf =
     (b64 (take (pc + k * (3 * max_groups)) xs), pc + k * (3 * max_groups), (pc + k * (3 * max_groups)) div 3 * 4)"
proof (induction k arbitrary: pc pc_r buf)
  case (Suc k)
  have len: "length buf = pc_r"
    using Suc.prems whole_groups [of pc] by (simp add: length_b64)
  have "zbx_base64_encode (drop pc xs) (3 * max_groups) = b64 (take (3 * max_groups) (drop pc xs))"
    using Suc.prems by (intro base64_encode_prefix) simp_all
  then have b: "take pc_r buf @ zbx_base64_encode (drop pc xs) (3 * max_groups) = b64 (take (pc + 3 * max_groups) xs)"
    using Suc.prems len b64_append [of "take pc xs" "take (3 * max_groups) (drop pc xs)"]
    by (simp add: take_add)
  have "(pc + 3 * max_groups) mod 3 = 0" "pc_r + max_groups * 4 = (pc + 3 * max_groups) div 3 * 4"
    using Suc.prems by simp_all
  then show ?case
    using Suc.IH [of "pc + 3 * max_groups"] Suc.prems(1) b by (simp add: algebra_simps)
qed simp

lemma encode_dyn_eq: "zbx_base64_encode_dyn xs (length xs) = ((length xs + 2) div 3 * 4 + 1, b64 xs)"
proof -
  let ?c = "3 * max_groups"
  let ?q = "length xs div ?c" and ?r = "length xs mod ?c"
  have c: "(ZBX_MAX_B64_LEN - 1) div 4 * 3 = ?c" by (simp add: max_groups_def)
  have b: "?c div 3 * 4 = max_groups * 4" by simp
  have pos: "0 < ?c" by (simp add: max_groups_eq)
  have qr: "?q * ?c + ?r = length xs" by (rule div_mult_mod_eq)
  have q: "?q * ?c \<le> length xs" by (metis div_times_less_eq_dividend)
  have pc: "?q * ?c mod 3 = 0" by simp
  have blocks: "encode_blocks xs ?c (max_groups * 4) ?q 0 0 [] = (b64 (take (?q * ?c) xs), ?q * ?c, ?q * ?c div 3 * 4)"
    using encode_blocks_eq [of 0 ?q xs "[]" 0] q by simp
  have len: "length (b64 (take (?q * ?c) xs)) = ?q * ?c div 3 * 4"
    using whole_groups [OF pc] q by (simp add: length_b64)
  show ?thesis
  proof (cases "?r = 0")
    case True
    then have "take (?q * ?c) xs = xs" using qr by simp
    then show ?thesis using True len unfolding zbx_base64_encode_dyn_def Let_def c b blocks by simp
  next
    case False
    have r: "?r \<le> ?c" using pos by (simp add: less_imp_le)
    have d: "length (drop (?q * ?c) xs) = ?r" using qr by simp
    have enc: "zbx_base64_encode (drop (?q * ?c) xs) ?r = b64 (drop (?q * ?c) xs)"
      using base64_encode_prefix [of ?r "drop (?q * ?c) xs"] d r by simp
    have app: "b64 (take (?q * ?c) xs) @ b64 (drop (?q * ?c) xs) = b64 xs"
      using b64_append [of "take (?q * ?c) xs" "drop (?q * ?c) xs"] q pc by simp
    have "length (b64 (drop (?q * ?c) xs)) = (?r + 2) div 3 * 4" using d by (simp add: length_b64)
    then have "length (b64 xs) = ?q * ?c div 3 * 4 + (?r + 2) div 3 * 4"
      using arg_cong [OF app, of length] len by (simp only: length_append)
    then show ?thesis
      using False len app unfolding zbx_base64_encode_dyn_def Let_def c b blocks prod.case enc by simp
  qed
qed

subsection \<open>Decoding what was encoded\<close>

lemma decode_group:
  assumes "length out < m" "n \<in> {1, 2, 3}" "n = 1 \<Longrightarrow> b = 0" "n \<noteq> 3 \<Longrightarrow> c = 0"
  shows "decode_block (encode_group a b c n) 3 out m = (out @ take (m - length out) (take n [a, b, c]), m - length out \<le> n)"
proof -
  define t1 where "t1 = drop_bit 2 a AND 0x3f"
  define t2 where "t2 = push_bit 4 (a AND 0x3) OR drop_bit 4 b"
  define t3 where "t3 = push_bit 2 (b AND 0xf) OR drop_bit 6 c"
  define t4 where "t4 = c AND 0x3f"
  have g: "encode_group a b c n = [char_base64_encode t1, char_base64_encode t2,
      if 1 < n then char_base64_encode t3 else CHR ''='', if 2 < n then char_base64_encode t4 else CHR ''='']"
    by (simp add: encode_group_def t1_def t2_def t3_def t4_def)
  have lt: "t1 < 64" "t2 < 64" "t3 < 64" "t4 < 64" unfolding t1_def t2_def t3_def t4_def by (rule sextet_bounds)+
  note ch = base64_char [OF lt(1)] base64_char [OF lt(2)] base64_char [OF lt(3)] base64_char [OF lt(4)]
  have j: "push_bit 2 t1 OR drop_bit 4 t2 = a" "push_bit 4 (t2 AND 0xf) OR drop_bit 2 t3 = b"
      "push_bit 6 (t3 AND 0x3) OR t4 = c"
    unfolding t1_def t2_def t3_def t4_def by (rule sextets_join)+
  have ne: "CHR ''='' \<noteq> char_base64_encode t3" "CHR ''='' \<noteq> char_base64_encode t4" using ch by metis+
  note j' = j [simplified]
  consider "m - length out = 1" | "m - length out = 2" | "3 \<le> m - length out" using assms(1) by linarith
  then show ?thesis using assms(2) unfolding g
    by cases (auto simp: decode_block_def emit_def Let_def ch ne j' take_Cons')
qed

lemma decode_skip:
  "filter is_base64 s = c # r \<Longrightarrow>
   \<exists>s'. filter is_base64 s' = r \<and> is_base64 c \<and>
     base64_decode_loop s from i l out m = base64_decode_loop (c # s') from i l out m"
proof (induction s)
  case (Cons a s)
  show ?case
  proof (cases "is_base64 a")
    case True
    then show ?thesis using Cons.prems by auto
  next
    case False
    then have "filter is_base64 s = c # r" using Cons.prems by simp
    then show ?thesis using Cons.IH False by simp
  qed
qed simp

lemma decode_end: "filter is_base64 s = [] \<Longrightarrow> base64_decode_loop s from i (-1) out m = out"
  by (induction s) (auto split: if_splits)

lemma decode_four:
  assumes "filter is_base64 s = c1 # c2 # c3 # c4 # r" "length from = 4"
  shows "\<exists>s'. filter is_base64 s' = r \<and>
    base64_decode_loop s from 0 (-1) out m =
      (let (out, stop) = decode_block [c1, c2, c3, c4] 3 out m in
       if stop then out else base64_decode_loop s' [c1, c2, c3, c4] 0 (-1) out m)"
proof -
  obtain w x y z where f: "from = [w, x, y, z]"
    using assms(2) by (auto simp: eval_nat_numeral length_Suc_conv)
  obtain s1 where 1: "filter is_base64 s1 = c2 # c3 # c4 # r" "is_base64 c1"
      "base64_decode_loop s from 0 (-1) out m = base64_decode_loop (c1 # s1) from 0 (-1) out m"
    using decode_skip [OF assms(1)] by blast
  obtain s2 where 2: "filter is_base64 s2 = c3 # c4 # r" "is_base64 c2"
      "base64_decode_loop s1 [c1, x, y, z] 1 0 out m = base64_decode_loop (c2 # s2) [c1, x, y, z] 1 0 out m"
    using decode_skip [OF 1(1)] by blast
  obtain s3 where 3: "filter is_base64 s3 = c4 # r" "is_base64 c3"
      "base64_decode_loop s2 [c1, c2, y, z] 2 1 out m = base64_decode_loop (c3 # s3) [c1, c2, y, z] 2 1 out m"
    using decode_skip [OF 2(1)] by blast
  obtain s4 where 4: "filter is_base64 s4 = r" "is_base64 c4"
      "base64_decode_loop s3 [c1, c2, c3, z] 3 2 out m = base64_decode_loop (c4 # s4) [c1, c2, c3, z] 3 2 out m"
    using decode_skip [OF 3(1)] by blast
  have A: "base64_decode_loop (c1 # s1) from 0 (-1) out m = base64_decode_loop s1 [c1, x, y, z] 1 0 out m"
    using 1(2) f by (simp add: Let_def)
  have B: "base64_decode_loop (c2 # s2) [c1, x, y, z] 1 0 out m = base64_decode_loop s2 [c1, c2, y, z] 2 1 out m"
    using 2(2) by (simp add: Let_def numeral_2_eq_2)
  have C: "base64_decode_loop (c3 # s3) [c1, c2, y, z] 2 1 out m = base64_decode_loop s3 [c1, c2, c3, z] 3 2 out m"
    using 3(2) by (simp add: Let_def numeral_2_eq_2 numeral_3_eq_3)
  have D: "base64_decode_loop (c4 # s4) [c1, c2, c3, z] 3 2 out m =
      (let (out, stop) = decode_block [c1, c2, c3, c4] 3 out m in
       if stop then out else base64_decode_loop s4 [c1, c2, c3, c4] 0 (-1) out m)"
    using 4(2) by (simp add: Let_def numeral_3_eq_3)
  have "base64_decode_loop s from 0 (-1) out m =
      (let (out, stop) = decode_block [c1, c2, c3, c4] 3 out m in
       if stop then out else base64_decode_loop s4 [c1, c2, c3, c4] 0 (-1) out m)"
    by (simp only: 1(3) A 2(3) B 3(3) C 4(3) D)
  then show ?thesis using 4(1) by blast
qed

lemma decode_b64:
  "\<lbrakk>filter is_base64 s = b64 xs; length fr = 4; length out < m\<rbrakk> \<Longrightarrow>
   base64_decode_loop s fr 0 (-1) out m = out @ take (m - length out) xs"
proof (induction xs arbitrary: s fr out rule: b64.induct)
  case 1
  then show ?case by (simp add: decode_end)
next
  case (2 a)
  obtain c1 c2 c3 c4 where g: "encode_group a 0 0 1 = [c1, c2, c3, c4]" by (simp add: encode_group_def)
  then obtain s' where "filter is_base64 s' = []" "base64_decode_loop s fr 0 (-1) out m =
      (let (out, stop) = decode_block [c1, c2, c3, c4] 3 out m in
       if stop then out else base64_decode_loop s' [c1, c2, c3, c4] 0 (-1) out m)"
    using decode_four [of s c1 c2 c3 c4 "[]" fr] "2.prems" by auto
  then show ?case using decode_group [of out m 1 0 0 a] "2.prems"(3) g by (simp add: decode_end)
next
  case (3 a b)
  obtain c1 c2 c3 c4 where g: "encode_group a b 0 2 = [c1, c2, c3, c4]" by (simp add: encode_group_def)
  then obtain s' where "filter is_base64 s' = []" "base64_decode_loop s fr 0 (-1) out m =
      (let (out, stop) = decode_block [c1, c2, c3, c4] 3 out m in
       if stop then out else base64_decode_loop s' [c1, c2, c3, c4] 0 (-1) out m)"
    using decode_four [of s c1 c2 c3 c4 "[]" fr] "3.prems" by auto
  then show ?case using decode_group [of out m 2 b 0 a] "3.prems"(3) g by (simp add: decode_end)
next
  case (4 a b c r)
  obtain c1 c2 c3 c4 where g: "encode_group a b c 3 = [c1, c2, c3, c4]" by (simp add: encode_group_def)
  then obtain s' where s': "filter is_base64 s' = b64 r" "base64_decode_loop s fr 0 (-1) out m =
      (let (out, stop) = decode_block [c1, c2, c3, c4] 3 out m in
       if stop then out else base64_decode_loop s' [c1, c2, c3, c4] 0 (-1) out m)"
    using decode_four [of s c1 c2 c3 c4 "b64 r" fr] "4.prems" by auto
  have d: "decode_block [c1, c2, c3, c4] 3 out m = (out @ take (m - length out) [a, b, c], m - length out \<le> 3)"
    using decode_group [of out m 3 b c a] "4.prems"(3) g by simp
  show ?case
  proof (cases "m - length out \<le> 3")
    case True
    then have "take (m - length out) (a # b # c # r) = take (m - length out) [a, b, c]" 
      using take_append [of "m - length out" "[a, b, c]" r] by simp
    then show ?thesis using s'(2) d True by simp
  next
    case False
    then have "base64_decode_loop s fr 0 (-1) out m = base64_decode_loop s' [c1, c2, c3, c4] 0 (-1) (out @ [a, b, c]) m"
      using s'(2) d take_all [of "[a, b, c]" "m - length out"] by simp
    also have "\<dots> = (out @ [a, b, c]) @ take (m - length (out @ [a, b, c])) r"
      using "4.IH" [OF s'(1)] False by simp
    finally show ?thesis using False take_append [of "m - length out" "[a, b, c]" r] by simp
  qed
qed

subsection \<open>The grammar of RFC 4648\<close>

inductive base64_text :: "string \<Rightarrow> bool" where
  empty: "base64_text []"
| pad2: "\<lbrakk>is_valid_base64_char a; is_valid_base64_char b\<rbrakk> \<Longrightarrow> base64_text [a, b, CHR ''='', CHR ''='']"
| pad1: "\<lbrakk>is_valid_base64_char a; is_valid_base64_char b; is_valid_base64_char c\<rbrakk> \<Longrightarrow>
    base64_text [a, b, c, CHR ''='']"
| group: "\<lbrakk>list_all is_valid_base64_char [a, b, c, d]; base64_text s\<rbrakk> \<Longrightarrow> base64_text (a # b # c # d # s)"

inductive_cases base64_text_short: "base64_text [a]" "base64_text [a, b]" "base64_text [a, b, c]"

inductive_simps base64_text_group: "base64_text (a # b # c # d # s)"

inductive_simps base64_text_Nil [simp]: "base64_text []"

lemma valid_not_pad [simp]: "\<not> is_valid_base64_char (CHR ''='')"
  by (simp add: is_valid_base64_char_def code_def)

lemma validate_next:
  "i mod 4 \<noteq> 0 \<Longrightarrow> base64_validate_loop s i = (if cat s i = NUL then FAIL else base64_validate_loop s (i + 1))"
  by (subst base64_validate_loop.simps) simp

lemma validate_at:
  "i mod 4 = 0 \<Longrightarrow> base64_validate_loop s i =
     (case validate_block s i of Some r \<Rightarrow> r | None \<Rightarrow> base64_validate_loop s (i + 1))"
  by (subst base64_validate_loop.simps) simp

lemma validate_loop_correct:
  assumes "NUL \<notin> set s"
  shows "4 * k < length s \<Longrightarrow> base64_validate_loop s (4 * k + 1) \<longleftrightarrow> base64_text (drop (4 * k) s)"
proof (induction "length s - 4 * k" arbitrary: k rule: less_induct)
  case less
  define t where "t = drop (4 * k) s"
  have cat: "cat s (4 * k + j) = cat t j" for j using less.prems by (auto simp: cat_def t_def)
  have nul: "cat t j = NUL \<longleftrightarrow> length t \<le> j" for j
  proof (cases "j < length t")
    case True
    have "set t \<subseteq> set s" by (simp add: t_def set_drop_subset)
    then have "t ! j \<noteq> NUL" using assms True nth_mem by (metis subsetD)
    then show ?thesis using True by (simp add: cat_def)
  qed (simp add: cat_def)
  have m: "(4 * k + j) mod 4 = j mod 4" for j by simp
  have step: "base64_validate_loop s (4 * k + j) = (if length t \<le> j then FAIL else base64_validate_loop s (4 * k + (j + 1)))"
    if "j \<in> {1, 2, 3}" for j
    using validate_next [of "4 * k + j" s] that unfolding cat nul m by (auto simp: add.assoc)
  have loop: "base64_validate_loop s (4 * k + 1) = (if length t < 4 then FAIL else base64_validate_loop s (4 * k + 4))"
    using step [of 1] step [of 2] step [of 3] by auto
  show ?case
  proof (cases "length t < 4")
    case True
    moreover have "t \<noteq> []" using less.prems by (simp add: t_def)
    ultimately consider a where "t = [a]" | a b where "t = [a, b]" | a b c where "t = [a, b, c]"
      by (cases t; cases "tl t"; cases "tl (tl t)"; cases "tl (tl (tl t))") auto
    then have "\<not> base64_text t" by cases (auto elim: base64_text_short)
    then show ?thesis using loop True by (simp add: t_def)
  next
    case False
    then obtain a b c d u where t: "t = a # b # c # d # u"
      by (cases t; cases "tl t"; cases "tl (tl t)"; cases "tl (tl (tl t))") auto
    have at: "base64_validate_loop s (4 * k + 4) =
        (case validate_block s (4 * k + 4) of Some r \<Rightarrow> r | None \<Rightarrow> base64_validate_loop s (4 * (k + 1) + 1))"
    proof -
      have e: "4 * (k + 1) + 1 = 4 * k + 4 + 1" and m4: "(4 * k + 4) mod 4 = 0" by simp_all
      show ?thesis unfolding e by (rule validate_at [OF m4])
    qed
    have cats: "cat s (4 * k + 4 - 4) = a" "cat s (4 * k + 4 - 3) = b" "cat s (4 * k + 4 - 2) = c" "cat s (4 * k + 4 - 1) = d"
  proof -
      have "4 * k + 4 - 4 = 4 * k + 0" "4 * k + 4 - 3 = 4 * k + 1" "4 * k + 4 - 2 = 4 * k + 2" "4 * k + 4 - 1 = 4 * k + 3"
        by simp_all
      then show "cat s (4 * k + 4 - 4) = a" "cat s (4 * k + 4 - 3) = b" "cat s (4 * k + 4 - 2) = c" "cat s (4 * k + 4 - 1) = d"
        unfolding cat by (simp_all only: cat) (simp_all add: t cat_def)
    qed
    have end4: "cat s (4 * k + 4) = NUL \<longleftrightarrow> u = []" unfolding cat nul by (simp add: t)
    have u: "u = drop (4 * (k + 1)) s" using t by (simp add: t_def drop_drop [symmetric] add.commute)
    show ?thesis
    proof (cases "u = []")
      case True
      then have "validate_block s (4 * k + 4) \<noteq> None" using end4 validate_block_None by blast
      then show ?thesis using loop False True unfolding at validate_block_def Let_def cats end4 t_def [symmetric] t base64_text_group
        by (auto split: if_splits)
    next
      case nonempty: False
      then have "4 * (k + 1) < length s" using u by (metis drop_eq_Nil not_le)
      then have ih: "base64_validate_loop s (4 * (k + 1) + 1) \<longleftrightarrow> base64_text u" using less.hyps [of "k + 1"] u by simp
      show ?thesis using loop False nonempty ih unfolding at validate_block_def Let_def cats end4 t_def [symmetric] t base64_text_group
        by auto
    qed
  qed
qed

lemma base64_validate_eq:
  assumes "NUL \<notin> set s"
  shows "zbx_base64_validate s \<longleftrightarrow> base64_text s"
proof (cases s)
  case (Cons c t)
  then show ?thesis using validate_loop_correct [OF assms, of 0] assms by (auto simp: zbx_base64_validate_def)
qed (simp add: zbx_base64_validate_def)

lemma base64_text_b64: "base64_text (b64 xs)"
proof (induction xs rule: b64.induct)
  case (2 a)
  show ?case using base64_char [OF sextet_bounds(1) [of a]] base64_char [OF sextet_bounds(2) [of a 0]]
    by (auto simp: encode_group_def Let_def intro: pad2)
next
  case (3 a b)
  show ?case using base64_char [OF sextet_bounds(1) [of a]] base64_char [OF sextet_bounds(2) [of a b]]
      base64_char [OF sextet_bounds(3) [of b 0]]
    by (auto simp: encode_group_def Let_def intro: pad1)
next
  case (4 a b c r)
  then show ?case using base64_char [OF sextet_bounds(1) [of a]] base64_char [OF sextet_bounds(2) [of a b]]
      base64_char [OF sextet_bounds(3) [of b c]] base64_char [OF sextet_bounds(4) [of c]]
    by (auto simp: encode_group_def Let_def intro: group)
qed simp

subsection \<open>Properties\<close>

text \<open>C22: Decoding gives back what the block encoder encoded, cut to the size of the output, also from a
  text with characters outside the alphabet in between, such as line breaks.\<close>

theorem base64_roundtrip:
  assumes "0 < maxsize" "filter is_base64 s = snd (zbx_base64_encode_dyn xs (length xs))"
  shows "zbx_base64_decode s maxsize = take maxsize xs"
proof -
  have "filter is_base64 s = b64 xs" using assms(2) by (simp add: encode_dyn_eq)
  from decode_b64 [OF this, of "replicate 4 NUL" "[]" maxsize] show ?thesis
    using assms(1) by (simp add: zbx_base64_decode_def)
qed

theorem base64_roundtrip_witness:
  "zbx_base64_decode (''TWE'' @ [CHR 0x0A] @ ''='') 9 = [77, 97]"
proof -
  have "snd (zbx_base64_encode_dyn [77, 97] (length [77, 97 :: u8])) = ''TWE=''"
    unfolding encode_dyn_eq by (simp add: encode_group_def char_base64_encode_def push_bit_eq_mult drop_bit_eq_div)
  moreover have "filter is_base64 (''TWE'' @ [CHR 0x0A] @ ''='') = ''TWE=''"
    by (simp add: is_base64_def code_def)
  ultimately show ?thesis
    using base64_roundtrip [of 9 "''TWE'' @ [CHR 0x0A] @ ''=''" "[77, 97]"] by simp
qed

text \<open>The block encoder is the plain encoding for inputs of every length: no block is cut by the
  output limit, the text fills the allocated buffer up to the terminator, and it is valid Base64. The
  single call cuts its input silently after 12285 bytes.\<close>

theorem base64_encode_exact:
  "(let (size', text) = zbx_base64_encode_dyn xs (length xs) in
      text = b64 xs \<and> length text + 1 = size' \<and> base64_text text) \<and>
   zbx_base64_encode xs (length xs) = b64 (take 12285 xs)"
  using base64_encode_eq [of xs] by (simp add: encode_dyn_eq length_b64 base64_text_b64 max_groups_eq)

text \<open>C23: The validator accepts exactly the texts of the grammar of RFC 4648.\<close>

theorem base64_validate_correct:
  assumes "NUL \<notin> set s"
  shows "zbx_base64_validate s \<longleftrightarrow> base64_text s"
  using assms by (rule base64_validate_eq)

theorem base64_validate_correct_witness:
  "base64_text ''TWFuTQ=='' \<and> \<not> base64_text ''TQ=TQ==='' \<and> \<not> base64_text ''TWE''"
  using base64_validate_correct [of "''TWFuTQ==''"] base64_validate_correct [of "''TQ=TQ===''"]
    base64_validate_correct [of "''TWE''"]
  by (simp add: zbx_base64_validate_def validate_next validate_at validate_block_def cat_def
      is_valid_base64_char_def code_def Let_def)

end
