(* ===== verification/Serialize.thy ===== *)
theory Serialize
  imports Prelude
begin

text \<open>
  The compact integers of \<open>src/src/libs/zbxserialize/serialize.c\<close>, a UTF-8 like encoding of 31-bit
  values. The writer works in a buffer of six bytes from the back; a value of 32 bits would run off its
  front, and a reader may run off the end of its input: both are faults.
\<close>

subsection \<open>Writing\<close>

text \<open>The loop with the bytes of \<open>buf\<close> behind \<open>pos\<close>; stepping below the first byte wraps \<open>pos\<close> and
  the next shift and store are out of range.\<close>

fun serialize_loop :: "nat \<Rightarrow> u32 \<Rightarrow> u8 list \<Rightarrow> (nat \<times> u32 \<times> u8 list) res" where
  "serialize_loop pos v buf =
     (if v > drop_bit (6 - pos) 0x7f then
        (case pos of
           0 \<Rightarrow> Inl Out_Of_Bounds
         | Suc pos' \<Rightarrow> serialize_loop pos' (drop_bit 6 v) (ucast (0x80 OR (v AND 0x3f)) # buf))
      else Inr (pos, v, buf))"

declare serialize_loop.simps [simp del]

definition zbx_serialize_uint31_compact :: "u32 \<Rightarrow> u8 list res" where
  "zbx_serialize_uint31_compact v =
     (if v \<le> 0x7f then Inr [ucast v]
      else rbind (serialize_loop 5 v []) (\<lambda>(pos, v, buf).
        Inr (ucast (v OR push_bit (pos + 1) 0xfe) # buf)))"

subsection \<open>Reading\<close>

text \<open>The number of leading ones of the first byte; the mask is empty from \<open>pos = 8\<close> on.\<close>

function header_len :: "u8 \<Rightarrow> nat \<Rightarrow> nat" where
  "header_len b pos = (if drop_bit pos 0x80 AND b \<noteq> 0 then header_len b (pos + 1) else pos)"
  by pat_completeness auto
termination
proof (relation "measure (\<lambda>(b, pos). 8 - pos)")
  fix b :: u8 and pos :: nat
  assume *: "drop_bit pos 0x80 AND b \<noteq> 0"
  have "pos < 8"
  proof (rule ccontr)
    assume "\<not> pos < 8"
    then have "(2 :: nat) ^ 8 \<le> 2 ^ pos" by (intro power_increasing) simp_all
    then have "unat (drop_bit pos (0x80 :: u8)) = 0" by (simp only: unat_drop_bit) simp
    then have "drop_bit pos (0x80 :: u8) = 0" by (simp only: unat_eq_zero)
    then show False using * by simp
  qed
  then show "((b, pos + 1), b, pos) \<in> measure (\<lambda>(b, pos). 8 - pos)" by simp
qed simp

declare header_len.simps [simp del]

fun deserialize_loop :: "u8 list \<Rightarrow> nat \<Rightarrow> u32 \<Rightarrow> u32 res" where
  "deserialize_loop ptr 0 v = Inr v"
| "deserialize_loop [] (Suc n) v = Inl Out_Of_Bounds"
| "deserialize_loop (b # ptr) (Suc n) v = deserialize_loop ptr n (push_bit 6 v OR (ucast b AND 0x3f))"

definition zbx_deserialize_uint31_compact :: "u8 list \<Rightarrow> (u32 \<times> nat) res" where
  "zbx_deserialize_uint31_compact ptr =
     (case ptr of
        [] \<Rightarrow> Inl Out_Of_Bounds
      | b # ptr \<Rightarrow>
          if b AND 0x80 = 0 then Inr (ucast b, 1)
          else
            let pos = header_len b 2
            in rbind (deserialize_loop ptr (pos - 1) (ucast b AND drop_bit (pos + 1) 0xff)) (\<lambda>v. Inr (v, pos)))"

subsection \<open>Continuation bytes\<close>

fun continuation :: "nat \<Rightarrow> u32 \<Rightarrow> u8 list" where
  "continuation 0 v = []"
| "continuation (Suc k) v = continuation k (drop_bit 6 v) @ [ucast (0x80 OR (v AND 0x3f))]"

lemma length_continuation [simp]: "length (continuation k v) = k"
  by (induction k arbitrary: v) simp_all

lemma numerals_mask: "(0x3f :: u32) = mask 6" "(0x7f :: u32) = mask 7" "(0xff :: u32) = mask 8"
  by (simp_all add: mask_eq_exp_minus_1)

lemma bit_80: "bit (0x80 :: u32) n \<longleftrightarrow> n = 7"
proof -
  have "(0x80 :: u32) = 2 ^ 7" by simp
  then show ?thesis by (simp only: bit_exp_iff) auto
qed

lemma continuation_join: "push_bit 6 (drop_bit 6 v) OR (ucast (ucast (0x80 OR (v AND 0x3f)) :: u8) AND 0x3f) = v"
  for v :: u32
proof (rule bit_word_eqI)
  fix n :: nat assume "n < LENGTH(32)"
  then show "bit (push_bit 6 (drop_bit 6 v) OR (ucast (ucast (0x80 OR (v AND 0x3f)) :: u8) AND 0x3f)) n = bit v n"
    unfolding numerals_mask
    by (cases "n < 6") (simp_all only: bit_or_iff bit_and_iff bit_push_bit_iff bit_drop_bit_eq bit_mask_iff bit_ucast_iff
      bit_80 o_apply, auto)
qed

lemma deserialize_continuation:
  "deserialize_loop (continuation k v @ bs) (k + m) (drop_bit (6 * k) v) = deserialize_loop bs m v"
proof (induction k arbitrary: v bs m)
  case (Suc k)
  have "drop_bit (6 * Suc k) v = drop_bit (6 * k) (drop_bit 6 v)" by (simp add: add.commute)
  then show ?case
    using Suc.IH [of "drop_bit 6 v" "ucast (0x80 OR (v AND 0x3f)) # bs" "Suc m"] continuation_join [of v] by simp
qed simp

lemma limit_eq: "p < 6 \<Longrightarrow> unat (drop_bit (6 - p) (0x7f :: u32)) = 2 ^ (p + 1) - 1"
proof -
  assume "p < 6"
  then have "p = 0 \<or> p = 1 \<or> p = 2 \<or> p = 3 \<or> p = 4 \<or> p = 5" by arith
  then show ?thesis by (elim disjE) (simp_all add: unat_drop_bit)
qed

lemma serialize_loop_correct:
  assumes "p < 6"
  shows "if unat v < 2 ^ (6 * p + 1)
    then \<exists>k p'. p = p' + k \<and> unat (drop_bit (6 * k) v) < 2 ^ (p' + 1) \<and>
      serialize_loop p v buf = Inr (p', drop_bit (6 * k) v, continuation k v @ buf)
    else serialize_loop p v buf = Inl Out_Of_Bounds"
  using assms
proof (induction p arbitrary: v buf)
  case 0
  have "v > drop_bit 6 0x7f \<longleftrightarrow> \<not> unat v < 2" 
    using limit_eq [of 0] unfolding word_less_nat_alt by simp linarith
  then show ?case by (subst (1 2) serialize_loop.simps) auto
next
  case (Suc p)
  have lim: "v > drop_bit (6 - Suc p) 0x7f \<longleftrightarrow> \<not> unat v < 2 ^ (Suc p + 1)"
  proof -
    have "0 < (2 :: nat) ^ (Suc p + 1)" by simp
    then show ?thesis unfolding word_less_nat_alt limit_eq [OF Suc.prems] by linarith
  qed
  show ?case
  proof (cases "unat v < 2 ^ (Suc p + 1)")
    case True
    have "(2 :: nat) ^ (Suc p + 1) \<le> 2 ^ (6 * Suc p + 1)" by (intro power_increasing) simp_all
    then have "unat v < 2 ^ (6 * Suc p + 1)" using True by linarith
    moreover have "serialize_loop (Suc p) v buf = Inr (Suc p, drop_bit (6 * 0) v, continuation 0 v @ buf)"
      using True lim by (subst serialize_loop.simps) simp
    ultimately show ?thesis using True by (simp only: if_True) (intro exI [of _ 0] exI [of _ "Suc p"], simp)
  next
    case False
    let ?b = "ucast (0x80 OR (v AND 0x3f)) :: u8"
    have step: "serialize_loop (Suc p) v buf = serialize_loop p (drop_bit 6 v) (?b # buf)"
      using False lim by (subst serialize_loop.simps) simp
    have lt: "unat (drop_bit 6 v) < 2 ^ (6 * p + 1) \<longleftrightarrow> unat v < 2 ^ (6 * Suc p + 1)"
      by (simp only: unat_drop_bit div_less_iff_less_mult power_add [symmetric] zero_less_power) (simp add: power_add)
    show ?thesis
    proof (cases "unat v < 2 ^ (6 * Suc p + 1)")
      case True
      then obtain k p' where "p = p' + k" "unat (drop_bit (6 * k) (drop_bit 6 v)) < 2 ^ (p' + 1)"
          "serialize_loop p (drop_bit 6 v) (?b # buf) = Inr (p', drop_bit (6 * k) (drop_bit 6 v), continuation k (drop_bit 6 v) @ ?b # buf)"
        using Suc.IH [of "drop_bit 6 v" "?b # buf"] Suc.prems lt by auto
      then show ?thesis using True step
        by (simp only: if_True) (intro exI [of _ "Suc k"] exI [of _ p'], simp add: add.commute)
    next
      case big: False
      then show ?thesis using Suc.IH [of "drop_bit 6 v" "?b # buf"] Suc.prems lt step by simp
    qed
  qed
qed

subsection \<open>The first byte\<close>

lemma header_test:
  fixes b :: u8
  assumes "pos < 8"
  shows "drop_bit pos 0x80 AND b \<noteq> 0 \<longleftrightarrow> bit b (7 - pos)"
proof -
  have "unat (drop_bit pos (0x80 :: u8)) = unat (2 ^ (7 - pos) :: u8)"
  proof -
    have "pos \<in> {0, 1, 2, 3, 4, 5, 6, 7}" using assms by auto
    then show ?thesis by (auto simp: unat_drop_bit)
  qed
  then have "drop_bit pos (0x80 :: u8) = 2 ^ (7 - pos)" by (simp only: word_unat_eq_iff)
  then show ?thesis by (simp only: and.commute [of _ b] and_exp_eq_0_iff_not_bit) simp
qed

lemma header_len_eq:
  "\<lbrakk>pos \<le> r; r < 8; \<forall>j. pos \<le> j \<longrightarrow> j < r \<longrightarrow> bit b (7 - j); \<not> bit b (7 - r)\<rbrakk> \<Longrightarrow> header_len b pos = r"
proof (induction "r - pos" arbitrary: pos)
  case 0
  then show ?case by (subst header_len.simps) (simp add: header_test)
next
  case (Suc n)
  then have "drop_bit pos 0x80 AND b \<noteq> 0" by (simp add: header_test)
  then have "header_len b pos = header_len b (pos + 1)" by (subst header_len.simps) (simp only: if_True simp_thms)
  then show ?case using Suc.hyps(1) [of "pos + 1"] Suc.hyps(2) Suc.prems by simp
qed

lemma bit_fe: "bit (0xfe :: u32) n \<longleftrightarrow> 1 \<le> n \<and> n < 8"
proof -
  have "(0xfe :: u32) = push_bit 1 (mask 7)" by (simp add: push_bit_eq_mult mask_eq_exp_minus_1)
  then show ?thesis by (simp only: bit_push_bit_iff bit_mask_iff) auto
qed

lemma bit_small:
  fixes v :: u32
  assumes "unat v < 2 ^ (p + 1)" "bit v n"
  shows "n \<le> p"
proof -
  have "take_bit (p + 1) v = v"
    using assms(1) by (simp only: word_unat_eq_iff unsigned_take_bit_eq take_bit_nat_eq_self)
  then have "bit (take_bit (p + 1) v) n" using assms(2) by simp
  then show ?thesis by (simp only: bit_take_bit_iff) simp
qed

lemma bit_header:
  fixes v :: u32
  assumes "unat v < 2 ^ (p + 1)" "n < 8"
  shows "bit (ucast (v OR push_bit (p + 1) 0xfe) :: u8) n \<longleftrightarrow> bit v n \<or> p + 2 \<le> n"
  using assms(2) by (simp only: bit_ucast_iff bit_or_iff bit_push_bit_iff bit_fe) auto

lemma header_value:
  fixes v :: u32
  assumes "unat v < 2 ^ (p + 1)" "p < 5"
  shows "ucast (ucast (v OR push_bit (p + 1) 0xfe) :: u8) AND drop_bit (7 - p) 0xff = v"
proof -
  define h where "h = (ucast (v OR push_bit (p + 1) 0xfe) :: u8)"
  have h: "bit h m \<longleftrightarrow> bit v m \<or> p + 2 \<le> m" if "m < 8" for m
    unfolding h_def using assms(1) that by (rule bit_header)
  have "(ucast h :: u32) AND drop_bit (7 - p) 0xff = v"
  proof (rule bit_word_eqI)
    fix n :: nat assume n: "n < LENGTH(32)"
    have d: "bit (drop_bit (7 - p) (0xff :: u32)) n \<longleftrightarrow> n \<le> p"
      unfolding numerals_mask using assms(2) n by (simp only: bit_drop_bit_eq bit_mask_iff o_apply) auto
    show "bit ((ucast h :: u32) AND drop_bit (7 - p) 0xff) n = bit v n"
      unfolding bit_and_iff d bit_ucast_iff using h [of n] bit_small [OF assms(1), of n] n assms(2) by auto
  qed
  then show ?thesis unfolding h_def .
qed

lemma header_80:
  fixes v :: u32
  assumes "unat v < 2 ^ (p + 1)" "p < 5"
  shows "ucast (v OR push_bit (p + 1) 0xfe) AND 0x80 \<noteq> (0 :: u8)"
proof -
  have "bit (ucast (v OR push_bit (p + 1) 0xfe) :: u8) 7" using bit_header [OF assms(1), of 7] assms(2) by simp
  then have "drop_bit 0 0x80 AND ucast (v OR push_bit (p + 1) 0xfe) \<noteq> (0 :: u8)" by (subst header_test) simp_all
  then show ?thesis by (simp only: drop_bit_0 id_apply and.commute simp_thms)
qed

lemma header_len_header:
  fixes v :: u32
  assumes "unat v < 2 ^ (p + 1)" "p < 5"
  shows "header_len (ucast (v OR push_bit (p + 1) 0xfe)) 2 = 6 - p"
proof (rule header_len_eq)
  show "\<forall>j. 2 \<le> j \<longrightarrow> j < 6 - p \<longrightarrow> bit (ucast (v OR push_bit (p + 1) 0xfe) :: u8) (7 - j)"
    using bit_header [OF assms(1)] by auto
  show "\<not> bit (ucast (v OR push_bit (p + 1) 0xfe) :: u8) (7 - (6 - p))"
    using bit_header [OF assms(1), of "7 - (6 - p)"] bit_small [OF assms(1), of "7 - (6 - p)"] assms(2) by auto
qed (use assms(2) in auto)

lemma small_byte:
  fixes v :: u32
  assumes "v \<le> 0x7f"
  shows "ucast v AND 0x80 = (0 :: u8) \<and> ucast (ucast v :: u8) = v"
proof
  have lt: "unat v < 2 ^ (6 + 1)" using assms by (simp add: word_le_nat_alt)
  have "\<not> bit (ucast v :: u8) 7" using bit_small [OF lt, of 7] by (auto simp: bit_ucast_iff)
  then have "\<not> drop_bit 0 0x80 AND ucast v \<noteq> (0 :: u8)" by (subst header_test) simp_all
  then show "ucast v AND 0x80 = (0 :: u8)" by (simp only: drop_bit_0 id_apply and.commute simp_thms)
  show "ucast (ucast v :: u8) = v"
    by (rule bit_word_eqI) (use bit_small [OF lt] in \<open>fastforce simp: bit_ucast_iff\<close>)
qed

subsection \<open>Properties\<close>

text \<open>C24: Every value below \<open>2 ^ 31\<close> is written in one to six bytes, in one exactly below 128, and read
  back from them, whatever follows, with the number of bytes taken; a larger value makes the writer run
  off the front of its buffer.\<close>

theorem uint31_roundtrip:
  "if unat v < 2 ^ 31
   then \<exists>bs. zbx_serialize_uint31_compact v = Inr bs \<and> 1 \<le> length bs \<and> length bs \<le> 6 \<and> (length bs = 1 \<longleftrightarrow> unat v < 128) \<and>
     (\<forall>rest. zbx_deserialize_uint31_compact (bs @ rest) = Inr (v, length bs))
   else zbx_serialize_uint31_compact v = Inl Out_Of_Bounds"
proof (cases "v \<le> 0x7f")
  case True
  then have lt: "unat v < 128" by (simp add: word_le_nat_alt)
  have "\<exists>bs. zbx_serialize_uint31_compact v = Inr bs \<and> 1 \<le> length bs \<and> length bs \<le> 6 \<and> (length bs = 1 \<longleftrightarrow> unat v < 128) \<and>
     (\<forall>rest. zbx_deserialize_uint31_compact (bs @ rest) = Inr (v, length bs))"
    using True lt small_byte [OF True]
    by (intro exI [of _ "[ucast v]"]) (simp add: zbx_serialize_uint31_compact_def zbx_deserialize_uint31_compact_def)
  then show ?thesis using lt by simp
next
  case big: False
  then have ge: "128 \<le> unat v" by (simp add: word_le_nat_alt)
  note loop = serialize_loop_correct [of 5 v "[]"]
  show ?thesis
  proof (cases "unat v < 2 ^ 31")
    case False
    then show ?thesis using loop big by (simp add: zbx_serialize_uint31_compact_def)
  next
    case True
    then obtain k p where kp: "5 = p + k" "unat (drop_bit (6 * k) v) < 2 ^ (p + 1)"
        "serialize_loop 5 v [] = Inr (p, drop_bit (6 * k) v, continuation k v)"
      using loop by auto
    have "k \<noteq> 0" 
    proof
      assume "k = 0"
      then have "unat v < 2 ^ 6" using kp(1,2) by simp
      then show False using ge by simp
    qed
    then have p: "p < 5" and pos: "6 - p = Suc k" using kp(1) by auto
    define w where "w = drop_bit (6 * k) v"
    define h where "h = (ucast (w OR push_bit (p + 1) 0xfe) :: u8)"
    note H = header_80 [OF kp(2) p] header_len_header [OF kp(2) p] header_value [OF kp(2) p]
    have ser: "zbx_serialize_uint31_compact v = Inr (h # continuation k v)"
      using big kp(3) by (simp add: zbx_serialize_uint31_compact_def h_def w_def)
    have "zbx_deserialize_uint31_compact ((h # continuation k v) @ rest) = Inr (v, Suc k)" for rest
    proof -
      have "Suc k + 1 = 7 - p" using pos p by simp
      then have val: "ucast h AND drop_bit (Suc k + 1) 0xff = w"
        using H(3) unfolding h_def w_def by (simp only:)
      have "deserialize_loop (continuation k v @ rest) k w = Inr v"
        using deserialize_continuation [of k v rest 0] by (simp add: w_def)
      then show ?thesis
        using H(1,2) val unfolding zbx_deserialize_uint31_compact_def h_def [symmetric] w_def [symmetric] Let_def pos
        by simp
    qed
    then show ?thesis using True ser ge \<open>k \<noteq> 0\<close> kp(1) by simp
  qed
qed

theorem uint31_roundtrip_witness:
  "\<exists>bs. zbx_serialize_uint31_compact 0x12345678 = Inr bs \<and>
     zbx_deserialize_uint31_compact (bs @ [1, 2]) = Inr (0x12345678, length bs)"
proof -
  have "unat (0x12345678 :: u32) < 2 ^ 31" by simp
  then show ?thesis using uint31_roundtrip [of "0x12345678"] by auto
qed

end
