(* ===== verification/Portrange.thy ===== *)
theory Portrange
  imports Iprange
begin

text \<open>
  The walk over a list of port ranges of \<open>src/src/libs/zbxip/iprange.c\<close>: every port of the union is
  visited once, in the order of the ranges.
\<close>

definition in_earlier :: "zbx_range list \<Rightarrow> nat \<Rightarrow> int \<Rightarrow> bool" where
  "in_earlier ranges idx p \<longleftrightarrow> list_ex (\<lambda>i. p \<ge> rfrom (ranges ! i) \<and> p \<le> rto (ranges ! i)) [0..<idx]"

text \<open>The new ports of the ranges from \<open>idx\<close> on, and those that are left behind a port of range \<open>idx\<close>.\<close>

definition new_ports :: "zbx_range list \<Rightarrow> nat \<Rightarrow> int list" where
  "new_ports ranges idx =
     concat (map (\<lambda>i. filter (\<lambda>p. \<not> in_earlier ranges i p) [rfrom (ranges ! i)..rto (ranges ! i)]) [idx..<length ranges])"

definition ports_left :: "zbx_range list \<Rightarrow> nat \<Rightarrow> int \<Rightarrow> int list" where
  "ports_left ranges idx port =
     filter (\<lambda>p. \<not> in_earlier ranges idx p) [port + 1..rto (ranges ! idx)] @ new_ports ranges (idx + 1)"

lemma new_ports_step:
  "idx < length ranges \<Longrightarrow> rfrom (ranges ! idx) \<le> rto (ranges ! idx) \<Longrightarrow>
     new_ports ranges idx =
       (if in_earlier ranges idx (rfrom (ranges ! idx)) then [] else [rfrom (ranges ! idx)]) @
       ports_left ranges idx (rfrom (ranges ! idx))"
  by (simp add: new_ports_def ports_left_def upt_conv_Cons upto_rec1 [of "rfrom (ranges ! idx)"])

lemma ports_left_step:
  "port < rto (ranges ! idx) \<Longrightarrow> ports_left ranges idx port =
     (if in_earlier ranges idx (port + 1) then [] else [port + 1]) @ ports_left ranges idx (port + 1)"
  by (simp add: ports_left_def upto_rec1 [of "port + 1"])

lemma ports_left_end: "rto (ranges ! idx) \<le> port \<Longrightarrow> ports_left ranges idx port = new_ports ranges (idx + 1)"
  by (simp add: ports_left_def)

lemma new_ports_end: "length ranges \<le> idx \<Longrightarrow> new_ports ranges idx = []"
  by (simp add: new_ports_def)

text \<open>The largest int cannot be a port: the step behind it would overflow. The documented values are 1 to 65534.\<close>

definition wf_ports :: "zbx_range list \<Rightarrow> bool" where
  "wf_ports ranges \<longleftrightarrow> list_all (\<lambda>r. 0 \<le> rfrom r \<and> rfrom r \<le> rto r \<and> rto r < INT_MAX) ranges"

definition port_position :: "zbx_range list \<Rightarrow> nat \<Rightarrow> int \<Rightarrow> bool" where
  "port_position ranges idx port \<longleftrightarrow> idx < length ranges \<and> 0 \<le> port \<and> port \<le> rto (ranges ! idx)"

lemma portrange_uniq_loop_correct:
  assumes wf: "wf_ports ranges"
  shows "port_position ranges idx port \<Longrightarrow>
    (case portrange_uniq_loop ranges idx port of
       Inr (idx', port', ret) \<Rightarrow>
         if ret then port_position ranges idx' port' \<and> ports_left ranges idx port = port' # ports_left ranges idx' port'
         else idx' = length ranges \<and> ports_left ranges idx port = []
     | Inl f \<Rightarrow> False)"
  using wf
proof (induction ranges idx port rule: portrange_uniq_loop.induct)
  case (1 ranges idx port)
  define more where "more \<longleftrightarrow> port < rto (ranges ! idx)"
  define i p where "i = (if more then idx else idx + 1)" and "p = (if more then port + 1 else rfrom (ranges ! i))"
  have idx: "idx < length ranges" "0 \<le> port" "port \<le> rto (ranges ! idx)" using "1.prems" by (simp_all add: port_position_def)
  have "rto (ranges ! idx) < INT_MAX" using "1.prems"(2) idx(1) by (simp add: wf_ports_def list_all_length)
  then have max: "port \<noteq> INT_MAX" using idx(3) by simp
  show ?case
  proof (cases "i = length ranges")
    case True
    then have "\<not> more" using idx by (auto simp: i_def)
    then show ?thesis using True idx max
      by (subst portrange_uniq_loop.simps) (auto simp: more_def i_def Let_def ports_left_end new_ports_end)
  next
    case False
    then have i: "i < length ranges" using idx by (auto simp: i_def)
    then have r: "0 \<le> rfrom (ranges ! i)" "rfrom (ranges ! i) \<le> rto (ranges ! i)"
      using "1.prems" by (auto simp: wf_ports_def list_all_length)
    have pos: "port_position ranges i p" using i r idx by (auto simp: port_position_def p_def i_def more_def)
    have left: "ports_left ranges idx port = (if in_earlier ranges i p then [] else [p]) @ ports_left ranges i p"
    proof (cases more)
      case True
      then show ?thesis using ports_left_step by (simp add: more_def i_def p_def)
    next
      case m: False
      then have "rto (ranges ! idx) \<le> port" by (simp add: more_def)
      from ports_left_end [OF this] show ?thesis using m new_ports_step [of i] i r by (simp add: i_def p_def)
    qed
    have step: "portrange_uniq_loop ranges idx port =
        (if in_earlier ranges i p then portrange_uniq_loop ranges i p else Inr (i, p, SUCCEED))"
      using idx False max by (subst portrange_uniq_loop.simps) (auto simp: more_def i_def p_def Let_def in_earlier_def)
    show ?thesis
    proof (cases "in_earlier ranges i p")
      case True
      have "case portrange_uniq_loop ranges i p of
         Inr (idx', port', ret) \<Rightarrow>
           if ret then port_position ranges idx' port' \<and> ports_left ranges i p = port' # ports_left ranges idx' port'
           else idx' = length ranges \<and> ports_left ranges i p = []
       | Inl f \<Rightarrow> False"
        by (rule "1.IH" [where xa = "(i, p)" and x = "port + 1", OF max idx(1) refl _ refl _ _ pos "1.prems"(2)])
          (use True False idx in \<open>auto simp: more_def i_def p_def in_earlier_def\<close>)
      then show ?thesis unfolding step left using True by (simp only: if_True append_Nil)
    next
      case False
      then show ?thesis unfolding step left using pos by simp
    qed
  qed
qed

text \<open>The caller's loop: the ports it is given from a state of the iterator on.\<close>

fun portrange_walk :: "nat \<Rightarrow> zbx_range list \<Rightarrow> nat \<Rightarrow> int \<Rightarrow> int list res" where
  "portrange_walk 0 ranges idx port = Inr []"
| "portrange_walk (Suc n) ranges idx port =
     rbind (zbx_portrange_uniq_iter ranges idx port) (\<lambda>(idx, port, ret).
       if ret then rbind (portrange_walk n ranges idx port) (\<lambda>ports. Inr (port # ports)) else Inr [])"

lemma portrange_walk_left:
  "\<lbrakk>wf_ports ranges; port_position ranges idx port; length (ports_left ranges idx port) \<le> n\<rbrakk> \<Longrightarrow>
   portrange_walk n ranges idx port = Inr (ports_left ranges idx port)"
proof (induction n arbitrary: idx port)
  case (Suc n)
  have iter: "zbx_portrange_uniq_iter ranges idx port = portrange_uniq_loop ranges idx port"
    using Suc.prems by (auto simp: zbx_portrange_uniq_iter_def port_position_def ZBX_PORTRANGE_INIT_PORT_def)
  note step = portrange_uniq_loop_correct [OF Suc.prems(1,2)]
  then obtain idx' port' ret where loop: "portrange_uniq_loop ranges idx port = Inr (idx', port', ret)"
    by (cases "portrange_uniq_loop ranges idx port") auto
  show ?case using step Suc by (cases ret) (auto simp: iter loop)
qed simp

lemma set_new_ports_less:
  "set (new_ports ranges 0) = {p. \<exists>r \<in> set ranges. rfrom r \<le> p \<and> p \<le> rto r}"
proof -
  have "p \<in> set (new_ports ranges 0)" if "i < length ranges" "rfrom (ranges ! i) \<le> p" "p \<le> rto (ranges ! i)" for i p
    using that
  proof (induction i rule: less_induct)
    case (less i)
    show ?case
    proof (cases "in_earlier ranges i p")
      case True
      then obtain j where "j < i" "rfrom (ranges ! j) \<le> p" "p \<le> rto (ranges ! j)"
        by (auto simp: in_earlier_def list_ex_iff)
      then show ?thesis using less.IH [of j] less.prems by simp
    next
      case False
      then show ?thesis using less.prems by (auto simp: new_ports_def)
    qed
  qed
  then have "{p. \<exists>r \<in> set ranges. rfrom r \<le> p \<and> p \<le> rto r} \<subseteq> set (new_ports ranges 0)"
    by (auto simp: in_set_conv_nth [of _ ranges])
  moreover have "set (new_ports ranges 0) \<subseteq> {p. \<exists>r \<in> set ranges. rfrom r \<le> p \<and> p \<le> rto r}"
    using nth_mem [of _ ranges] by (fastforce simp: new_ports_def)
  ultimately show ?thesis by blast
qed

lemma distinct_new_ports: "distinct (new_ports ranges i)"
proof (induction "length ranges - i" arbitrary: i)
  case (Suc n)
  have row: "new_ports ranges i =
      filter (\<lambda>p. \<not> in_earlier ranges i p) [rfrom (ranges ! i)..rto (ranges ! i)] @ new_ports ranges (Suc i)"
    using Suc.hyps(2) by (simp add: new_ports_def upt_conv_Cons)
  have "p \<notin> set (new_ports ranges (Suc i))" if "rfrom (ranges ! i) \<le> p" "p \<le> rto (ranges ! i)" for p
    using that by (auto simp: new_ports_def in_earlier_def list_ex_iff)
  moreover have "distinct (new_ports ranges (Suc i))" using Suc.hyps by simp
  ultimately show ?case unfolding row by auto
qed (simp add: new_ports_def)

text \<open>C40: The iteration over overlapping port ranges, from its initial state, gives every port of the
  union of the ranges exactly once, range by range, and then ends without an overflow, if the ranges end below the largest int.\<close>

theorem portrange_walk_visits_once:
  assumes "wf_ports ranges" "length (new_ports ranges 0) \<le> n"
  shows "portrange_walk n ranges 0 ZBX_PORTRANGE_INIT_PORT = Inr (new_ports ranges 0) \<and> distinct (new_ports ranges 0) \<and>
    set (new_ports ranges 0) = {p. \<exists>r \<in> set ranges. rfrom r \<le> p \<and> p \<le> rto r}"
proof -
  have "portrange_walk n ranges 0 ZBX_PORTRANGE_INIT_PORT = Inr (new_ports ranges 0)"
  proof (cases "ranges = []")
    case False
    then have r: "0 \<le> rfrom (ranges ! 0)" "rfrom (ranges ! 0) \<le> rto (ranges ! 0)" "0 < length ranges"
      using assms(1) by (auto simp: wf_ports_def list_all_length)
    then have new: "new_ports ranges 0 = rfrom (ranges ! 0) # ports_left ranges 0 (rfrom (ranges ! 0))"
      by (subst new_ports_step) (simp_all add: in_earlier_def)
    with assms(2) obtain m where n: "n = Suc m" "length (ports_left ranges 0 (rfrom (ranges ! 0))) \<le> m" by (cases n) auto
    have "portrange_walk m ranges 0 (rfrom (ranges ! 0)) = Inr (ports_left ranges 0 (rfrom (ranges ! 0)))"
      by (rule portrange_walk_left [OF assms(1) _ n(2)]) (use r in \<open>simp add: port_position_def\<close>)
    then show ?thesis using False n new by (simp add: zbx_portrange_uniq_iter_def)
  qed (cases n; simp add: zbx_portrange_uniq_iter_def new_ports_def)
  then show ?thesis using set_new_ports_less distinct_new_ports by blast
qed

theorem portrange_walk_visits_once_witness:
  "portrange_walk 5 [\<lparr>rfrom = 20, rto = 22\<rparr>, \<lparr>rfrom = 21, rto = 23\<rparr>] 0 ZBX_PORTRANGE_INIT_PORT = Inr [20, 21, 22, 23]"
proof -
  let ?r = "[\<lparr>rfrom = 20, rto = 22\<rparr>, \<lparr>rfrom = 21, rto = 23\<rparr>]"
  have u: "new_ports ?r 0 = [20, 21, 22, 23]" by code_simp
  have "portrange_walk 5 ?r 0 ZBX_PORTRANGE_INIT_PORT = Inr (new_ports ?r 0)"
    by (rule portrange_walk_visits_once [THEN conjunct1]) (simp_all only: u, simp_all add: wf_ports_def INT_MAX_def)
  then show ?thesis unfolding u .
qed

text \<open>A range that ends with the largest int overflows in the second step.\<close>

lemma portrange_walk_overflow:
  "portrange_walk 2 [\<lparr>rfrom = INT_MAX, rto = INT_MAX\<rparr>] 0 ZBX_PORTRANGE_INIT_PORT = Inl Int_Overflow"
  by (simp add: numeral_2_eq_2 zbx_portrange_uniq_iter_def portrange_uniq_loop.simps ZBX_PORTRANGE_INIT_PORT_def INT_MAX_def)

end
