(* ===== verification/Shmem.thy ===== *)
theory Shmem
  imports Prelude
begin

text \<open>
  The shared memory allocator of \<open>src/src/libs/zbxshmem/memalloc.c\<close>. The segment is a store of
  eight-byte cells indexed by their byte addresses, which are all multiples of eight; the bucket heads,
  which the code keeps in front of the chunks, are a list. Pointers are addresses, \<open>NULL\<close> is 0, a pointer
  and a size take eight bytes. Values of type \<open>zbx_uint64_t\<close> are natural numbers, and their
  additions and subtractions wrap around at \<open>2 ^ 64\<close>.
\<close>

subsection \<open>Data\<close>

record shmem_info =
  cells :: "nat \<Rightarrow> nat"
  buckets :: "nat list"
  lo_bound :: nat
  hi_bound :: nat
  free_size :: nat
  used_size :: nat
  orig_size :: nat
  total_size :: nat
  allow_oom :: bool

definition add64 :: "nat \<Rightarrow> nat \<Rightarrow> nat" where
  "add64 a b = (a + b) mod 2 ^ 64"

definition sub64 :: "nat \<Rightarrow> nat \<Rightarrow> nat" where
  "sub64 a b = (a + 2 ^ 64 - b) mod 2 ^ 64"

definition SHMEM_SIZE_FIELD :: nat where
  "SHMEM_SIZE_FIELD = 8"

definition ZBX_PTR_SIZE :: nat where
  "ZBX_PTR_SIZE = 8"

definition SHMEM_FLG_USED :: nat where
  "SHMEM_FLG_USED = push_bit 63 1"

definition SHMEM_MIN_ALLOC :: nat where
  "SHMEM_MIN_ALLOC = 24"

definition SHMEM_MIN_SIZE :: nat where
  "SHMEM_MIN_SIZE = 128"

definition SHMEM_MAX_SIZE :: nat where
  "SHMEM_MAX_SIZE = 0x1000000000"

definition ZBX_SHMEM_MIN_BUCKET_SIZE :: nat where
  "ZBX_SHMEM_MIN_BUCKET_SIZE = SHMEM_MIN_ALLOC"

definition SHMEM_MAX_BUCKET_SIZE :: nat where
  "SHMEM_MAX_BUCKET_SIZE = 256"

definition ZBX_SHMEM_BUCKET_COUNT :: nat where
  "ZBX_SHMEM_BUCKET_COUNT = (SHMEM_MAX_BUCKET_SIZE - ZBX_SHMEM_MIN_BUCKET_SIZE) div 8 + 1"

subsection \<open>Helpers\<close>

definition FREE_CHUNK :: "shmem_info \<Rightarrow> nat \<Rightarrow> bool" where
  "FREE_CHUNK info ptr \<longleftrightarrow> cells info ptr AND SHMEM_FLG_USED = 0"

text \<open>The complement of the flag in 64 bits has the lower 63 bits.\<close>

definition CHUNK_SIZE :: "shmem_info \<Rightarrow> nat \<Rightarrow> nat" where
  "CHUNK_SIZE info ptr = cells info ptr AND (2 ^ 64 - 1 - SHMEM_FLG_USED)"

definition ALIGN8 :: "nat \<Rightarrow> nat" where
  "ALIGN8 ptr = (ptr + 7) AND (2 ^ 64 - 1 - 7)"

definition mem_proper_alloc_size :: "nat \<Rightarrow> nat" where
  "mem_proper_alloc_size size' =
     (if SHMEM_MIN_ALLOC \<le> size' then add64 size' ((8 - (size' AND 7)) AND 7) else SHMEM_MIN_ALLOC)"

definition mem_bucket_by_size :: "nat \<Rightarrow> nat" where
  "mem_bucket_by_size size' =
     (if size' < ZBX_SHMEM_MIN_BUCKET_SIZE then 0
      else if size' < SHMEM_MAX_BUCKET_SIZE then drop_bit 3 (size' - ZBX_SHMEM_MIN_BUCKET_SIZE)
      else ZBX_SHMEM_BUCKET_COUNT - 1)"

definition set_cell :: "nat \<Rightarrow> nat \<Rightarrow> shmem_info \<Rightarrow> shmem_info" where
  "set_cell a v info = info\<lparr>cells := (cells info)(a := v)\<rparr>"

definition mem_set_chunk_size :: "nat \<Rightarrow> nat \<Rightarrow> shmem_info \<Rightarrow> shmem_info" where
  "mem_set_chunk_size chunk size' info =
     set_cell (chunk + SHMEM_SIZE_FIELD + size') size' (set_cell chunk size' info)"

definition mem_set_used_chunk_size :: "nat \<Rightarrow> nat \<Rightarrow> shmem_info \<Rightarrow> shmem_info" where
  "mem_set_used_chunk_size chunk size' info =
     set_cell (chunk + SHMEM_SIZE_FIELD + size') (SHMEM_FLG_USED OR size')
       (set_cell chunk (SHMEM_FLG_USED OR size') info)"

definition mem_get_prev_chunk :: "shmem_info \<Rightarrow> nat \<Rightarrow> nat" where
  "mem_get_prev_chunk info chunk = cells info (chunk + SHMEM_SIZE_FIELD)"

definition mem_set_prev_chunk :: "nat \<Rightarrow> nat \<Rightarrow> shmem_info \<Rightarrow> shmem_info" where
  "mem_set_prev_chunk chunk prev info = set_cell (chunk + SHMEM_SIZE_FIELD) prev info"

definition mem_get_next_chunk :: "shmem_info \<Rightarrow> nat \<Rightarrow> nat" where
  "mem_get_next_chunk info chunk = cells info (chunk + SHMEM_SIZE_FIELD + ZBX_PTR_SIZE)"

definition mem_set_next_chunk :: "nat \<Rightarrow> nat \<Rightarrow> shmem_info \<Rightarrow> shmem_info" where
  "mem_set_next_chunk chunk next' info = set_cell (chunk + SHMEM_SIZE_FIELD + ZBX_PTR_SIZE) next' info"

definition set_bucket :: "nat \<Rightarrow> nat \<Rightarrow> shmem_info \<Rightarrow> shmem_info" where
  "set_bucket i chunk info = info\<lparr>buckets := (buckets info)[i := chunk]\<rparr>"

definition mem_link_chunk :: "nat \<Rightarrow> shmem_info \<Rightarrow> shmem_info" where
  "mem_link_chunk chunk info =
     (let index = mem_bucket_by_size (CHUNK_SIZE info chunk);
          info = (if buckets info ! index \<noteq> 0 then mem_set_prev_chunk (buckets info ! index) chunk info else info);
          info = mem_set_prev_chunk chunk 0 info;
          info = mem_set_next_chunk chunk (buckets info ! index) info
      in set_bucket index chunk info)"

text \<open>A pointer to the next field of the previous chunk, or to the head of the bucket.\<close>

datatype next_field = Chunk_Field nat | Bucket_Head nat

definition mem_ptr_to_prev_field :: "nat \<Rightarrow> nat option" where
  "mem_ptr_to_prev_field chunk = (if chunk \<noteq> 0 then Some (chunk + SHMEM_SIZE_FIELD) else None)"

definition mem_ptr_to_next_field :: "nat \<Rightarrow> nat \<Rightarrow> next_field" where
  "mem_ptr_to_next_field chunk index =
     (if chunk \<noteq> 0 then Chunk_Field (chunk + SHMEM_SIZE_FIELD + ZBX_PTR_SIZE) else Bucket_Head index)"

fun store_next :: "next_field \<Rightarrow> nat \<Rightarrow> shmem_info \<Rightarrow> shmem_info" where
  "store_next (Chunk_Field a) v info = set_cell a v info"
| "store_next (Bucket_Head i) v info = set_bucket i v info"

definition mem_unlink_chunk :: "nat \<Rightarrow> shmem_info \<Rightarrow> shmem_info" where
  "mem_unlink_chunk chunk info =
     (let index = mem_bucket_by_size (CHUNK_SIZE info chunk);
          prev_chunk = mem_get_prev_chunk info chunk;
          next_chunk = mem_get_next_chunk info chunk;
          info = store_next (mem_ptr_to_next_field prev_chunk index) next_chunk info
      in case mem_ptr_to_prev_field next_chunk of
           None \<Rightarrow> info
         | Some a \<Rightarrow> set_cell a prev_chunk info)"

subsection \<open>Allocation\<close>

text \<open>The search over the buckets from \<open>index\<close> on, with the number of buckets left as fuel.\<close>

fun bucket_search :: "shmem_info \<Rightarrow> nat \<Rightarrow> nat \<Rightarrow> nat" where
  "bucket_search info index 0 = index"
| "bucket_search info index (Suc left) =
     (if index < ZBX_SHMEM_BUCKET_COUNT - 1 \<and> buckets info ! index = 0
      then bucket_search info (index + 1) left else index)"

text \<open>The first-fit search over a list of chunks; it does not return on a cyclic list of small ones.\<close>

partial_function (option) first_fit :: "shmem_info \<Rightarrow> nat \<Rightarrow> nat \<Rightarrow> nat option" where
  "first_fit info size' chunk =
     (if chunk \<noteq> 0 \<and> CHUNK_SIZE info chunk < size'
      then first_fit info size' (mem_get_next_chunk info chunk) else Some chunk)"

definition add_used :: "nat \<Rightarrow> shmem_info \<Rightarrow> shmem_info" where
  "add_used n info = info\<lparr>used_size := add64 (used_size info) n\<rparr>"

definition sub_used :: "nat \<Rightarrow> shmem_info \<Rightarrow> shmem_info" where
  "sub_used n info = info\<lparr>used_size := sub64 (used_size info) n\<rparr>"

definition add_free :: "nat \<Rightarrow> shmem_info \<Rightarrow> shmem_info" where
  "add_free n info = info\<lparr>free_size := add64 (free_size info) n\<rparr>"

definition sub_free :: "nat \<Rightarrow> shmem_info \<Rightarrow> shmem_info" where
  "sub_free n info = info\<lparr>free_size := sub64 (free_size info) n\<rparr>"

text \<open>Use the full chunk or split it; the same lines end \<open>__mem_malloc\<close> and the growing branch of
  \<open>__mem_realloc\<close>.\<close>

definition use_or_split :: "nat \<Rightarrow> nat \<Rightarrow> nat \<Rightarrow> shmem_info \<Rightarrow> shmem_info" where
  "use_or_split chunk chunk_size size' info =
     (if chunk_size < add64 (add64 size' (2 * SHMEM_SIZE_FIELD)) SHMEM_MIN_ALLOC then
        let info = add_used chunk_size info;
            info = sub_free chunk_size info
        in mem_set_used_chunk_size chunk chunk_size info
      else
        let new_chunk = chunk + SHMEM_SIZE_FIELD + size' + SHMEM_SIZE_FIELD;
            new_chunk_size = sub64 (sub64 chunk_size size') (2 * SHMEM_SIZE_FIELD);
            info = mem_set_chunk_size new_chunk new_chunk_size info;
            info = mem_link_chunk new_chunk info;
            info = add_used size' info;
            info = sub_free chunk_size info;
            info = add_free new_chunk_size info
        in mem_set_used_chunk_size chunk size' info)"

text \<open>\<open>__mem_malloc\<close>: the new state and the chunk; \<open>None\<close> when it does not return. What is counted for the
  log messages is left out.\<close>

definition mem_malloc :: "shmem_info \<Rightarrow> nat \<Rightarrow> (shmem_info \<times> nat) option" where
  "mem_malloc info size' =
     (let size' = mem_proper_alloc_size size';
          index = bucket_search info (mem_bucket_by_size size') ZBX_SHMEM_BUCKET_COUNT;
          chunk = buckets info ! index
      in case (if index = ZBX_SHMEM_BUCKET_COUNT - 1 then first_fit info size' chunk else Some chunk) of
           None \<Rightarrow> None
         | Some chunk \<Rightarrow>
             if chunk = 0 then Some (info, 0)
             else
               let chunk_size = CHUNK_SIZE info chunk;
                   info = mem_unlink_chunk chunk info
               in Some (use_or_split chunk chunk_size size' info, chunk))"

subsection \<open>Release\<close>

definition mem_free :: "shmem_info \<Rightarrow> nat \<Rightarrow> shmem_info" where
  "mem_free info ptr =
     (let chunk = ptr - SHMEM_SIZE_FIELD;
          chunk_size = CHUNK_SIZE info chunk;
          info = sub_used chunk_size info;
          info = add_free chunk_size info;
          next_chunk = chunk + SHMEM_SIZE_FIELD + chunk_size + SHMEM_SIZE_FIELD;
          prev_free = lo_bound info < chunk \<and> FREE_CHUNK info (chunk - SHMEM_SIZE_FIELD);
          next_free = next_chunk < hi_bound info \<and> FREE_CHUNK info next_chunk;
          prev_chunk = chunk - SHMEM_SIZE_FIELD - CHUNK_SIZE info (chunk - SHMEM_SIZE_FIELD) - SHMEM_SIZE_FIELD
      in if prev_free \<and> next_free then
           let info = add_free (4 * SHMEM_SIZE_FIELD) info;
               chunk_size = add64 chunk_size
                 (add64 (add64 (4 * SHMEM_SIZE_FIELD) (CHUNK_SIZE info prev_chunk)) (CHUNK_SIZE info next_chunk));
               info = mem_unlink_chunk prev_chunk info;
               info = mem_unlink_chunk next_chunk info;
               info = mem_set_chunk_size prev_chunk chunk_size info
           in mem_link_chunk prev_chunk info
         else if prev_free then
           let info = add_free (2 * SHMEM_SIZE_FIELD) info;
               chunk_size = add64 chunk_size (add64 (2 * SHMEM_SIZE_FIELD) (CHUNK_SIZE info prev_chunk));
               info = mem_unlink_chunk prev_chunk info;
               info = mem_set_chunk_size prev_chunk chunk_size info
           in mem_link_chunk prev_chunk info
         else if next_free then
           let info = add_free (2 * SHMEM_SIZE_FIELD) info;
               chunk_size = add64 chunk_size (add64 (2 * SHMEM_SIZE_FIELD) (CHUNK_SIZE info next_chunk));
               info = mem_unlink_chunk next_chunk info;
               info = mem_set_chunk_size chunk chunk_size info
           in mem_link_chunk chunk info
         else
           let info = mem_set_chunk_size chunk chunk_size info
           in mem_link_chunk chunk info)"

subsection \<open>Reallocation\<close>

text \<open>\<open>memcpy\<close> of \<open>n\<close> bytes from a buffer outside of the segment or from a chunk that does not overlap;
  sizes of chunks are multiples of a cell.\<close>

definition read_cells :: "shmem_info \<Rightarrow> nat \<Rightarrow> nat \<Rightarrow> nat list" where
  "read_cells info a n = map (\<lambda>k. cells info (a + 8 * k)) [0..<n div 8]"

fun write_cells :: "nat \<Rightarrow> nat list \<Rightarrow> shmem_info \<Rightarrow> shmem_info" where
  "write_cells a [] info = info"
| "write_cells a (v # vs) info = write_cells (a + 8) vs (set_cell a v info)"

text \<open>\<open>None\<close> when the call does not return. The buffer that \<open>zbx_malloc\<close> returns outside of the segment is a list.\<close>

definition mem_realloc :: "shmem_info \<Rightarrow> nat \<Rightarrow> nat \<Rightarrow> (shmem_info \<times> nat) res option" where
  "mem_realloc info old size' =
     (let size' = mem_proper_alloc_size size';
          chunk = old - SHMEM_SIZE_FIELD;
          chunk_size = CHUNK_SIZE info chunk;
          next_chunk = chunk + SHMEM_SIZE_FIELD + chunk_size + SHMEM_SIZE_FIELD;
          next_free = next_chunk < hi_bound info \<and> FREE_CHUNK info next_chunk
      in if size' \<le> chunk_size then
           if chunk_size div 4 < size' then Some (Inr (info, chunk))
           else if next_free then
             let info = sub_used (sub64 chunk_size size') info;
                 info = add_free (sub64 chunk_size size') info;
                 new_chunk = chunk + SHMEM_SIZE_FIELD + size' + SHMEM_SIZE_FIELD;
                 new_chunk_size = add64 (CHUNK_SIZE info next_chunk) (sub64 chunk_size size');
                 info = mem_unlink_chunk next_chunk info;
                 info = mem_set_chunk_size new_chunk new_chunk_size info;
                 info = mem_link_chunk new_chunk info
             in Some (Inr (mem_set_used_chunk_size chunk size' info, chunk))
           else
             let info = sub_used (sub64 chunk_size size') info;
                 info = add_free (sub64 (sub64 chunk_size size') (2 * SHMEM_SIZE_FIELD)) info;
                 new_chunk = chunk + SHMEM_SIZE_FIELD + size' + SHMEM_SIZE_FIELD;
                 new_chunk_size = sub64 (sub64 chunk_size size') (2 * SHMEM_SIZE_FIELD);
                 info = mem_set_chunk_size new_chunk new_chunk_size info;
                 info = mem_link_chunk new_chunk info
             in Some (Inr (mem_set_used_chunk_size chunk size' info, chunk))
         else if next_free \<and> size' \<le> add64 (add64 chunk_size (2 * SHMEM_SIZE_FIELD)) (CHUNK_SIZE info next_chunk) then
           let info = sub_used chunk_size info;
               info = add_free (add64 chunk_size (2 * SHMEM_SIZE_FIELD)) info;
               chunk_size = add64 chunk_size (add64 (2 * SHMEM_SIZE_FIELD) (CHUNK_SIZE info next_chunk));
               info = mem_unlink_chunk next_chunk info
           in Some (Inr (use_or_split chunk chunk_size size' info, chunk))
         else
           case mem_malloc info size' of
             None \<Rightarrow> None
           | Some (info, new_chunk) \<Rightarrow>
               if new_chunk \<noteq> 0 then
                 let info = write_cells (new_chunk + SHMEM_SIZE_FIELD)
                       (read_cells info (chunk + SHMEM_SIZE_FIELD) chunk_size) info
                 in Some (Inr (mem_free info old, new_chunk))
               else
                 let new_chunk_size = chunk_size;
                     new_chunk_size = (if next_free
                       then add64 new_chunk_size (add64 (CHUNK_SIZE info next_chunk) (2 * SHMEM_SIZE_FIELD))
                       else new_chunk_size);
                     new_chunk_size = (if lo_bound info < chunk \<and> FREE_CHUNK info (chunk - SHMEM_SIZE_FIELD)
                       then add64 new_chunk_size (add64 (CHUNK_SIZE info (chunk - SHMEM_SIZE_FIELD)) (2 * SHMEM_SIZE_FIELD))
                       else new_chunk_size)
                 in if new_chunk_size < size' then Some (Inr (info, 0))
                    else
                      let tmp = read_cells info (chunk + SHMEM_SIZE_FIELD) chunk_size;
                          info = mem_free info old
                      in case mem_malloc info size' of
                           None \<Rightarrow> None
                         | Some (info, new_chunk) \<Rightarrow>
                             if new_chunk = 0 then Some (Inl Exit_Failure)
                             else Some (Inr (write_cells (new_chunk + SHMEM_SIZE_FIELD) tmp info, new_chunk)))"

subsection \<open>The public interface\<close>

text \<open>What \<open>zbx_shmem_create\<close> does with the attached segment: \<open>base\<close> is its address, \<open>descr_len\<close> and
  \<open>param_len\<close> are the lengths of the two texts copied in front of the chunks, and the structure
  \<open>zbx_shmem_info_t\<close> takes 88 bytes. A size out of bounds is refused.\<close>

definition SIZEOF_INFO :: nat where
  "SIZEOF_INFO = 88"

definition mem_one_chunk :: "shmem_info \<Rightarrow> shmem_info" where
  "mem_one_chunk info =
     (let index = mem_bucket_by_size (total_size info);
          info = set_bucket index (lo_bound info) info;
          info = mem_set_chunk_size (buckets info ! index) (total_size info) info;
          info = mem_set_prev_chunk (buckets info ! index) 0 info
      in mem_set_next_chunk (buckets info ! index) 0 info)"

definition zbx_shmem_create ::
  "(nat \<Rightarrow> nat) \<Rightarrow> nat \<Rightarrow> nat \<Rightarrow> nat \<Rightarrow> nat \<Rightarrow> bool \<Rightarrow> shmem_info option" where
  "zbx_shmem_create garbage base size' descr_len param_len oom =
     (if \<not> (SHMEM_MIN_SIZE \<le> size' \<and> size' \<le> SHMEM_MAX_SIZE) then None
      else
        let orig = size';
            info_addr = ALIGN8 base;
            size' = sub64 size' (info_addr + SIZEOF_INFO - base);
            base = info_addr + SIZEOF_INFO;
            buckets_addr = ALIGN8 base;
            size' = sub64 size' (buckets_addr + ZBX_SHMEM_BUCKET_COUNT * ZBX_PTR_SIZE - base);
            base = buckets_addr + ZBX_SHMEM_BUCKET_COUNT * ZBX_PTR_SIZE;
            size' = sub64 size' (descr_len + 1);
            base = base + descr_len + 1;
            size' = sub64 size' (param_len + 1);
            base = base + param_len + 1;
            lo = ALIGN8 base;
            hi = ALIGN8 (sub64 (add64 base size') 8);
            total = sub64 (sub64 hi lo) (2 * SHMEM_SIZE_FIELD);
            info = mem_one_chunk \<lparr>cells = garbage, buckets = replicate ZBX_SHMEM_BUCKET_COUNT 0, lo_bound = lo, hi_bound = hi,
              free_size = 0, used_size = 0, orig_size = orig, total_size = total, allow_oom = oom\<rparr>
        in Some (info\<lparr>used_size := 0, free_size := total\<rparr>))"

definition zbx_shmem_create_min ::
  "(nat \<Rightarrow> nat) \<Rightarrow> nat \<Rightarrow> nat \<Rightarrow> nat \<Rightarrow> nat \<Rightarrow> bool \<Rightarrow> shmem_info option" where
  "zbx_shmem_create_min garbage segment size' descr_len param_len oom =
     (let base = SIZEOF_INFO;
          base = ALIGN8 base;
          base = base + ZBX_SHMEM_BUCKET_COUNT * ZBX_PTR_SIZE;
          base = base + descr_len + 1;
          base = base + param_len + 1;
          base = ALIGN8 base;
          size' = add64 size' base;
          size' = add64 size' 8;
          size' = add64 size' (2 * SHMEM_SIZE_FIELD)
      in zbx_shmem_create garbage segment size' descr_len param_len oom)"

definition zbx_shmem_malloc :: "shmem_info \<Rightarrow> nat \<Rightarrow> nat \<Rightarrow> (shmem_info \<times> nat) res option" where
  "zbx_shmem_malloc info old size' =
     (if old \<noteq> 0 then Some (Inl Exit_Failure)
      else if size' = 0 \<or> size' > SHMEM_MAX_SIZE then Some (Inl Exit_Failure)
      else case mem_malloc info size' of
             None \<Rightarrow> None
           | Some (info, chunk) \<Rightarrow>
               if chunk = 0
               then (if allow_oom info then Some (Inr (info, 0)) else Some (Inl Exit_Failure))
               else Some (Inr (info, chunk + SHMEM_SIZE_FIELD)))"

definition zbx_shmem_realloc :: "shmem_info \<Rightarrow> nat \<Rightarrow> nat \<Rightarrow> (shmem_info \<times> nat) res option" where
  "zbx_shmem_realloc info old size' =
     (if size' = 0 \<or> size' > SHMEM_MAX_SIZE then Some (Inl Exit_Failure)
      else
        case (if old = 0 then map_option Inr (mem_malloc info size') else mem_realloc info old size') of
          None \<Rightarrow> None
        | Some (Inl e) \<Rightarrow> Some (Inl e)
        | Some (Inr (info, chunk)) \<Rightarrow>
            if chunk = 0
            then (if allow_oom info then Some (Inr (info, 0)) else Some (Inl Exit_Failure))
            else Some (Inr (info, chunk + SHMEM_SIZE_FIELD)))"

definition zbx_shmem_free :: "shmem_info \<Rightarrow> nat \<Rightarrow> shmem_info res" where
  "zbx_shmem_free info ptr = (if ptr = 0 then Inl Exit_Failure else Inr (mem_free info ptr))"

definition zbx_shmem_clear :: "shmem_info \<Rightarrow> shmem_info" where
  "zbx_shmem_clear info =
     (let info = mem_one_chunk (info\<lparr>buckets := replicate ZBX_SHMEM_BUCKET_COUNT 0\<rparr>)
      in info\<lparr>used_size := 0, free_size := total_size info\<rparr>)"

record shmem_stats =
  st_free_size :: nat
  st_used_size :: nat
  st_min_chunk_size :: nat
  st_max_chunk_size :: nat
  st_overhead :: nat
  st_chunks_num :: "nat list"
  st_free_chunks :: nat
  st_used_chunks :: nat

partial_function (option) count_chunks :: "shmem_info \<Rightarrow> nat \<Rightarrow> nat \<Rightarrow> nat \<Rightarrow> nat \<Rightarrow> (nat \<times> nat \<times> nat) option" where
  "count_chunks info chunk counter mn mx =
     (if chunk = 0 then Some (counter, mn, mx)
      else count_chunks info (mem_get_next_chunk info chunk) (counter + 1)
             (min mn (CHUNK_SIZE info chunk)) (max mx (CHUNK_SIZE info chunk)))"

fun count_buckets :: "shmem_info \<Rightarrow> nat list \<Rightarrow> nat list \<Rightarrow> nat \<Rightarrow> nat \<Rightarrow> (nat list \<times> nat \<times> nat) option" where
  "count_buckets info [] counts mn mx = Some (counts, mn, mx)"
| "count_buckets info (chunk # chunks) counts mn mx =
     (case count_chunks info chunk 0 mn mx of
        None \<Rightarrow> None
      | Some (counter, mn, mx) \<Rightarrow> count_buckets info chunks (counts @ [counter mod 2 ^ 32]) mn mx)"

definition zbx_shmem_get_stats :: "shmem_info \<Rightarrow> shmem_stats option" where
  "zbx_shmem_get_stats info =
     (case count_buckets info (buckets info) [] (2 ^ 64 - 1) 0 of
        None \<Rightarrow> None
      | Some (counts, mn, mx) \<Rightarrow>
          let mn = (if mn = 2 ^ 64 - 1 then 0 else mn);
              overhead = sub64 (sub64 (total_size info) (used_size info)) (free_size info);
              free_chunks = sum_list counts mod 2 ^ 32
          in Some \<lparr>st_free_size = free_size info, st_used_size = used_size info, st_min_chunk_size = mn,
                st_max_chunk_size = mx, st_overhead = overhead, st_chunks_num = counts, st_free_chunks = free_chunks,
                st_used_chunks = (overhead div (2 * SHMEM_SIZE_FIELD) + 1 + 2 ^ 32 - free_chunks) mod 2 ^ 32\<rparr>)"

definition zbx_shmem_required_chunk_size :: "nat \<Rightarrow> nat" where
  "zbx_shmem_required_chunk_size size' =
     (if size' = 0 then 0 else add64 (mem_proper_alloc_size size') (SHMEM_SIZE_FIELD * 2))"

end
