(* ===== verification/Shmem_Inv.thy ===== *)
theory Shmem_Inv
  imports Shmem
begin

text \<open>
  The invariant of the shared memory allocator. A chunk is an address, a size and whether it is used.
  \<open>store_ok info B F\<close> says that the chunks \<open>B\<close> do not overlap and carry their sizes on both ends, and that
  the bucket lists hold exactly the free chunks \<open>F\<close>; the steps of the allocator add and remove chunks
  of \<open>B\<close> and \<open>F\<close>. \<open>heap_inv\<close> adds that the chunks fill the segment, that free ones are not adjacent, and the
  counters.
\<close>

subsection \<open>Arithmetic\<close>

lemma add64_eq [simp]: "a + b < 2 ^ 64 \<Longrightarrow> add64 a b = a + b"
  by (simp add: add64_def)

lemma sub64_eq [simp]: "b \<le> a \<Longrightarrow> a < 2 ^ 64 \<Longrightarrow> sub64 a b = a - b"
proof -
  assume "b \<le> a" "a < 2 ^ 64"
  then have "a + 2 ^ 64 - b = (a - b) + 2 ^ 64" "a - b < 2 ^ 64" by linarith+
  then show ?thesis by (simp only: sub64_def mod_add_self2 mod_less)
qed

lemma and_7: "n AND 7 = n mod 8" for n :: nat
  using take_bit_eq_mask [of 3 n] by (simp add: take_bit_eq_mod mask_eq_exp_minus_1)

definition tag :: "bool \<Rightarrow> nat \<Rightarrow> nat" where
  "tag u s = (if u then 2 ^ 63 + s else s)"

lemma bit_flag: "bit SHMEM_FLG_USED n \<longleftrightarrow> n = 63"
  unfolding SHMEM_FLG_USED_def by (simp only: bit_push_bit_iff bit_1_iff) auto

lemma flag_eq: "SHMEM_FLG_USED = 2 ^ 63"
  by (simp add: SHMEM_FLG_USED_def push_bit_eq_mult)

lemma bit_63: "s < 2 ^ 63 \<Longrightarrow> \<not> bit s 63" for s :: nat
  by (simp add: bit_iff_odd)

lemma or_used: "s < 2 ^ 63 \<Longrightarrow> SHMEM_FLG_USED OR s = tag True s"
proof -
  assume s: "s < 2 ^ 63"
  have "SHMEM_FLG_USED AND s = 0"
    by (rule bit_eqI) (use bit_63 [OF s] in \<open>auto simp: bit_flag bit_and_iff\<close>)
  then have "SHMEM_FLG_USED + s = SHMEM_FLG_USED OR s" by (rule disjunctive_add_eq_or)
  then show ?thesis by (simp add: tag_def flag_eq)
qed

lemma free_tag: "s < 2 ^ 63 \<Longrightarrow> (tag u s AND SHMEM_FLG_USED = 0) \<longleftrightarrow> \<not> u"
proof -
  assume s: "s < 2 ^ 63"
  have "bit (tag True s) 63" unfolding or_used [OF s, symmetric] bit_or_iff bit_flag by simp
  then have "bit (tag u s) 63 \<longleftrightarrow> u" using bit_63 [OF s] by (cases u) (simp_all add: tag_def)
  moreover have "tag u s AND SHMEM_FLG_USED = 0 \<longleftrightarrow> \<not> bit (tag u s) 63"
    unfolding bit_eq_iff [of "tag u s AND SHMEM_FLG_USED"] bit_and_iff bit_flag by auto
  ultimately show ?thesis by simp
qed

lemma size_tag: "s < 2 ^ 63 \<Longrightarrow> tag u s AND (2 ^ 64 - 1 - SHMEM_FLG_USED) = s"
proof -
  assume s: "s < 2 ^ 63"
  have m: "2 ^ 64 - 1 - SHMEM_FLG_USED = mask 63" by (simp add: flag_eq mask_eq_exp_minus_1)
  have "tag u s AND (2 ^ 64 - 1 - SHMEM_FLG_USED) = take_bit 63 (tag u s)" unfolding m take_bit_eq_mask ..
  also have "\<dots> = s" using s by (simp add: tag_def take_bit_eq_mod)
  finally show ?thesis .
qed

lemma bucket_eq: "mem_bucket_by_size s = (if s < 24 then 0 else if s < 256 then (s - 24) div 8 else 29)"
  by (simp add: mem_bucket_by_size_def ZBX_SHMEM_MIN_BUCKET_SIZE_def SHMEM_MIN_ALLOC_def SHMEM_MAX_BUCKET_SIZE_def
      ZBX_SHMEM_BUCKET_COUNT_def drop_bit_eq_div)

lemma bucket_less: "mem_bucket_by_size s < 30"
  by (auto simp: bucket_eq)

lemma bucket_count: "ZBX_SHMEM_BUCKET_COUNT = 30"
  by (simp add: ZBX_SHMEM_BUCKET_COUNT_def SHMEM_MAX_BUCKET_SIZE_def ZBX_SHMEM_MIN_BUCKET_SIZE_def SHMEM_MIN_ALLOC_def)

lemma round_up_8:
  fixes k :: nat
  defines "r \<equiv> k + (8 - k mod 8) mod 8"
  shows "k \<le> r" "r < k + 8" "8 dvd r" "8 dvd k \<Longrightarrow> r = k"
proof -
  show "k \<le> r" "r < k + 8" by (simp_all add: r_def)
  obtain q d where k: "k = 8 * q + d" "d < 8" by (metis mult_div_mod_eq mod_less_divisor zero_less_numeral)
  then have d: "k mod 8 = d" by simp
  have "r = (if d = 0 then 8 * q else 8 * q + 8)" unfolding r_def d using k by auto
  then show "8 dvd r" by auto
  show "8 dvd k \<Longrightarrow> r = k" using d by (simp add: r_def dvd_eq_mod_eq_0)
qed

lemma proper_size_eq:
  "k < 2 ^ 60 \<Longrightarrow> mem_proper_alloc_size k = (if 24 \<le> k then k + (8 - k mod 8) mod 8 else 24)"
proof -
  assume k: "k < 2 ^ 60"
  define d where "d = (8 - k mod 8) mod 8"
  have "d < 8" by (simp add: d_def)
  then have "k + d < 2 ^ 64" using k by simp
  then show ?thesis by (simp only: mem_proper_alloc_size_def SHMEM_MIN_ALLOC_def and_7 add64_eq d_def)
qed

lemma proper_size:
  assumes "n \<le> SHMEM_MAX_SIZE"
  shows "n \<le> mem_proper_alloc_size n" "24 \<le> mem_proper_alloc_size n" "8 dvd mem_proper_alloc_size n"
    "mem_proper_alloc_size n \<le> SHMEM_MAX_SIZE"
    "mem_proper_alloc_size (mem_proper_alloc_size n) = mem_proper_alloc_size n"
proof -
  define m where "m = mem_proper_alloc_size n"
  have n: "n < 2 ^ 60" using assms by (simp add: SHMEM_MAX_SIZE_def)
  have m: "n \<le> m" "24 \<le> m" "8 dvd m" "m < n + 8 \<or> m = 24"
    unfolding m_def proper_size_eq [OF n] using round_up_8 [of n] by auto
  show "n \<le> mem_proper_alloc_size n" "24 \<le> mem_proper_alloc_size n" "8 dvd mem_proper_alloc_size n"
    using m by (simp_all add: m_def)
  obtain q where q: "m = 8 * q" using m(3) by blast
  have "q \<le> 8589934592" using m(4) assms unfolding q SHMEM_MAX_SIZE_def by linarith
  then show le: "mem_proper_alloc_size n \<le> SHMEM_MAX_SIZE"
    unfolding m_def [symmetric] q by (simp add: SHMEM_MAX_SIZE_def)
  then have "m < 2 ^ 60" unfolding m_def by (simp add: SHMEM_MAX_SIZE_def)
  then show "mem_proper_alloc_size (mem_proper_alloc_size n) = mem_proper_alloc_size n"
    unfolding m_def [symmetric] using m round_up_8(4) [of m] by (simp add: proper_size_eq)
qed

subsection \<open>Chunks\<close>

type_synonym chunk = "nat \<times> nat \<times> bool"

definition apart :: "chunk \<Rightarrow> chunk \<Rightarrow> bool" where
  "apart x y \<longleftrightarrow> (case x of (c, s, u) \<Rightarrow> case y of (c', s', u') \<Rightarrow> c + s + 16 \<le> c' \<or> c' + s' + 16 \<le> c)"

definition sound_chunk :: "chunk \<Rightarrow> bool" where
  "sound_chunk x \<longleftrightarrow> (case x of (c, s, u) \<Rightarrow> 0 < c \<and> 24 \<le> s \<and> s < 2 ^ 63)"

definition separate :: "chunk set \<Rightarrow> bool" where
  "separate B \<longleftrightarrow> (\<forall>x \<in> B. sound_chunk x) \<and> (\<forall>x \<in> B. \<forall>y \<in> B. x \<noteq> y \<longrightarrow> apart x y)"

definition tagged :: "(nat \<Rightarrow> nat) \<Rightarrow> chunk set \<Rightarrow> bool" where
  "tagged m B \<longleftrightarrow> (\<forall>(c, s, u) \<in> B. m c = tag u s \<and> m (c + 8 + s) = tag u s)"

text \<open>A segment of a doubly linked list, from \<open>p\<close> to \<open>q\<close>.\<close>

fun dseg :: "(nat \<Rightarrow> nat) \<Rightarrow> nat \<Rightarrow> nat \<Rightarrow> nat list \<Rightarrow> nat \<Rightarrow> bool" where
  "dseg m prev p [] q \<longleftrightarrow> p = q"
| "dseg m prev p (x # xs) q \<longleftrightarrow> p = x \<and> m (x + 8) = prev \<and> dseg m x (m (x + 16)) xs q"

definition bucket_list :: "(nat \<Rightarrow> nat) \<Rightarrow> nat list \<Rightarrow> (nat \<times> nat) set \<Rightarrow> nat \<Rightarrow> nat list \<Rightarrow> bool" where
  "bucket_list m bk F i xs \<longleftrightarrow> dseg m 0 (bk ! i) xs 0 \<and> distinct xs \<and>
     set xs = {c. \<exists>s. (c, s) \<in> F \<and> mem_bucket_by_size s = i}"

definition store_ok :: "shmem_info \<Rightarrow> chunk set \<Rightarrow> (nat \<times> nat) set \<Rightarrow> bool" where
  "store_ok info B F \<longleftrightarrow> separate B \<and> tagged (cells info) B \<and> (\<forall>(c, s) \<in> F. (c, s, False) \<in> B) \<and>
     length (buckets info) = 30 \<and> (\<forall>i < 30. \<exists>xs. bucket_list (cells info) (buckets info) F i xs)"

text \<open>An address outside of the free chunks \<open>F\<close>.\<close>

definition off :: "(nat \<times> nat) set \<Rightarrow> nat \<Rightarrow> bool" where
  "off F a \<longleftrightarrow> (\<forall>(c, s) \<in> F. \<not> (c \<le> a \<and> a < c + s + 16))"

text \<open>Everything but cells and bucket heads is the same.\<close>

definition same_rest :: "shmem_info \<Rightarrow> shmem_info \<Rightarrow> bool" where
  "same_rest info info' \<longleftrightarrow> info' = info\<lparr>cells := cells info', buckets := buckets info'\<rparr>"

lemma same_rest_simps:
  assumes "same_rest info info'"
  shows "lo_bound info' = lo_bound info" "hi_bound info' = hi_bound info" "free_size info' = free_size info"
    "used_size info' = used_size info" "orig_size info' = orig_size info" "total_size info' = total_size info" "allow_oom info' = allow_oom info"
  using assms unfolding same_rest_def by (cases info'; simp)+

lemma same_rest_refl [simp]: "same_rest info info"
  by (simp add: same_rest_def)

lemma same_rest_trans: "same_rest a b \<Longrightarrow> same_rest b c \<Longrightarrow> same_rest a c"
  unfolding same_rest_def by (cases a; cases b; cases c) simp

lemma set_cell_simps [simp]:
  "cells (set_cell a v info) = (cells info)(a := v)" "buckets (set_cell a v info) = buckets info"
  "same_rest info (set_cell a v info)" "cells (set_bucket i v info) = cells info"
  "buckets (set_bucket i v info) = (buckets info)[i := v]" "same_rest info (set_bucket i v info)"
  by (simp_all add: set_cell_def set_bucket_def same_rest_def)

lemmas fields = SHMEM_SIZE_FIELD_def ZBX_PTR_SIZE_def

lemma addrs: "c + SHMEM_SIZE_FIELD = c + 8" "c + 8 + ZBX_PTR_SIZE = c + 16"
  by (simp_all add: fields)

lemma store_ok_chunk:
  assumes "store_ok info B F" "(c, s, u) \<in> B"
  shows "CHUNK_SIZE info c = s" "FREE_CHUNK info c \<longleftrightarrow> \<not> u" "CHUNK_SIZE info (c + 8 + s) = s"
    "FREE_CHUNK info (c + 8 + s) \<longleftrightarrow> \<not> u" "0 < c" "24 \<le> s" "s < 2 ^ 63"
proof -
  show s: "0 < c" "24 \<le> s" "s < 2 ^ 63" using assms by (auto simp: store_ok_def separate_def sound_chunk_def)
  have "cells info c = tag u s" "cells info (c + 8 + s) = tag u s" using assms by (auto simp: store_ok_def tagged_def)
  then show "CHUNK_SIZE info c = s" "FREE_CHUNK info c \<longleftrightarrow> \<not> u" "CHUNK_SIZE info (c + 8 + s) = s"
    "FREE_CHUNK info (c + 8 + s) \<longleftrightarrow> \<not> u"
    using s(3) by (simp_all only: CHUNK_SIZE_def FREE_CHUNK_def size_tag free_tag)
qed

lemma store_ok_cong:
  assumes "cells info' = cells info" "buckets info' = buckets info"
  shows "store_ok info' B F = store_ok info B F"
  by (simp add: store_ok_def assms)

lemma store_ok_counters [simp]:
  "store_ok (add_used n info) B F = store_ok info B F" "store_ok (sub_used n info) B F = store_ok info B F"
  "store_ok (add_free n info) B F = store_ok info B F" "store_ok (sub_free n info) B F = store_ok info B F"
  by (simp_all add: store_ok_def add_used_def sub_used_def add_free_def sub_free_def)

text \<open>A chunk that is not in a list can be given up.\<close>

lemma store_ok_forget:
  assumes "store_ok info B F" "B' \<subseteq> B" "\<forall>(c, s) \<in> F. (c, s, False) \<in> B'"
  shows "store_ok info B' F"
  using assms unfolding store_ok_def separate_def tagged_def by blast

subsection \<open>Cells of different chunks\<close>

lemma apart_cells:
  assumes "separate B" "(x, s, u) \<in> B" "(y, t, v) \<in> B"
  shows "x = y \<and> s = t \<and> u = v \<or> x + s + 16 \<le> y \<or> y + t + 16 \<le> x"
  using assms unfolding separate_def apart_def by fastforce

lemma sound_cells: "separate B \<Longrightarrow> (x, s, u) \<in> B \<Longrightarrow> 0 < x \<and> 24 \<le> s \<and> s < 2 ^ 63"
  unfolding separate_def sound_chunk_def by fastforce

lemma link_cells:
  assumes "separate B" "(x, s, u) \<in> B" "(y, t, v) \<in> B" "x \<noteq> y"
  shows "x + 8 \<noteq> y + 8" "x + 8 \<noteq> y + 16" "x + 16 \<noteq> y + 8" "x + 16 \<noteq> y + 16"
  using apart_cells [OF assms(1-3)] sound_cells [OF assms(1,2)] sound_cells [OF assms(1,3)] assms(4) by auto

lemma tag_cells:
  assumes "separate B" "(x, s, u) \<in> B" "(y, t, v) \<in> B"
  shows "y \<noteq> x + 8" "y \<noteq> x + 16" "y + 8 + t \<noteq> x + 8" "y + 8 + t \<noteq> x + 16"
  using apart_cells [OF assms] sound_cells [OF assms(1,2)] sound_cells [OF assms(1,3)] by auto

text \<open>Only link cells of the chunks at \<open>X\<close> change.\<close>

definition link_frame :: "nat set \<Rightarrow> (nat \<Rightarrow> nat) \<Rightarrow> (nat \<Rightarrow> nat) \<Rightarrow> bool" where
  "link_frame X m m' \<longleftrightarrow> (\<forall>a. (\<forall>x \<in> X. a \<noteq> x + 8 \<and> a \<noteq> x + 16) \<longrightarrow> m' a = m a)"

lemma tagged_link_frame:
  assumes "separate B" "tagged m B" "link_frame X m m'" "\<forall>x \<in> X. \<exists>s u. (x, s, u) \<in> B"
  shows "tagged m' B"
proof -
  have "m' c = m c \<and> m' (c + 8 + t) = m (c + 8 + t)" if "(c, t, v) \<in> B" for c t v
    using assms(3,4) tag_cells [OF assms(1) _ that] unfolding link_frame_def by metis
  then show ?thesis using assms(2) unfolding tagged_def by fastforce
qed

lemma link_frame_off:
  assumes "link_frame X m m'" "off F a" "\<forall>x \<in> X. \<exists>s. (x, s) \<in> F \<and> 24 \<le> s"
  shows "m' a = m a"
proof -
  have "a \<noteq> x + 8 \<and> a \<noteq> x + 16" if "x \<in> X" for x
    using assms(2,3) that unfolding off_def by fastforce
  then show ?thesis using assms(1) unfolding link_frame_def by blast
qed

subsection \<open>List segments\<close>

lemma dseg_cong:
  "\<forall>x \<in> set xs. m' (x + 8) = m (x + 8) \<and> m' (x + 16) = m (x + 16) \<Longrightarrow> dseg m' prev p xs q = dseg m prev p xs q"
  by (induction xs arbitrary: prev p) auto

lemma dseg_append:
  "dseg m prev p (xs @ ys) q \<longleftrightarrow> (\<exists>r. dseg m prev p xs r \<and> dseg m (if xs = [] then prev else last xs) r ys q)"
  by (induction xs arbitrary: prev p) auto

lemma dseg_head: "dseg m prev p xs q \<Longrightarrow> p = (if xs = [] then q else hd xs)"
  by (cases xs) auto

text \<open>Lists are determined by their start.\<close>

lemma bucket_list_members:
  assumes "store_ok info B F" "bucket_list m bk F i xs" "x \<in> set xs"
  shows "\<exists>s. (x, s) \<in> F \<and> (x, s, False) \<in> B \<and> mem_bucket_by_size s = i"
  using assms unfolding store_ok_def bucket_list_def by blast

lemma bucket_list_cong:
  assumes "bucket_list m bk F i xs" "bk' ! i = bk ! i"
    and "\<forall>x \<in> set xs. m' (x + 8) = m (x + 8) \<and> m' (x + 16) = m (x + 16)"
    and "{c. \<exists>s. (c, s) \<in> F' \<and> mem_bucket_by_size s = i} = {c. \<exists>s. (c, s) \<in> F \<and> mem_bucket_by_size s = i}"
  shows "bucket_list m' bk' F' i xs"
  using assms dseg_cong [OF assms(3)] by (simp add: bucket_list_def)

subsection \<open>Sizes of chunks\<close>

definition set_size :: "bool \<Rightarrow> nat \<Rightarrow> nat \<Rightarrow> shmem_info \<Rightarrow> shmem_info" where
  "set_size u c s info = (if u then mem_set_used_chunk_size c s info else mem_set_chunk_size c s info)"

lemma set_size_eq:
  assumes "s < 2 ^ 63"
  shows "set_size u c s info = set_cell (c + 8 + s) (tag u s) (set_cell c (tag u s) info)"
  using or_used [OF assms] by (simp add: set_size_def mem_set_used_chunk_size_def mem_set_chunk_size_def fields tag_def)

lemma store_ok_set_size:
  assumes ok: "store_ok info B F" and new: "sound_chunk (c, s, u)" "\<forall>x \<in> B. apart (c, s, u) x"
  shows "store_ok (set_size u c s info) (insert (c, s, u) B) F" "same_rest info (set_size u c s info)"
    "\<And>a. a \<noteq> c \<Longrightarrow> a \<noteq> c + 8 + s \<Longrightarrow> cells (set_size u c s info) a = cells info a"
proof -
  have s: "s < 2 ^ 63" "24 \<le> s" using new(1) by (auto simp: sound_chunk_def)
  note eq = set_size_eq [OF s(1), of u c info]
  show frame: "cells (set_size u c s info) a = cells info a" if "a \<noteq> c" "a \<noteq> c + 8 + s" for a
    using that by (simp add: eq)
  show "same_rest info (set_size u c s info)" unfolding eq
    by (rule same_rest_trans [of _ "set_cell c (tag u s) info"]) (rule set_cell_simps)+
  have sep: "separate (insert (c, s, u) B)"
    using ok new unfolding store_ok_def separate_def by (auto simp: apart_def)
  have away: "x \<noteq> c" "x \<noteq> c + 8 + s" "x + 8 + t \<noteq> c" "x + 8 + t \<noteq> c + 8 + s"
      "x + 8 \<noteq> c" "x + 8 \<noteq> c + 8 + s" "x + 16 \<noteq> c" "x + 16 \<noteq> c + 8 + s" if "(x, t, v) \<in> B" for x t v
  proof -
    have "apart (c, s, u) (x, t, v)" using new(2) that by blast
    moreover have "24 \<le> t" using sep that sound_cells by blast
    ultimately show "x \<noteq> c" "x \<noteq> c + 8 + s" "x + 8 + t \<noteq> c" "x + 8 + t \<noteq> c + 8 + s"
      "x + 8 \<noteq> c" "x + 8 \<noteq> c + 8 + s" "x + 16 \<noteq> c" "x + 16 \<noteq> c + 8 + s"
      using s(2) unfolding apart_def prod.case by linarith+
  qed
  define m' where "m' = cells (set_size u c s info)"
  have bk: "buckets (set_size u c s info) = buckets info" by (simp add: eq)
  have "tagged m' (insert (c, s, u) B)"
  proof -
    have "m' x = tag v t \<and> m' (x + 8 + t) = tag v t" if "(x, t, v) \<in> B" for x t v
    proof -
      have "cells info x = tag v t" "cells info (x + 8 + t) = tag v t" using ok that unfolding store_ok_def tagged_def by blast+
      then show ?thesis unfolding m'_def by (simp only: frame away [OF that] not_False_eq_True simp_thms)
    qed
    moreover have "m' c = tag u s \<and> m' (c + 8 + s) = tag u s" unfolding m'_def eq by simp
    ultimately show ?thesis unfolding tagged_def by blast
  qed
  moreover have "\<exists>xs. bucket_list m' (buckets info) F i xs" if "i < 30" for i
  proof -
    obtain xs where xs: "bucket_list (cells info) (buckets info) F i xs" using ok \<open>i < 30\<close> unfolding store_ok_def by blast
    have "\<forall>x \<in> set xs. m' (x + 8) = cells info (x + 8) \<and> m' (x + 16) = cells info (x + 16)"
    proof
      fix x assume "x \<in> set xs"
      then obtain t where "(x, t, False) \<in> B" using bucket_list_members [OF ok xs] by blast
      from away [OF this] show "m' (x + 8) = cells info (x + 8) \<and> m' (x + 16) = cells info (x + 16)"
        unfolding m'_def by (simp only: frame not_False_eq_True simp_thms)
    qed
    from bucket_list_cong [OF xs refl this refl] show ?thesis by blast
  qed
  ultimately show "store_ok (set_size u c s info) (insert (c, s, u) B) F"
    using ok sep unfolding store_ok_def bk m'_def by blast
qed

subsection \<open>Linking a chunk\<close>

lemma free_chunk_member:
  assumes "store_ok info B F" "(c, s, u) \<in> B" "(c, t) \<in> F"
  shows "t = s \<and> \<not> u"
proof -
  have "separate B" "(c, t, False) \<in> B" using assms unfolding store_ok_def by blast+
  then show ?thesis using apart_cells [OF _ assms(2), of c t False] sound_cells [OF _ assms(2)] by auto
qed

lemma link_chunk_cells:
  assumes "store_ok info B F" "(c, s, False) \<in> B"
  defines "i \<equiv> mem_bucket_by_size s" and "h \<equiv> buckets info ! mem_bucket_by_size s"
  shows "cells (mem_link_chunk c info) =
      (\<lambda>a. if a = c + 16 then h else if a = c + 8 then 0 else if h \<noteq> 0 \<and> a = h + 8 then c else cells info a)"
    "buckets (mem_link_chunk c info) = (buckets info)[i := c]" "same_rest info (mem_link_chunk c info)"
proof -
  have i: "mem_bucket_by_size (CHUNK_SIZE info c) = i" using store_ok_chunk(1) [OF assms(1,2)] by (simp add: i_def)
  have link: "mem_link_chunk c info = set_bucket i c (set_cell (c + 16) h (set_cell (c + 8) 0
      (if h \<noteq> 0 then set_cell (h + 8) c info else info)))"
    unfolding mem_link_chunk_def Let_def i
    by (simp add: mem_set_prev_chunk_def mem_set_next_chunk_def addrs h_def i_def)
  show "cells (mem_link_chunk c info) =
      (\<lambda>a. if a = c + 16 then h else if a = c + 8 then 0 else if h \<noteq> 0 \<and> a = h + 8 then c else cells info a)"
    unfolding link by (rule ext) simp
  show "buckets (mem_link_chunk c info) = (buckets info)[i := c]" unfolding link by simp
  show "same_rest info (mem_link_chunk c info)" unfolding link by (simp add: same_rest_def set_bucket_def set_cell_def)
qed

lemma bucket_head:
  assumes "store_ok info B F" "bucket_list (cells info) (buckets info) F i xs"
  shows "buckets info ! i = (if xs = [] then 0 else hd xs)"
    and "buckets info ! i = 0 \<longleftrightarrow> xs = []"
proof -
  show h: "buckets info ! i = (if xs = [] then 0 else hd xs)"
    using assms(2) dseg_head unfolding bucket_list_def by blast
  have "hd xs \<noteq> 0" if ne: "xs \<noteq> []"
  proof -
    obtain s where "(hd xs, s, False) \<in> B" using bucket_list_members [OF assms hd_in_set [OF ne]] by blast
    then show ?thesis using assms(1) sound_cells unfolding store_ok_def by blast
  qed
  then show "buckets info ! i = 0 \<longleftrightarrow> xs = []" using h by auto
qed

lemma store_ok_link:
  assumes ok: "store_ok info B F" and c: "(c, s, False) \<in> B" "(c, s) \<notin> F"
  shows "store_ok (mem_link_chunk c info) B (insert (c, s) F)"
    "link_frame (insert c (fst ` F)) (cells info) (cells (mem_link_chunk c info))"
    "same_rest info (mem_link_chunk c info)"
proof -
  define i h m m' where "i = mem_bucket_by_size s" and "h = buckets info ! i" and "m = cells info"
    and "m' = cells (mem_link_chunk c info)"
  note link = link_chunk_cells [OF ok c(1), folded i_def, folded h_def m_def m'_def]
  have sep: "separate B" using ok by (simp add: store_ok_def)
  have i30: "i < 30" by (simp add: i_def bucket_less)
  have len: "length (buckets info) = 30" using ok by (simp add: store_ok_def)
  show "same_rest info (mem_link_chunk c info)" by (rule link(3))
  obtain xs where xs: "bucket_list m (buckets info) F i xs" using ok i30 unfolding store_ok_def m_def by blast
  note hd = bucket_head [OF ok xs [unfolded m_def], folded h_def]
  have cF: "(c, t) \<notin> F" for t using free_chunk_member [OF ok c(1)] c(2) by blast
  have FB: "(x, t, False) \<in> B" if "(x, t) \<in> F" for x t using ok that unfolding store_ok_def by blast
  have hF: "h \<noteq> 0 \<Longrightarrow> \<exists>t. (h, t) \<in> F"
    using hd bucket_list_members [OF ok xs, of h] by auto
  show frame: "link_frame (insert c (fst ` F)) m m'"
    unfolding link_frame_def link(1) using hF by force
  have "tagged m' B"
  proof (rule tagged_link_frame [OF sep _ frame])
    show "tagged m B" using ok by (simp add: store_ok_def m_def)
    show "\<forall>x \<in> insert c (fst ` F). \<exists>s u. (x, s, u) \<in> B" using c(1) FB by fastforce
  qed
  have keep: "m' (x + 8) = (if x = h then c else m (x + 8)) \<and> m' (x + 16) = m (x + 16)" if "(x, t) \<in> F" for x t
  proof -
    have xc: "x \<noteq> c" using cF that by blast
    have "x + 16 \<noteq> h + 8 \<and> (x \<noteq> h \<longrightarrow> x + 8 \<noteq> h + 8)" if h: "h \<noteq> 0"
    proof -
      obtain t' where "(h, t') \<in> F" using hF h by blast
      then show ?thesis using link_cells [OF sep FB FB, OF \<open>(x, t) \<in> F\<close>, of h t'] by fastforce
    qed
    moreover have "x \<noteq> 0" using sound_cells [OF sep FB [OF that]] by simp
    ultimately show ?thesis using link_cells [OF sep FB [OF that] c(1) xc] unfolding link(1) by auto
  qed
  have new: "bucket_list m' ((buckets info)[i := c]) (insert (c, s) F) i (c # xs)"
  proof -
    have "m' (c + 8) = 0" "m' (c + 16) = h" unfolding link(1) by simp_all
    moreover have "dseg m' c h xs 0"
    proof (cases xs)
      case Nil
      then show ?thesis using hd by simp
    next
      case (Cons x xs')
      have mem: "\<exists>t. (y, t) \<in> F" if "y \<in> set xs" for y using bucket_list_members [OF ok xs that] by blast
      have "dseg m 0 h (x # xs') 0" "distinct (x # xs')" using xs unfolding bucket_list_def Cons h_def by simp_all
      then have seg: "h = x" "dseg m x (m (x + 16)) xs' 0" "x \<notin> set xs'" by simp_all
      have "m' (x + 8) = c" "m' (x + 16) = m (x + 16)" using keep mem seg(1) Cons by fastforce+
      moreover have "dseg m' x (m (x + 16)) xs' 0"
        using seg keep mem Cons by (subst dseg_cong [of xs' m' m]) fastforce+
      ultimately show ?thesis using seg(1) Cons by simp
    qed
    moreover have "c \<notin> set xs" using bucket_list_members [OF ok xs] cF by blast
    ultimately show ?thesis using xs i30 len by (auto simp: bucket_list_def i_def)
  qed
  have "\<exists>ys. bucket_list m' ((buckets info)[i := c]) (insert (c, s) F) j ys" if j: "j < 30" for j
  proof (cases "j = i")
    case False
    obtain ys where ys: "bucket_list m (buckets info) F j ys" using ok j unfolding store_ok_def m_def by blast
    have "\<forall>y \<in> set ys. m' (y + 8) = m (y + 8) \<and> m' (y + 16) = m (y + 16)"
    proof
      fix y assume y: "y \<in> set ys"
      obtain t where t: "(y, t) \<in> F" "(y, t, False) \<in> B" "mem_bucket_by_size t = j" using bucket_list_members [OF ok ys y] by blast
      have "y \<noteq> h"
      proof
        assume "y = h"
        then have "h \<noteq> 0" using sound_cells [OF sep t(2)] by simp
        then have "h \<in> set xs" using hd by auto
        then obtain t' where "(h, t') \<in> F" "mem_bucket_by_size t' = i" using bucket_list_members [OF ok xs] by blast
        then show False using free_chunk_member [OF ok t(2)] \<open>y = h\<close> t(3) False by blast
      qed
      then show "m' (y + 8) = m (y + 8) \<and> m' (y + 16) = m (y + 16)" using keep [OF t(1)] by simp
    qed
    from bucket_list_cong [OF ys _ this, of "(buckets info)[i := c]" "insert (c, s) F"] show ?thesis
      using False by (auto simp: i_def)
  qed (use new in blast)
  then show "store_ok (mem_link_chunk c info) B (insert (c, s) F)"
    using \<open>tagged m' B\<close> sep len FB c(1) unfolding store_ok_def link(2) m'_def by auto
qed

subsection \<open>Unlinking a chunk\<close>

lemma unlink_chunk_cells:
  assumes "store_ok info B F" "(c, s, False) \<in> B"
  defines "i \<equiv> mem_bucket_by_size s" and "p \<equiv> cells info (c + 8)" and "n \<equiv> cells info (c + 16)"
  shows "cells (mem_unlink_chunk c info) =
      (\<lambda>a. if n \<noteq> 0 \<and> a = n + 8 then p else if p \<noteq> 0 \<and> a = p + 16 then n else cells info a)"
    "buckets (mem_unlink_chunk c info) = (if p \<noteq> 0 then buckets info else (buckets info)[i := n])"
    "same_rest info (mem_unlink_chunk c info)"
proof -
  have i: "mem_bucket_by_size (CHUNK_SIZE info c) = i" using store_ok_chunk(1) [OF assms(1,2)] by (simp add: i_def)
  have unlink: "mem_unlink_chunk c info =
      (let info = (if p \<noteq> 0 then set_cell (p + 16) n info else set_bucket i n info)
       in if n \<noteq> 0 then set_cell (n + 8) p info else info)"
    unfolding mem_unlink_chunk_def Let_def i
    by (simp add: mem_get_prev_chunk_def mem_get_next_chunk_def mem_ptr_to_next_field_def mem_ptr_to_prev_field_def
        addrs p_def n_def)
  show "cells (mem_unlink_chunk c info) =
      (\<lambda>a. if n \<noteq> 0 \<and> a = n + 8 then p else if p \<noteq> 0 \<and> a = p + 16 then n else cells info a)"
    unfolding unlink Let_def by (rule ext) simp
  show "buckets (mem_unlink_chunk c info) = (if p \<noteq> 0 then buckets info else (buckets info)[i := n])"
    unfolding unlink Let_def by simp
  show "same_rest info (mem_unlink_chunk c info)" unfolding unlink Let_def by (simp add: same_rest_def set_bucket_def set_cell_def)
qed

lemma store_ok_unlink:
  assumes ok: "store_ok info B F" and c: "(c, s) \<in> F"
  shows "store_ok (mem_unlink_chunk c info) B (F - {(c, s)})"
    "link_frame (fst ` F) (cells info) (cells (mem_unlink_chunk c info))"
    "same_rest info (mem_unlink_chunk c info)"
proof -
  have FB: "(x, t, False) \<in> B" if "(x, t) \<in> F" for x t using ok that unfolding store_ok_def by blast
  have sep: "separate B" and len: "length (buckets info) = 30" using ok by (simp_all add: store_ok_def)
  define i m m' p n where "i = mem_bucket_by_size s" and "m = cells info" and "m' = cells (mem_unlink_chunk c info)"
    and "p = m (c + 8)" and "n = m (c + 16)"
  note unlink = unlink_chunk_cells [OF ok FB [OF c], folded i_def m_def, folded p_def n_def m'_def]
  show "same_rest info (mem_unlink_chunk c info)" by (rule unlink(3))
  have i30: "i < 30" by (simp add: i_def bucket_less)
  obtain xs where xs: "bucket_list m (buckets info) F i xs" using ok i30 unfolding store_ok_def m_def by blast
  note mem = bucket_list_members [OF ok xs]
  have "c \<in> set xs" using xs c unfolding bucket_list_def i_def by blast
  then obtain ys zs where split: "xs = ys @ c # zs" by (meson split_list)
  have dist: "c \<notin> set ys" "c \<notin> set zs" "set ys \<inter> set zs = {}" "distinct ys" "distinct zs"
    using xs unfolding bucket_list_def split by auto
  have seg: "dseg m 0 (buckets info ! i) ys c" "p = (if ys = [] then 0 else last ys)" "dseg m c n zs 0"
    using xs unfolding bucket_list_def split dseg_append p_def n_def by auto
  have n: "n = (if zs = [] then 0 else hd zs)" using dseg_head [OF seg(3)] .
  have nz: "x \<noteq> 0" if "x \<in> set xs" for x using mem [OF that] sound_cells [OF sep] by blast
  have p0: "p = 0 \<longleftrightarrow> ys = []" using seg(2) nz split by auto
  have n0: "n = 0 \<longleftrightarrow> zs = []" using n nz split by auto
  have mF: "\<exists>t. (x, t) \<in> F" if "x \<in> set xs" for x using mem [OF that] by blast
  have pF: "p \<noteq> 0 \<Longrightarrow> \<exists>t. (p, t) \<in> F" using seg(2) p0 split by (auto intro!: mF)
  have nF: "n \<noteq> 0 \<Longrightarrow> \<exists>t. (n, t) \<in> F" using n n0 split by (auto intro!: mF)
  show frame: "link_frame (fst ` F) m m'"
    unfolding link_frame_def unlink(1) using pF nF by force
  have tag: "tagged m' B"
  proof (rule tagged_link_frame [OF sep _ frame])
    show "tagged m B" using ok by (simp add: store_ok_def m_def)
    show "\<forall>x \<in> fst ` F. \<exists>s u. (x, s, u) \<in> B" using FB by fastforce
  qed
  have keep: "m' (x + 8) = (if n \<noteq> 0 \<and> x = n then p else m (x + 8)) \<and>
      m' (x + 16) = (if p \<noteq> 0 \<and> x = p then n else m (x + 16))" if x: "(x, t) \<in> F" for x t
  proof -
    have d: "x + 8 \<noteq> y + 16 \<and> x + 16 \<noteq> y + 8 \<and> (x + 8 = y + 8 \<longleftrightarrow> x = y) \<and> (x + 16 = y + 16 \<longleftrightarrow> x = y)" if y: "\<exists>t. (y, t) \<in> F" for y
      using y link_cells [OF sep FB [OF x] FB, of y] by (cases "x = y") auto
    show ?thesis unfolding unlink(1) using d pF nF by (cases "p = 0"; cases "n = 0") auto
  qed
  have new: "bucket_list m' (buckets (mem_unlink_chunk c info)) (F - {(c, s)}) i (ys @ zs)"
  proof -
    define h where "h = buckets (mem_unlink_chunk c info) ! i"
    have h: "h = (if ys = [] then n else buckets info ! i)" using i30 len p0 by (auto simp: h_def unlink(2))
    have "dseg m' 0 h ys n"
    proof (cases ys rule: rev_cases)
      case Nil
      then show ?thesis using h by simp
    next
      case (snoc as a)
      have "dseg m 0 h (as @ [a]) c" using seg(1) h snoc by simp
      then obtain "dseg m 0 h as a" "m (a + 8) = (if as = [] then 0 else last as)" by (auto simp: dseg_append)
      moreover have "a = p" "p \<noteq> 0" using seg(2) p0 snoc by simp_all
      moreover have aF: "\<exists>t. (a, t) \<in> F" using mF split snoc by simp
      moreover have "n \<noteq> 0 \<longrightarrow> a \<noteq> n" using n n0 dist(3) snoc by (cases zs) auto
      moreover have "dseg m' 0 h as a = dseg m 0 h as a"
      proof (rule dseg_cong, rule ballI)
        fix x assume x: "x \<in> set as"
        then have "x \<noteq> p" "n \<noteq> 0 \<longrightarrow> x \<noteq> n" using \<open>a = p\<close> dist snoc n n0 by (auto split: if_splits)
        moreover obtain t where "(x, t) \<in> F" using mF [of x] x split snoc by auto
        ultimately show "m' (x + 8) = m (x + 8) \<and> m' (x + 16) = m (x + 16)" using keep by auto
      qed
      ultimately show ?thesis using keep unfolding snoc dseg_append by auto
    qed
    moreover have "dseg m' p n zs 0"
    proof (cases zs)
      case Nil
      then show ?thesis using n by simp
    next
      case (Cons z zs')
      have z: "n = z" "n \<noteq> 0" using n n0 Cons by simp_all
      then have s: "dseg m z (m (z + 16)) zs' 0" using seg(3) Cons by simp
      obtain t where zF: "(z, t) \<in> F" using mF [of z] split Cons by auto
      have pz: "p \<noteq> 0 \<longrightarrow> x \<noteq> p" if "x \<in> set zs" for x using seg(2) p0 dist(3) that by (cases ys rule: rev_cases) auto
      have "dseg m' z (m (z + 16)) zs' 0 = dseg m z (m (z + 16)) zs' 0"
      proof (rule dseg_cong, rule ballI)
        fix x assume x: "x \<in> set zs'"
        then have "x \<noteq> n" using z dist(5) Cons by auto
        moreover obtain t where "(x, t) \<in> F" using mF [of x] x split Cons by auto
        ultimately show "m' (x + 8) = m (x + 8) \<and> m' (x + 16) = m (x + 16)" using keep pz [of x] x Cons by auto
      qed
      then show ?thesis using s keep [OF zF] z pz [of z] Cons by auto
    qed
    moreover have "set (ys @ zs) = {x. \<exists>t. (x, t) \<in> F - {(c, s)} \<and> mem_bucket_by_size t = i}"
    proof -
      have "set xs = {x. \<exists>t. (x, t) \<in> F \<and> mem_bucket_by_size t = i}" using xs by (simp add: bucket_list_def)
      moreover have "set (ys @ zs) = set xs - {c}" using split dist by auto
      moreover have "(c, t) \<in> F \<Longrightarrow> t = s" for t using free_chunk_member [OF ok FB [OF c]] by blast
      ultimately show ?thesis by auto
    qed
    ultimately show ?thesis
      using dist p0 seg(2) unfolding bucket_list_def dseg_append h_def by auto
  qed
  have "\<exists>ys. bucket_list m' (buckets (mem_unlink_chunk c info)) (F - {(c, s)}) j ys" if j: "j < 30" for j
  proof (cases "j = i")
    case False
    obtain ys where ys: "bucket_list m (buckets info) F j ys" using ok j unfolding store_ok_def m_def by blast
    have "\<forall>y \<in> set ys. m' (y + 8) = m (y + 8) \<and> m' (y + 16) = m (y + 16)"
    proof
      fix y assume y: "y \<in> set ys"
      obtain t where t: "(y, t) \<in> F" "(y, t, False) \<in> B" "mem_bucket_by_size t = j" using bucket_list_members [OF ok ys y] by blast
      have "y \<notin> set xs"
      proof
        assume "y \<in> set xs"
        then obtain t' where "(y, t') \<in> F" "mem_bucket_by_size t' = i" using mem by blast
        then show False using free_chunk_member [OF ok t(2)] t(3) False by blast
      qed
      then have "p \<noteq> 0 \<longrightarrow> y \<noteq> p" "n \<noteq> 0 \<longrightarrow> y \<noteq> n" using seg(2) n p0 n0 split by auto
      then show "m' (y + 8) = m (y + 8) \<and> m' (y + 16) = m (y + 16)" using keep [OF t(1)] by auto
    qed
    moreover have "buckets (mem_unlink_chunk c info) ! j = buckets info ! j" using False by (simp add: unlink(2))
    moreover have "{x. \<exists>t. (x, t) \<in> F - {(c, s)} \<and> mem_bucket_by_size t = j} = {x. \<exists>t. (x, t) \<in> F \<and> mem_bucket_by_size t = j}"
      using False by (auto simp: i_def)
    ultimately show ?thesis using bucket_list_cong [OF ys] by blast
  qed (use new in blast)
  moreover have "length (buckets (mem_unlink_chunk c info)) = 30" using len by (simp add: unlink(2))
  ultimately show "store_ok (mem_unlink_chunk c info) B (F - {(c, s)})"
    using tag sep FB unfolding store_ok_def m'_def by blast
qed

end
