(* ===== verification/Shmem_Heap.thy ===== *)
theory Shmem_Heap
  imports Shmem_Inv
begin

text \<open>
  The layout of the segment as a list of sizes with a used flag, the invariant of the whole heap, and
  the effect of the allocation, release and reallocation on it.
\<close>

subsection \<open>Layout\<close>

type_synonym layout = "(nat \<times> bool) list"

fun blocks :: "nat \<Rightarrow> layout \<Rightarrow> chunk list" where
  "blocks a [] = []"
| "blocks a ((s, u) # bs) = (a, s, u) # blocks (a + s + 16) bs"

fun span :: "layout \<Rightarrow> nat" where
  "span [] = 0"
| "span ((s, u) # bs) = s + 16 + span bs"

definition chunks_of :: "shmem_info \<Rightarrow> layout \<Rightarrow> chunk set" where
  "chunks_of info bs = set (blocks (lo_bound info) bs)"

definition free_of :: "chunk set \<Rightarrow> (nat \<times> nat) set" where
  "free_of B = {(c, s). (c, s, False) \<in> B}"

definition sized :: "bool \<Rightarrow> layout \<Rightarrow> nat" where
  "sized u bs = sum_list (map fst (filter (\<lambda>b. snd b = u) bs))"

definition coalesced :: "layout \<Rightarrow> bool" where
  "coalesced bs \<longleftrightarrow> successively (\<lambda>x y. snd x \<or> snd y) bs"

definition sizes_ok :: "layout \<Rightarrow> bool" where
  "sizes_ok bs \<longleftrightarrow> (\<forall>(s, u) \<in> set bs. 24 \<le> s \<and> 8 dvd s)"

definition geometry :: "shmem_info \<Rightarrow> layout \<Rightarrow> bool" where
  "geometry info bs \<longleftrightarrow> bs \<noteq> [] \<and> sizes_ok bs \<and> 0 < lo_bound info \<and> 8 dvd lo_bound info \<and>
     hi_bound info = lo_bound info + span bs \<and> hi_bound info < 2 ^ 60 \<and> total_size info + 16 = span bs"

definition heap_inv :: "shmem_info \<Rightarrow> layout \<Rightarrow> bool" where
  "heap_inv info bs \<longleftrightarrow> store_ok info (chunks_of info bs) (free_of (chunks_of info bs)) \<and> geometry info bs \<and>
     coalesced bs \<and> used_size info = sized True bs \<and> free_size info = sized False bs"

lemma span_append [simp]: "span (xs @ ys) = span xs + span ys"
  by (induction xs rule: span.induct) simp_all

lemma blocks_append: "blocks a (xs @ ys) = blocks a xs @ blocks (a + span xs) ys"
  by (induction xs arbitrary: a rule: span.induct) (simp_all add: ac_simps)

lemma sized_simps [simp]:
  "sized u [] = 0" "sized u ((s, v) # bs) = (if u = v then s else 0) + sized u bs" "sized u (xs @ ys) = sized u xs + sized u ys"
  by (simp_all add: sized_def)

lemma sized_le_span: "sized u bs \<le> span bs"
  by (induction bs rule: span.induct) auto

lemma sizes_ok_simps [simp]:
  "sizes_ok []" "sizes_ok ((s, u) # bs) \<longleftrightarrow> 24 \<le> s \<and> 8 dvd s \<and> sizes_ok bs" "sizes_ok (xs @ ys) \<longleftrightarrow> sizes_ok xs \<and> sizes_ok ys"
  by (auto simp: sizes_ok_def)

lemma blocks_range: "(c, s, u) \<in> set (blocks a bs) \<Longrightarrow> a \<le> c \<and> c + s + 16 \<le> a + span bs"
  by (induction bs arbitrary: a rule: span.induct) fastforce+

lemma blocks_split:
  "(c, s, u) \<in> set (blocks a bs) \<longleftrightarrow> (\<exists>pre post. bs = pre @ (s, u) # post \<and> c = a + span pre)"
proof
  show "(c, s, u) \<in> set (blocks a bs) \<Longrightarrow> \<exists>pre post. bs = pre @ (s, u) # post \<and> c = a + span pre"
  proof (induction bs arbitrary: a rule: span.induct)
    case (2 t v bs)
    then consider "c = a" "s = t" "u = v" | "(c, s, u) \<in> set (blocks (a + t + 16) bs)" by auto
    then show ?case
    proof cases
      case 2
      from "2.IH" [OF this] obtain pre post where "bs = pre @ (s, u) # post" "c = a + t + 16 + span pre" by blast
      then show ?thesis by (intro exI [of _ "(t, v) # pre"] exI [of _ post]) simp
    next
      case 1
      then have "(t, v) # bs = [] @ (s, u) # bs" "c = a + span []" by simp_all
      then show ?thesis by blast
    qed
  qed simp
qed (auto simp: blocks_append)

lemma blocks_sizes: "sizes_ok bs \<Longrightarrow> (c, s, u) \<in> set (blocks a bs) \<Longrightarrow> 24 \<le> s \<and> 8 dvd s"
  by (auto simp: blocks_split)

lemma blocks_dvd: "sizes_ok bs \<Longrightarrow> 8 dvd a \<Longrightarrow> (c, s, u) \<in> set (blocks a bs) \<Longrightarrow> 8 dvd c"
proof (induction bs arbitrary: a rule: span.induct)
  case (2 t v bs)
  have t: "8 dvd t" "sizes_ok bs" using "2.prems"(1) by simp_all
  have "8 dvd a + t + 16" using "2.prems"(2) t(1) by (intro dvd_add) simp_all
  from "2.IH" [OF t(2) this] show ?case using "2.prems" by auto
qed simp

lemma blocks_apart:
  assumes "x \<in> set (blocks a xs)" "y \<in> set (blocks (a + span xs + n) ys)"
  shows "apart x y"
proof -
  obtain c s u d t v where "x = (c, s, u)" "y = (d, t, v)" by (cases x; cases y)
  then show ?thesis using blocks_range [of c s u a xs] blocks_range [of d t v "a + span xs + n" ys] assms by (auto simp: apart_def)
qed

lemma apart_sym: "apart x y \<longleftrightarrow> apart y x"
  by (auto simp: apart_def split: prod.splits)

lemma free_of_simps [simp]:
  "free_of {} = {}" "free_of (insert (c, s, True) B) = free_of B" "free_of (insert (c, s, False) B) = insert (c, s) (free_of B)"
  "free_of (A \<union> B) = free_of A \<union> free_of B" "(c, s) \<in> free_of B \<longleftrightarrow> (c, s, False) \<in> B"
  by (auto simp: free_of_def)

subsection \<open>The search for a free chunk\<close>

declare first_fit.simps [simp del]

lemma first_fit_correct:
  "\<lbrakk>store_ok info B F; dseg (cells info) prev p xs 0; \<forall>x \<in> set xs. \<exists>s. (x, s) \<in> F\<rbrakk> \<Longrightarrow>
   \<exists>c. first_fit info n p = Some c \<and>
     (c = 0 \<and> (\<forall>x \<in> set xs. CHUNK_SIZE info x < n) \<or> c \<in> set xs \<and> n \<le> CHUNK_SIZE info c)"
proof (induction xs arbitrary: prev p)
  case Nil
  then show ?case by (simp add: first_fit.simps)
next
  case (Cons x xs)
  obtain s where "(x, s) \<in> F" using Cons.prems(3) by auto
  then have "(x, s, False) \<in> B" using Cons.prems(1) unfolding store_ok_def by blast
  then have x: "x \<noteq> 0" "p = x" using store_ok_chunk [OF Cons.prems(1)] Cons.prems(2) by auto
  show ?case
  proof (cases "CHUNK_SIZE info x < n")
    case True
    have "first_fit info n p = first_fit info n (cells info (x + 16))"
      using x True by (subst first_fit.simps) (simp add: mem_get_next_chunk_def addrs)
    moreover have "\<exists>c. first_fit info n (cells info (x + 16)) = Some c \<and>
     (c = 0 \<and> (\<forall>x \<in> set xs. CHUNK_SIZE info x < n) \<or> c \<in> set xs \<and> n \<le> CHUNK_SIZE info c)"
      by (rule Cons.IH) (use Cons.prems in auto)
    ultimately show ?thesis using True by auto
  next
    case False
    then show ?thesis using x by (intro exI [of _ x], subst first_fit.simps) simp
  qed
qed

lemma bucket_search_correct:
  "i + left \<ge> 29 \<Longrightarrow> i \<le> 29 \<Longrightarrow> (let k = bucket_search info i left in
     i \<le> k \<and> k \<le> 29 \<and> (k = 29 \<or> buckets info ! k \<noteq> 0) \<and> (\<forall>j. i \<le> j \<and> j < k \<longrightarrow> buckets info ! j = 0))"
proof (induction info i left rule: bucket_search.induct)
  case (2 info i left)
  show ?case
  proof (cases "i < 29 \<and> buckets info ! i = 0")
    case True
    then have "let k = bucket_search info (i + 1) left in
     i + 1 \<le> k \<and> k \<le> 29 \<and> (k = 29 \<or> buckets info ! k \<noteq> 0) \<and> (\<forall>j. i + 1 \<le> j \<and> j < k \<longrightarrow> buckets info ! j = 0)"
      using 2 by (simp add: bucket_count)
    moreover have "i \<le> j \<longleftrightarrow> j = i \<or> i + 1 \<le> j" for j by auto
    ultimately show ?thesis using True by (auto simp: Let_def bucket_count)
  qed (use 2 in \<open>auto simp: Let_def bucket_count\<close>)
qed simp

definition find_chunk :: "shmem_info \<Rightarrow> nat \<Rightarrow> nat option" where
  "find_chunk info n =
     (let index = bucket_search info (mem_bucket_by_size n) ZBX_SHMEM_BUCKET_COUNT;
          chunk = buckets info ! index
      in if index = ZBX_SHMEM_BUCKET_COUNT - 1 then first_fit info n chunk else Some chunk)"

lemma bucket_mono: "8 dvd s \<Longrightarrow> 8 dvd n \<Longrightarrow> 24 \<le> s \<Longrightarrow> n \<le> s \<Longrightarrow> mem_bucket_by_size n \<le> mem_bucket_by_size s"
  by (auto simp: bucket_eq div_le_mono diff_le_mono)

lemma bucket_fits: "\<lbrakk>8 dvd s; 8 dvd n; 24 \<le> s; 24 \<le> n; mem_bucket_by_size n \<le> mem_bucket_by_size s; mem_bucket_by_size s < 29\<rbrakk> \<Longrightarrow> n \<le> s"
  by (auto simp: bucket_eq dvd_def split: if_splits)

lemma find_chunk_correct:
  assumes ok: "store_ok info B F" and sizes: "\<forall>(c, s) \<in> F. 24 \<le> s \<and> 8 dvd s" and n: "24 \<le> n" "8 dvd n"
  shows "\<exists>c. find_chunk info n = Some c \<and> (c = 0 \<and> (\<forall>(c, s) \<in> F. s < n) \<or> c \<noteq> 0 \<and> (\<exists>s. (c, s) \<in> F \<and> n \<le> s))"
proof -
  define i k where "i = mem_bucket_by_size n" and "k = bucket_search info i 30"
  have i: "i \<le> 29" using bucket_less [of n] by (simp add: i_def)
  have k: "i \<le> k" "k \<le> 29" "k = 29 \<or> buckets info ! k \<noteq> 0" "\<And>j. i \<le> j \<Longrightarrow> j < k \<Longrightarrow> buckets info ! j = 0"
    using bucket_search_correct [of i 30 info] i by (auto simp: k_def Let_def)
  have k30: "k < 30" using k(2) by simp
  obtain xs where xs: "bucket_list (cells info) (buckets info) F k xs" using ok k30 unfolding store_ok_def by blast
  have mem: "x \<in> set xs \<longleftrightarrow> (\<exists>s. (x, s) \<in> F \<and> mem_bucket_by_size s = k)" for x using xs by (auto simp: bucket_list_def)
  have size: "CHUNK_SIZE info x = s" "x \<noteq> 0" if "(x, s) \<in> F" for x s
    using that ok store_ok_chunk [OF ok, of x s False] unfolding store_ok_def by auto
  have small: "s < n" if "(c, s) \<in> F" "mem_bucket_by_size s < k" for c s
  proof (rule ccontr)
    assume "\<not> s < n"
    then have "i \<le> mem_bucket_by_size s" using sizes that n bucket_mono [of s n] unfolding i_def by fastforce
    then have "buckets info ! mem_bucket_by_size s = 0" using k(4) that by blast
    moreover obtain ys where ys: "bucket_list (cells info) (buckets info) F (mem_bucket_by_size s) ys"
      using ok bucket_less unfolding store_ok_def by blast
    ultimately have "ys = []" using bucket_head(2) [OF ok ys] by simp
    moreover have "c \<in> set ys" using ys that by (auto simp: bucket_list_def)
    ultimately show False by simp
  qed
  have find: "find_chunk info n = (if k = 29 then first_fit info n (buckets info ! k) else Some (buckets info ! k))"
    by (simp add: find_chunk_def bucket_count Let_def k_def i_def)
  show ?thesis
  proof (cases "k = 29")
    case True
    obtain c where c: "first_fit info n (buckets info ! k) = Some c"
      "c = 0 \<and> (\<forall>x \<in> set xs. CHUNK_SIZE info x < n) \<or> c \<in> set xs \<and> n \<le> CHUNK_SIZE info c"
      using first_fit_correct [OF ok, of 0 "buckets info ! k" xs n] xs mem unfolding bucket_list_def by blast
    from c(2) show ?thesis
    proof
      assume z: "c = 0 \<and> (\<forall>x \<in> set xs. CHUNK_SIZE info x < n)"
      have "s < n" if "(x, s) \<in> F" for x s
      proof (cases "mem_bucket_by_size s = k")
        case True
        then show ?thesis using z mem size(1) that by blast
      next
        case False
        then show ?thesis using small that True bucket_less [of s] by simp
      qed
      then show ?thesis using find c(1) True z by auto
    next
      assume "c \<in> set xs \<and> n \<le> CHUNK_SIZE info c"
      then obtain s where "(c, s) \<in> F" "n \<le> s" using mem size by blast
      then show ?thesis using find c(1) True size(2) [of c s] by auto
    qed
  next
    case False
    define c where "c = buckets info ! k"
    have c0: "c \<noteq> 0" using False k(3) by (simp add: c_def)
    then have "c \<in> set xs" using bucket_head [OF ok xs] by (auto simp: c_def split: if_splits)
    then obtain s where s: "(c, s) \<in> F" "mem_bucket_by_size s = k" using mem by blast
    then have "n \<le> s" using bucket_fits [of s n] sizes n k(1,2) False by (fastforce simp: i_def)
    then show ?thesis using find False s c0 by (auto simp: c_def)
  qed
qed

subsection \<open>Replacing a part of the layout\<close>

definition rest_chunks :: "nat \<Rightarrow> layout \<Rightarrow> nat \<Rightarrow> layout \<Rightarrow> chunk set" where
  "rest_chunks lo pre n post = set (blocks lo pre) \<union> set (blocks (lo + span pre + n) post)"

lemma chunks_of_middle:
  "chunks_of info (pre @ mid @ post) = set (blocks (lo_bound info + span pre) mid) \<union> rest_chunks (lo_bound info) pre (span mid) post"
  by (auto simp: chunks_of_def blocks_append rest_chunks_def ac_simps)

lemma region_apart:
  assumes "lo + span pre \<le> c" "c + s + 16 \<le> lo + span pre + n" "x \<in> rest_chunks lo pre n post"
  shows "apart (c, s, u) x"
proof -
  obtain d t v where x: "x = (d, t, v)" by (cases x)
  then have "d + t + 16 \<le> lo + span pre \<or> lo + span pre + n \<le> d"
    using assms(3) blocks_range unfolding rest_chunks_def by blast
  then show ?thesis using assms(1,2) unfolding x apart_def prod.case by linarith
qed

lemma middle_disjoint:
  assumes "x \<in> set (blocks (lo + span pre) mid)" "span mid \<le> n"
  shows "x \<notin> rest_chunks lo pre n post"
proof
  assume "x \<in> rest_chunks lo pre n post"
  moreover obtain c s u where x: "x = (c, s, u)" by (cases x)
  ultimately have "apart (c, s, u) (c, s, u)"
    using region_apart [of lo pre c s n x post u] blocks_range [of c s u "lo + span pre" mid] assms by auto
  then show False by (simp add: apart_def)
qed

text \<open>With the free chunks of the middle out of their lists, the middle can be given up.\<close>

lemma store_ok_middle:
  assumes "store_ok info (chunks_of info (pre @ mid @ post)) F"
    and "F = free_of (chunks_of info (pre @ mid @ post)) - free_of (set (blocks (lo_bound info + span pre) mid))"
  shows "store_ok info (rest_chunks (lo_bound info) pre (span mid) post)
    (free_of (rest_chunks (lo_bound info) pre (span mid) post))"
proof -
  let ?R = "rest_chunks (lo_bound info) pre (span mid) post"
  have F: "F = free_of ?R"
    unfolding assms(2) chunks_of_middle free_of_simps
    using middle_disjoint [of _ "lo_bound info" pre mid "span mid" post] by (auto simp: free_of_def)
  show ?thesis using store_ok_forget [OF assms(1), of ?R] unfolding F chunks_of_middle by (auto simp: free_of_def)
qed

lemma separate_blocks:
  assumes "sizes_ok bs" "0 < a" "a + span bs < 2 ^ 60"
  shows "separate (set (blocks a bs))"
  unfolding separate_def
proof (intro conjI ballI impI)
  fix x assume "x \<in> set (blocks a bs)"
  moreover obtain c s u where "x = (c, s, u)" by (cases x)
  ultimately show "sound_chunk x"
    using blocks_range [of c s u a bs] blocks_sizes [OF assms(1), of c s u a] assms(2,3) by (auto simp: sound_chunk_def)
next
  fix x y assume "x \<in> set (blocks a bs)" "y \<in> set (blocks a bs)" "x \<noteq> y"
  then show "apart x y"
  proof (induction bs arbitrary: a rule: span.induct)
    case (2 t v bs)
    have first: "apart (a, t, v) z" "apart z (a, t, v)" if "z \<in> set (blocks (a + t + 16) bs)" for z
    proof -
      obtain d r w where z: "z = (d, r, w)" by (cases z)
      then have "a + t + 16 \<le> d" using that blocks_range by blast
      then show "apart (a, t, v) z" "apart z (a, t, v)" by (simp_all add: z apart_def)
    qed
    show ?case using "2.IH" [of "a + t + 16"] "2.prems" first [of x] first [of y] by auto
  qed simp
qed

lemma geometry_replace:
  assumes "geometry info (pre @ mid @ post)" "span mid' = span mid" "mid' \<noteq> []" "sizes_ok mid'" 
    and "lo_bound info' = lo_bound info" "hi_bound info' = hi_bound info" "total_size info' = total_size info"
  shows "geometry info' (pre @ mid' @ post)"
  using assms by (auto simp: geometry_def)

subsection \<open>Use a chunk or split it\<close>

definition split_layout :: "nat \<Rightarrow> nat \<Rightarrow> layout" where
  "split_layout s n = (if s < n + 40 then [(s, True)] else [(n, True), (s - n - 16, False)])"

lemma span_split_layout: "n \<le> s \<Longrightarrow> span (split_layout s n) = s + 16"
  by (auto simp: split_layout_def)

lemma sizes_split_layout: "\<lbrakk>24 \<le> n; 8 dvd n; n \<le> s; 8 dvd s\<rbrakk> \<Longrightarrow> sizes_ok (split_layout s n)"
proof -
  assume a: "24 \<le> n" "8 dvd n" "n \<le> s" "8 dvd s"
  then have "8 dvd s - n - 16" by (intro dvd_diff_nat) simp_all
  then show ?thesis using a by (auto simp: split_layout_def)
qed

definition same_fixed :: "shmem_info \<Rightarrow> shmem_info \<Rightarrow> bool" where
  "same_fixed info info' \<longleftrightarrow> lo_bound info' = lo_bound info \<and> hi_bound info' = hi_bound info \<and>
     total_size info' = total_size info \<and> orig_size info' = orig_size info \<and> allow_oom info' = allow_oom info"

lemma counter_simps [simp]:
  "cells (add_used n info) = cells info" "cells (sub_used n info) = cells info"
  "cells (add_free n info) = cells info" "cells (sub_free n info) = cells info"
  "lo_bound (add_used n info) = lo_bound info" "lo_bound (sub_used n info) = lo_bound info"
  "lo_bound (add_free n info) = lo_bound info" "lo_bound (sub_free n info) = lo_bound info"
  "hi_bound (add_used n info) = hi_bound info" "hi_bound (sub_used n info) = hi_bound info"
  "hi_bound (add_free n info) = hi_bound info" "hi_bound (sub_free n info) = hi_bound info"
  "total_size (add_used n info) = total_size info" "total_size (sub_used n info) = total_size info"
  "total_size (add_free n info) = total_size info" "total_size (sub_free n info) = total_size info"
  "orig_size (add_used n info) = orig_size info" "orig_size (sub_used n info) = orig_size info"
  "orig_size (add_free n info) = orig_size info" "orig_size (sub_free n info) = orig_size info"
  "allow_oom (add_used n info) = allow_oom info" "allow_oom (sub_used n info) = allow_oom info"
  "allow_oom (add_free n info) = allow_oom info" "allow_oom (sub_free n info) = allow_oom info"
  by (simp_all add: add_used_def sub_used_def add_free_def sub_free_def)

lemma counter_values [simp]:
  "used_size (add_used n info) = add64 (used_size info) n" "free_size (add_used n info) = free_size info"
  "used_size (sub_used n info) = sub64 (used_size info) n" "free_size (sub_used n info) = free_size info"
  "free_size (add_free n info) = add64 (free_size info) n" "used_size (add_free n info) = used_size info"
  "free_size (sub_free n info) = sub64 (free_size info) n" "used_size (sub_free n info) = used_size info"
  by (simp_all add: add_used_def sub_used_def add_free_def sub_free_def)

lemma counter_chunks [simp]:
  "CHUNK_SIZE (add_used n info) = CHUNK_SIZE info" "CHUNK_SIZE (sub_used n info) = CHUNK_SIZE info"
  "CHUNK_SIZE (add_free n info) = CHUNK_SIZE info" "CHUNK_SIZE (sub_free n info) = CHUNK_SIZE info"
  by (auto simp: CHUNK_SIZE_def)

lemma off_rest:
  assumes "store_ok info B F" "off F a" "link_frame (fst ` F) (cells info) m'"
  shows "m' a = cells info a"
proof (rule link_frame_off [OF assms(3,2)])
  show "\<forall>x \<in> fst ` F. \<exists>s. (x, s) \<in> F \<and> 24 \<le> s"
    using assms(1) sound_cells unfolding store_ok_def by fastforce
qed

text \<open>The counters do not matter for the chunks.\<close>

lemma set_size_counters [simp]:
  "set_size u c s (add_used n info) = add_used n (set_size u c s info)"
  "set_size u c s (sub_used n info) = sub_used n (set_size u c s info)"
  "set_size u c s (add_free n info) = add_free n (set_size u c s info)"
  "set_size u c s (sub_free n info) = sub_free n (set_size u c s info)"
  by (simp_all add: set_size_def mem_set_used_chunk_size_def mem_set_chunk_size_def set_cell_def
      add_used_def sub_used_def add_free_def sub_free_def)

lemma link_counters [simp]:
  "mem_link_chunk c (add_used n info) = add_used n (mem_link_chunk c info)"
  "mem_link_chunk c (sub_used n info) = sub_used n (mem_link_chunk c info)"
  "mem_link_chunk c (add_free n info) = add_free n (mem_link_chunk c info)"
  "mem_link_chunk c (sub_free n info) = sub_free n (mem_link_chunk c info)"
  by (simp_all add: mem_link_chunk_def Let_def mem_set_prev_chunk_def mem_set_next_chunk_def set_cell_def set_bucket_def
      CHUNK_SIZE_def add_used_def sub_used_def add_free_def sub_free_def)

lemma unlink_counters [simp]:
  "mem_unlink_chunk c (add_used n info) = add_used n (mem_unlink_chunk c info)"
  "mem_unlink_chunk c (sub_used n info) = sub_used n (mem_unlink_chunk c info)"
  "mem_unlink_chunk c (add_free n info) = add_free n (mem_unlink_chunk c info)"
  "mem_unlink_chunk c (sub_free n info) = sub_free n (mem_unlink_chunk c info)"
  by (simp_all add: mem_unlink_chunk_def Let_def mem_get_prev_chunk_def mem_get_next_chunk_def mem_ptr_to_next_field_def
      mem_ptr_to_prev_field_def set_cell_def set_bucket_def CHUNK_SIZE_def add_used_def sub_used_def add_free_def sub_free_def)

lemma set_chunk_size_eq: "mem_set_chunk_size c s info = set_size False c s info" "mem_set_used_chunk_size c s info = set_size True c s info"
  by (simp_all add: set_size_def)

text \<open>A free chunk is made of a free region.\<close>

lemma release_region:
  assumes ok: "store_ok info R (free_of R)" and ap: "\<forall>x \<in> R. apart (d, t, False) x" and snd: "sound_chunk (d, t, False)"
  defines "info' \<equiv> mem_link_chunk d (set_size False d t info)"
  shows "store_ok info' (insert (d, t, False) R) (insert (d, t) (free_of R))" "same_rest info info'"
    "\<And>a. off (free_of R) a \<Longrightarrow> a < d \<or> d + t + 16 \<le> a \<Longrightarrow> cells info' a = cells info a"
proof -
  define j1 where "j1 = set_size False d t info"
  have t: "24 \<le> t" using snd by (simp add: sound_chunk_def)
  note S1 = store_ok_set_size [OF ok snd ap, folded j1_def]
  have "(d, t) \<notin> free_of R" using ap t by (fastforce simp: apart_def)
  then have S2: "store_ok info' (insert (d, t, False) R) (insert (d, t) (free_of R))"
    "link_frame (insert d (fst ` free_of R)) (cells j1) (cells info')" "same_rest j1 info'"
    unfolding info'_def j1_def [symmetric] using store_ok_link [OF S1(1), of d t] by simp_all
  show "store_ok info' (insert (d, t, False) R) (insert (d, t) (free_of R))" by (rule S2)
  show "same_rest info info'" using same_rest_trans [OF S1(2) S2(3)] .
  show "cells info' a = cells info a" if a: "off (free_of R) a" "a < d \<or> d + t + 16 \<le> a" for a
  proof -
    have offd: "off (insert (d, t) (free_of R)) a" using a by (auto simp: off_def)
    have "cells info' a = cells j1 a"
    proof (rule link_frame_off [OF S2(2) offd])
      show "\<forall>x \<in> insert d (fst ` free_of R). \<exists>s. (x, s) \<in> insert (d, t) (free_of R) \<and> 24 \<le> s"
        using ok t sound_cells unfolding store_ok_def free_of_def by fastforce
    qed
    also have "\<dots> = cells info a" using S1(3) a(2) t by auto
    finally show ?thesis .
  qed
qed

text \<open>A used chunk and a free one are made of a free region.\<close>

definition split_chunk :: "nat \<Rightarrow> nat \<Rightarrow> nat \<Rightarrow> shmem_info \<Rightarrow> shmem_info" where
  "split_chunk c s n info =
     set_size True c n (mem_link_chunk (c + 16 + n) (set_size False (c + 16 + n) (s - n - 16) info))"

lemma split_chunk_correct:
  assumes ok: "store_ok info R (free_of R)" and apart: "\<And>d t u. c \<le> d \<Longrightarrow> d + t + 16 \<le> c + s + 16 \<Longrightarrow> \<forall>x \<in> R. apart (d, t, u) x"
    and c: "0 < c" and s: "n + 40 \<le> s" "s < 2 ^ 60" and n: "24 \<le> n"
  defines "info' \<equiv> split_chunk c s n info" and "L \<equiv> set (blocks c [(n, True), (s - n - 16, False)])"
  shows "store_ok info' (L \<union> R) (free_of (L \<union> R))" "same_rest info info'"
    "\<And>a. off (free_of R) a \<Longrightarrow> a < c \<or> c + s + 16 \<le> a \<or> c + 8 \<le> a \<and> a < c + 8 + n \<Longrightarrow> cells info' a = cells info a"
proof -
  define d t where "d = c + 16 + n" and "t = s - n - 16"
  have dt: "d + t + 16 = c + s + 16" "24 \<le> t" "t < 2 ^ 60" using s by (simp_all add: d_def t_def)
  have ap: "\<forall>x \<in> R. apart (d, t, u) x" "\<forall>x \<in> R. apart (c, n, u) x" for u
    using apart [of d t u] apart [of c n u] dt s by (simp_all add: d_def)
  have snd: "sound_chunk (d, t, False)" "sound_chunk (c, n, True)" using c dt s n by (simp_all add: sound_chunk_def d_def)
  define j where "j = mem_link_chunk d (set_size False d t info)"
  note S1 = release_region [OF ok ap(1) snd(1), folded j_def]
  have "\<forall>x \<in> insert (d, t, False) R. apart (c, n, True) x" using ap(2) by (auto simp: apart_def d_def)
  note S2 = store_ok_set_size [OF S1(1) snd(2) this]
  have info': "set_size True c n j = info'" by (simp add: info'_def split_chunk_def j_def d_def t_def)
  note S2 = S2 [unfolded info']
  have L: "L = {(c, n, True), (d, t, False)}" by (auto simp: L_def d_def t_def)
  show "store_ok info' (L \<union> R) (free_of (L \<union> R))" using S2(1) by (simp add: L)
  show "same_rest info info'" using same_rest_trans [OF S1(2) S2(2)] .
  show "cells info' a = cells info a"
    if a: "off (free_of R) a" "a < c \<or> c + s + 16 \<le> a \<or> c + 8 \<le> a \<and> a < c + 8 + n" for a
  proof -
    have "a \<noteq> c" "a \<noteq> c + 8 + n" "a < d \<or> d + t + 16 \<le> a" using a(2) dt s n by (auto simp: d_def)
    then show ?thesis using S2(3) S1(3) [OF a(1)] by simp
  qed
qed

lemma use_or_split_eq:
  assumes "n \<le> s" "s < 2 ^ 60"
  shows "use_or_split c s n info =
    (if s < n + 40 then sub_free s (add_used s (set_size True c s info))
     else add_free (s - n - 16) (sub_free s (add_used n (split_chunk c s n info))))"
proof -
  have guard: "s < add64 (add64 n (2 * SHMEM_SIZE_FIELD)) SHMEM_MIN_ALLOC \<longleftrightarrow> s < n + 40"
    using assms by (simp add: fields SHMEM_MIN_ALLOC_def) linarith
  have sub: "sub64 (sub64 s n) (2 * SHMEM_SIZE_FIELD) = s - n - 16" if "\<not> s < n + 40" using assms that by (simp add: fields)
  have ad: "c + SHMEM_SIZE_FIELD + n + SHMEM_SIZE_FIELD = c + 16 + n" by (simp add: fields)
  show ?thesis unfolding use_or_split_def guard Let_def ad set_chunk_size_eq
    by (auto simp: sub split_chunk_def)
qed

lemma use_or_split_correct:
  assumes ok: "store_ok info R (free_of R)" and apart: "\<And>d t u. c \<le> d \<Longrightarrow> d + t + 16 \<le> c + s + 16 \<Longrightarrow> \<forall>x \<in> R. apart (d, t, u) x"
    and c: "0 < c" and s: "n \<le> s" "s < 2 ^ 60" and n: "24 \<le> n"
    and cnt: "used_size info + s < 2 ^ 60" "s \<le> free_size info" "free_size info < 2 ^ 60"
  defines "info' \<equiv> use_or_split c s n info" and "L \<equiv> set (blocks c (split_layout s n))"
  shows "store_ok info' (L \<union> R) (free_of (L \<union> R))" "same_fixed info info'"
    "used_size info' = used_size info + sized True (split_layout s n)"
    "free_size info' = free_size info - s + sized False (split_layout s n)"
    "\<And>a. off (free_of R) a \<Longrightarrow> a < c \<or> c + s + 16 \<le> a \<or> c + 8 \<le> a \<and> a < c + 8 + n \<Longrightarrow> cells info' a = cells info a"
proof -
  note eq = use_or_split_eq [OF s, of c info, folded info'_def]
  have main: "store_ok info' (L \<union> R) (free_of (L \<union> R)) \<and> same_fixed info info' \<and>
      used_size info' = used_size info + sized True (split_layout s n) \<and>
      free_size info' = free_size info - s + sized False (split_layout s n) \<and>
      (\<forall>a. off (free_of R) a \<longrightarrow> a < c \<or> c + s + 16 \<le> a \<or> c + 8 \<le> a \<and> a < c + 8 + n \<longrightarrow> cells info' a = cells info a)"
  proof (cases "s < n + 40")
    case True
    have snd: "sound_chunk (c, s, True)" using c s n by (simp add: sound_chunk_def)
    note S = store_ok_set_size [OF ok snd apart [of c s True]]
    have L: "L = {(c, s, True)}" using True by (simp add: L_def split_layout_def)
    show ?thesis
      using S cnt True s n unfolding eq if_P [OF True] L by (auto simp: split_layout_def same_fixed_def same_rest_simps)
  next
    case False
    then have "n + 40 \<le> s" by simp
    note S = split_chunk_correct [OF ok apart c this s(2) n]
    have L: "L = set (blocks c [(n, True), (s - n - 16, False)])" using False by (simp add: L_def split_layout_def)
    show ?thesis
      using S cnt False s n unfolding eq if_not_P [OF False] L by (auto simp: split_layout_def same_fixed_def same_rest_simps)
  qed
  show "store_ok info' (L \<union> R) (free_of (L \<union> R))" "same_fixed info info'"
    "used_size info' = used_size info + sized True (split_layout s n)"
    "free_size info' = free_size info - s + sized False (split_layout s n)"
    using main by blast+
  show "cells info' a = cells info a" if "off (free_of R) a" "a < c \<or> c + s + 16 \<le> a \<or> c + 8 \<le> a \<and> a < c + 8 + n" for a
    using main that by blast
qed

subsection \<open>Allocation\<close>

lemma same_fixed_rest: "same_rest info info' \<Longrightarrow> same_fixed info info'"
  by (simp add: same_fixed_def same_rest_simps)

lemma same_fixed_trans: "same_fixed a b \<Longrightarrow> same_fixed b c \<Longrightarrow> same_fixed a c"
  by (simp add: same_fixed_def)

lemma same_fixed_refl [simp]: "same_fixed info info"
  by (simp add: same_fixed_def)

lemma same_fixed_counters [simp]:
  "same_fixed info (add_used n info)" "same_fixed info (sub_used n info)" "same_fixed info (add_free n info)" "same_fixed info (sub_free n info)"
  by (simp_all add: same_fixed_def)

lemma used_off:
  assumes "separate B" "(d, t, True) \<in> B" "d \<le> a" "a < d + t + 16"
  shows "off (free_of B) a"
proof -
  have "\<not> (c \<le> a \<and> a < c + s + 16)" if "(c, s, False) \<in> B" for c s
    using apart_cells [OF assms(1,2) that] assms(3,4) by auto
  then show ?thesis by (auto simp: off_def free_of_def)
qed

lemma off_mono: "off F a \<Longrightarrow> F' \<subseteq> F \<Longrightarrow> off F' a"
  unfolding off_def by blast

text \<open>The cells of a used chunk, with its two size fields.\<close>

definition used_cell :: "shmem_info \<Rightarrow> layout \<Rightarrow> nat \<Rightarrow> bool" where
  "used_cell info bs a \<longleftrightarrow> (\<exists>d t. (d, t, True) \<in> chunks_of info bs \<and> d \<le> a \<and> a < d + t + 16)"

lemma used_cell_off: "store_ok info (chunks_of info bs) F \<Longrightarrow> used_cell info bs a \<Longrightarrow> off (free_of (chunks_of info bs)) a"
  using used_off unfolding used_cell_def store_ok_def by blast

lemma heap_inv_bounds:
  assumes "heap_inv info bs"
  shows "used_size info + free_size info + 16 \<le> span bs" "span bs < 2 ^ 60" "used_size info + free_size info < 2 ^ 60"
proof -
  have "sized True bs + sized False bs + 16 * length bs = span bs"
    by (induction bs rule: span.induct) auto
  moreover have "16 \<le> 16 * length bs" using assms by (cases bs) (auto simp: heap_inv_def geometry_def)
  ultimately show "used_size info + free_size info + 16 \<le> span bs" using assms by (simp add: heap_inv_def)
  moreover show "span bs < 2 ^ 60" using assms by (simp add: heap_inv_def geometry_def)
  ultimately show "used_size info + free_size info < 2 ^ 60" by linarith
qed

lemma heap_inv_chunk:
  assumes "heap_inv info bs" "bs = pre @ (s, u) # post"
  shows "(lo_bound info + span pre, s, u) \<in> chunks_of info bs" "24 \<le> s" "8 dvd s" "s < 2 ^ 60"
    "0 < lo_bound info" "sizes_ok bs"
proof -
  show "(lo_bound info + span pre, s, u) \<in> chunks_of info bs"
    unfolding chunks_of_def blocks_split using assms(2) by blast
  show "24 \<le> s" "8 dvd s" "0 < lo_bound info" "sizes_ok bs"
    using assms by (auto simp: heap_inv_def geometry_def)
  show "s < 2 ^ 60" using heap_inv_bounds(2) [OF assms(1)] assms(2) by simp
qed

lemma mem_malloc_eq:
  "mem_malloc info n =
     (case find_chunk info (mem_proper_alloc_size n) of
        None \<Rightarrow> None
      | Some c \<Rightarrow> if c = 0 then Some (info, 0)
                 else Some (use_or_split c (CHUNK_SIZE info c) (mem_proper_alloc_size n) (mem_unlink_chunk c info), c))"
  unfolding mem_malloc_def find_chunk_def Let_def ..

lemma coalesced_split:
  assumes "coalesced (pre @ (s, False) # post)"
  shows "coalesced (pre @ split_layout s n @ post)"
  using assms unfolding coalesced_def split_layout_def
  by (auto simp: successively_append_iff successively_Cons hd_append split: if_splits)

lemma mem_malloc_correct:
  assumes inv: "heap_inv info bs" and n: "n \<le> SHMEM_MAX_SIZE"
  defines "m \<equiv> mem_proper_alloc_size n"
  obtains (full) "mem_malloc info n = Some (info, 0)" "\<forall>(s, u) \<in> set bs. \<not> u \<longrightarrow> s < m"
  | (fit) info' pre s post where
      "mem_malloc info n = Some (info', lo_bound info + span pre)" "bs = pre @ (s, False) # post" "m \<le> s"
      "heap_inv info' (pre @ split_layout s m @ post)" "same_fixed info info'"
      "\<And>a. used_cell info bs a \<Longrightarrow> cells info' a = cells info a"
proof -
  define B where "B = chunks_of info bs"
  have ok: "store_ok info B (free_of B)" and geo: "geometry info bs" using inv by (simp_all add: heap_inv_def B_def)
  have m: "24 \<le> m" "8 dvd m" "m < 2 ^ 60" using proper_size [OF n] by (simp_all add: m_def SHMEM_MAX_SIZE_def)
  have sizes: "\<forall>(c, s) \<in> free_of B. 24 \<le> s \<and> 8 dvd s"
    using blocks_sizes geo by (fastforce simp: geometry_def B_def chunks_of_def free_of_def)
  obtain c where c: "find_chunk info m = Some c"
    "c = 0 \<and> (\<forall>(c, s) \<in> free_of B. s < m) \<or> c \<noteq> 0 \<and> (\<exists>s. (c, s) \<in> free_of B \<and> m \<le> s)"
    using find_chunk_correct [OF ok sizes m(1,2)] by blast
  from c(2) show thesis
  proof (elim disjE conjE exE)
    assume 0: "c = 0" "\<forall>(c, s) \<in> free_of B. s < m"
    have "\<forall>(s, u) \<in> set bs. \<not> u \<longrightarrow> s < m"
    proof clarify
      fix s u assume "(s, u) \<in> set bs" "\<not> u"
      then obtain pre post where "bs = pre @ (s, False) # post" using split_list by fastforce
      then have "(lo_bound info + span pre, s, False) \<in> B" unfolding B_def chunks_of_def blocks_split by blast
      then show "s < m" using 0(2) by (auto simp: free_of_def)
    qed
    then show thesis using full c(1) 0(1) by (simp add: mem_malloc_eq m_def)
  next
    fix s assume c0: "c \<noteq> 0" and cs: "(c, s) \<in> free_of B" and fits: "m \<le> s"
    obtain pre post where bs: "bs = pre @ (s, False) # post" and c_eq: "c = lo_bound info + span pre"
      using cs by (auto simp: B_def chunks_of_def blocks_split)
    note s = heap_inv_chunk [OF inv bs]
    have size: "CHUNK_SIZE info c = s" using store_ok_chunk(1) [OF ok, of c s False] cs by simp
    define i1 where "i1 = mem_unlink_chunk c info"
    note U = store_ok_unlink [OF ok cs, folded i1_def]
    define R where "R = rest_chunks (lo_bound info) pre (s + 16) post"
    have lo1: "lo_bound i1 = lo_bound info" using U(3) by (simp add: same_rest_simps)
    have "chunks_of i1 (pre @ [(s, False)] @ post) = B" by (simp add: chunks_of_def lo1 B_def bs)
    then have ok1: "store_ok i1 R (free_of R)"
      using store_ok_middle [of i1 pre "[(s, False)]" post "free_of B - {(c, s)}"] U(1)
      by (simp add: lo1 R_def c_eq)
    have ap: "\<forall>x \<in> R. apart (d, t, u) x" if "c \<le> d" "d + t + 16 \<le> c + s + 16" for d t u
      using region_apart [of "lo_bound info" pre d t "s + 16" _ post u] that by (auto simp: R_def c_eq)
    have tot: "sized True bs = used_size info" "sized False bs = free_size info" using inv by (simp_all add: heap_inv_def)
    have cnt: "used_size i1 + s < 2 ^ 60" "s \<le> free_size i1" "free_size i1 < 2 ^ 60"
      using heap_inv_bounds(3) [OF inv] tot U(3) unfolding bs by (simp_all add: same_rest_simps)
    define info' where "info' = use_or_split c s m i1"
    have "0 < c" using c0 by simp
    note S = use_or_split_correct [OF ok1 ap this fits s(4) m(1) cnt, folded info'_def]
    have fixed: "same_fixed info info'" using same_fixed_trans [OF same_fixed_rest [OF U(3)] S(2)] .
    have "chunks_of info' (pre @ split_layout s m @ post) = set (blocks c (split_layout s m)) \<union> R"
      using fixed span_split_layout [OF fits] by (simp add: chunks_of_middle R_def c_eq same_fixed_def)
    then have "store_ok info' (chunks_of info' (pre @ split_layout s m @ post)) (free_of (chunks_of info' (pre @ split_layout s m @ post)))"
      using S(1) by simp
    moreover have "geometry info' (pre @ split_layout s m @ post)"
      by (rule geometry_replace [of info pre "[(s, False)]"])
        (use geo bs fixed sizes_split_layout [OF m(1,2) fits s(3)] span_split_layout [OF fits] in
          \<open>auto simp: same_fixed_def split_layout_def\<close>)
    moreover have "coalesced (pre @ split_layout s m @ post)"
      by (rule coalesced_split) (use inv bs in \<open>simp add: heap_inv_def\<close>)
    moreover have "used_size info' = sized True (pre @ split_layout s m @ post)" "free_size info' = sized False (pre @ split_layout s m @ post)"
      using S(3,4) tot U(3) unfolding bs by (simp_all add: same_rest_simps)
    ultimately have inv': "heap_inv info' (pre @ split_layout s m @ post)" by (simp add: heap_inv_def)
    have "cells info' a = cells info a" if a: "used_cell info bs a" for a
    proof -
      have off: "off (free_of B) a" using used_cell_off [of info bs _ a] ok a by (simp add: B_def)
      then have "\<not> (c \<le> a \<and> a < c + s + 16)" using cs by (auto simp: off_def)
      moreover have "off (free_of R) a"
        by (rule off_mono [OF off]) (auto simp: B_def bs R_def free_of_def chunks_of_middle [of info pre "[(s, False)]" post, simplified])
      ultimately have "cells info' a = cells i1 a" using S(5) by auto
      also have "\<dots> = cells info a" by (rule off_rest [OF ok off U(2)])
      finally show ?thesis .
    qed
    moreover have "mem_malloc info n = Some (info', lo_bound info + span pre)"
      using c(1) c0 size by (simp add: mem_malloc_eq m_def [symmetric] info'_def i1_def c_eq [symmetric])
    ultimately show thesis using fit [OF _ bs fits inv' fixed] by blast
  qed
qed

subsection \<open>Release\<close>

definition join_left :: "layout \<Rightarrow> layout \<times> nat" where
  "join_left pre = (if pre \<noteq> [] \<and> \<not> snd (last pre) then (butlast pre, fst (last pre) + 16) else (pre, 0))"

fun join_right :: "layout \<Rightarrow> layout \<times> nat" where
  "join_right ((n, False) # post) = (post, n + 16)"
| "join_right post = (post, 0)"

text \<open>The layout after the release of the used chunk of size \<open>s\<close> between \<open>pre\<close> and \<open>post\<close>.\<close>

definition freed_layout :: "layout \<Rightarrow> nat \<Rightarrow> layout \<Rightarrow> layout" where
  "freed_layout pre s post =
     (case join_left pre of (pre', l) \<Rightarrow> case join_right post of (post', r) \<Rightarrow> pre' @ (l + s + r, False) # post')"

lemma join_left_cases:
  obtains (no) "join_left pre = (pre, 0)" "pre = [] \<or> snd (last pre)"
  | (yes) pre0 p where "pre = pre0 @ [(p, False)]" "join_left pre = (pre0, p + 16)"
proof (cases "pre \<noteq> [] \<and> \<not> snd (last pre)")
  case True
  then have "pre = butlast pre @ [(fst (last pre), False)]" by (metis append_butlast_last_id prod.collapse)
  then show ?thesis using yes True by (simp add: join_left_def)
next
  case False
  then show ?thesis using no by (auto simp: join_left_def)
qed

lemma join_right_cases:
  obtains (no) "join_right post = (post, 0)" "post = [] \<or> snd (hd post)"
  | (yes) n post0 where "post = (n, False) # post0" "join_right post = (post0, n + 16)"
  by (cases post rule: join_right.cases) auto

text \<open>What the neighbours of a chunk look like from inside of the chunk.\<close>

lemma prev_chunk:
  assumes "heap_inv info ((pre @ [(p, v)]) @ (s, u) # post)"
  defines "c \<equiv> lo_bound info + span (pre @ [(p, v)])"
  shows "lo_bound info < c" "FREE_CHUNK info (c - 8) \<longleftrightarrow> \<not> v" "CHUNK_SIZE info (c - 8) = p"
    "c - 8 - p - 8 = lo_bound info + span pre" "CHUNK_SIZE info (lo_bound info + span pre) = p"
    "(lo_bound info + span pre, p, v) \<in> chunks_of info (pre @ (p, v) # (s, u) # post)"
proof -
  have inv: "heap_inv info (pre @ (p, v) # (s, u) # post)" using assms(1) by simp
  show mem: "(lo_bound info + span pre, p, v) \<in> chunks_of info (pre @ (p, v) # (s, u) # post)"
    by (rule heap_inv_chunk [OF inv refl])
  have ok: "store_ok info (chunks_of info (pre @ (p, v) # (s, u) # post)) (free_of (chunks_of info (pre @ (p, v) # (s, u) # post)))"
    using inv by (simp add: heap_inv_def)
  have e: "c - 8 = lo_bound info + span pre + 8 + p" by (simp add: c_def)
  show "lo_bound info < c" "c - 8 - p - 8 = lo_bound info + span pre" by (simp_all add: c_def)
  show "FREE_CHUNK info (c - 8) \<longleftrightarrow> \<not> v" "CHUNK_SIZE info (c - 8) = p" "CHUNK_SIZE info (lo_bound info + span pre) = p"
    using store_ok_chunk [OF ok mem] unfolding e by simp_all
qed

lemma next_chunk:
  assumes "heap_inv info (pre @ (s, u) # (n, v) # post)"
  defines "c \<equiv> lo_bound info + span pre"
  shows "c + 8 + s + 8 < hi_bound info" "FREE_CHUNK info (c + 8 + s + 8) \<longleftrightarrow> \<not> v" "CHUNK_SIZE info (c + 8 + s + 8) = n"
    "(c + 8 + s + 8, n, v) \<in> chunks_of info (pre @ (s, u) # (n, v) # post)"
proof -
  have inv: "heap_inv info ((pre @ [(s, u)]) @ (n, v) # post)" using assms(1) by simp
  have e: "lo_bound info + span (pre @ [(s, u)]) = c + 8 + s + 8" by (simp add: c_def)
  show mem: "(c + 8 + s + 8, n, v) \<in> chunks_of info (pre @ (s, u) # (n, v) # post)"
    using heap_inv_chunk(1) [OF inv refl] unfolding e by simp
  have ok: "store_ok info (chunks_of info (pre @ (s, u) # (n, v) # post)) (free_of (chunks_of info (pre @ (s, u) # (n, v) # post)))"
    using assms(1) by (simp add: heap_inv_def)
  show "FREE_CHUNK info (c + 8 + s + 8) \<longleftrightarrow> \<not> v" "CHUNK_SIZE info (c + 8 + s + 8) = n"
    using store_ok_chunk [OF ok mem] by simp_all
  show "c + 8 + s + 8 < hi_bound info" using assms(1) by (simp add: heap_inv_def geometry_def c_def)
qed

lemma no_prev_chunk:
  assumes "heap_inv info (pre @ (s, u) # post)" "pre = [] \<or> snd (last pre)"
  shows "\<not> (lo_bound info < lo_bound info + span pre \<and> FREE_CHUNK info (lo_bound info + span pre - 8))"
proof (cases pre rule: rev_cases)
  case (snoc pre0 x)
  obtain p v where "x = (p, v)" by (cases x)
  then show ?thesis using prev_chunk(2) [of info pre0 p v s u post] assms snoc by simp
qed simp

lemma no_next_chunk:
  assumes "heap_inv info (pre @ (s, u) # post)" "post = [] \<or> snd (hd post)"
  shows "\<not> (lo_bound info + span pre + 8 + s + 8 < hi_bound info \<and> FREE_CHUNK info (lo_bound info + span pre + 8 + s + 8))"
proof (cases post)
  case Nil
  then show ?thesis using assms(1) by (simp add: heap_inv_def geometry_def)
next
  case (Cons x post0)
  obtain n v where "x = (n, v)" by (cases x)
  then show ?thesis using next_chunk(2) [of info pre s u n v post0] assms Cons by simp
qed

text \<open>Unlinking the free chunks of a part of the layout, and making one free chunk of it.\<close>

lemma release_middle:
  assumes inv: "heap_inv info (pre0 @ mid @ post0)" and lo: "lo_bound j = lo_bound info"
    and ok: "store_ok j (chunks_of info (pre0 @ mid @ post0)) F"
    and F: "F = free_of (chunks_of info (pre0 @ mid @ post0)) - free_of (set (blocks (lo_bound info + span pre0) mid))"
    and S: "span mid = S + 16" "24 \<le> S"
  defines "c \<equiv> lo_bound info + span pre0"
  defines "info' \<equiv> mem_link_chunk c (set_size False c S j)"
  shows "store_ok info' (chunks_of info' (pre0 @ [(S, False)] @ post0)) (free_of (chunks_of info' (pre0 @ [(S, False)] @ post0)))"
    "same_rest j info'"
    "\<And>a. off (free_of (chunks_of info (pre0 @ mid @ post0))) a \<Longrightarrow> a < c \<or> c + S + 16 \<le> a \<Longrightarrow> cells info' a = cells j a"
proof -
  define R where "R = rest_chunks (lo_bound info) pre0 (span mid) post0"
  have chunks: "chunks_of j (pre0 @ mid @ post0) = chunks_of info (pre0 @ mid @ post0)" by (simp add: chunks_of_def lo)
  have okR: "store_ok j R (free_of R)"
    using store_ok_middle [of j pre0 mid post0 F] ok F by (simp add: chunks lo R_def)
  have "S < 2 ^ 60" using heap_inv_bounds(2) [OF inv] S(1) by simp
  then have snd: "sound_chunk (c, S, False)"
    using inv S by (simp add: sound_chunk_def heap_inv_def geometry_def c_def)
  have ap: "\<forall>x \<in> R. apart (c, S, False) x"
    using region_apart [of "lo_bound info" pre0 c S "span mid" _ post0 False] S by (simp add: R_def c_def)
  note L = release_region [OF okR ap snd, folded info'_def]
  show "same_rest j info'" by (rule L(2))
  have "chunks_of info' (pre0 @ [(S, False)] @ post0) = insert (c, S, False) R"
    using L(2) S(1) by (simp only: chunks_of_middle) (simp add: same_rest_simps lo R_def c_def)
  then show "store_ok info' (chunks_of info' (pre0 @ [(S, False)] @ post0)) (free_of (chunks_of info' (pre0 @ [(S, False)] @ post0)))"
    using L(1) by simp
  show "cells info' a = cells j a" if "off (free_of (chunks_of info (pre0 @ mid @ post0))) a" "a < c \<or> c + S + 16 \<le> a" for a
    by (rule L(3) [OF off_mono [OF that(1)] that(2)]) (auto simp: chunks_of_middle R_def free_of_def)
qed

lemma FREE_CHUNK_counters [simp]:
  "FREE_CHUNK (add_used n info) = FREE_CHUNK info" "FREE_CHUNK (sub_used n info) = FREE_CHUNK info"
  "FREE_CHUNK (add_free n info) = FREE_CHUNK info" "FREE_CHUNK (sub_free n info) = FREE_CHUNK info"
  by (auto simp: FREE_CHUNK_def)

text \<open>The release up to the retagging: the neighbours that are joined are unlinked.\<close>

definition unlinked :: "shmem_info \<Rightarrow> layout \<Rightarrow> layout \<Rightarrow> layout \<Rightarrow> shmem_info \<Rightarrow> bool" where
  "unlinked info pre0 mid post0 j \<longleftrightarrow> same_rest info j \<and>
     store_ok j (chunks_of info (pre0 @ mid @ post0))
       (free_of (chunks_of info (pre0 @ mid @ post0)) - free_of (set (blocks (lo_bound info + span pre0) mid))) \<and>
     (\<forall>a. off (free_of (chunks_of info (pre0 @ mid @ post0))) a \<longrightarrow> cells j a = cells info a)"

lemma unlinked_none:
  assumes "heap_inv info (pre0 @ mid @ post0)" "list_all snd mid"
  shows "unlinked info pre0 mid post0 info"
proof -
  have "free_of (set (blocks a mid)) = {}" for a
    using assms(2) by (induction mid arbitrary: a rule: span.induct) auto
  then show ?thesis using assms(1) by (simp add: unlinked_def heap_inv_def)
qed

lemma unlinked_one:
  assumes inv: "heap_inv info (pre0 @ mid @ post0)" and mid: "mid = m1 @ (n, False) # m2" "list_all snd m1" "list_all snd m2"
  shows "unlinked info pre0 mid post0 (mem_unlink_chunk (lo_bound info + span pre0 + span m1) info)"
proof -
  let ?B = "chunks_of info (pre0 @ mid @ post0)" and ?c = "lo_bound info + span pre0 + span m1"
  have ok: "store_ok info ?B (free_of ?B)" using inv by (simp add: heap_inv_def)
  have "(?c, n, False) \<in> ?B" using heap_inv_chunk(1) [OF inv, of "pre0 @ m1" n False "m2 @ post0"] mid by (simp add: ac_simps)
  then have F: "(?c, n) \<in> free_of ?B" by simp
  note U = store_ok_unlink [OF ok F]
  have e: "free_of (set (blocks a m1)) = {}" "free_of (set (blocks a m2)) = {}" for a
  proof -
    have "list_all snd m \<Longrightarrow> free_of (set (blocks a m)) = {}" for m
      by (induction m arbitrary: a rule: span.induct) auto
    then show "free_of (set (blocks a m1)) = {}" "free_of (set (blocks a m2)) = {}" using mid by blast+
  qed
  have "free_of (set (blocks (lo_bound info + span pre0) mid)) = {(?c, n)}"
    by (simp add: mid blocks_append e)
  then show ?thesis using U off_rest [OF ok] by (simp add: unlinked_def)
qed

lemma unlinked_two:
  assumes inv: "heap_inv info (pre0 @ [(p, False), (s, True), (n, False)] @ post0)"
  shows "unlinked info pre0 [(p, False), (s, True), (n, False)] post0
    (mem_unlink_chunk (lo_bound info + span pre0 + p + 16 + s + 16) (mem_unlink_chunk (lo_bound info + span pre0) info))"
proof -
  let ?mid = "[(p, False), (s, True), (n, False)]"
  let ?B = "chunks_of info (pre0 @ ?mid @ post0)" and ?a = "lo_bound info + span pre0"
  have ok: "store_ok info ?B (free_of ?B)" using inv by (simp add: heap_inv_def)
  have m: "(?a, p, False) \<in> ?B" "(?a + p + 16 + s + 16, n, False) \<in> ?B"
    using heap_inv_chunk(1) [OF inv, of pre0 p False "[(s, True), (n, False)] @ post0"]
      heap_inv_chunk(1) [OF inv, of "pre0 @ [(p, False), (s, True)]" n False post0] by (simp_all add: ac_simps)
  then have F1: "(?a, p) \<in> free_of ?B" by simp
  note U1 = store_ok_unlink [OF ok F1]
  have F2: "(?a + p + 16 + s + 16, n) \<in> free_of ?B - {(?a, p)}" using m by simp
  note U2 = store_ok_unlink [OF U1(1) F2]
  have e: "free_of (set (blocks ?a ?mid)) = {(?a, p), (?a + p + 16 + s + 16, n)}" by auto
  have "cells (mem_unlink_chunk (?a + p + 16 + s + 16) (mem_unlink_chunk ?a info)) a = cells info a" if "off (free_of ?B) a" for a
    using off_rest [OF U1(1) off_mono [OF that] U2(2)] off_rest [OF ok that U1(2)] by auto
  then show ?thesis using U2(1) same_rest_trans [OF U1(3) U2(3)]
    by (simp add: unlinked_def e Diff_insert2 [symmetric] insert_commute)
qed

lemma add_free_0: "add_free 0 (add_free n info) = add_free n info"
  by (simp add: add_free_def add64_def)

lemma mem_free_unfold:
  assumes "CHUNK_SIZE info c = s"
  defines "nx \<equiv> c + 8 + s + 8" and "pv \<equiv> c - 8 - CHUNK_SIZE info (c - 8) - 8"
  shows "mem_free info (c + 8) =
    (if (lo_bound info < c \<and> FREE_CHUNK info (c - 8)) \<and> nx < hi_bound info \<and> FREE_CHUNK info nx then
       add_free 32 (add_free s (sub_used s (mem_link_chunk pv
         (set_size False pv (add64 s (add64 (add64 32 (CHUNK_SIZE info pv)) (CHUNK_SIZE info nx)))
           (mem_unlink_chunk nx (mem_unlink_chunk pv info))))))
     else if lo_bound info < c \<and> FREE_CHUNK info (c - 8) then
       add_free 16 (add_free s (sub_used s (mem_link_chunk pv
         (set_size False pv (add64 s (add64 16 (CHUNK_SIZE info pv))) (mem_unlink_chunk pv info)))))
     else if nx < hi_bound info \<and> FREE_CHUNK info nx then
       add_free 16 (add_free s (sub_used s (mem_link_chunk c
         (set_size False c (add64 s (add64 16 (CHUNK_SIZE info nx))) (mem_unlink_chunk nx info)))))
     else add_free s (sub_used s (mem_link_chunk c (set_size False c s info))))"
proof -
  have k: "c + 8 - SHMEM_SIZE_FIELD = c" "c - SHMEM_SIZE_FIELD = c - 8" "2 * SHMEM_SIZE_FIELD = 16" "4 * SHMEM_SIZE_FIELD = 32"
    "c + SHMEM_SIZE_FIELD + s + SHMEM_SIZE_FIELD = nx" "c - 8 - CHUNK_SIZE info (c - 8) - SHMEM_SIZE_FIELD = pv"
    by (simp_all add: fields nx_def pv_def)
  show ?thesis
    unfolding mem_free_def Let_def k assms(1) counter_chunks FREE_CHUNK_counters counter_simps set_chunk_size_eq
      set_size_counters link_counters unlink_counters ..
qed

lemma mem_free_steps:
  assumes inv: "heap_inv info (pre @ (s, True) # post)"
  obtains pre0 mid post0 l r j k where "join_left pre = (pre0, l)" "join_right post = (post0, r)"
    "pre @ (s, True) # post = pre0 @ mid @ post0" "unlinked info pre0 mid post0 j"
    "mem_free info (lo_bound info + span pre + 8) =
      add_free k (add_free s (sub_used s (mem_link_chunk (lo_bound info + span pre0) (set_size False (lo_bound info + span pre0) (l + s + r) j))))"
    "span mid = l + s + r + 16" "sized True mid = s" "sized False mid + s + k = l + s + r" 
    "pre0 = [] \<or> snd (last pre0)" "post0 = [] \<or> snd (hd post0)"
proof -
  define c where "c = lo_bound info + span pre"
  have coal: "coalesced (pre @ (s, True) # post)" using inv by (simp add: heap_inv_def)
  note ch = heap_inv_chunk [OF inv refl, folded c_def]
  have ok: "store_ok info (chunks_of info (pre @ (s, True) # post)) (free_of (chunks_of info (pre @ (s, True) # post)))"
    using inv by (simp add: heap_inv_def)
  have size: "CHUNK_SIZE info c = s" using store_ok_chunk(1) [OF ok ch(1)] .
  have span_less: "span (pre @ (s, True) # post) < 2 ^ 60" by (rule heap_inv_bounds(2) [OF inv])
  note free_eq = mem_free_unfold [OF size]
  show thesis
  proof (cases pre rule: join_left_cases)
    case no_l: no
    have np: "(lo_bound info < c \<and> FREE_CHUNK info (c - 8)) = False" using no_prev_chunk [OF inv no_l(2)] unfolding c_def by blast
    show thesis
    proof (cases post rule: join_right_cases)
      case no
      have nn: "(c + 8 + s + 8 < hi_bound info \<and> FREE_CHUNK info (c + 8 + s + 8)) = False" using no_next_chunk [OF inv no(2)] unfolding c_def by blast
      have "mem_free info (c + 8) = add_free 0 (add_free s (sub_used s (mem_link_chunk c (set_size False c (0 + s + 0) info))))"
        unfolding free_eq np nn add_free_0 by (simp only: simp_thms if_False add_0 add_0_right)
      then show thesis
        using that [OF no_l(1) no(1), of "[(s, True)]" info 0] unlinked_none [of info pre "[(s, True)]" post] inv no no_l
        by (simp add: c_def)
    next
      case (yes n post0)
      then have bs: "pre @ (s, True) # post = pre @ [(s, True), (n, False)] @ post0" by simp
      have nx: "c + 8 + s + 8 < hi_bound info" "FREE_CHUNK info (c + 8 + s + 8)" "CHUNK_SIZE info (c + 8 + s + 8) = n"
        using next_chunk [of info pre s True n False post0] inv yes(1) by (simp_all add: c_def)
      have sum: "add64 s (add64 16 n) = 0 + s + (n + 16)" using span_less yes(1) by simp
      have "mem_free info (c + 8) = add_free 16 (add_free s (sub_used s (mem_link_chunk c (set_size False c (0 + s + (n + 16)) (mem_unlink_chunk (c + 8 + s + 8) info)))))"
        unfolding free_eq np nx(3) sum using nx(1,2) by (simp only: simp_thms if_False if_True)
      moreover have "unlinked info pre [(s, True), (n, False)] post0 (mem_unlink_chunk (c + 8 + s + 8) info)"
      proof -
        have e: "c + 8 + s + 8 = lo_bound info + span pre + span [(s, True)]" by (simp add: c_def)
        show ?thesis unfolding e
          by (rule unlinked_one [where ?m1.0 = "[(s, True)]" and n = n and ?m2.0 = "[]"]) (use inv bs in simp_all)
      qed
      moreover have "post0 = [] \<or> snd (hd post0)"
        using coal yes(1) by (cases post0) (auto simp: coalesced_def successively_append_iff successively_Cons)
      ultimately show thesis
        using that [OF no_l(1) yes(2), of "[(s, True), (n, False)]" "mem_unlink_chunk (c + 8 + s + 8) info" 16] bs no_l by (simp add: c_def)
    qed
  next
    case yes_l: (yes pre0 p)
    define a where "a = lo_bound info + span pre0"
    have c_eq: "c = a + p + 16" by (simp add: c_def yes_l(1) a_def)
    have pv: "lo_bound info < c" "FREE_CHUNK info (c - 8)" "CHUNK_SIZE info (c - 8) = p" "c - 8 - p - 8 = a" "CHUNK_SIZE info a = p"
      using prev_chunk [of info pre0 p False s True post] inv yes_l(1) by (simp_all add: c_def a_def)
    have used: "pre0 = [] \<or> snd (last pre0)"
      using coal yes_l(1) by (cases pre0 rule: rev_cases) (auto simp: coalesced_def successively_append_iff successively_Cons)
    show thesis
    proof (cases post rule: join_right_cases)
      case no
      have bs: "pre @ (s, True) # post = pre0 @ [(p, False), (s, True)] @ post" by (simp add: yes_l)
      have nn: "(c + 8 + s + 8 < hi_bound info \<and> FREE_CHUNK info (c + 8 + s + 8)) = False" using no_next_chunk [OF inv no(2)] unfolding c_def by blast
      have sum: "add64 s (add64 16 p) = p + 16 + s + 0" using span_less yes_l(1) by simp
      have "mem_free info (c + 8) = add_free 16 (add_free s (sub_used s (mem_link_chunk a (set_size False a (p + 16 + s + 0) (mem_unlink_chunk a info)))))"
        unfolding free_eq pv(3,4,5) nn sum using pv(1,2) by (simp only: simp_thms if_False if_True)
      moreover have "unlinked info pre0 [(p, False), (s, True)] post (mem_unlink_chunk a info)"
        using unlinked_one [of info pre0 "[(p, False), (s, True)]" post "[]" p "[(s, True)]"] inv bs by (simp add: a_def)
      ultimately show thesis
        using that [OF yes_l(2) no(1), of "[(p, False), (s, True)]" "mem_unlink_chunk a info" 16] bs no(2) used by (simp add: c_def a_def)
    next
      case (yes n post0)
      then have bs: "pre @ (s, True) # post = pre0 @ [(p, False), (s, True), (n, False)] @ post0" using yes_l by simp
      have nx: "c + 8 + s + 8 < hi_bound info" "FREE_CHUNK info (c + 8 + s + 8)" "CHUNK_SIZE info (c + 8 + s + 8) = n"
        using next_chunk [of info pre s True n False post0] inv yes(1) by (simp_all add: c_def)
      have sum: "add64 s (add64 (add64 32 p) n) = p + 16 + s + (n + 16)" using span_less yes_l(1) yes(1) by simp
      have "mem_free info (c + 8) = add_free 32 (add_free s (sub_used s (mem_link_chunk a
          (set_size False a (p + 16 + s + (n + 16)) (mem_unlink_chunk (c + 8 + s + 8) (mem_unlink_chunk a info))))))"
        unfolding free_eq nx(3) pv(3,4,5) sum using pv(1,2) nx(1,2) by (simp only: simp_thms if_False if_True)
      moreover have "c + 8 + s + 8 = a + p + 16 + s + 16" using c_eq by simp
      then have "unlinked info pre0 [(p, False), (s, True), (n, False)] post0 (mem_unlink_chunk (c + 8 + s + 8) (mem_unlink_chunk a info))"
        using unlinked_two [of info pre0 p s n post0] inv bs by (simp add: a_def)
      moreover have "post0 = [] \<or> snd (hd post0)"
        using coal yes(1) by (cases post0) (auto simp: coalesced_def successively_append_iff successively_Cons)
      ultimately show thesis
        using that [OF yes_l(2) yes(2), of "[(p, False), (s, True), (n, False)]" "mem_unlink_chunk (c + 8 + s + 8) (mem_unlink_chunk a info)" 32]
          bs used by (simp add: c_def a_def)
    qed
  qed
qed

lemma coalesced_freed:
  assumes "coalesced (pre0 @ mid @ post0)" "pre0 = [] \<or> snd (last pre0)" "post0 = [] \<or> snd (hd post0)"
  shows "coalesced (pre0 @ (S, False) # post0)"
  using assms unfolding coalesced_def
  by (cases post0) (auto simp: successively_append_iff successively_Cons)

lemma mem_free_correct:
  assumes inv: "heap_inv info (pre @ (s, True) # post)"
  defines "info' \<equiv> mem_free info (lo_bound info + span pre + 8)" and "bs' \<equiv> freed_layout pre s post"
  shows "heap_inv info' bs'" "same_fixed info info'" "\<And>a. used_cell info' bs' a \<Longrightarrow> cells info' a = cells info a"
proof -
  obtain pre0 mid post0 l r j k where st: "join_left pre = (pre0, l)" "join_right post = (post0, r)"
    "pre @ (s, True) # post = pre0 @ mid @ post0" "unlinked info pre0 mid post0 j"
    "info' = add_free k (add_free s (sub_used s (mem_link_chunk (lo_bound info + span pre0) (set_size False (lo_bound info + span pre0) (l + s + r) j))))"
    "span mid = l + s + r + 16" "sized True mid = s" "sized False mid + s + k = l + s + r"
    "pre0 = [] \<or> snd (last pre0)" "post0 = [] \<or> snd (hd post0)"
    by (rule mem_free_steps [OF inv, folded info'_def])
  define S c where "S = l + s + r" and "c = lo_bound info + span pre0"
  define B where "B = chunks_of info (pre0 @ mid @ post0)"
  define i where "i = mem_link_chunk c (set_size False c S j)"
  note inv' = inv [unfolded st(3)]
  have bs': "bs' = pre0 @ [(S, False)] @ post0" by (simp add: bs'_def freed_layout_def st(1,2) S_def)
  have s: "24 \<le> s" "8 dvd s" using heap_inv_chunk [OF inv refl] by simp_all
  have S24: "24 \<le> S" using s by (simp add: S_def)
  have "8 dvd span mid"
  proof -
    have "sizes_ok mid" using inv' by (simp add: heap_inv_def geometry_def)
    then show ?thesis by (induction mid rule: span.induct) (auto intro!: dvd_add)
  qed
  then have "8 dvd S + 2 * 8" using st(6) by (simp add: S_def)
  then have S8: "8 dvd S" by (simp only: dvd_add_left_iff dvd_triv_right)
  have j: "same_rest info j" "store_ok j B (free_of B - free_of (set (blocks c mid)))"
    "\<And>a. off (free_of B) a \<Longrightarrow> cells j a = cells info a"
    using st(4) unfolding unlinked_def B_def c_def by blast+
  have lo: "lo_bound j = lo_bound info" using j(1) by (simp add: same_rest_simps)
  have mid: "span mid = S + 16" using st(6) by (simp add: S_def)
  note M = release_middle [OF inv' lo j(2) [unfolded B_def] _ mid S24, folded c_def, OF refl, folded i_def bs']
  have info': "info' = add_free k (add_free s (sub_used s i))" by (simp only: st(5) i_def c_def S_def)
  have fixed: "same_fixed info info'"
    using same_fixed_trans [OF same_fixed_rest [OF j(1)] same_fixed_rest [OF M(2)]] by (simp add: info' same_fixed_def)
  have ch: "chunks_of info' bs' = chunks_of i bs'" by (simp add: chunks_of_def info')
  have tot: "used_size info = sized True (pre0 @ mid @ post0)" "free_size info = sized False (pre0 @ mid @ post0)"
    using inv' by (simp_all add: heap_inv_def)
  have rest: "used_size i = used_size info" "free_size i = free_size info" using j(1) M(2) by (simp_all add: same_rest_simps)
  have bound: "used_size info + free_size info + 16 \<le> span (pre0 @ mid @ post0)" "span (pre0 @ mid @ post0) < 2 ^ 60"
    using heap_inv_bounds [OF inv'] by simp_all
  have sums: "s \<le> used_size info" "free_size info + s + k < 2 ^ 64" "used_size info < 2 ^ 64"
  proof -
    show "s \<le> used_size info" using tot st(7) by simp
    show "used_size info < 2 ^ 64" using bound by simp
    have "s + k \<le> span mid" using st(8) mid S_def by linarith
    then show "free_size info + s + k < 2 ^ 64" using bound by simp
  qed
  have "used_size info' = sized True bs'" "free_size info' = sized False bs'"
  proof -
    have "used_size info' = used_size info - s" using sums by (simp add: info' rest)
    then show "used_size info' = sized True bs'" using st(7) tot by (simp add: bs')
    have "free_size info' = free_size info + s + k" using sums by (simp add: info' rest)
    then show "free_size info' = sized False bs'" using st(8) tot by (simp add: bs' S_def)
  qed
  moreover have "geometry info' bs'"
    unfolding bs' by (rule geometry_replace [of info pre0 mid])
      (use inv' fixed mid S24 S8 in \<open>simp_all add: heap_inv_def same_fixed_def\<close>)
  moreover have "coalesced bs'" unfolding bs'
    using coalesced_freed [of pre0 mid post0 S] inv' st(9,10) by (simp add: heap_inv_def)
  moreover have "store_ok info' (chunks_of info' bs') (free_of (chunks_of info' bs'))" using M(1) unfolding ch by (simp add: info')
  ultimately show "heap_inv info' bs'" by (simp add: heap_inv_def)
  show "same_fixed info info'" by (rule fixed)
  show "cells info' a = cells info a" if used: "used_cell info' bs' a" for a
  proof -
    obtain d t where dt: "(d, t, True) \<in> chunks_of info' bs'" "d \<le> a" "a < d + t + 16" using used by (auto simp: used_cell_def)
    have lo': "lo_bound info' = lo_bound info" using fixed by (simp add: same_fixed_def)
    have R: "(d, t, True) \<in> rest_chunks (lo_bound info) pre0 (span mid) post0"
      using dt(1) unfolding bs' chunks_of_middle lo' using mid by simp
    have "store_ok info B (free_of B)" using inv' by (simp add: heap_inv_def B_def)
    moreover have "(d, t, True) \<in> B" using R unfolding B_def chunks_of_middle by blast
    ultimately have off: "off (free_of B) a" using used_off dt(2,3) unfolding store_ok_def by blast
    have "apart (c, S, False) (d, t, True)" by (rule region_apart [OF _ _ R]) (simp_all add: c_def mid)
    then have "a < c \<or> c + S + 16 \<le> a" using dt(2,3) by (auto simp: apart_def)
    then have "cells i a = cells j a" by (rule M(3) [OF off [unfolded B_def]])
    then show ?thesis using j(3) [OF off] by (simp add: info')
  qed
qed

end
