(* ===== verification/Shmem_Realloc.thy ===== *)
theory Shmem_Realloc
  imports Shmem_Heap
begin

text \<open>
  Reallocation in the shared memory segment, and what a client sees: the live chunks with the data the
  client wrote into them.
\<close>

subsection \<open>Live chunks\<close>

definition live :: "shmem_info \<Rightarrow> layout \<Rightarrow> (nat \<times> nat) set" where
  "live info bs = {(c, s). (c, s, True) \<in> chunks_of info bs}"

lemma live_middle:
  "live info (pre @ mid @ post) = {(c, s). (c, s, True) \<in> set (blocks (lo_bound info + span pre) mid)} \<union>
     {(c, s). (c, s, True) \<in> rest_chunks (lo_bound info) pre (span mid) post}"
  by (auto simp: live_def chunks_of_middle)

lemma live_same_lo: "lo_bound info' = lo_bound info \<Longrightarrow> live info' bs = live info bs"
  by (simp add: live_def chunks_of_def)

lemma live_split: "(c, s) \<in> live info bs \<longleftrightarrow> (\<exists>pre post. bs = pre @ (s, True) # post \<and> c = lo_bound info + span pre)"
  by (simp add: live_def chunks_of_def blocks_split)

text \<open>One used chunk of the middle is replaced by another.\<close>

lemma live_replace:
  assumes "span mid' = span mid"
    and "{(c, s). (c, s, True) \<in> set (blocks (lo_bound info + span pre) mid)} = X"
    and "{(c, s). (c, s, True) \<in> set (blocks (lo_bound info + span pre) mid')} = Y"
  shows "live info (pre @ mid' @ post) = live info (pre @ mid @ post) - X \<union> Y"
proof -
  have "{(c, s). (c, s, True) \<in> rest_chunks (lo_bound info) pre (span mid) post} \<inter> X = {}"
    using middle_disjoint [of _ "lo_bound info" pre mid "span mid" post] unfolding assms(2) [symmetric] by auto
  then show ?thesis unfolding live_middle assms by auto
qed

lemma live_apart:
  assumes "heap_inv info bs" "(c, s) \<in> live info bs" "(d, t) \<in> live info bs"
  shows "c = d \<and> s = t \<or> c + s + 16 \<le> d \<or> d + t + 16 \<le> c"
proof -
  have "separate (chunks_of info bs)" using assms(1) by (simp add: heap_inv_def store_ok_def)
  from apart_cells [OF this, of c s True d t True] show ?thesis using assms(2,3) by (auto simp: live_def)
qed

lemma live_bounds:
  assumes "heap_inv info bs" "(c, s) \<in> live info bs"
  shows "lo_bound info \<le> c" "c + s + 16 \<le> hi_bound info" "8 dvd c" "8 dvd s" "24 \<le> s" "0 < c"
proof -
  have geo: "geometry info bs" and mem: "(c, s, True) \<in> set (blocks (lo_bound info) bs)"
    using assms by (simp_all add: heap_inv_def live_def chunks_of_def)
  show "lo_bound info \<le> c" "c + s + 16 \<le> hi_bound info" "8 dvd c" "8 dvd s" "24 \<le> s" "0 < c"
    using geo blocks_range [OF mem] blocks_dvd [OF _ _ mem] blocks_sizes [OF _ mem] by (auto simp: geometry_def)
qed

subsection \<open>Writing into a live chunk\<close>

lemma write_cells_frame:
  "(\<forall>i < length xs. a \<noteq> p + 8 * i) \<Longrightarrow> cells (write_cells p xs info) a = cells info a"
proof (induction xs arbitrary: p info)
  case (Cons x xs)
  have "\<forall>i < length xs. a \<noteq> (p + 8) + 8 * i" using Cons.prems by (auto dest: spec [of _ "Suc _"])
  moreover have "a \<noteq> p" using Cons.prems by (auto dest: spec [of _ 0])
  ultimately show ?case using Cons.IH by simp
qed simp

lemma write_cells_read:
  "i < length xs \<Longrightarrow> cells (write_cells p xs info) (p + 8 * i) = xs ! i"
proof (induction xs arbitrary: p info i)
  case (Cons x xs)
  show ?case
  proof (cases i)
    case 0
    then show ?thesis by (simp add: write_cells_frame)
  next
    case (Suc j)
    then show ?thesis using Cons.IH [of j "p + 8"] Cons.prems by (simp add: algebra_simps)
  qed
qed simp

lemma write_cells_rest: "same_rest info (write_cells p xs info) \<and> buckets (write_cells p xs info) = buckets info"
proof (induction xs arbitrary: p info)
  case (Cons x xs)
  have "same_rest info (set_cell p x info)" by simp
  then show ?case using Cons [of "set_cell p x info" "p + 8"] same_rest_trans [of info "set_cell p x info"] by auto
qed simp

lemma store_ok_write:
  assumes ok: "store_ok info B F" and q: "(q, t, True) \<in> B" and len: "8 * length xs \<le> t"
  shows "store_ok (write_cells (q + 8) xs info) B F"
    "\<And>a. \<not> (q + 8 \<le> a \<and> a < q + 8 + t) \<Longrightarrow> cells (write_cells (q + 8) xs info) a = cells info a"
proof -
  define m' where "m' = cells (write_cells (q + 8) xs info)"
  have sep: "separate B" using ok by (simp add: store_ok_def)
  show frame: "m' a = cells info a" if "\<not> (q + 8 \<le> a \<and> a < q + 8 + t)" for a
    unfolding m'_def by (rule write_cells_frame) (use that len in auto)
  have bk: "buckets (write_cells (q + 8) xs info) = buckets info" using write_cells_rest by blast
  have same: "m' c = cells info c \<and> m' (c + 8 + s) = cells info (c + 8 + s)" if "(c, s, u) \<in> B" for c s u
    using apart_cells [OF sep q that] by (auto intro!: frame)
  have "tagged m' B"
  proof -
    have "m' c = tag u s \<and> m' (c + 8 + s) = tag u s" if "(c, s, u) \<in> B" for c s u
      using same [OF that] ok that unfolding store_ok_def tagged_def by auto
    then show ?thesis by (auto simp: tagged_def)
  qed
  moreover have "\<exists>ys. bucket_list m' (buckets info) F i ys" if i: "i < 30" for i
  proof -
    obtain ys where ys: "bucket_list (cells info) (buckets info) F i ys" using ok i unfolding store_ok_def by blast
    have "\<forall>y \<in> set ys. m' (y + 8) = cells info (y + 8) \<and> m' (y + 16) = cells info (y + 16)"
    proof
      fix y assume "y \<in> set ys"
      then obtain s where "(y, s, False) \<in> B" using bucket_list_members [OF ok ys] by blast
      from apart_cells [OF sep q this] sound_cells [OF sep this]
      show "m' (y + 8) = cells info (y + 8) \<and> m' (y + 16) = cells info (y + 16)" by (auto intro!: frame)
    qed
    from bucket_list_cong [OF ys refl this refl] show ?thesis by blast
  qed
  ultimately show "store_ok (write_cells (q + 8) xs info) B F"
    using ok unfolding store_ok_def bk m'_def by blast
qed

lemma heap_inv_write:
  assumes inv: "heap_inv info bs" and q: "(q, t) \<in> live info bs" and len: "8 * length xs \<le> t"
  shows "heap_inv (write_cells (q + 8) xs info) bs" "same_fixed info (write_cells (q + 8) xs info)"
    "\<And>a. \<not> (q + 8 \<le> a \<and> a < q + 8 + t) \<Longrightarrow> cells (write_cells (q + 8) xs info) a = cells info a"
    "\<And>i. i < length xs \<Longrightarrow> cells (write_cells (q + 8) xs info) (q + 8 + 8 * i) = xs ! i"
proof -
  have ok: "store_ok info (chunks_of info bs) (free_of (chunks_of info bs))" using inv by (simp add: heap_inv_def)
  have mem: "(q, t, True) \<in> chunks_of info bs" using q by (simp add: live_def)
  note W = store_ok_write [OF ok mem len]
  have rest: "same_rest info (write_cells (q + 8) xs info)" using write_cells_rest by blast
  show fixed: "same_fixed info (write_cells (q + 8) xs info)" by (rule same_fixed_rest [OF rest])
  have "chunks_of (write_cells (q + 8) xs info) bs = chunks_of info bs" using rest by (simp add: chunks_of_def same_rest_simps)
  then show "heap_inv (write_cells (q + 8) xs info) bs"
    using inv W(1) rest by (simp add: heap_inv_def geometry_def same_rest_simps)
  show "cells (write_cells (q + 8) xs info) a = cells info a" if "\<not> (q + 8 \<le> a \<and> a < q + 8 + t)" for a
    by (rule W(2) [OF that])
  show "cells (write_cells (q + 8) xs info) (q + 8 + 8 * i) = xs ! i" if "i < length xs" for i
    by (rule write_cells_read [OF that])
qed

subsection \<open>Allocation and release on the live chunks\<close>

text \<open>The data of a live chunk, as the cells of its user area.\<close>

definition same_data :: "shmem_info \<Rightarrow> shmem_info \<Rightarrow> nat \<Rightarrow> nat \<Rightarrow> bool" where
  "same_data info info' c s \<longleftrightarrow> (\<forall>a. c + 8 \<le> a \<and> a < c + 8 + s \<longrightarrow> cells info' a = cells info a)"

lemma used_cell_live: "used_cell info bs a \<longleftrightarrow> (\<exists>(d, t) \<in> live info bs. d \<le> a \<and> a < d + t + 16)"
  by (auto simp: used_cell_def live_def)

lemma same_dataI:
  assumes "\<And>a. used_cell info1 bs a \<Longrightarrow> cells info' a = cells info a" "(d, s) \<in> live info1 bs"
  shows "same_data info info' d s"
  unfolding same_data_def
proof (intro allI impI)
  fix a assume "d + 8 \<le> a \<and> a < d + 8 + s"
  then have "used_cell info1 bs a" unfolding used_cell_live using assms(2) by (intro bexI [of _ "(d, s)"]) auto
  then show "cells info' a = cells info a" by (rule assms(1))
qed

lemma live_split_layout:
  assumes "m \<le> s"
  obtains t where "m \<le> t" "t \<le> s" "{(d, t). (d, t, True) \<in> set (blocks c (split_layout s m))} = {(c, t)}"
proof (cases "s < m + 40")
  case True
  then show ?thesis using that [of s] assms by (auto simp: split_layout_def)
next
  case False
  then show ?thesis using that [of m] assms by (auto simp: split_layout_def)
qed

lemma mem_malloc_live:
  assumes inv: "heap_inv info bs" and n: "n \<le> SHMEM_MAX_SIZE"
  defines "m \<equiv> mem_proper_alloc_size n"
  obtains (full) "mem_malloc info n = Some (info, 0)" "\<forall>(s, u) \<in> set bs. \<not> u \<longrightarrow> s < m"
  | (fit) info' c t bs' where
      "mem_malloc info n = Some (info', c)" "c \<noteq> 0" "m \<le> t" "heap_inv info' bs'" "same_fixed info info'"
      "live info' bs' = insert (c, t) (live info bs)" "(c, t) \<notin> live info bs"
      "\<And>d s. (d, s) \<in> live info bs \<Longrightarrow> same_data info info' d s"
proof (cases rule: mem_malloc_correct [OF inv n])
  case 1
  then show thesis using full by (simp add: m_def)
next
  case (2 info' pre s post)
  define c where "c = lo_bound info + span pre"
  obtain t where t: "m \<le> t" "t \<le> s" "{(d, t). (d, t, True) \<in> set (blocks c (split_layout s m))} = {(c, t)}"
    using live_split_layout 2(3) unfolding m_def by metis
  have "live info (pre @ split_layout s m @ post) = live info (pre @ [(s, False)] @ post) - {} \<union> {(c, t)}"
    by (rule live_replace) (use t 2(3) span_split_layout in \<open>auto simp: c_def m_def\<close>)
  then have live: "live info' (pre @ split_layout s m @ post) = insert (c, t) (live info bs)"
    using 2(2,5) live_same_lo [of info' info] by (simp add: same_fixed_def)
  have new: "(c, t) \<notin> live info bs"
  proof
    assume a: "(c, t) \<in> live info bs"
    have "separate (chunks_of info bs)" "(c, s, False) \<in> chunks_of info bs"
      using inv heap_inv_chunk(1) [OF inv 2(2)] by (simp_all add: heap_inv_def store_ok_def c_def)
    from apart_cells [OF this, of c t True] show False using a by (auto simp: live_def)
  qed
  have "same_data info info' d s" if "(d, s) \<in> live info bs" for d s
    by (rule same_dataI [OF 2(6) that])
  moreover have "c \<noteq> 0" using heap_inv_chunk(5) [OF inv 2(2)] by (simp add: c_def)
  ultimately show thesis using fit [OF _ _ t(1) _ 2(5) live new] 2(1,4) by (simp add: c_def m_def)
qed

lemma live_freed:
  "live info (freed_layout pre s post) = live info (pre @ (s, True) # post) - {(lo_bound info + span pre, s)}"
proof -
  obtain pre0 l where l: "join_left pre = (pre0, l)" by (cases "join_left pre")
  obtain post0 r where r: "join_right post = (post0, r)" by (cases "join_right post")
  define m1 m2 where "m1 = drop (length pre0) pre" and "m2 = take (length post - length post0) post"
  have left: "pre = pre0 @ m1" "span m1 = l" "\<And>a. {(c, s). (c, s, True) \<in> set (blocks a m1)} = {}"
    using l by (cases pre rule: join_left_cases; auto simp: m1_def)+
  have right: "post = m2 @ post0" "span m2 = r" "\<And>a. {(c, s). (c, s, True) \<in> set (blocks a m2)} = {}"
    using r by (cases post rule: join_right_cases; auto simp: m2_def)+
  have "live info (pre0 @ [(l + s + r, False)] @ post0) =
      live info (pre0 @ (m1 @ [(s, True)] @ m2) @ post0) - {(lo_bound info + span pre, s)} \<union> {}"
    by (rule live_replace) (use left right in \<open>auto simp: blocks_append\<close>)
  moreover have "freed_layout pre s post = pre0 @ [(l + s + r, False)] @ post0" by (simp add: freed_layout_def l r)
  moreover have "pre @ (s, True) # post = pre0 @ (m1 @ [(s, True)] @ m2) @ post0" by (simp add: left(1) right(1))
  ultimately show ?thesis by simp
qed

lemma mem_free_live:
  assumes inv: "heap_inv info bs" and c: "(c, s) \<in> live info bs"
  obtains pre post where "bs = pre @ (s, True) # post" "c = lo_bound info + span pre"
    "heap_inv (mem_free info (c + 8)) (freed_layout pre s post)" "same_fixed info (mem_free info (c + 8))"
    "live (mem_free info (c + 8)) (freed_layout pre s post) = live info bs - {(c, s)}"
    "\<And>d t. (d, t) \<in> live info bs - {(c, s)} \<Longrightarrow> same_data info (mem_free info (c + 8)) d t"
proof -
  obtain pre post where bs: "bs = pre @ (s, True) # post" "c = lo_bound info + span pre" using c by (auto simp: live_split)
  note F = mem_free_correct [OF inv [unfolded bs(1)], folded bs(2)]
  have lo: "lo_bound (mem_free info (c + 8)) = lo_bound info" using F(2) by (simp add: same_fixed_def)
  have live: "live (mem_free info (c + 8)) (freed_layout pre s post) = live info bs - {(c, s)}"
    unfolding bs(1) bs(2) by (rule trans [OF live_same_lo [OF lo [unfolded bs(2)]] live_freed])
  have "same_data info (mem_free info (c + 8)) d t" if "(d, t) \<in> live info bs - {(c, s)}" for d t
    by (rule same_dataI [where ?info1.0 = "mem_free info (c + 8)" and bs = "freed_layout pre s post"])
      (rule F(3), assumption, unfold live, rule that)
  then show thesis by (rule that [OF bs F(1,2) live])
qed

subsection \<open>Reallocation in place\<close>

lemma region_rest:
  assumes "unlinked info pre mid post j"
  defines "R \<equiv> rest_chunks (lo_bound info) pre (span mid) post" and "c \<equiv> lo_bound info + span pre"
  shows "store_ok j R (free_of R)" "\<And>d t u. c \<le> d \<Longrightarrow> d + t + 16 \<le> c + span mid \<Longrightarrow> \<forall>x \<in> R. apart (d, t, u) x"
proof -
  have lo: "lo_bound j = lo_bound info" using assms(1) by (simp add: unlinked_def same_rest_simps)
  have "chunks_of j (pre @ mid @ post) = chunks_of info (pre @ mid @ post)" by (simp add: chunks_of_def lo)
  then show "store_ok j R (free_of R)"
    using store_ok_middle [of j pre mid post] assms(1) unfolding R_def unlinked_def by (simp add: lo)
  show "\<forall>x \<in> R. apart (d, t, u) x" if "c \<le> d" "d + t + 16 \<le> c + span mid" for d t u
    using region_apart [of "lo_bound info" pre d t "span mid" _ post u] that by (auto simp: R_def c_def)
qed

lemma relayout:
  assumes inv: "heap_inv info (pre @ mid @ post)" and fixed: "same_fixed info info'"
    and ok: "store_ok info' (set (blocks (lo_bound info + span pre) mid') \<union> rest_chunks (lo_bound info) pre (span mid) post)
      (free_of (set (blocks (lo_bound info + span pre) mid') \<union> rest_chunks (lo_bound info) pre (span mid) post))"
    and mid': "span mid' = span mid" "sizes_ok mid'" "mid' \<noteq> []" "coalesced (pre @ mid' @ post)"
    and used: "used_size info' + sized True mid = used_size info + sized True mid'"
    and free: "free_size info' + sized False mid = free_size info + sized False mid'"
  shows "heap_inv info' (pre @ mid' @ post)"
proof -
  have "chunks_of info' (pre @ mid' @ post) =
      set (blocks (lo_bound info + span pre) mid') \<union> rest_chunks (lo_bound info) pre (span mid) post"
    using fixed mid'(1) by (simp only: chunks_of_middle same_fixed_def)
  moreover have "geometry info' (pre @ mid' @ post)"
    by (rule geometry_replace [of info pre mid]) (use inv fixed mid' in \<open>simp_all add: heap_inv_def same_fixed_def\<close>)
  ultimately show ?thesis using ok mid'(4) used free inv by (simp add: heap_inv_def)
qed

text \<open>The chunk at \<open>c\<close> is laid out anew together with a part of what follows it.\<close>

lemma realloc_region:
  assumes inv: "heap_inv info (pre @ mid @ post)" and un: "unlinked info pre mid post j"
    and mid: "{(d, t). (d, t, True) \<in> set (blocks (lo_bound info + span pre) mid)} = {(lo_bound info + span pre, s)}"
    and mid': "span mid' = span mid" "sizes_ok mid'" "mid' \<noteq> []" "coalesced (pre @ mid' @ post)"
      "{(d, t). (d, t, True) \<in> set (blocks (lo_bound info + span pre) mid')} = {(lo_bound info + span pre, t)}"
    and fixed: "same_fixed info info'"
    and ok: "store_ok info' (set (blocks (lo_bound info + span pre) mid') \<union> rest_chunks (lo_bound info) pre (span mid) post)
      (free_of (set (blocks (lo_bound info + span pre) mid') \<union> rest_chunks (lo_bound info) pre (span mid) post))"
    and cnt: "used_size info' + sized True mid = used_size info + sized True mid'"
      "free_size info' + sized False mid = free_size info + sized False mid'"
    and frame: "\<And>a. off (free_of (rest_chunks (lo_bound info) pre (span mid) post)) a \<Longrightarrow>
      a < lo_bound info + span pre \<or> lo_bound info + span pre + span mid \<le> a \<or>
      lo_bound info + span pre + 8 \<le> a \<and> a < lo_bound info + span pre + 8 + n \<Longrightarrow> cells info' a = cells j a"
  defines "c \<equiv> lo_bound info + span pre"
  shows "heap_inv info' (pre @ mid' @ post)" "live info' (pre @ mid' @ post) = insert (c, t) (live info (pre @ mid @ post) - {(c, s)})"
    "\<And>d t. (d, t) \<in> live info (pre @ mid @ post) - {(c, s)} \<Longrightarrow> same_data info info' d t"
    "same_data info info' c (min s n)"
proof -
  define B where "B = chunks_of info (pre @ mid @ post)"
  define R where "R = rest_chunks (lo_bound info) pre (span mid) post"
  show "heap_inv info' (pre @ mid' @ post)" by (rule relayout [OF inv fixed ok mid'(1,2,3,4) cnt])
  have "live info (pre @ mid' @ post) = live info (pre @ mid @ post) - {(c, s)} \<union> {(c, t)}"
    unfolding c_def by (rule live_replace [OF mid'(1) mid mid'(5)])
  then show "live info' (pre @ mid' @ post) = insert (c, t) (live info (pre @ mid @ post) - {(c, s)})"
    using fixed live_same_lo [of info' info "pre @ mid' @ post"] by (simp add: same_fixed_def)
  have ok0: "store_ok info B (free_of B)" using inv by (simp add: heap_inv_def B_def)
  then have sep: "separate B" by (simp add: store_ok_def)
  have cs: "(c, s, True) \<in> B" using mid unfolding B_def chunks_of_middle c_def by blast
  have RB: "free_of R \<subseteq> free_of B" unfolding B_def chunks_of_middle R_def free_of_def by blast
  have j: "cells j a = cells info a" if "off (free_of B) a" for a using un that unfolding unlinked_def B_def by blast
  show "same_data info info' d t" if dt: "(d, t) \<in> live info (pre @ mid @ post) - {(c, s)}" for d t
    unfolding same_data_def
  proof (intro allI impI)
    fix a assume a: "d + 8 \<le> a \<and> a < d + 8 + t"
    have off: "off (free_of B) a" by (rule used_off [OF sep, of d t]) (use dt a in \<open>auto simp: live_def B_def\<close>)
    have R: "(d, t, True) \<in> R" using dt mid unfolding live_middle R_def c_def by blast
    have "d + t + 16 \<le> c \<or> c + span mid \<le> d"
    proof -
      have "16 \<le> span mid" using mid by (cases mid rule: span.cases) auto
      then show ?thesis using region_apart [of "lo_bound info" pre c "span mid - 16" "span mid" "(d, t, True)" post True] R
        unfolding R_def apart_def c_def by auto
    qed
    then show "cells info' a = cells info a"
      using frame [OF off_mono [OF off RB, unfolded R_def]] j [OF off] a unfolding c_def by auto
  qed
  show "same_data info info' c (min s n)"
    unfolding same_data_def
  proof (intro allI impI)
    fix a assume a: "c + 8 \<le> a \<and> a < c + 8 + min s n"
    have off: "off (free_of B) a" by (rule used_off [OF sep cs]) (use a in auto)
    have "c + 8 \<le> a" "a < c + 8 + n" using a min.cobounded2 [of s n] by linarith+
    then show "cells info' a = cells info a"
      using frame [OF off_mono [OF off RB, unfolded R_def]] j [OF off] unfolding c_def by simp
  qed
qed

lemma mem_realloc_unfold:
  fixes n :: nat
  assumes size: "CHUNK_SIZE info c = s"
  defines "m \<equiv> mem_proper_alloc_size n" and "nx \<equiv> c + 8 + s + 8"
  shows "mem_realloc info (c + 8) n =
    (if m \<le> s then
       if s div 4 < m then Some (Inr (info, c))
       else if nx < hi_bound info \<and> FREE_CHUNK info nx then
         Some (Inr (add_free (sub64 s m) (sub_used (sub64 s m) (set_size True c m (mem_link_chunk (c + 16 + m)
           (set_size False (c + 16 + m) (add64 (CHUNK_SIZE info nx) (sub64 s m)) (mem_unlink_chunk nx info))))), c))
       else
         Some (Inr (add_free (sub64 (sub64 s m) 16) (sub_used (sub64 s m) (set_size True c m (mem_link_chunk (c + 16 + m)
           (set_size False (c + 16 + m) (sub64 (sub64 s m) 16) info)))), c))
     else if (nx < hi_bound info \<and> FREE_CHUNK info nx) \<and> m \<le> add64 (add64 s 16) (CHUNK_SIZE info nx) then
       Some (Inr (use_or_split c (add64 s (add64 16 (CHUNK_SIZE info nx))) m
         (add_free (add64 s 16) (sub_used s (mem_unlink_chunk nx info))), c))
     else
       case mem_malloc info m of
         None \<Rightarrow> None
       | Some (info1, new_chunk) \<Rightarrow>
           if new_chunk \<noteq> 0 then
             Some (Inr (mem_free (write_cells (new_chunk + 8) (read_cells info1 (c + 8) s) info1) (c + 8), new_chunk))
           else
             let total = (if nx < hi_bound info \<and> FREE_CHUNK info nx then add64 s (add64 (CHUNK_SIZE info1 nx) 16) else s);
                 total = (if lo_bound info1 < c \<and> FREE_CHUNK info1 (c - 8) then add64 total (add64 (CHUNK_SIZE info1 (c - 8)) 16) else total)
             in if total < m then Some (Inr (info1, 0))
                else
                  case mem_malloc (mem_free info1 (c + 8)) m of
                    None \<Rightarrow> None
                  | Some (info', new_chunk) \<Rightarrow>
                      if new_chunk = 0 then Some (Inl Exit_Failure)
                      else Some (Inr (write_cells (new_chunk + 8) (read_cells info1 (c + 8) s) info', new_chunk)))"
proof -
  have k: "c + 8 - 8 = c" "2 * 8 = (16 :: nat)" "c + 8 + s + 8 = nx" "c + 8 + m + 8 = c + 16 + m"
    by (simp_all add: nx_def)
  show ?thesis
    unfolding mem_realloc_def Let_def SHMEM_SIZE_FIELD_def m_def [symmetric] k(1,2) size k(3,4) counter_chunks FREE_CHUNK_counters counter_simps set_chunk_size_eq
      set_size_counters link_counters unlink_counters ..
qed

definition realloc_ok :: "shmem_info \<Rightarrow> layout \<Rightarrow> nat \<Rightarrow> nat \<Rightarrow> nat \<Rightarrow> shmem_info \<Rightarrow> nat \<Rightarrow> bool" where
  "realloc_ok info bs c s m info' q \<longleftrightarrow> (\<exists>t bs'. q \<noteq> 0 \<and> m \<le> t \<and> heap_inv info' bs' \<and> same_fixed info info' \<and>
     live info' bs' = insert (q, t) (live info bs - {(c, s)}) \<and> (q, t) \<notin> live info bs - {(c, s)} \<and>
     (\<forall>(d, u) \<in> live info bs - {(c, s)}. same_data info info' d u) \<and>
     (\<forall>i. 8 * i < min s m \<longrightarrow> cells info' (q + 8 + 8 * i) = cells info (c + 8 + 8 * i)))"

lemma realloc_ok_in_place:
  assumes "heap_inv info' bs'" "same_fixed info info'" "live info' bs' = insert (c, t) (live info bs - {(c, s)})"
    and inv: "heap_inv info bs" and live: "(c, s) \<in> live info bs" and "m \<le> t"
    and "\<And>d u. (d, u) \<in> live info bs - {(c, s)} \<Longrightarrow> same_data info info' d u" "same_data info info' c (min s m)"
  shows "realloc_ok info bs c s m info' c"
proof -
  have "c \<noteq> 0" using live_bounds [OF inv live] by simp
  moreover have "(c, t) \<notin> live info bs - {(c, s)}" using live_apart [OF inv live, of c t] by auto
  ultimately show ?thesis using assms unfolding realloc_ok_def same_data_def by (intro exI [of _ t] exI [of _ bs']) auto
qed

lemma coalesced_first:
  assumes "coalesced (pre @ (s, True) # post)"
  shows "coalesced (pre @ (t, True) # post)"
  using assms unfolding coalesced_def by (auto simp: successively_append_iff successively_Cons)

lemma coalesced_used_free:
  assumes "coalesced (pre @ mid @ post)" "mid \<noteq> []" "snd (hd mid)" "post = [] \<or> snd (hd post)"
  shows "coalesced (pre @ [(m, True), (x, False)] @ post)"
  using assms unfolding coalesced_def by (cases mid; cases post) (auto simp: successively_append_iff successively_Cons)

lemma dvd_rest: "8 dvd S \<Longrightarrow> 8 dvd m \<Longrightarrow> 8 dvd S - m - 16" for S m :: nat
  by (intro dvd_diff_nat) simp_all

text \<open>A used chunk and a free one in the place of \<open>mid\<close>.\<close>

lemma realloc_split:
  assumes inv: "heap_inv info (pre @ mid @ post)" and un: "unlinked info pre mid post j"
    and mid: "mid = [(s, True)] \<or> mid = [(s, True), (x, False)]" and S: "span mid = S + 16" and post: "post = [] \<or> snd (hd post)"
    and m: "24 \<le> m" "8 dvd m" "m + 40 \<le> S" "m \<le> s"
    and info': "info' = add_free (S - m - 16 - sized False mid) (sub_used (s - m) (split_chunk (lo_bound info + span pre) S m j))"
    and le: "sized False mid \<le> S - m - 16"
  defines "c \<equiv> lo_bound info + span pre"
  shows "realloc_ok info (pre @ mid @ post) c s m info' c"
proof -
  note R = region_rest [OF un]
  have c0: "0 < c" using inv by (simp add: heap_inv_def geometry_def c_def)
  have S60: "S < 2 ^ 60" using heap_inv_bounds(2) [OF inv] S by simp
  note sp = split_chunk_correct [OF R(1), folded c_def, OF _ c0 m(3) S60 m(1)]
  have ap: "\<And>d t u. c \<le> d \<Longrightarrow> d + t + 16 \<le> c + S + 16 \<Longrightarrow> \<forall>x \<in> rest_chunks (lo_bound info) pre (span mid) post. apart (d, t, u) x"
    using R(2) S by (simp add: c_def)
  note sp = sp [OF ap]
  define L where "L = [(m, True), (S - m - 16, False)]"
  have sizes: "8 dvd s \<and> 8 dvd span mid" using inv mid by (auto simp: heap_inv_def geometry_def intro!: dvd_add)
  have "8 dvd S" using sizes S dvd_add_left_iff [of 8 "2 * 8" S] by simp
  have L: "span L = span mid" "sizes_ok L" "L \<noteq> []" "sized True L = m" "sized False L = S - m - 16"
    "{(d, t). (d, t, True) \<in> set (blocks c L)} = {(c, m)}"
    using m S dvd_rest [OF \<open>8 dvd S\<close> m(2)] by (auto simp: L_def)
  have coal: "coalesced (pre @ L @ post)" unfolding L_def
    by (rule coalesced_used_free [of pre mid]) (use inv mid post in \<open>auto simp: heap_inv_def\<close>)
  have jr: "same_rest info j" using un by (simp add: unlinked_def)
  have fixed: "same_fixed info info'"
    using same_fixed_trans [OF same_fixed_rest [OF jr] same_fixed_rest [OF sp(2)]] by (simp add: info' c_def same_fixed_def)
  have ok: "store_ok info' (set (blocks c L) \<union> rest_chunks (lo_bound info) pre (span mid) post)
      (free_of (set (blocks c L) \<union> rest_chunks (lo_bound info) pre (span mid) post))"
    using sp(1) by (simp add: info' c_def L_def)
  have tot: "used_size info = sized True (pre @ mid @ post)" "free_size info = sized False (pre @ mid @ post)"
    using inv by (simp_all add: heap_inv_def)
  have used_mid: "sized True mid = s" using mid by auto
  have rest: "used_size (split_chunk c S m j) = used_size info" "free_size (split_chunk c S m j) = free_size info"
    using jr sp(2) by (simp_all add: same_rest_simps)
  have bound: "used_size info + free_size info + 16 \<le> span (pre @ mid @ post)" "span (pre @ mid @ post) < 2 ^ 60"
    using heap_inv_bounds [OF inv] by simp_all
  have "used_size info' = used_size info - (s - m)" "free_size info' = free_size info + (S - m - 16 - sized False mid)"
    using bound S60 tot used_mid by (simp_all add: info' c_def [symmetric] rest)
  then have cnt: "used_size info' + sized True mid = used_size info + sized True L"
      "free_size info' + sized False mid = free_size info + sized False L"
    using tot used_mid L m le by simp_all
  have midc: "{(d, t). (d, t, True) \<in> set (blocks c mid)} = {(c, s)}" using mid by auto
  have frame: "cells info' a = cells j a" if "off (free_of (rest_chunks (lo_bound info) pre (span mid) post)) a"
      "a < c \<or> c + span mid \<le> a \<or> c + 8 \<le> a \<and> a < c + 8 + m" for a
  proof -
    have "a < c \<or> c + S + 16 \<le> a \<or> c + 8 \<le> a \<and> a < c + 8 + m" using that(2) S by auto
    then have "cells (split_chunk c S m j) a = cells j a" using sp(3) [OF _ _ that(1)] by blast
    then show ?thesis by (simp add: info' c_def)
  qed
  note G = realloc_region [OF inv un, folded c_def, OF midc L(1,2,3) coal L(6) fixed ok cnt frame]
  have live: "(c, s) \<in> live info (pre @ mid @ post)" using midc unfolding live_middle c_def by blast
  show ?thesis by (rule realloc_ok_in_place [OF G(1) fixed G(2) inv live order_refl G(3,4)])
qed

lemma realloc_grow:
  assumes inv: "heap_inv info (pre @ [(s, True), (x, False)] @ post)" 
    and un: "unlinked info pre [(s, True), (x, False)] post j" and post: "post = [] \<or> snd (hd post)"
    and m: "24 \<le> m" "8 dvd m" "m \<le> s + 16 + x" "s < m"
  defines "c \<equiv> lo_bound info + span pre"
  shows "realloc_ok info (pre @ [(s, True), (x, False)] @ post) c s m
    (use_or_split c (s + 16 + x) m (add_free (s + 16) (sub_used s j))) c"
proof -
  let ?mid = "[(s, True), (x, False)]"
  define S i where "S = s + 16 + x" and "i = add_free (s + 16) (sub_used s j)"
  have S: "span ?mid = S + 16" by (simp add: S_def)
  note R = region_rest [OF un]
  have c0: "0 < c" using inv by (simp add: heap_inv_def geometry_def c_def)
  have S60: "S < 2 ^ 60" using heap_inv_bounds(2) [OF inv] by (simp add: S_def)
  have tot: "used_size info = sized True (pre @ ?mid @ post)" "free_size info = sized False (pre @ ?mid @ post)"
    using inv by (simp_all add: heap_inv_def)
  have bound: "used_size info + free_size info + 16 \<le> span (pre @ ?mid @ post)" "span (pre @ ?mid @ post) < 2 ^ 60"
    using heap_inv_bounds [OF inv] by simp_all
  have jr: "same_rest info j" using un by (simp add: unlinked_def)
  have sums: "used_size info + free_size info + 16 < 2 ^ 60" using bound by linarith
  have sx: "s \<le> used_size info" "x \<le> free_size info" using tot by simp_all
  have cnt_i: "used_size i = used_size info - s" "free_size i = free_size info + (s + 16)"
    using sums sx S60 by (simp_all add: i_def same_rest_simps [OF jr] S_def)
  have cnt: "used_size i + S < 2 ^ 60" "S \<le> free_size i" "free_size i < 2 ^ 60"
    using sums sx cnt_i by (simp_all add: S_def)
  have ok_i: "store_ok i (rest_chunks (lo_bound info) pre (span ?mid) post) (free_of (rest_chunks (lo_bound info) pre (span ?mid) post))"
    using R(1) by (simp add: i_def)
  have ap: "\<And>d t u. c \<le> d \<Longrightarrow> d + t + 16 \<le> c + S + 16 \<Longrightarrow> \<forall>x \<in> rest_chunks (lo_bound info) pre (span ?mid) post. apart (d, t, u) x"
    using R(2) S by (simp add: c_def)
  have mS: "m \<le> S" using m by (simp add: S_def)
  note sp = use_or_split_correct [OF ok_i ap c0 mS S60 m(1) cnt]
  define info' L where "info' = use_or_split c S m i" and "L = split_layout S m"
  have S8: "8 dvd S" using inv by (auto simp: heap_inv_def geometry_def S_def intro!: dvd_add)
  have L: "span L = span ?mid" "sizes_ok L" "L \<noteq> []"
    using span_split_layout [OF mS] sizes_split_layout [OF m(1,2) mS S8] S by (auto simp: L_def split_layout_def)
  obtain t where t: "m \<le> t" "{(d, t). (d, t, True) \<in> set (blocks c L)} = {(c, t)}"
    using live_split_layout [OF mS] unfolding L_def by metis
  have coal: "coalesced (pre @ L @ post)"
  proof (cases "S < m + 40")
    case True
    then show ?thesis using inv post unfolding L_def split_layout_def heap_inv_def coalesced_def
      by (cases post) (auto simp: successively_append_iff successively_Cons)
  next
    case False
    then have "L = [(m, True), (S - m - 16, False)]" by (simp add: L_def split_layout_def)
    then show ?thesis using coalesced_used_free [of pre ?mid post m "S - m - 16"] inv post by (simp add: heap_inv_def)
  qed
  have fixed: "same_fixed info info'"
    using same_fixed_trans [OF same_fixed_rest [OF jr], of info'] sp(2) by (simp add: i_def info'_def same_fixed_def)
  have ok: "store_ok info' (set (blocks c L) \<union> rest_chunks (lo_bound info) pre (span ?mid) post)
      (free_of (set (blocks c L) \<union> rest_chunks (lo_bound info) pre (span ?mid) post))"
    using sp(1) by (simp add: info'_def L_def)
  have cnt': "used_size info' + sized True ?mid = used_size info + sized True L"
      "free_size info' + sized False ?mid = free_size info + sized False L"
  proof -
    have "used_size info' = used_size i + sized True L" "free_size info' = free_size i - S + sized False L"
      using sp(3,4) by (simp_all add: info'_def L_def)
    then show "used_size info' + sized True ?mid = used_size info + sized True L"
      "free_size info' + sized False ?mid = free_size info + sized False L"
      using cnt_i sx by (simp_all add: S_def)
  qed
  have midc: "{(d, t). (d, t, True) \<in> set (blocks c ?mid)} = {(c, s)}" by auto
  have frame: "cells info' a = cells j a" if "off (free_of (rest_chunks (lo_bound info) pre (span ?mid) post)) a"
      "a < c \<or> c + span ?mid \<le> a \<or> c + 8 \<le> a \<and> a < c + 8 + m" for a
  proof -
    have "a < c \<or> c + S + 16 \<le> a \<or> c + 8 \<le> a \<and> a < c + 8 + m" using that(2) S by auto
    then have "cells info' a = cells i a" unfolding info'_def using sp(5) [OF _ _ that(1)] by blast
    then show ?thesis by (simp add: i_def)
  qed
  note G = realloc_region [OF inv un, folded c_def, OF midc L coal t(2) fixed ok cnt' frame]
  have live: "(c, s) \<in> live info (pre @ ?mid @ post)" using midc unfolding live_middle c_def by blast
  have "realloc_ok info (pre @ ?mid @ post) c s m info' c"
    by (rule realloc_ok_in_place [OF G(1) fixed G(2) inv live t(1) G(3,4)])
  then show ?thesis by (simp add: info'_def S_def i_def)
qed

subsection \<open>Reallocation to another place\<close>

lemma read_cells_nth: "8 * i < s \<Longrightarrow> 8 dvd s \<Longrightarrow> read_cells info a s ! i = cells info (a + 8 * i) \<and> i < length (read_cells info a s)"
  by (auto simp: read_cells_def dvd_def)

lemma length_read_cells: "8 dvd s \<Longrightarrow> 8 * length (read_cells info a s) = s"
  by (auto simp: read_cells_def)

lemma same_data_trans: "same_data a b c s \<Longrightarrow> same_data b d c s \<Longrightarrow> same_data a d c s"
  by (simp add: same_data_def)

lemma realloc_move:
  assumes inv: "heap_inv info bs" and c: "(c, s) \<in> live info bs" and m: "m \<le> SHMEM_MAX_SIZE" "s < m" "mem_proper_alloc_size m = m"
    and malloc: "mem_malloc info m = Some (info1, q)" "q \<noteq> 0"
  shows "realloc_ok info bs c s m (mem_free (write_cells (q + 8) (read_cells info1 (c + 8) s) info1) (c + 8)) q"
proof (cases rule: mem_malloc_live [OF inv m(1)])
  case 1
  then show ?thesis using malloc by simp
next
  case (2 info' q' t bs1)
  then have i1: "info' = info1" "q' = q" using malloc by simp_all
  note M = 2 [unfolded i1 m(3)]
  define i2 where "i2 = write_cells (q + 8) (read_cells info1 (c + 8) s) info1"
  define i3 where "i3 = mem_free i2 (c + 8)"
  have s8: "8 dvd s" using live_bounds [OF inv c] by simp
  have q: "(q, t) \<in> live info1 bs1" using M(6) by simp
  have cs1: "(c, s) \<in> live info1 bs1" using M(6) c by simp
  have len: "8 * length (read_cells info1 (c + 8) s) \<le> t" using length_read_cells [OF s8] M(3) m(2) by simp
  note W = heap_inv_write [OF M(4) q len, folded i2_def]
  have lo2: "lo_bound i2 = lo_bound info1" using W(2) by (simp add: same_fixed_def)
  have live2: "live i2 bs1 = live info1 bs1" by (rule live_same_lo [OF lo2])
  have cs2: "(c, s) \<in> live i2 bs1" using cs1 live2 by simp
  have ne: "(q, t) \<noteq> (c, s)" using M(7) c by auto
  obtain pre post where F: "heap_inv i3 (freed_layout pre s post)" "same_fixed i2 i3"
      "live i3 (freed_layout pre s post) = live i2 bs1 - {(c, s)}"
      "\<And>d t. (d, t) \<in> live i2 bs1 - {(c, s)} \<Longrightarrow> same_data i2 i3 d t"
    using mem_free_live [OF W(1) cs2] unfolding i3_def by metis
  have live3: "live i3 (freed_layout pre s post) = insert (q, t) (live info bs - {(c, s)})"
    unfolding F(3) live2 M(6) using ne by auto
  have fixed: "same_fixed info i3" using same_fixed_trans [OF same_fixed_trans [OF M(5) W(2)] F(2)] .
  have others: "same_data info i3 d u" if du: "(d, u) \<in> live info bs - {(c, s)}" for d u
  proof -
    have "same_data info info1 d u" using M(8) du by blast
    moreover have "same_data info1 i2 d u"
    proof -
      have "(d, u) \<in> live info1 bs1" using M(6) du by blast
      moreover have "(d, u) \<noteq> (q, t)" using M(7) du by blast
      ultimately have "d + u + 16 \<le> q \<or> q + t + 16 \<le> d" using live_apart [OF M(4) _ q, of d u] by blast
      then show ?thesis using W(3) unfolding same_data_def by auto
    qed
    moreover have "same_data i2 i3 d u" using F(4) [of d u] live2 M(6) du by blast
    ultimately show ?thesis using same_data_trans by blast
  qed
  have data: "cells i3 (q + 8 + 8 * i) = cells info (c + 8 + 8 * i)" if i: "8 * i < s" for i
  proof -
    have "same_data i2 i3 q t" using F(4) [of q t] live2 q ne by blast
    then have "cells i3 (q + 8 + 8 * i) = cells i2 (q + 8 + 8 * i)" using i M(3) m(2) unfolding same_data_def by simp
    also have "\<dots> = cells info1 (c + 8 + 8 * i)" using W(4) [of i] read_cells_nth [OF i s8] by simp
    also have "\<dots> = cells info (c + 8 + 8 * i)" using M(8) [OF c] i unfolding same_data_def by simp
    finally show ?thesis .
  qed
  show ?thesis unfolding realloc_ok_def i2_def [symmetric] i3_def [symmetric]
    using malloc(2) M(3,7) F(1) fixed live3 others data by (intro exI [of _ t] exI [of _ "freed_layout pre s post"]) auto
qed

lemma realloc_after_free:
  assumes inv: "heap_inv info bs" and c: "(c, s) \<in> live info bs" and m: "m \<le> SHMEM_MAX_SIZE" "s < m" "mem_proper_alloc_size m = m"
    and malloc: "mem_malloc (mem_free info (c + 8)) m = Some (info1, q)" "q \<noteq> 0"
  shows "realloc_ok info bs c s m (write_cells (q + 8) (read_cells info (c + 8) s) info1) q"
proof -
  define i0 where "i0 = mem_free info (c + 8)"
  obtain pre post where F: "heap_inv i0 (freed_layout pre s post)" "same_fixed info i0"
      "live i0 (freed_layout pre s post) = live info bs - {(c, s)}"
      "\<And>d t. (d, t) \<in> live info bs - {(c, s)} \<Longrightarrow> same_data info i0 d t"
    using mem_free_live [OF inv c] unfolding i0_def by metis
  show ?thesis
  proof (cases rule: mem_malloc_live [OF F(1) m(1)])
    case 1
    then show ?thesis using malloc by (simp add: i0_def)
  next
    case (2 info' q' t bs1)
    then have i1: "info' = info1" "q' = q" using malloc by (simp_all add: i0_def)
    note M = 2 [unfolded i1 m(3)]
    define i2 where "i2 = write_cells (q + 8) (read_cells info (c + 8) s) info1"
    have s8: "8 dvd s" using live_bounds [OF inv c] by simp
    have q: "(q, t) \<in> live info1 bs1" using M(6) by simp
    have len: "8 * length (read_cells info (c + 8) s) \<le> t" using length_read_cells [OF s8] M(3) m(2) by simp
    note W = heap_inv_write [OF M(4) q len, folded i2_def]
    have lo2: "lo_bound i2 = lo_bound info1" using W(2) by (simp add: same_fixed_def)
    have live2: "live i2 bs1 = insert (q, t) (live info bs - {(c, s)})" using live_same_lo [OF lo2] M(6) F(3) by simp
    have fixed: "same_fixed info i2" using same_fixed_trans [OF same_fixed_trans [OF F(2) M(5)] W(2)] .
    have new: "(q, t) \<notin> live info bs - {(c, s)}" using M(7) F(3) by simp
    have others: "same_data info i2 d u" if du: "(d, u) \<in> live info bs - {(c, s)}" for d u
    proof -
      have "same_data info i0 d u" by (rule F(4) [OF du])
      moreover have "same_data i0 info1 d u" using M(8) du F(3) by blast
      moreover have "same_data info1 i2 d u"
      proof -
        have "(d, u) \<in> live info1 bs1" using M(6) F(3) du by blast
        moreover have "(d, u) \<noteq> (q, t)" using new du by blast
        ultimately have "d + u + 16 \<le> q \<or> q + t + 16 \<le> d" using live_apart [OF M(4) _ q, of d u] by blast
        then show ?thesis using W(3) unfolding same_data_def by auto
      qed
      ultimately show ?thesis using same_data_trans by blast
    qed
    have data: "cells i2 (q + 8 + 8 * i) = cells info (c + 8 + 8 * i)" if i: "8 * i < s" for i
      using W(4) [of i] read_cells_nth [OF i s8] by simp
    show ?thesis unfolding realloc_ok_def i2_def [symmetric]
      using malloc(2) M(3) new W(1) fixed live2 others data by (intro exI [of _ t] exI [of _ bs1]) auto
  qed
qed

text \<open>The size of the free chunk that the release of a chunk would leave.\<close>

definition joined_size :: "layout \<Rightarrow> nat \<Rightarrow> layout \<Rightarrow> nat" where
  "joined_size pre s post = snd (join_left pre) + s + snd (join_right post)"

lemma joined_total:
  assumes inv: "heap_inv info (pre @ (s, True) # post)"
  defines "c \<equiv> lo_bound info + span pre" and "nx \<equiv> lo_bound info + span pre + 8 + s + 8"
  shows "(let total = (if nx < hi_bound info \<and> FREE_CHUNK info nx then add64 s (add64 (CHUNK_SIZE info nx) 16) else s)
    in if lo_bound info < c \<and> FREE_CHUNK info (c - 8) then add64 total (add64 (CHUNK_SIZE info (c - 8)) 16) else total) = joined_size pre s post"
proof -
  have less: "span (pre @ (s, True) # post) < 2 ^ 60" by (rule heap_inv_bounds(2) [OF inv])
  define t where "t = (if nx < hi_bound info \<and> FREE_CHUNK info nx then add64 s (add64 (CHUNK_SIZE info nx) 16) else s)"
  have t: "t = s + snd (join_right post)"
  proof (cases post rule: join_right_cases)
    case no
    have "(nx < hi_bound info \<and> FREE_CHUNK info nx) = False"
      using no_next_chunk [OF inv no(2)] unfolding nx_def by blast
    then show ?thesis unfolding t_def no(1) by (simp only: if_False snd_conv add_0_right)
  next
    case (yes n post0)
    then have nx: "nx < hi_bound info" "FREE_CHUNK info nx" "CHUNK_SIZE info nx = n"
      using next_chunk [of info pre s True n False post0] inv by (simp_all add: nx_def)
    have "add64 s (add64 n 16) = s + (n + 16)" using less yes(1) by simp
    then show ?thesis using nx unfolding t_def yes(2) by (simp only: simp_thms if_True snd_conv)
  qed
  have le: "t \<le> s + span post" unfolding t by (cases post rule: join_right_cases) auto
  have "(if lo_bound info < c \<and> FREE_CHUNK info (c - 8) then add64 t (add64 (CHUNK_SIZE info (c - 8)) 16) else t) = snd (join_left pre) + t"
  proof (cases pre rule: join_left_cases)
    case no
    have "(lo_bound info < c \<and> FREE_CHUNK info (c - 8)) = False"
      using no_prev_chunk [OF inv no(2)] unfolding c_def by blast
    then show ?thesis unfolding no(1) by (simp only: if_False snd_conv add_0)
  next
    case (yes pre0 p)
    then have pv: "lo_bound info < c" "FREE_CHUNK info (c - 8)" "CHUNK_SIZE info (c - 8) = p"
      using prev_chunk [of info pre0 p False s True post] inv by (simp_all add: c_def)
    have "t + (p + 16) < 2 ^ 60" using less le yes(1) by simp
    then have "add64 t (add64 p 16) = (p + 16) + t" by simp
    then show ?thesis using pv unfolding yes(2) by (simp only: simp_thms if_True snd_conv)
  qed
  then show ?thesis unfolding Let_def t_def [symmetric] by (simp add: joined_size_def t ac_simps)
qed

lemma joined_in_layout: "(joined_size pre s post, False) \<in> set (freed_layout pre s post)"
  by (cases "join_left pre"; cases "join_right post") (simp add: joined_size_def freed_layout_def)

end
