(* ===== verification/Shmem_Resize.thy ===== *)
theory Shmem_Resize
  imports Shmem_Realloc
begin

text \<open>
  \<open>__mem_realloc\<close> as a whole: its four ways to resize a chunk, each from \<open>Shmem_Realloc\<close>, and the
  condition under which it finds no memory.
\<close>

subsection \<open>The branches\<close>

lemma realloc_shrink_alone:
  assumes inv: "heap_inv info (pre @ (s, True) # post)" and post: "post = [] \<or> snd (hd post)"
    and m: "24 \<le> m" "8 dvd m" "m + 40 \<le> s" and c: "c = lo_bound info + span pre"
  shows "realloc_ok info (pre @ (s, True) # post) c s m (add_free (s - m - 16) (sub_used (s - m) (split_chunk c s m info))) c"
proof -
  have ms: "m \<le> s" using m(3) by simp
  have un: "unlinked info pre [(s, True)] post info" by (rule unlinked_none) (use inv in \<open>simp_all\<close>)
  show ?thesis unfolding c
    using realloc_split [of info pre "[(s, True)]" post info s 0 s m, OF _ un _ _ post m ms refl] inv by simp
qed

lemma realloc_shrink_join:
  assumes inv: "heap_inv info (pre @ (s, True) # (x, False) # post)" and un: "unlinked info pre [(s, True), (x, False)] post j"
    and post: "post = [] \<or> snd (hd post)" and m: "24 \<le> m" "8 dvd m" "m + 40 \<le> s" and c: "c = lo_bound info + span pre"
  shows "realloc_ok info (pre @ (s, True) # (x, False) # post) c s m (add_free (s - m) (sub_used (s - m) (split_chunk c (s + 16 + x) m j))) c"
proof -
  have ms: "m \<le> s" "m + 40 \<le> s + 16 + x" using m(3) by simp_all
  have e: "s + 16 + x - m - 16 - sized False [(s, True), (x, False)] = s - m" using m(3) by simp
  show ?thesis unfolding c
    using realloc_split [of info pre "[(s, True), (x, False)]" post j s x "s + 16 + x" m, OF _ un _ _ post m(1,2) ms(2) ms(1) refl]
      inv m(3) unfolding e by simp
qed

lemma unlink_right:
  assumes inv: "heap_inv info (pre @ (s, True) # (x, False) # post)" and nx: "nx = lo_bound info + span pre + 8 + s + 8"
  shows "unlinked info pre [(s, True), (x, False)] post (mem_unlink_chunk nx info)"
proof -
  have e: "nx = lo_bound info + span pre + span [(s, True)]" by (simp add: nx)
  show ?thesis unfolding e
    by (rule unlinked_one [where ?m1.0 = "[(s, True)]" and n = x and ?m2.0 = "[]"]) (use inv in simp_all)
qed

lemma after_free_used:
  assumes "heap_inv info (pre @ (s, True) # (x, False) # post)"
  shows "post = [] \<or> snd (hd post)"
  using assms unfolding heap_inv_def coalesced_def by (cases post) (auto simp: successively_append_iff successively_Cons)

subsection \<open>All of them\<close>

lemma mem_realloc_shrink:
  assumes inv: "heap_inv info (pre @ (s, True) # post)" and n: "n \<le> SHMEM_MAX_SIZE"
    and c: "c = lo_bound info + span pre" and m: "m = mem_proper_alloc_size n" and le: "m \<le> s"
  shows "\<exists>info'. mem_realloc info (c + 8) n = Some (Inr (info', c)) \<and> realloc_ok info (pre @ (s, True) # post) c s m info' c"
proof -
  have live: "(c, s) \<in> live info (pre @ (s, True) # post)" unfolding live_split c by blast
  have size: "CHUNK_SIZE info c = s"
    using store_ok_chunk(1) [of info "chunks_of info (pre @ (s, True) # post)"] inv live by (auto simp: live_def heap_inv_def)
  have m8: "24 \<le> m" "8 dvd m" using proper_size [OF n] by (simp_all add: m)
  have s: "24 \<le> s" "8 dvd s" "s < 2 ^ 60" using heap_inv_chunk [OF inv refl] by simp_all
  define nx where "nx = c + 8 + s + 8"
  note R = mem_realloc_unfold [OF size, of n, folded m nx_def]
  show ?thesis
  proof (cases "s div 4 < m")
    case True
    have "realloc_ok info (pre @ (s, True) # post) c s m info c"
      by (rule realloc_ok_in_place [OF inv same_fixed_refl _ inv live le]) (use live in \<open>auto simp: same_data_def\<close>)
    then show ?thesis unfolding R using le True by (simp only: if_True) blast
  next
    case False
    have sub: "sub64 s m = s - m" "sub64 (s - m) 16 = s - m - 16" "m + 40 \<le> s" using False s m8 by auto
    show ?thesis
    proof (cases post rule: join_right_cases)
      case no
      have nn: "(nx < hi_bound info \<and> FREE_CHUNK info nx) = False"
        using no_next_chunk [OF inv no(2)] unfolding nx_def c by blast
      have "mem_realloc info (c + 8) n = Some (Inr (add_free (s - m - 16) (sub_used (s - m) (split_chunk c s m info)), c))"
        unfolding R nn sub(1,2) split_chunk_def using le False by (simp only: if_False if_True simp_thms)
      then show ?thesis using realloc_shrink_alone [OF inv no(2) m8 sub(3) c] by blast
    next
      case (yes x post0)
      have inv: "heap_inv info (pre @ (s, True) # (x, False) # post0)" using inv yes(1) by simp
      have nx: "nx < hi_bound info" "FREE_CHUNK info nx" "CHUNK_SIZE info nx = x"
        using next_chunk [of info pre s True x False post0] inv by (simp_all add: c nx_def)
      note un = unlink_right [OF inv, of nx, unfolded nx_def c, OF refl, folded c, folded nx_def]
      have xs: "x + s < 2 ^ 60" using heap_inv_bounds(2) [OF inv] by simp
      have sum: "add64 x (s - m) = s + 16 + x - m - 16" using xs sub(3) by simp
      have "mem_realloc info (c + 8) n =
          Some (Inr (add_free (s - m) (sub_used (s - m) (split_chunk c (s + 16 + x) m (mem_unlink_chunk nx info))), c))"
        unfolding R nx(3) sub(1) sum split_chunk_def using le False nx(1,2) by (simp only: if_False if_True simp_thms)
      then show ?thesis unfolding yes(1)
        using realloc_shrink_join [OF inv un after_free_used [OF inv] m8 sub(3) c] by blast
    qed
  qed
qed

lemma mem_realloc_extend:
  assumes inv: "heap_inv info (pre @ (s, True) # post)" and n: "n \<le> SHMEM_MAX_SIZE"
    and c: "c = lo_bound info + span pre" and m: "m = mem_proper_alloc_size n" and less: "s < m"
    and free: "c + 8 + s + 8 < hi_bound info \<and> FREE_CHUNK info (c + 8 + s + 8)"
    and big: "m \<le> add64 (add64 s 16) (CHUNK_SIZE info (c + 8 + s + 8))"
  shows "\<exists>info'. mem_realloc info (c + 8) n = Some (Inr (info', c)) \<and> realloc_ok info (pre @ (s, True) # post) c s m info' c"
proof -
  have live: "(c, s) \<in> live info (pre @ (s, True) # post)" unfolding live_split c by blast
  have size: "CHUNK_SIZE info c = s"
    using store_ok_chunk(1) [of info "chunks_of info (pre @ (s, True) # post)"] inv live by (auto simp: live_def heap_inv_def)
  have m8: "24 \<le> m" "8 dvd m" using proper_size [OF n] by (simp_all add: m)
  define nx where "nx = c + 8 + s + 8"
  note R = mem_realloc_unfold [OF size, of n, folded m nx_def]
  note free = free [folded nx_def] and big = big [folded nx_def]
  obtain x post0 where post: "post = (x, False) # post0"
    using no_next_chunk [OF inv] free unfolding nx_def c by (cases post rule: join_right_cases) blast+
  have inv: "heap_inv info (pre @ (s, True) # (x, False) # post0)" using inv post by simp
  have nx: "CHUNK_SIZE info nx = x"
    using next_chunk [of info pre s True x False post0] inv by (simp add: c nx_def)
  note un = unlink_right [OF inv, of nx, unfolded nx_def c, OF refl, folded c, folded nx_def]
  have xs: "x + s < 2 ^ 60" using heap_inv_bounds(2) [OF inv] by simp
  have sums: "add64 s 16 = s + 16" "add64 s (add64 16 x) = s + 16 + x" "add64 (s + 16) x = s + 16 + x" using xs by simp_all
  have fits: "m \<le> s + 16 + x" using big unfolding nx sums .
  have cond: "((nx < hi_bound info \<and> FREE_CHUNK info nx) \<and> m \<le> add64 (add64 s 16) (CHUNK_SIZE info nx)) = True"
    using free big by blast
  have nle: "(m \<le> s) = False" using less by simp
  have "mem_realloc info (c + 8) n = Some (Inr (use_or_split c (s + 16 + x) m (add_free (s + 16) (sub_used s (mem_unlink_chunk nx info))), c))"
    unfolding R [unfolded cond nle if_True if_False] nx sums ..
  moreover have "realloc_ok info (pre @ [(s, True), (x, False)] @ post0) c s m
      (use_or_split c (s + 16 + x) m (add_free (s + 16) (sub_used s (mem_unlink_chunk nx info)))) c"
    unfolding c by (rule realloc_grow [OF _ un [unfolded c] after_free_used [OF inv] m8 fits less]) (use inv in simp)
  ultimately show ?thesis unfolding post by (simp only: append_Cons append_Nil) blast
qed

lemma mem_realloc_elsewhere:
  assumes inv: "heap_inv info (pre @ (s, True) # post)" and n: "n \<le> SHMEM_MAX_SIZE"
    and c: "c = lo_bound info + span pre" and m: "m = mem_proper_alloc_size n" and less: "s < m"
    and small: "\<not> ((c + 8 + s + 8 < hi_bound info \<and> FREE_CHUNK info (c + 8 + s + 8)) \<and>
      m \<le> add64 (add64 s 16) (CHUNK_SIZE info (c + 8 + s + 8)))"
  shows "(\<exists>info' q. mem_realloc info (c + 8) n = Some (Inr (info', q)) \<and> realloc_ok info (pre @ (s, True) # post) c s m info' q) \<or>
    mem_realloc info (c + 8) n = Some (Inr (info, 0)) \<and> joined_size pre s post < m \<and>
      (\<forall>(x, u) \<in> set (pre @ (s, True) # post). \<not> u \<longrightarrow> x < m)"
proof -
  define bs where "bs = pre @ (s, True) # post"
  have live: "(c, s) \<in> live info bs" unfolding bs_def live_split c by blast
  have size: "CHUNK_SIZE info c = s"
    using store_ok_chunk(1) [of info "chunks_of info bs"] inv live by (auto simp: live_def heap_inv_def bs_def)
  have m8: "m \<le> SHMEM_MAX_SIZE" "mem_proper_alloc_size m = m" using proper_size [OF n] by (simp_all add: m)
  have inv': "heap_inv info bs" using inv by (simp add: bs_def)
  define nx where "nx = c + 8 + s + 8"
  have no_grow: "((nx < hi_bound info \<and> FREE_CHUNK info nx) \<and> m \<le> add64 (add64 s 16) (CHUNK_SIZE info nx)) = False"
    using small [folded nx_def] by blast
  have nle: "(m \<le> s) = False" using less by simp
  note R = mem_realloc_unfold [OF size, of n, folded m nx_def, unfolded nle no_grow if_False]
  show ?thesis
  proof (cases rule: mem_malloc_live [OF inv' m8(1)])
    case (2 info1 q t bs1)
    have "mem_realloc info (c + 8) n = Some (Inr (mem_free (write_cells (q + 8) (read_cells info1 (c + 8) s) info1) (c + 8), q))"
      unfolding R 2(1) using 2(2) by simp
    then show ?thesis using realloc_move [OF inv' live m8(1) less m8(2) 2(1,2)] unfolding bs_def by blast
  next
    case 1
    note full = 1 [unfolded m8(2)]
    note total = R [unfolded full(1) option.case prod.case, unfolded Let_def,
        unfolded joined_total [OF inv, folded c, folded nx_def, unfolded Let_def]]
    show ?thesis
    proof (cases "joined_size pre s post < m")
      case True
      then have "mem_realloc info (c + 8) n = Some (Inr (info, 0))" unfolding total by simp
      then show ?thesis using True full(2) unfolding bs_def by blast
    next
      case False
      have freed: "heap_inv (mem_free info (c + 8)) (freed_layout pre s post)" using mem_free_correct(1) [OF inv] by (simp add: c)
      show ?thesis
      proof (cases rule: mem_malloc_live [OF freed m8(1)])
        case 1
        have "joined_size pre s post < m" using bspec [OF 1(2) joined_in_layout] unfolding m8(2) by simp
        then show ?thesis using False by simp
      next
        case (2 info1 q t bs1)
        have "mem_realloc info (c + 8) n = Some (Inr (write_cells (q + 8) (read_cells info (c + 8) s) info1, q))"
          unfolding total 2(1) using False 2(2) by simp
        then show ?thesis using realloc_after_free [OF inv' live m8(1) less m8(2) 2(1,2)] unfolding bs_def by blast
      qed
    qed
  qed
qed

lemma mem_realloc_correct:
  assumes inv: "heap_inv info (pre @ (s, True) # post)" and n: "n \<le> SHMEM_MAX_SIZE"
    and c: "c = lo_bound info + span pre" and m: "m = mem_proper_alloc_size n"
  obtains (full) "mem_realloc info (c + 8) n = Some (Inr (info, 0))" "joined_size pre s post < m"
      "\<forall>(x, u) \<in> set (pre @ (s, True) # post). \<not> u \<longrightarrow> x < m"
  | (ok) info' q where "mem_realloc info (c + 8) n = Some (Inr (info', q))" "realloc_ok info (pre @ (s, True) # post) c s m info' q"
proof -
  consider (shrink) "m \<le> s" | (grow) "s < m" "c + 8 + s + 8 < hi_bound info \<and> FREE_CHUNK info (c + 8 + s + 8)"
      "m \<le> add64 (add64 s 16) (CHUNK_SIZE info (c + 8 + s + 8))"
    | (move) "s < m" "\<not> ((c + 8 + s + 8 < hi_bound info \<and> FREE_CHUNK info (c + 8 + s + 8)) \<and>
      m \<le> add64 (add64 s 16) (CHUNK_SIZE info (c + 8 + s + 8)))" by linarith
  then show thesis
  proof cases
    case shrink
    then show thesis using mem_realloc_shrink [OF inv n c m] ok by blast
  next
    case grow
    then show thesis using mem_realloc_extend [OF inv n c m] ok by blast
  next
    case move
    then show thesis using mem_realloc_elsewhere [OF inv n c m] ok full by blast
  qed
qed

end
