(* ===== verification/Shmem_Client.thy ===== *)
theory Shmem_Client
  imports Shmem_Resize
begin

text \<open>
  The public interface of the shared memory allocator as a client uses it: a session of calls keeps a map
  from the pointers handed out to the words the client wrote behind them.
\<close>

subsection \<open>Creating the segment\<close>

lemma ALIGN8_eq: "n < 2 ^ 62 \<Longrightarrow> ALIGN8 n = (n + 7) div 8 * 8"
proof -
  assume n: "n < 2 ^ 62"
  have "(n + 7) AND (2 ^ 64 - 1 - 7) = push_bit 3 (drop_bit 3 (n + 7))"
  proof (rule bit_eqI)
    fix i
    have e: "2 ^ 64 - 1 - 7 = push_bit 3 (mask 61 :: nat)" by (simp add: push_bit_eq_mult mask_eq_exp_minus_1)
    have c: "bit (2 ^ 64 - 1 - 7 :: nat) i \<longleftrightarrow> 3 \<le> i \<and> i < 64"
      unfolding e bit_push_bit_iff bit_mask_iff by auto
    have h: "i < 64" if "bit (n + 7) i"
    proof (rule ccontr)
      assume "\<not> i < 64"
      then have "(2 :: nat) ^ 64 \<le> 2 ^ i" by (intro power_increasing) simp_all
      then have "n + 7 < 2 ^ i" using n by simp
      then show False using that by (simp add: bit_iff_odd)
    qed
    show "bit ((n + 7) AND (2 ^ 64 - 1 - 7)) i = bit (push_bit 3 (drop_bit 3 (n + 7))) i"
      unfolding bit_and_iff c bit_push_bit_iff bit_drop_bit_eq comp_def using h by auto
  qed
  then show ?thesis by (simp add: ALIGN8_def push_bit_eq_mult drop_bit_eq_div)
qed

lemma one_chunk_correct:
  assumes b: "buckets info = replicate 30 0" and lo: "0 < lo_bound info" "8 dvd lo_bound info"
    and hi: "hi_bound info = lo_bound info + total_size info + 16" "hi_bound info < 2 ^ 60"
    and t: "24 \<le> total_size info" "8 dvd total_size info"
  shows "heap_inv ((mem_one_chunk info)\<lparr>used_size := 0, free_size := total_size info\<rparr>) [(total_size info, False)] \<and>
    same_fixed info ((mem_one_chunk info)\<lparr>used_size := 0, free_size := total_size info\<rparr>)"
proof -
  define T c i where "T = total_size info" and "c = lo_bound info" and "i = mem_bucket_by_size T"
  define info' where "info' = (mem_one_chunk info)\<lparr>used_size := 0, free_size := T\<rparr>"
  have T: "T < 2 ^ 60" "24 \<le> T" "8 dvd T" using hi t by (simp_all add: T_def)
  have i: "i < 30" by (simp add: i_def bucket_less)
  have info': "info' = info\<lparr>buckets := (replicate 30 0)[i := c], used_size := 0, free_size := T,
      cells := (cells info)(c := T, c + 8 + T := T, c + 8 := 0, c + 16 := 0)\<rparr>"
    using i b by (simp add: info'_def mem_one_chunk_def Let_def T_def [symmetric] i_def [symmetric] c_def [symmetric] set_bucket_def
        mem_set_chunk_size_def mem_set_prev_chunk_def mem_set_next_chunk_def set_cell_def addrs)
  have cells: "cells info' c = T" "cells info' (c + 8 + T) = T" "cells info' (c + 8) = 0" "cells info' (c + 16) = 0"
    using T(2) by (simp_all add: info')
  have bk: "buckets info' ! k = (if k = i then c else 0)" if "k < 30" for k using that by (simp add: info' nth_list_update)
  have "\<exists>xs. bucket_list (cells info') (buckets info') {(c, T)} k xs" if "k < 30" for k
  proof (cases "k = i")
    case True
    then show ?thesis using cells bk [OF that] by (intro exI [of _ "[c]"]) (simp add: bucket_list_def i_def)
  next
    case False
    then show ?thesis using bk [OF that] by (intro exI [of _ "[]"]) (auto simp: bucket_list_def i_def)
  qed
  moreover have "separate {(c, T, False)}" using lo T by (simp add: separate_def sound_chunk_def c_def)
  moreover have "tagged (cells info') {(c, T, False)}" using cells by (simp add: tagged_def tag_def)
  ultimately have "store_ok info' {(c, T, False)} {(c, T)}" by (simp add: store_ok_def) (simp add: info')
  moreover have "lo_bound info' = c" by (simp add: info' c_def)
  ultimately show ?thesis
    using lo hi T unfolding T_def [symmetric] info'_def [symmetric]
    by (simp add: heap_inv_def chunks_of_def coalesced_def geometry_def) (simp add: info' same_fixed_def c_def T_def)
qed

text \<open>Where the chunks start and end. Every address is below \<open>2 ^ 60\<close>.\<close>

definition first_chunk :: "nat \<Rightarrow> nat \<Rightarrow> nat \<Rightarrow> nat" where
  "first_chunk base descr_len param_len = (((base + 7) div 8 * 8 + 330 + descr_len + param_len) + 7) div 8 * 8"

definition end_of_chunks :: "nat \<Rightarrow> nat \<Rightarrow> nat" where
  "end_of_chunks base size' = (base + size' - 8 + 7) div 8 * 8"

text \<open>The end of the segment stays in place while its start and its size are moved.\<close>

lemma move_start: "k \<le> 2 ^ 64 \<Longrightarrow> add64 (base + k) (sub64 n k) = add64 base n"
proof -
  assume k: "k \<le> 2 ^ 64"
  define M :: nat where "M = 2 ^ 64"
  have "base + k + (n + M - k) = base + n + M" using k by (simp add: M_def)
  then have "(base + k + (n + M - k) mod M) mod M = (base + n) mod M" by (metis mod_add_right_eq mod_add_self2)
  then show ?thesis by (simp only: add64_def sub64_def M_def)
qed

lemma zbx_shmem_create_eq:
  assumes s: "SHMEM_MIN_SIZE \<le> n" "n \<le> SHMEM_MAX_SIZE" and b: "base + n < 2 ^ 60" "d < 2 ^ 60" "p < 2 ^ 60"
  defines "lo \<equiv> first_chunk base d p" and "hi \<equiv> end_of_chunks base n"
  defines "len \<equiv> sub64 (sub64 hi lo) 16"
  shows "zbx_shmem_create garbage base n d p oom =
    Some ((mem_one_chunk \<lparr>cells = garbage, buckets = replicate 30 0, lo_bound = lo, hi_bound = hi, free_size = 0, used_size = 0,
      orig_size = n, total_size = len, allow_oom = oom\<rparr>)\<lparr>used_size := 0, free_size := len\<rparr>)"
proof -
  define A where "A = (base + 7) div 8 * 8"
  have A: "base \<le> A" "A \<le> base + 7" unfolding A_def by linarith+
  then have A61: "A < 2 ^ 60 + 8" using b by simp
  have A8: "ALIGN8 base = A" using ALIGN8_eq [of base] b by (simp add: A_def)
  have A88: "ALIGN8 (A + 88) = A + 88"
    using ALIGN8_eq [of "A + 88"] A61 by simp (simp add: A_def)
  have e1: "A + 88 - base + base = A + 88" "base + (A + 88 - base) = A + 88" using A by simp_all
  define s1 s2 s3 s4 where "s1 = sub64 n (A + 88 - base)" and "s2 = sub64 s1 240" and "s3 = sub64 s2 (d + 1)" and "s4 = sub64 s3 (p + 1)"
  have "add64 (A + 88 + 240 + (d + 1) + (p + 1)) s4 = add64 (A + 88 + 240 + (d + 1)) s3"
    unfolding s4_def by (rule move_start) (use b in simp)
  also have "\<dots> = add64 (A + 88 + 240) s2" unfolding s3_def by (rule move_start) (use b in simp)
  also have "\<dots> = add64 (A + 88) s1" unfolding s2_def by (rule move_start) simp
  also have "\<dots> = add64 base n" using move_start [of "A + 88 - base" base n] A unfolding s1_def e1 by simp
  finally have end': "add64 (A + 88 + 240 + d + 1 + p + 1) s4 = base + n" using b by (simp add: add.assoc)
  have lo: "ALIGN8 (A + 88 + 240 + d + 1 + p + 1) = lo"
  proof -
    have e: "A + 88 + 240 + d + 1 + p + 1 = A + 330 + d + p" by simp
    have "A + 330 + d + p < 2 ^ 62" using A61 b by simp
    from ALIGN8_eq [OF this] show ?thesis unfolding e lo_def first_chunk_def A_def [symmetric] .
  qed
  have n8: "8 \<le> n" using s by (simp add: SHMEM_MIN_SIZE_def)
  have hi: "ALIGN8 (sub64 (base + n) 8) = hi"
    using ALIGN8_eq [of "base + n - 8"] b n8 by (simp add: hi_def end_of_chunks_def)
  have k: "(SHMEM_MIN_SIZE \<le> n \<and> n \<le> SHMEM_MAX_SIZE) = True" "30 * ZBX_PTR_SIZE = 240" "2 * SHMEM_SIZE_FIELD = 16"
    using s by (simp_all add: bucket_count ZBX_PTR_SIZE_def SHMEM_SIZE_FIELD_def)
  have i: "A + SIZEOF_INFO = A + 88" "A + 88 + 240 - (A + 88) = 240" by (simp_all add: SIZEOF_INFO_def)
  show ?thesis
    unfolding zbx_shmem_create_def Let_def A8 A88 k i not_True_eq_False if_False s1_def [symmetric] s2_def [symmetric] s3_def [symmetric] s4_def [symmetric]
      end' lo hi len_def [symmetric] bucket_count
    by (rule refl)
qed

text \<open>The segment needs room for the bookkeeping and one chunk.\<close>

definition room_for :: "nat \<Rightarrow> nat \<Rightarrow> nat \<Rightarrow> nat \<Rightarrow> bool" where
  "room_for base n d p \<longleftrightarrow> 0 < base \<and> base + n < 2 ^ 60 \<and> first_chunk base d p + 40 \<le> end_of_chunks base n"

lemma room_bounds: "room_for base n d p \<Longrightarrow> d < 2 ^ 60 \<and> p < 2 ^ 60 \<and> 128 \<le> n \<and> end_of_chunks base n < base + n \<and> base < first_chunk base d p"
proof -
  assume r: "room_for base n d p"
  define A where "A = (base + 7) div 8 * 8"
  have A: "base \<le> A" "A \<le> base + 7" unfolding A_def by linarith+
  have f: "A + 330 + d + p \<le> first_chunk base d p" unfolding first_chunk_def A_def [symmetric] by linarith
  have e: "end_of_chunks base n + 1 \<le> base + n" if "8 \<le> n" unfolding end_of_chunks_def using that by linarith
  have e': "end_of_chunks base n \<le> base + 7" if "n < 8" unfolding end_of_chunks_def using that by linarith
  have n8: "8 \<le> n" using r e' f A unfolding room_for_def by (cases "n < 8") simp_all
  have r': "first_chunk base d p + 40 \<le> end_of_chunks base n" "base + n < 2 ^ 60" using r by (simp_all add: room_for_def)
  show ?thesis using r' e [OF n8] f A n8 by (intro conjI; linarith)
qed

lemma zbx_shmem_create_correct:
  assumes r: "room_for base n d p" and n: "n \<le> SHMEM_MAX_SIZE" and c: "zbx_shmem_create garbage base n d p oom = Some info"
  shows "heap_inv info [(total_size info, False)] \<and> total_size info + 16 = end_of_chunks base n - first_chunk base d p \<and>
    allow_oom info = oom \<and> total_size info < n"
proof -
  define lo hi t where "lo = first_chunk base d p" and "hi = end_of_chunks base n" and "t = hi - lo - 16"
  have r': "lo + 40 \<le> hi" "base + n < 2 ^ 60" "0 < base" using r by (simp_all add: room_for_def lo_def hi_def)
  note B = room_bounds [OF r, folded lo_def hi_def]
  have hi60: "hi < 2 ^ 60" using B r' by linarith
  have sub: "sub64 (sub64 hi lo) 16 = t" using r' hi60 by (simp add: t_def)
  have dvd: "8 dvd lo" "8 dvd hi" by (simp_all add: lo_def hi_def first_chunk_def end_of_chunks_def)
  then have t8: "8 dvd t" unfolding t_def by (intro dvd_diff_nat) simp_all
  define raw where "raw = \<lparr>cells = garbage, buckets = replicate 30 0, lo_bound = lo, hi_bound = hi, free_size = 0, used_size = 0,
      orig_size = n, total_size = t, allow_oom = oom\<rparr>"
  have min: "SHMEM_MIN_SIZE \<le> n" using B by (simp add: SHMEM_MIN_SIZE_def)
  have info: "info = (mem_one_chunk raw)\<lparr>used_size := 0, free_size := total_size raw\<rparr>"
    using zbx_shmem_create_eq [OF min n, of base d p garbage oom, folded lo_def hi_def, unfolded sub, folded raw_def] B r' c
    by (simp add: raw_def)
  have len: "hi = lo + t + 16" "24 \<le> t" using r' by (simp_all add: t_def)
  have lo0: "0 < lo" using B by simp
  have "heap_inv info [(total_size raw, False)] \<and> same_fixed raw info"
    unfolding info by (rule one_chunk_correct) (use lo0 dvd(1) hi60 len t8 in \<open>simp_all add: raw_def\<close>)
  then show ?thesis using len B r' unfolding lo_def [symmetric] hi_def [symmetric] by (simp add: same_fixed_def raw_def)
qed

lemma span_dvd: "sizes_ok bs \<Longrightarrow> 8 dvd span bs"
  by (induction bs rule: span.induct) (auto intro!: dvd_add)

lemma mem_clear_correct:
  assumes "heap_inv info bs"
  shows "heap_inv (zbx_shmem_clear info) [(total_size info, False)] \<and> same_fixed info (zbx_shmem_clear info)"
proof -
  define raw where "raw = info\<lparr>buckets := replicate 30 0\<rparr>"
  have geo: "geometry info bs" using assms by (simp add: heap_inv_def)
  have span: "8 dvd span bs" "40 \<le> span bs"
    using geo span_dvd [of bs] by (cases bs rule: span.cases; auto simp: geometry_def)+
  have t: "24 \<le> total_size info" "8 dvd total_size info"
    using geo span dvd_add_left_iff [of 8 16 "total_size info"] by (simp_all add: geometry_def)
  have e: "zbx_shmem_clear info = (mem_one_chunk raw)\<lparr>used_size := 0, free_size := total_size raw\<rparr>"
    by (simp add: zbx_shmem_clear_def Let_def raw_def bucket_count mem_one_chunk_def set_bucket_def mem_set_chunk_size_def
        mem_set_prev_chunk_def mem_set_next_chunk_def set_cell_def)
  have "heap_inv (zbx_shmem_clear info) [(total_size raw, False)] \<and> same_fixed raw (zbx_shmem_clear info)"
    unfolding e by (rule one_chunk_correct) (use geo t in \<open>simp_all add: raw_def geometry_def\<close>)
  then show ?thesis by (simp add: raw_def same_fixed_def)
qed

subsection \<open>What the client keeps\<close>

text \<open>The words a client wrote stay where the chunk is not touched.\<close>

definition keeps :: "shmem_info \<Rightarrow> nat \<Rightarrow> nat \<Rightarrow> nat list \<Rightarrow> bool" where
  "keeps info c s vs \<longleftrightarrow> 8 * length vs \<le> s \<and> (\<forall>i < length vs. cells info (c + 8 + 8 * i) = vs ! i)"

lemma keeps_same: "keeps info c s vs \<Longrightarrow> same_data info info' c s \<Longrightarrow> keeps info' c s vs"
  by (simp add: keeps_def same_data_def)

text \<open>\<open>L\<close> maps each pointer to a chunk of \<open>A\<close> to the words written behind it.\<close>

definition chunk_ptr :: "nat \<times> nat \<Rightarrow> nat" where
  "chunk_ptr x = fst x + 8"

lemma chunk_ptr_simp [simp]: "chunk_ptr (c, s) = c + 8"
  by (simp add: chunk_ptr_def)

definition content :: "shmem_info \<Rightarrow> (nat \<times> nat) set \<Rightarrow> (nat \<Rightarrow> nat list option) \<Rightarrow> bool" where
  "content info A L \<longleftrightarrow> dom L = chunk_ptr ` A \<and> (\<forall>c s vs. (c, s) \<in> A \<longrightarrow> L (c + 8) = Some vs \<longrightarrow> keeps info c s vs)"

definition holds :: "shmem_info \<Rightarrow> layout \<Rightarrow> (nat \<Rightarrow> nat list option) \<Rightarrow> bool" where
  "holds info bs L \<longleftrightarrow> heap_inv info bs \<and> total_size info \<le> SHMEM_MAX_SIZE \<and> content info (live info bs) L"

lemma live_inj: "heap_inv info bs \<Longrightarrow> inj_on chunk_ptr (live info bs)"
proof (rule inj_onI)
  fix x y assume a: "heap_inv info bs" "x \<in> live info bs" "y \<in> live info bs" "chunk_ptr x = chunk_ptr y"
  obtain c s d t where "x = (c, s)" "y = (d, t)" by (cases x; cases y)
  then show "x = y" using a live_apart [OF a(1), of c s d t] by auto
qed

lemma content_live:
  assumes "content info A L" "L p = Some vs"
  obtains c s where "p = c + 8" "(c, s) \<in> A" "keeps info c s vs"
proof -
  have "p \<in> chunk_ptr ` A" using assms unfolding content_def by blast
  then obtain c s where "p = c + 8" "(c, s) \<in> A" by auto
  then show thesis using that assms unfolding content_def by blast
qed

lemma content_same:
  "content info A L \<Longrightarrow> (\<And>d u. (d, u) \<in> A \<Longrightarrow> same_data info info' d u) \<Longrightarrow> content info' A L"
  unfolding content_def using keeps_same by blast

lemma content_drop:
  assumes h: "content info A L" and inj: "inj_on chunk_ptr A" and c: "(c, s) \<in> A"
  shows "content info (A - {(c, s)}) (L(c + 8 := None))"
proof -
  have "chunk_ptr ` (A - {(c, s)}) = chunk_ptr ` A - {c + 8}"
    using inj_on_image_set_diff [OF inj, of A "{(c, s)}"] c by simp
  then have "dom (L(c + 8 := None)) = chunk_ptr ` (A - {(c, s)})" using h by (simp add: content_def)
  moreover have "keeps info d u vs" if d: "(d, u) \<in> A - {(c, s)}" and vs: "(L(c + 8 := None)) (d + 8) = Some vs" for d u vs
  proof -
    have "L (d + 8) = Some vs" using vs by (simp split: if_splits)
    then show ?thesis using h d unfolding content_def by blast
  qed
  ultimately show ?thesis unfolding content_def by blast
qed

lemma content_add:
  assumes h: "content info A L" and inj: "inj_on chunk_ptr (insert (q, t) A)" and new: "(q, t) \<notin> A" and ws: "keeps info q t ws"
  shows "content info (insert (q, t) A) (L(q + 8 \<mapsto> ws))" "L (q + 8) = None"
proof -
  have q: "q + 8 \<notin> chunk_ptr ` A" using inj new by simp
  then show "L (q + 8) = None" using h unfolding content_def by blast
  have "dom (L(q + 8 \<mapsto> ws)) = chunk_ptr ` insert (q, t) A" using h by (simp add: content_def)
  moreover have "keeps info d u vs" if d: "(d, u) \<in> insert (q, t) A" and vs: "(L(q + 8 \<mapsto> ws)) (d + 8) = Some vs" for d u vs
  proof (cases "(d, u) = (q, t)")
    case True
    then show ?thesis using ws vs by simp
  next
    case False
    then have l: "(d, u) \<in> A" using d by blast
    then have "d + 8 \<in> chunk_ptr ` A" using imageI [of "(d, u)" A chunk_ptr] by simp
    then have "L (d + 8) = Some vs" using vs q by (cases "d = q") simp_all
    then show ?thesis using h l unfolding content_def by blast
  qed
  ultimately show "content info (insert (q, t) A) (L(q + 8 \<mapsto> ws))" unfolding content_def by blast
qed

lemma holds_write:
  assumes h: "holds info bs L" and p: "L p = Some vs" and len: "length xs \<le> length vs"
  shows "holds (write_cells p xs info) bs (L(p \<mapsto> xs @ drop (length xs) vs))"
proof -
  have inv: "heap_inv info bs" and C: "content info (live info bs) L" using h by (simp_all add: holds_def)
  obtain c s where c: "p = c + 8" "(c, s) \<in> live info bs" "keeps info c s vs" by (rule content_live [OF C p])
  have n: "8 * length xs \<le> s" using len c(3) by (simp add: keeps_def)
  note W = heap_inv_write [OF inv c(2) n, folded c(1)]
  have lo: "lo_bound (write_cells p xs info) = lo_bound info" using W(2) by (simp add: same_fixed_def)
  have live': "live (write_cells p xs info) bs = live info bs" by (rule live_same_lo [OF lo])
  have rest: "cells (write_cells p xs info) (p + 8 * i) = (xs @ drop (length xs) vs) ! i" if "i < length vs" for i
  proof (cases "i < length xs")
    case True
    then show ?thesis using W(4) [of i] by (simp add: nth_append)
  next
    case False
    then have "cells (write_cells p xs info) (p + 8 * i) = cells info (p + 8 * i)" by (intro write_cells_frame) auto
    then show ?thesis using False c(1,3) that by (simp add: nth_append keeps_def)
  qed
  have mine: "keeps (write_cells p xs info) c s (xs @ drop (length xs) vs)"
    using rest c(1,3) len by (simp add: keeps_def)
  have same: "same_data info (write_cells p xs info) d u" if d: "(d, u) \<in> live info bs - {(c, s)}" for d u
  proof -
    have "d + u + 16 \<le> c \<or> c + s + 16 \<le> d" using live_apart [OF inv _ c(2), of d u] d by blast
    then show ?thesis using W(3) c(1) unfolding same_data_def by auto
  qed
  have "content (write_cells p xs info) (live info bs - {(c, s)}) (L(p := None))"
    unfolding c(1) by (rule content_same [OF content_drop [OF C live_inj [OF inv] c(2)] same [unfolded c(1)]])
  from content_add(1) [OF this _ _ mine] have "content (write_cells p xs info) (live info bs) (L(p \<mapsto> xs @ drop (length xs) vs))"
    using live_inj [OF inv] by (simp add: insert_absorb [OF c(2)] c(1))
  then show ?thesis using h W(1,2) unfolding holds_def live' same_fixed_def by simp
qed

lemma keeps_read: "8 * n \<le> s \<Longrightarrow> keeps info c s (map (\<lambda>k. cells info (c + 8 + 8 * k)) [0..<n])"
  by (simp add: keeps_def)

subsection \<open>The operations of the interface\<close>

text \<open>The number of words a request is given, and no free chunk that would do.\<close>

definition words :: "nat \<Rightarrow> nat" where
  "words n = mem_proper_alloc_size n div 8"

definition no_room :: "layout \<Rightarrow> nat \<Rightarrow> bool" where
  "no_room bs n \<longleftrightarrow> (\<forall>(s, u) \<in> set bs. \<not> u \<longrightarrow> s < mem_proper_alloc_size n)"

lemma words_size: "n \<le> SHMEM_MAX_SIZE \<Longrightarrow> 8 * words n = mem_proper_alloc_size n"
  using proper_size(3) [of n] by (simp add: words_def)

lemma holds_malloc:
  assumes h: "holds info bs L" and n: "n \<le> SHMEM_MAX_SIZE"
  obtains (full) "mem_malloc info n = Some (info, 0)" "no_room bs n"
    | (fit) info' c bs' where "mem_malloc info n = Some (info', c)" "c \<noteq> 0" "L (c + 8) = None" "same_fixed info info'"
      "holds info' bs' (L(c + 8 \<mapsto> read_cells info' (c + 8) (mem_proper_alloc_size n)))"
proof -
  have inv: "heap_inv info bs" and C: "content info (live info bs) L" using h by (simp_all add: holds_def)
  show thesis
  proof (cases rule: mem_malloc_live [OF inv n])
    case 1
    then show thesis using full by (simp add: no_room_def)
  next
    case (2 info' c t bs')
    have k: "keeps info' c t (read_cells info' (c + 8) (mem_proper_alloc_size n))"
      unfolding read_cells_def by (rule keeps_read) (use 2(3) words_size [OF n] in \<open>simp add: words_def\<close>)
    have "content info' (live info bs) L" by (rule content_same [OF C 2(8)])
    note A = content_add [OF this live_inj [OF 2(4), unfolded 2(6)] 2(7) k]
    show thesis by (rule fit [OF 2(1,2) A(2) 2(5), of bs']) (use A(1) 2(4,5,6) h in \<open>simp add: holds_def same_fixed_def\<close>)
  qed
qed

lemma holds_free:
  assumes h: "holds info bs L" and p: "L p = Some vs"
  obtains bs' where "p \<noteq> 0" "holds (mem_free info p) bs' (L(p := None))" "same_fixed info (mem_free info p)"
proof -
  have inv: "heap_inv info bs" and C: "content info (live info bs) L" using h by (simp_all add: holds_def)
  obtain c s where c: "p = c + 8" "(c, s) \<in> live info bs" "keeps info c s vs" by (rule content_live [OF C p])
  obtain pre post where F: "heap_inv (mem_free info p) (freed_layout pre s post)" "same_fixed info (mem_free info p)"
      "live (mem_free info p) (freed_layout pre s post) = live info bs - {(c, s)}"
      "\<And>d t. (d, t) \<in> live info bs - {(c, s)} \<Longrightarrow> same_data info (mem_free info p) d t"
    unfolding c(1) by (rule mem_free_live [OF inv c(2)]) blast
  have "content (mem_free info p) (live info bs - {(c, s)}) (L(p := None))"
    using content_same [OF content_drop [OF C live_inj [OF inv] c(2)] F(4)] by (simp add: c(1))
  then have "holds (mem_free info p) (freed_layout pre s post) (L(p := None))"
    using F(1,2,3) h by (simp add: holds_def same_fixed_def)
  then show thesis using that [OF _ _ F(2)] c(1) by simp
qed

lemma holds_realloc:
  assumes h: "holds info bs L" and p: "L p = Some vs" and n: "n \<le> SHMEM_MAX_SIZE"
  obtains (full) "mem_realloc info p n = Some (Inr (info, 0))" "no_room bs n"
    | (fit) info' c bs' where "mem_realloc info p n = Some (Inr (info', c))" "c \<noteq> 0" "(L(p := None)) (c + 8) = None" "same_fixed info info'"
      "take (length vs) (read_cells info' (c + 8) (mem_proper_alloc_size n)) = take (words n) vs"
      "holds info' bs' (L(p := None, c + 8 \<mapsto> read_cells info' (c + 8) (mem_proper_alloc_size n)))"
proof -
  have inv: "heap_inv info bs" and C: "content info (live info bs) L" using h by (simp_all add: holds_def)
  obtain c s where c: "p = c + 8" "(c, s) \<in> live info bs" "keeps info c s vs" by (rule content_live [OF C p])
  obtain pre post where bs: "bs = pre @ (s, True) # post" "c = lo_bound info + span pre" using c(2) unfolding live_split by blast
  define m where "m = mem_proper_alloc_size n"
  show thesis
  proof (cases rule: mem_realloc_correct [OF inv [unfolded bs(1)] n bs(2) m_def])
    case 1
    then show thesis using full by (simp add: no_room_def bs(1) m_def c(1))
  next
    case (2 info' q)
    obtain t bs' where q: "q \<noteq> 0" "m \<le> t" "heap_inv info' bs'" "same_fixed info info'"
        "live info' bs' = insert (q, t) (live info bs - {(c, s)})" "(q, t) \<notin> live info bs - {(c, s)}"
      and same: "\<And>d u. (d, u) \<in> live info bs - {(c, s)} \<Longrightarrow> same_data info info' d u"
      and data: "\<And>i. 8 * i < min s m \<Longrightarrow> cells info' (q + 8 + 8 * i) = cells info (c + 8 + 8 * i)"
      using 2(2) unfolding realloc_ok_def bs(1) [symmetric] by blast
    have k: "keeps info' q t (read_cells info' (q + 8) m)"
      unfolding read_cells_def by (rule keeps_read) (use q(2) words_size [OF n] in \<open>simp add: words_def m_def\<close>)
    have "content info' (live info bs - {(c, s)}) (L(p := None))"
      unfolding c(1) by (rule content_same [OF content_drop [OF C live_inj [OF inv] c(2)] same])
    note A = content_add [OF this live_inj [OF q(3), unfolded q(5)] q(6) k]
    have "take (length vs) (read_cells info' (q + 8) m) = take (words n) vs"
    proof (rule nth_equalityI)
      show len: "length (take (length vs) (read_cells info' (q + 8) m)) = length (take (words n) vs)"
        by (simp add: read_cells_def words_def m_def min.commute)
      fix i assume "i < length (take (length vs) (read_cells info' (q + 8) m))"
      then have i: "i < length vs" "i < m div 8" by (simp_all add: read_cells_def)
      have "8 * i < min s m" using i c(3) words_size [OF n] by (simp add: keeps_def m_def words_def)
      from data [OF this] show "take (length vs) (read_cells info' (q + 8) m) ! i = take (words n) vs ! i"
        using i c(3) by (simp add: read_cells_def keeps_def words_def m_def)
    qed
    then show thesis using fit [of info' q bs'] 2(1) q(1,3,4,5) A h c(1) by (simp add: holds_def same_fixed_def m_def)
  qed
qed

subsection \<open>Sessions\<close>

text \<open>The calls of a client, with \<open>L\<close> the words behind each pointer it holds. A write stays inside of the
  words that were asked for.\<close>

inductive shmem_session :: "shmem_info \<Rightarrow> (nat \<Rightarrow> nat list option) \<Rightarrow> bool" where
  created: "\<lbrakk>zbx_shmem_create garbage base n d p oom = Some info; room_for base n d p\<rbrakk> \<Longrightarrow> shmem_session info Map.empty"
| malloced: "\<lbrakk>shmem_session info L; zbx_shmem_malloc info 0 n = Some (Inr (info', p)); p \<noteq> 0\<rbrakk> \<Longrightarrow>
    shmem_session info' (L(p \<mapsto> read_cells info' p (mem_proper_alloc_size n)))"
| realloced: "\<lbrakk>shmem_session info L; L p = Some vs; zbx_shmem_realloc info p n = Some (Inr (info', q)); q \<noteq> 0\<rbrakk> \<Longrightarrow>
    shmem_session info' (L(p := None, q \<mapsto> read_cells info' q (mem_proper_alloc_size n)))"
| written: "\<lbrakk>shmem_session info L; L p = Some vs; length xs \<le> length vs\<rbrakk> \<Longrightarrow>
    shmem_session (write_cells p xs info) (L(p \<mapsto> xs @ drop (length xs) vs))"
| freed: "\<lbrakk>shmem_session info L; L p = Some vs; zbx_shmem_free info p = Inr info'\<rbrakk> \<Longrightarrow> shmem_session info' (L(p := None))"
| cleared: "shmem_session info L \<Longrightarrow> shmem_session (zbx_shmem_clear info) Map.empty"

definition out_of_room :: "shmem_info \<Rightarrow> nat \<Rightarrow> bool" where
  "out_of_room info n \<longleftrightarrow> (\<exists>bs. heap_inv info bs \<and> no_room bs n)"

lemma malloc_interface:
  assumes h: "holds info bs L" and n: "0 < n" "n \<le> SHMEM_MAX_SIZE"
  obtains (full) "no_room bs n" "zbx_shmem_malloc info 0 n = Some (if allow_oom info then Inr (info, 0) else Inl Exit_Failure)"
    | (fit) info' p bs' where "zbx_shmem_malloc info 0 n = Some (Inr (info', p))" "p \<noteq> 0" "L p = None"
      "holds info' bs' (L(p \<mapsto> read_cells info' p (mem_proper_alloc_size n)))"
proof (cases rule: holds_malloc [OF h n(2)])
  case 1
  then show thesis using full n by (simp add: zbx_shmem_malloc_def)
next
  case (2 info' c bs')
  then show thesis using fit [of info' "c + 8" bs'] n by (simp add: zbx_shmem_malloc_def SHMEM_SIZE_FIELD_def)
qed

lemma realloc_interface:
  assumes h: "holds info bs L" and p: "L p = Some vs" and n: "0 < n" "n \<le> SHMEM_MAX_SIZE"
  obtains (full) "no_room bs n" "zbx_shmem_realloc info p n = Some (if allow_oom info then Inr (info, 0) else Inl Exit_Failure)"
    | (fit) info' q bs' where "zbx_shmem_realloc info p n = Some (Inr (info', q))" "q \<noteq> 0" "(L(p := None)) q = None"
      "take (length vs) (read_cells info' q (mem_proper_alloc_size n)) = take (words n) vs"
      "holds info' bs' (L(p := None, q \<mapsto> read_cells info' q (mem_proper_alloc_size n)))"
proof -
  have "p \<noteq> 0" using holds_free [OF h p] by blast
  then have e: "zbx_shmem_realloc info p n =
    (case mem_realloc info p n of None \<Rightarrow> None | Some (Inl e) \<Rightarrow> Some (Inl e)
     | Some (Inr (info, chunk)) \<Rightarrow> if chunk = 0 then (if allow_oom info then Some (Inr (info, 0)) else Some (Inl Exit_Failure))
         else Some (Inr (info, chunk + 8)))"
    using n unfolding zbx_shmem_realloc_def SHMEM_SIZE_FIELD_def by simp
  show thesis
  proof (cases rule: holds_realloc [OF h p n(2)])
    case 1
    then show thesis using full by (simp add: e)
  next
    case (2 info' c bs')
    then show thesis using fit [of info' "c + 8" bs'] by (simp add: e)
  qed
qed

lemma free_interface:
  assumes "holds info bs L" "L p = Some vs"
  obtains info' bs' where "zbx_shmem_free info p = Inr info'" "holds info' bs' (L(p := None))"
proof -
  obtain bs' where "p \<noteq> 0" "holds (mem_free info p) bs' (L(p := None))" by (rule holds_free [OF assms])
  then show thesis using that by (simp add: zbx_shmem_free_def)
qed

lemma content_empty: "content info {} Map.empty"
  by (simp add: content_def)

lemma one_free_live: "live info [(t, False)] = {}"
  by (auto simp: live_def chunks_of_def)

lemma created_holds:
  assumes r: "room_for base n d p" and c: "zbx_shmem_create garbage base n d p oom = Some info"
  shows "holds info [(total_size info, False)] Map.empty"
proof -
  have n: "n \<le> SHMEM_MAX_SIZE"
  proof (rule ccontr)
    assume "\<not> n \<le> SHMEM_MAX_SIZE"
    then have "(\<not> (SHMEM_MIN_SIZE \<le> n \<and> n \<le> SHMEM_MAX_SIZE)) = True" by blast
    then have "zbx_shmem_create garbage base n d p oom = None" unfolding zbx_shmem_create_def by (simp only: if_True)
    then show False using c by simp
  qed
  note C = zbx_shmem_create_correct [OF r n c]
  have "total_size info \<le> SHMEM_MAX_SIZE" using C n by linarith
  then show ?thesis using C unfolding holds_def one_free_live by (simp add: content_empty)
qed

lemma cleared_holds:
  assumes "holds info bs L"
  shows "holds (zbx_shmem_clear info) [(total_size info, False)] Map.empty"
proof -
  have "heap_inv info bs" using assms by (simp add: holds_def)
  from mem_clear_correct [OF this] show ?thesis
    using assms unfolding holds_def one_free_live by (simp add: content_empty same_fixed_def)
qed

lemma session_holds: "shmem_session info L \<Longrightarrow> \<exists>bs. holds info bs L"
proof (induction rule: shmem_session.induct)
  case (created garbage base n d p oom info)
  then show ?case using created_holds by blast
next
  case (malloced info L n info' p)
  then obtain bs where h: "holds info bs L" by blast
  have n: "0 < n" "n \<le> SHMEM_MAX_SIZE" using malloced.hyps(2) by (auto simp: zbx_shmem_malloc_def split: if_splits)
  show ?case by (cases rule: malloc_interface [OF h n]) (use malloced.hyps in \<open>auto split: if_splits simp del: fun_upd_apply\<close>)
next
  case (realloced info L p vs n info' q)
  then obtain bs where h: "holds info bs L" by blast
  have n: "0 < n" "n \<le> SHMEM_MAX_SIZE" using realloced.hyps(3) by (auto simp: zbx_shmem_realloc_def split: if_splits)
  show ?case by (cases rule: realloc_interface [OF h realloced.hyps(2) n]) (use realloced.hyps in \<open>auto split: if_splits simp del: fun_upd_apply\<close>)
next
  case (written info L p vs xs)
  then show ?case using holds_write by blast
next
  case (freed info L p vs info')
  then obtain bs where h: "holds info bs L" by blast
  show ?case by (rule free_interface [OF h freed.hyps(2)]) (use freed.hyps in \<open>auto simp del: fun_upd_apply\<close>)
next
  case (cleared info L)
  then show ?case using cleared_holds by blast
qed

end
