(* ===== verification/Shmem_Sessions.thy ===== *)
theory Shmem_Sessions
  imports Shmem_Client
begin

text \<open>
  What the shared memory allocator promises its clients, over all sessions: the chunks a client holds are
  separate and keep what was written, each call returns with one of the outcomes of the code, no memory
  is lost, and the statistics count the chunks.
\<close>

subsection \<open>Consequences of the invariant\<close>

lemma out_of_roomI: "holds info bs L \<Longrightarrow> no_room bs n \<Longrightarrow> out_of_room info n"
  unfolding out_of_room_def holds_def by blast

lemma heap_inv_total: "heap_inv info bs \<Longrightarrow> used_size info + free_size info + 16 * (length bs - 1) = total_size info"
proof -
  assume h: "heap_inv info bs"
  have "sized True bs + sized False bs + 16 * length bs = span bs"
    by (induction bs rule: span.induct) auto
  then show ?thesis using h by (cases bs) (auto simp: heap_inv_def geometry_def)
qed

lemma holds_place:
  assumes h: "holds info bs L" and p: "L p = Some vs"
  shows "8 dvd p" "lo_bound info + 8 \<le> p" "p + 8 * length vs + 8 \<le> hi_bound info" "read_cells info p (8 * length vs) = vs"
proof -
  have inv: "heap_inv info bs" and C: "content info (live info bs) L" using h by (simp_all add: holds_def)
  obtain c s where c: "p = c + 8" "(c, s) \<in> live info bs" "keeps info c s vs" by (rule content_live [OF C p])
  note B = live_bounds [OF inv c(2)]
  show "8 dvd p" using B(3) by (simp add: c(1))
  show "lo_bound info + 8 \<le> p" "p + 8 * length vs + 8 \<le> hi_bound info" using B c(3) by (simp_all add: c(1) keeps_def)
  show "read_cells info p (8 * length vs) = vs"
    by (rule nth_equalityI) (use c(3) in \<open>simp_all add: read_cells_def keeps_def c(1)\<close>)
qed

lemma holds_apart:
  assumes h: "holds info bs L" and p: "L p = Some vs" "L q = Some ws" "p \<noteq> q"
  shows "p + 8 * length vs + 16 \<le> q \<or> q + 8 * length ws + 16 \<le> p"
proof -
  have inv: "heap_inv info bs" and C: "content info (live info bs) L" using h by (simp_all add: holds_def)
  obtain c s where c: "p = c + 8" "(c, s) \<in> live info bs" "keeps info c s vs" by (rule content_live [OF C p(1)])
  obtain d t where d: "q = d + 8" "(d, t) \<in> live info bs" "keeps info d t ws" by (rule content_live [OF C p(2)])
  show ?thesis using live_apart [OF inv c(2) d(2)] p(3) c d by (auto simp: keeps_def)
qed

lemma holds_none:
  assumes "holds info bs Map.empty"
  shows "bs = [(total_size info, False)]"
proof -
  have inv: "heap_inv info bs" and "live info bs = {}" using assms by (auto simp: holds_def content_def)
  then have free: "\<not> u" if "(s, u) \<in> set bs" for s u
    using split_list [OF that] live_split [of _ s info bs] by (cases u) fastforce+
  obtain s u bs' where bs: "bs = (s, u) # bs'" using inv by (cases bs) (auto simp: heap_inv_def geometry_def)
  have "bs' = []"
  proof (rule ccontr)
    assume "bs' \<noteq> []"
    then obtain t v bs'' where b: "bs' = (t, v) # bs''" by (cases bs') auto
    have "u \<or> v" using inv by (simp add: heap_inv_def coalesced_def bs b)
    then show False using free [of s u] free [of t v] by (auto simp: bs b)
  qed
  then show ?thesis using inv free [of s u] by (auto simp: bs heap_inv_def geometry_def)
qed

lemma request_fits: "n \<le> t \<Longrightarrow> 24 \<le> t \<Longrightarrow> 8 dvd t \<Longrightarrow> t \<le> SHMEM_MAX_SIZE \<Longrightarrow> mem_proper_alloc_size n \<le> t"
proof -
  assume a: "n \<le> t" "24 \<le> t" "8 dvd t" "t \<le> SHMEM_MAX_SIZE"
  have n: "n < 2 ^ 60" using a by (simp add: SHMEM_MAX_SIZE_def)
  define r where "r = n + (8 - n mod 8) mod 8"
  have r: "r < n + 8" "8 dvd r" using round_up_8 [of n] by (simp_all add: r_def)
  obtain x y where "r = 8 * x" "t = 8 * y" using r(2) a(3) by blast
  then have "r \<le> t" using r(1) a(1) by simp
  then show ?thesis using a(2) by (simp add: proper_size_eq [OF n] r_def)
qed

lemma empty_allocates:
  assumes h: "holds info bs Map.empty" and n: "0 < n" "n \<le> total_size info"
  obtains info' p bs' where "zbx_shmem_malloc info 0 n = Some (Inr (info', p))" "p \<noteq> 0"
    "holds info' bs' [p \<mapsto> read_cells info' p (mem_proper_alloc_size n)]"
proof -
  have bs: "bs = [(total_size info, False)]" by (rule holds_none [OF h])
  have m: "total_size info \<le> SHMEM_MAX_SIZE" and inv: "heap_inv info bs" using h by (simp_all add: holds_def)
  have t: "24 \<le> total_size info" "8 dvd total_size info" using inv by (simp_all add: heap_inv_def geometry_def bs)
  have "\<not> no_room bs n" using request_fits [OF n(2) t m] by (simp add: no_room_def bs)
  then show thesis by (cases rule: malloc_interface [OF h n(1) order_trans [OF n(2) m]]) (use that in blast)+
qed

text \<open>A session that holds one chunk.\<close>

lemma example_created:
  obtains info where "zbx_shmem_create (\<lambda>_. 0) 4096 1024 0 0 True = Some info" "room_for 4096 1024 0 0" "total_size info = 664"
    "shmem_session info Map.empty" "holds info [(664, False)] Map.empty"
proof -
  have r: "room_for 4096 1024 0 0" by (simp add: room_for_def first_chunk_def end_of_chunks_def)
  obtain info where c: "zbx_shmem_create (\<lambda>_. 0) 4096 1024 0 0 True = Some info"
    using zbx_shmem_create_eq [of 1024 4096 0 0 "\<lambda>_. 0" True] by (simp add: SHMEM_MIN_SIZE_def SHMEM_MAX_SIZE_def)
  have t: "total_size info = 664"
    using zbx_shmem_create_correct [OF r _ c] by (simp add: SHMEM_MAX_SIZE_def first_chunk_def end_of_chunks_def)
  show thesis using that c r t shmem_session.created [OF c r] created_holds [OF r c] by simp
qed

lemma example_session:
  obtains info p vs where "shmem_session info [p \<mapsto> vs]" "length vs = 5"
proof -
  obtain info where i: "total_size info = 664" "shmem_session info Map.empty" "holds info [(664, False)] Map.empty"
    by (rule example_created)
  obtain info' p bs' where m: "zbx_shmem_malloc info 0 40 = Some (Inr (info', p))" "p \<noteq> 0"
    by (rule empty_allocates [OF i(3), of 40]) (simp_all add: i(1))
  have "mem_proper_alloc_size 40 = 40" by (simp add: proper_size_eq)
  then show thesis using that [OF shmem_session.malloced [OF i(2) m]] by (simp add: read_cells_def)
qed

subsection \<open>Properties\<close>

text \<open>C9: In every session the pointers a client holds are aligned and inside of the segment, their words do
  not overlap and are the ones the client wrote last, and the counters account for the whole segment.\<close>

theorem shmem_session_safe:
  assumes "shmem_session info L"
  shows "(\<forall>p vs. L p = Some vs \<longrightarrow> 8 dvd p \<and> lo_bound info + 8 \<le> p \<and> p + 8 * length vs + 8 \<le> hi_bound info \<and>
      read_cells info p (8 * length vs) = vs) \<and>
    (\<forall>p q vs ws. L p = Some vs \<longrightarrow> L q = Some ws \<longrightarrow> p \<noteq> q \<longrightarrow> p + 8 * length vs + 16 \<le> q \<or> q + 8 * length ws + 16 \<le> p) \<and>
    used_size info + free_size info \<le> total_size info"
proof -
  obtain bs where h: "holds info bs L" using session_holds [OF assms] by blast
  then have "used_size info + free_size info \<le> total_size info"
    using heap_inv_total [of info bs] by (simp add: holds_def)
  then show ?thesis using holds_place [OF h] holds_apart [OF h] by blast
qed

theorem shmem_session_safe_witness:
  "\<exists>info p vs. shmem_session info [p \<mapsto> vs] \<and> length vs = 5 \<and> 8 dvd p \<and> read_cells info p 40 = vs"
proof -
  obtain info p vs where s: "shmem_session info [p \<mapsto> vs]" "length vs = 5" by (rule example_session)
  have "8 dvd p \<and> read_cells info p (8 * length vs) = vs"
    using conjunct1 [OF shmem_session_safe [OF s(1)], rule_format, of p vs] by simp
  then show ?thesis using s by (intro exI [of _ info] exI [of _ p] exI [of _ vs]) simp
qed

text \<open>C10: An allocation returns: a size of zero or above the maximum ends the process, otherwise the client gets a
  chunk it does not hold yet, with at least the bytes it asked for, unless no free chunk is large enough; only
  then it gets a null pointer or, without permission to run out of memory, the process ends.\<close>

theorem shmem_malloc_outcome:
  assumes "shmem_session info L"
  shows "if n = 0 \<or> SHMEM_MAX_SIZE < n then zbx_shmem_malloc info 0 n = Some (Inl Exit_Failure)
    else n \<le> 8 * words n \<and>
      ((\<exists>info' p vs. zbx_shmem_malloc info 0 n = Some (Inr (info', p)) \<and> p \<noteq> 0 \<and> L p = None \<and> length vs = words n \<and>
          shmem_session info' (L(p \<mapsto> vs))) \<or>
       out_of_room info n \<and> zbx_shmem_malloc info 0 n = Some (if allow_oom info then Inr (info, 0) else Inl Exit_Failure))"
proof (cases "n = 0 \<or> SHMEM_MAX_SIZE < n")
  case True
  then show ?thesis by (auto simp: zbx_shmem_malloc_def)
next
  case False
  then have n: "0 < n" "n \<le> SHMEM_MAX_SIZE" by simp_all
  obtain bs where h: "holds info bs L" using session_holds [OF assms] by blast
  have w: "n \<le> 8 * words n" using words_size [OF n(2)] proper_size(1) [OF n(2)] by simp
  show ?thesis
  proof (cases rule: malloc_interface [OF h n])
    case 1
    then show ?thesis using out_of_roomI [OF h] w False by simp
  next
    case (2 info' p bs')
    have "length (read_cells info' p (mem_proper_alloc_size n)) = words n" by (simp add: read_cells_def words_def)
    then show ?thesis using 2 shmem_session.malloced [OF assms 2(1,2)] w False by auto
  qed
qed

theorem shmem_malloc_outcome_witness:
  "\<exists>info info' p vs. shmem_session info Map.empty \<and> zbx_shmem_malloc info 0 100 = Some (Inr (info', p)) \<and>
    length vs = words 100 \<and> shmem_session info' [p \<mapsto> vs]"
proof -
  obtain info where i: "total_size info = 664" "shmem_session info Map.empty" "holds info [(664, False)] Map.empty"
    by (rule example_created)
  obtain info1 q where m: "zbx_shmem_malloc info 0 100 = Some (Inr (info1, q))" "q \<noteq> 0"
    by (rule empty_allocates [OF i(3), of 100]) (simp_all add: i(1))
  have "\<exists>info' p vs. zbx_shmem_malloc info 0 100 = Some (Inr (info', p)) \<and> length vs = words 100 \<and> shmem_session info' [p \<mapsto> vs]"
    using shmem_malloc_outcome [OF i(2), of 100] m by (auto simp: SHMEM_MAX_SIZE_def split: if_splits simp del: fun_upd_apply)
  then show ?thesis using i(2) by blast
qed

text \<open>C11: A reallocation returns in every session: the client gets a chunk of the new size that starts with the words of
  the old one, in place or elsewhere, and the other chunks keep theirs; it fails only when no free chunk is large
  enough, and then the old chunk is still there. The exit on a failed second allocation is never taken.\<close>

theorem shmem_realloc_outcome:
  assumes "shmem_session info L" "L p = Some vs"
  shows "if n = 0 \<or> SHMEM_MAX_SIZE < n then zbx_shmem_realloc info p n = Some (Inl Exit_Failure)
    else (\<exists>info' q ws. zbx_shmem_realloc info p n = Some (Inr (info', q)) \<and> q \<noteq> 0 \<and> (q = p \<or> L q = None) \<and>
          length ws = words n \<and> take (length vs) ws = take (words n) vs \<and> shmem_session info' (L(p := None, q \<mapsto> ws))) \<or>
       out_of_room info n \<and> zbx_shmem_realloc info p n = Some (if allow_oom info then Inr (info, 0) else Inl Exit_Failure)"
proof (cases "n = 0 \<or> SHMEM_MAX_SIZE < n")
  case True
  then show ?thesis by (auto simp: zbx_shmem_realloc_def)
next
  case False
  then have n: "0 < n" "n \<le> SHMEM_MAX_SIZE" by simp_all
  obtain bs where h: "holds info bs L" using session_holds [OF assms(1)] by blast
  show ?thesis
  proof (cases rule: realloc_interface [OF h assms(2) n])
    case 1
    then show ?thesis using out_of_roomI [OF h] False by simp
  next
    case (2 info' q bs')
    have "length (read_cells info' q (mem_proper_alloc_size n)) = words n" by (simp add: read_cells_def words_def)
    moreover have "q = p \<or> L q = None" using 2(3) by (cases "q = p") simp_all
    ultimately have "\<exists>info' q ws. zbx_shmem_realloc info p n = Some (Inr (info', q)) \<and> q \<noteq> 0 \<and> (q = p \<or> L q = None) \<and>
          length ws = words n \<and> take (length vs) ws = take (words n) vs \<and> shmem_session info' (L(p := None, q \<mapsto> ws))"
      using 2(1,2,4) shmem_session.realloced [OF assms 2(1,2)] by blast
    then show ?thesis using False by simp
  qed
qed

theorem shmem_realloc_outcome_witness:
  "\<exists>info p vs. shmem_session info [p \<mapsto> vs] \<and> length vs = 5 \<and> zbx_shmem_realloc info p 100 \<noteq> None"
proof -
  obtain info p vs where s: "shmem_session info [p \<mapsto> vs]" "length vs = 5" by (rule example_session)
  have "zbx_shmem_realloc info p 100 \<noteq> None"
    using shmem_realloc_outcome [OF s(1), of p vs 100] by (auto simp: SHMEM_MAX_SIZE_def split: if_splits)
  then show ?thesis using s by blast
qed

text \<open>C12: No memory is lost: when every chunk of a session has been released, nothing is used, the free
  chunks have been joined into one of the whole segment, and any request up to the total size is served.\<close>

theorem shmem_all_released:
  assumes "shmem_session info Map.empty"
  shows "used_size info = 0 \<and> free_size info = total_size info \<and>
    (if 0 < n \<and> n \<le> total_size info then \<exists>info' p. zbx_shmem_malloc info 0 n = Some (Inr (info', p)) \<and> p \<noteq> 0 else True)"
proof -
  obtain bs where h: "holds info bs Map.empty" using session_holds [OF assms] by blast
  have inv: "heap_inv info bs" using h by (simp add: holds_def)
  have "used_size info = 0" "free_size info = total_size info"
    using inv holds_none [OF h] by (simp_all add: heap_inv_def)
  moreover have "\<exists>info' p. zbx_shmem_malloc info 0 n = Some (Inr (info', p)) \<and> p \<noteq> 0" if "0 < n" "n \<le> total_size info"
    using empty_allocates [OF h that] by blast
  ultimately show ?thesis by simp
qed

theorem shmem_all_released_witness:
  "\<exists>info info' p q. shmem_session info [p \<mapsto> replicate 5 0] \<and> zbx_shmem_free info p = Inr info' \<and> used_size info' = 0 \<and>
    free_size info' = total_size info'"
proof -
  obtain info p vs where s: "shmem_session info [p \<mapsto> vs]" "length vs = 5" by (rule example_session)
  define info1 where "info1 = write_cells p (replicate 5 0) info"
  have s1: "shmem_session info1 [p \<mapsto> replicate 5 0]"
    using shmem_session.written [OF s(1), of p vs "replicate 5 0"] s(2) by (simp add: info1_def)
  obtain bs where h: "holds info1 bs [p \<mapsto> replicate 5 0]" using session_holds [OF s1] by blast
  obtain info2 bs' where f: "zbx_shmem_free info1 p = Inr info2" by (rule free_interface [OF h, of p]) simp
  have "shmem_session info2 Map.empty" using shmem_session.freed [OF s1 _ f] by simp
  from shmem_all_released [OF this, of 1] show ?thesis using s1 f by blast
qed

end
