(* ===== verification/Shmem_Stats.thy ===== *)
theory Shmem_Stats
  imports Shmem_Sessions
begin

text \<open>
  The statistics of the shared memory segment count the chunks of the layout, and the two ways to create a
  segment: one asks for the size of the whole segment, the other for the size of the memory to hand out.
\<close>

subsection \<open>Counting the free chunks\<close>

declare count_chunks.simps [simp del]

lemma count_chunks_correct:
  "\<lbrakk>dseg (cells info) prev p xs 0; 0 \<notin> set xs\<rbrakk> \<Longrightarrow>
   count_chunks info p k mn mx = Some (k + length xs, fold min (map (CHUNK_SIZE info) xs) mn, fold max (map (CHUNK_SIZE info) xs) mx)"
proof (induction xs arbitrary: prev p k mn mx)
  case Nil
  then show ?case by (simp add: count_chunks.simps)
next
  case (Cons x xs)
  have x: "p = x" "x \<noteq> 0" "dseg (cells info) x (cells info (x + 16)) xs 0" "0 \<notin> set xs" using Cons.prems by auto
  show ?case unfolding x(1)
    using x(2) Cons.IH [OF x(3,4)] by (subst count_chunks.simps) (simp add: mem_get_next_chunk_def addrs min.commute max.commute)
qed

lemma count_buckets_correct:
  "\<lbrakk>length xss = length chunks; \<And>i. i < length chunks \<Longrightarrow> dseg (cells info) 0 (chunks ! i) (xss ! i) 0 \<and> 0 \<notin> set (xss ! i)\<rbrakk> \<Longrightarrow>
   count_buckets info chunks counts mn mx =
     Some (counts @ map (\<lambda>xs. length xs mod 2 ^ 32) xss, fold min (map (CHUNK_SIZE info) (concat xss)) mn, fold max (map (CHUNK_SIZE info) (concat xss)) mx)"
proof (induction chunks arbitrary: xss counts mn mx)
  case (Cons c cs)
  obtain ys yss where xss: "xss = ys # yss" using Cons.prems(1) by (cases xss) auto
  have "dseg (cells info) 0 c ys 0" "0 \<notin> set ys" using Cons.prems(2) [of 0] by (simp_all add: xss)
  note here = count_chunks_correct [OF this]
  have "\<And>i. i < length cs \<Longrightarrow> dseg (cells info) 0 (cs ! i) (yss ! i) 0 \<and> 0 \<notin> set (yss ! i)"
    using Cons.prems(2) [of "Suc _"] by (simp add: xss)
  note rest = Cons.IH [OF _ this]
  show ?case using Cons.prems(1) rest by (simp add: here xss)
qed simp

lemma fold_min_set: "fold min xs (m :: nat) = Min (insert m (set xs))"
  using Min.set_eq_fold [of m xs] by simp

lemma fold_max_set: "fold max xs (m :: nat) = Max (insert m (set xs))"
  using Max.set_eq_fold [of m xs] by simp

text \<open>The lists of the 30 buckets together hold every free chunk once.\<close>

lemma bucket_lists:
  assumes "store_ok info B F"
  obtains xss where "length xss = 30" "\<forall>i < 30. bucket_list (cells info) (buckets info) F i (xss ! i)"
proof -
  have "\<forall>i. \<exists>xs. i < 30 \<longrightarrow> bucket_list (cells info) (buckets info) F i xs" using assms unfolding store_ok_def by blast
  then obtain f where "\<And>i. i < 30 \<Longrightarrow> bucket_list (cells info) (buckets info) F i (f i)" by metis
  then show thesis using that [of "map f [0..<30]"] by simp
qed

lemma bucket_lists_all:
  assumes ok: "store_ok info B F" and xss: "length xss = 30" "\<And>i. i < 30 \<Longrightarrow> bucket_list (cells info) (buckets info) F i (xss ! i)"
  shows "set (concat xss) = fst ` F" "sum_list (map length xss) = card (fst ` F)"
proof -
  have mem: "x \<in> set (xss ! i) \<longleftrightarrow> (\<exists>s. (x, s) \<in> F \<and> mem_bucket_by_size s = i)" if "i < 30" for x i
    using xss(2) [OF that] by (auto simp: bucket_list_def)
  have one: "s = t" if "(x, s) \<in> F" "(x, t) \<in> F" for x s t
  proof -
    have B: "(x, s, False) \<in> B" "(x, t, False) \<in> B" using that ok unfolding store_ok_def by blast+
    then show ?thesis using store_ok_chunk(1) [OF ok B(1)] store_ok_chunk(1) [OF ok B(2)] by simp
  qed
  have "x \<in> set (concat xss) \<longleftrightarrow> x \<in> fst ` F" for x
  proof -
    have "x \<in> set (concat xss) \<longleftrightarrow> (\<exists>i < 30. x \<in> set (xss ! i))" unfolding set_concat set_conv_nth [of xss] xss(1) by blast
    also have "\<dots> \<longleftrightarrow> (\<exists>s. (x, s) \<in> F)" using mem bucket_less by blast
    finally show ?thesis by force
  qed
  then show all: "set (concat xss) = fst ` F" by blast
  have d: "length (xss ! i) = card (set (xss ! i))" if "i < 30" for i
    using distinct_card [of "xss ! i"] xss(2) [OF that] unfolding bucket_list_def by metis
  have disj: "\<forall>i \<in> {0..<30}. \<forall>j \<in> {0..<30}. i \<noteq> j \<longrightarrow> set (xss ! i) \<inter> set (xss ! j) = {}"
  proof (intro ballI impI equals0I)
    fix i j x assume ij: "i \<in> {0..<30}" "j \<in> {0..<30}" "i \<noteq> j" and x: "x \<in> set (xss ! i) \<inter> set (xss ! j)"
    obtain s t where "(x, s) \<in> F" "mem_bucket_by_size s = i" "(x, t) \<in> F" "mem_bucket_by_size t = j"
      using mem [of i x] mem [of j x] ij x by auto
    then show False using one [of x s t] ij(3) by simp
  qed
  have "sum_list (map length xss) = (\<Sum>i \<in> {0..<30}. length (xss ! i))"
    using xss(1) by (simp add: sum_list_sum_nth)
  also have "\<dots> = (\<Sum>i \<in> {0..<30}. card (set (xss ! i)))" by (rule sum.cong) (use d in simp_all)
  also have "\<dots> = card (\<Union>i \<in> {0..<30}. set (xss ! i))" by (rule card_UN_disjoint [symmetric]) (use disj in simp_all)
  also have "(\<Union>i \<in> {0..<30}. set (xss ! i)) = fst ` F"
    unfolding all [symmetric] set_concat set_conv_nth [of xss] xss(1) by fastforce
  finally show "sum_list (map length xss) = card (fst ` F)" .
qed

lemma snd_image: "snd ` {(c, s). P c s} = {s. \<exists>c. P c s}"
  by force

lemma block_members: "(s, u) \<in> set bs \<longleftrightarrow> (\<exists>c. (c, s, u) \<in> set (blocks a bs))"
  by (induction bs arbitrary: a rule: span.induct) auto

lemma sized_length: "sizes_ok bs \<Longrightarrow> 24 * length bs \<le> sized True bs + sized False bs"
  by (induction bs rule: span.induct) auto

text \<open>The chunks of a layout, by their kind.\<close>

definition kind_count :: "bool \<Rightarrow> layout \<Rightarrow> nat" where
  "kind_count u bs = length (filter (\<lambda>b. snd b = u) bs)"

definition free_sizes :: "layout \<Rightarrow> nat set" where
  "free_sizes bs = {s. (s, False) \<in> set bs}"

lemma card_blocks: "card (fst ` {(c, s). (c, s, u) \<in> set (blocks a bs)}) = kind_count u bs"
proof (induction bs arbitrary: a rule: span.induct)
  case (2 s v bs)
  define X where "X = {(c, t). (c, t, u) \<in> set (blocks (a + s + 16) bs)}"
  have X: "finite X" unfolding X_def
    by (rule finite_subset [of _ "(\<lambda>(c, t, u). (c, t)) ` set (blocks (a + s + 16) bs)"]) force+
  have a: "a \<notin> fst ` X" using blocks_range [of _ _ u "a + s + 16" bs] by (fastforce simp: X_def)
  have "{(c, t). (c, t, u) \<in> set (blocks a ((s, v) # bs))} = (if v = u then insert (a, s) X else X)" by (auto simp: X_def)
  then show ?case using "2.IH" [of "a + s + 16", folded X_def] X a by (simp add: kind_count_def)
qed (simp add: kind_count_def)

lemma kind_counts: "kind_count True bs + kind_count False bs = length bs"
  using sum_length_filter_compl [of snd bs] by (simp add: kind_count_def)

definition bucket_population :: "shmem_info \<Rightarrow> layout \<Rightarrow> nat \<Rightarrow> nat" where
  "bucket_population info bs i = card {c. \<exists>s. (c, s, False) \<in> chunks_of info bs \<and> mem_bucket_by_size s = i}"

lemma stats_correct:
  assumes inv: "heap_inv info bs" and small: "total_size info \<le> SHMEM_MAX_SIZE"
  shows "zbx_shmem_get_stats info = Some \<lparr>st_free_size = free_size info, st_used_size = used_size info,
      st_min_chunk_size = (if free_sizes bs = {} then 0 else Min (free_sizes bs)), st_max_chunk_size = Max (insert 0 (free_sizes bs)),
      st_overhead = 16 * (length bs - 1), st_chunks_num = map (bucket_population info bs) [0..<30], st_free_chunks = kind_count False bs,
      st_used_chunks = kind_count True bs\<rparr>"
proof -
  define B F where "B = chunks_of info bs" and "F = free_of B"
  have ok: "store_ok info B F" using inv by (simp add: heap_inv_def B_def F_def)
  obtain xss where len: "length xss = 30" and "\<forall>i < 30. bucket_list (cells info) (buckets info) F i (xss ! i)"
    by (rule bucket_lists [OF ok])
  then have xss: "\<And>i. i < 30 \<Longrightarrow> bucket_list (cells info) (buckets info) F i (xss ! i)" by blast
  have bk: "length (buckets info) = 30" using ok by (simp add: store_ok_def)
  note all = bucket_lists_all [OF ok len xss]
  have F_eq: "F = {(c, s). (c, s, False) \<in> set (blocks (lo_bound info) bs)}" by (simp add: F_def free_of_def B_def chunks_of_def)
  have count: "card (fst ` F) = kind_count False bs" unfolding F_eq by (rule card_blocks)
  have size: "CHUNK_SIZE info c = s" "c \<noteq> 0" if "(c, s) \<in> F" for c s
    using store_ok_chunk(1,5) [OF ok, of c s False] that by (simp_all add: F_def)
  have "CHUNK_SIZE info ` fst ` F = snd ` F" using size by force
  also have "\<dots> = free_sizes bs" unfolding F_eq free_sizes_def block_members [of _ False bs "lo_bound info"] by (rule snd_image)
  finally have sizes: "set (map (CHUNK_SIZE info) (concat xss)) = free_sizes bs" by (simp only: set_map all(1))
  have lists: "dseg (cells info) 0 (buckets info ! i) (xss ! i) 0 \<and> 0 \<notin> set (xss ! i)" if "i < length (buckets info)" for i
    using xss [of i] size(2) that bk by (fastforce simp: bucket_list_def)
  define mn where "mn = fold min (map (CHUNK_SIZE info) (concat xss)) (2 ^ 64 - 1)"
  have cb: "count_buckets info (buckets info) [] (2 ^ 64 - 1) 0 = Some (map (\<lambda>xs. length xs mod 2 ^ 32) xss, mn, Max (insert 0 (free_sizes bs)))"
    using count_buckets_correct [of xss "buckets info" info "[]" "2 ^ 64 - 1" 0, OF _ lists] len bk
    unfolding fold_max_set sizes by (simp add: mn_def)
  have below: "s < 2 ^ 60" if "s \<in> free_sizes bs" for s
    using heap_inv_chunk(4) [OF inv] that split_list [of "(s, False)" bs] unfolding free_sizes_def by blast
  have fin: "finite (free_sizes bs)" unfolding sizes [symmetric] by simp
  have min: "(if mn = 2 ^ 64 - 1 then 0 else mn) = (if free_sizes bs = {} then 0 else Min (free_sizes bs))"
  proof (cases "free_sizes bs = {}")
    case True
    then show ?thesis unfolding mn_def fold_min_set sizes by simp
  next
    case False
    then have "Min (free_sizes bs) < 2 ^ 60" using below Min_in [OF fin] by blast
    then have "mn = Min (free_sizes bs)" "mn \<noteq> 2 ^ 64 - 1"
      unfolding mn_def fold_min_set sizes Min_insert [OF fin False] by simp_all
    then show ?thesis using False by simp
  qed
  have tot: "used_size info + free_size info + 16 * (length bs - 1) = total_size info" by (rule heap_inv_total [OF inv])
  have over: "sub64 (sub64 (total_size info) (used_size info)) (free_size info) = 16 * (length bs - 1)"
    using tot small by (simp add: SHMEM_MAX_SIZE_def)
  have "bs \<noteq> []" using inv by (simp add: heap_inv_def geometry_def)
  then have l1: "16 * (length bs - 1) div 16 + 1 = length bs" by simp
  have "24 * length bs \<le> used_size info + free_size info"
    using inv sized_length [of bs] by (simp add: heap_inv_def geometry_def)
  then have l2: "length bs < 2 ^ 32" using tot small by (simp add: SHMEM_MAX_SIZE_def)
  have number: "sum_list (map length xss) = kind_count False bs" using all(2) count by (rule trans)
  have used: "(16 * (length bs - 1) div (2 * SHMEM_SIZE_FIELD) + 1 + 2 ^ 32 - sum_list (map length xss)) mod 2 ^ 32 = kind_count True bs"
  proof -
    have e: "2 * SHMEM_SIZE_FIELD = 16" by (simp add: SHMEM_SIZE_FIELD_def)
    have "length bs + 2 ^ 32 - kind_count False bs = kind_count True bs + 2 ^ 32" using kind_counts [of bs] by simp
    moreover have "kind_count True bs < 2 ^ 32" using kind_counts [of bs] l2 by linarith
    ultimately show ?thesis unfolding e l1 number by simp
  qed
  have short: "length xs mod 2 ^ 32 = length xs" if "xs \<in> set xss" for xs
  proof -
    have "length xs \<le> sum_list (map length xss)" using that by (intro member_le_sum_list) simp_all
    then show ?thesis using number kind_counts [of bs] l2 by simp
  qed
  have trunc: "map (\<lambda>xs. length xs mod 2 ^ 32) xss = map length xss" by (rule map_cong [OF refl short])
  have all_short: "kind_count False bs mod 2 ^ 32 = kind_count False bs" using kind_counts [of bs] l2 by simp
  have counts: "map length xss = map (bucket_population info bs) [0..<30]"
  proof (rule nth_equalityI)
    fix i assume "i < length (map length xss)"
    then have i: "i < 30" using len by simp
    have "length (xss ! i) = card (set (xss ! i))" using distinct_card [of "xss ! i"] xss [OF i] unfolding bucket_list_def by metis
    also have "set (xss ! i) = {c. \<exists>s. (c, s, False) \<in> chunks_of info bs \<and> mem_bucket_by_size s = i}"
      using xss [OF i] by (simp add: bucket_list_def F_def B_def)
    finally show "map length xss ! i = map (bucket_population info bs) [0..<30] ! i" using i len by (simp add: bucket_population_def)
  qed (simp add: len)
  show ?thesis
    unfolding zbx_shmem_get_stats_def cb option.case prod.case Let_def min over trunc number all_short used [unfolded number] counts [symmetric]
    by (rule refl)
qed

lemma card_held: "holds info bs L \<Longrightarrow> card (dom L) = kind_count True bs"
proof -
  assume "holds info bs L"
  then have "dom L = (\<lambda>c. c + 8) ` fst ` live info bs" by (simp add: holds_def content_def chunk_ptr_def image_image)
  moreover have "card (fst ` live info bs) = kind_count True bs"
    unfolding live_def chunks_of_def by (rule card_blocks)
  ultimately show ?thesis by (simp add: card_image)
qed

text \<open>C13: The statistics of a session count the chunks it holds and, by bucket, the free ones, give the least and the
  largest free chunk, and with the overhead of the headers they account for the whole size.\<close>

theorem shmem_stats_correct:
  assumes "shmem_session info L"
  shows "\<exists>bs st. holds info bs L \<and> zbx_shmem_get_stats info = Some st \<and> st_used_chunks st = card (dom L) \<and>
    st_free_chunks st = kind_count False bs \<and> st_chunks_num st = map (bucket_population info bs) [0..<30] \<and>
    st_max_chunk_size st = Max (insert 0 (free_sizes bs)) \<and>
    st_min_chunk_size st = (if free_sizes bs = {} then 0 else Min (free_sizes bs)) \<and>
    st_used_size st + st_free_size st + st_overhead st = total_size info"
proof -
  obtain bs where h: "holds info bs L" using session_holds [OF assms] by blast
  then have inv: "heap_inv info bs" "total_size info \<le> SHMEM_MAX_SIZE" by (simp_all add: holds_def)
  show ?thesis using stats_correct [OF inv] heap_inv_total [OF inv(1)] card_held [OF h] h by (intro exI [of _ bs]) simp
qed

theorem shmem_stats_correct_witness:
  "\<exists>info st p vs. shmem_session info [p \<mapsto> vs] \<and> zbx_shmem_get_stats info = Some st \<and> st_used_chunks st = 1"
proof -
  obtain info p vs where s: "shmem_session info [p \<mapsto> vs]" by (rule example_session)
  from shmem_stats_correct [OF s] show ?thesis using s by fastforce
qed

subsection \<open>Segments by the size to hand out, and segments that are too small\<close>

lemma header_length:
  assumes "d < 2 ^ 60" "p < 2 ^ 60"
  shows "ALIGN8 (ALIGN8 SIZEOF_INFO + ZBX_SHMEM_BUCKET_COUNT * ZBX_PTR_SIZE + d + 1 + p + 1) = (337 + d + p) div 8 * 8"
proof -
  have e: "ALIGN8 SIZEOF_INFO + ZBX_SHMEM_BUCKET_COUNT * ZBX_PTR_SIZE + d + 1 + p + 1 = 330 + d + p"
    by (simp add: ALIGN8_eq SIZEOF_INFO_def bucket_count ZBX_PTR_SIZE_def)
  have "330 + d + p < 2 ^ 62" using assms by simp
  from ALIGN8_eq [OF this] show ?thesis unfolding e by simp
qed

lemma first_chunk_aligned: "8 dvd base \<Longrightarrow> first_chunk base d p = base + (337 + d + p) div 8 * 8"
proof -
  assume "8 dvd base"
  then obtain k where k: "base = 8 * k" by blast
  have e: "(8 * k + 7) div 8 = k" "k * 8 + 330 + d + p + 7 = (337 + d + p) + k * 8" by simp_all
  have "((337 + d + p) + k * 8) div 8 = k + (337 + d + p) div 8" by (rule div_mult_self1) simp
  then show ?thesis unfolding first_chunk_def k e by (simp only: add_mult_distrib mult.commute [of k 8])
qed

text \<open>A segment that is created by the size to hand out has that size, rounded up to a multiple of eight, for
  every pair of texts copied into it.\<close>

theorem shmem_create_min_serves:
  assumes "8 dvd base" "0 < base" "16 < n" "d < 2 ^ 60" "p < 2 ^ 60"
    and "n + (337 + d + p) div 8 * 8 + 24 \<le> SHMEM_MAX_SIZE" "base + n + (337 + d + p) div 8 * 8 + 24 < 2 ^ 60"
  shows "\<exists>info. zbx_shmem_create_min garbage base n d p oom = Some info \<and> total_size info = (n + 7) div 8 * 8 \<and>
    shmem_session info Map.empty"
proof -
  define H where "H = (337 + d + p) div 8 * 8"
  define k where "k = n + H + 24"
  have k: "k \<le> SHMEM_MAX_SIZE" "base + k < 2 ^ 60" using assms(6,7) by (simp_all add: H_def k_def)
  have H: "330 \<le> H" unfolding H_def by linarith
  have add: "add64 (add64 (add64 n H) 8) 16 = k" using k by (simp add: k_def)
  have e: "zbx_shmem_create_min garbage base n d p oom = zbx_shmem_create garbage base k d p oom"
    unfolding zbx_shmem_create_min_def Let_def header_length [OF assms(4,5)] H_def [symmetric]
    using add by (simp add: SHMEM_SIZE_FIELD_def)
  obtain b where b: "base = 8 * b" using assms(1) by blast
  obtain h where h: "H = 8 * h" unfolding H_def by (metis mult.commute)
  have first: "first_chunk base d p = base + H" using first_chunk_aligned [OF assms(1)] by (simp add: H_def)
  have last': "end_of_chunks base k = base + H + 16 + (n + 7) div 8 * 8"
  proof -
    have e: "8 * b + (n + 8 * h + 24) - 8 + 7 = (n + 7) + (b + h + 2) * 8" by simp
    show ?thesis unfolding end_of_chunks_def k_def b h e by (simp only: div_mult_self1) simp
  qed
  have "24 \<le> (n + 7) div 8 * 8" using div_le_mono [of 24 "n + 7" 8] assms(3) by simp
  then have r: "room_for base k d p" unfolding room_for_def first last' using assms(2) k(2) by simp
  have "SHMEM_MIN_SIZE \<le> k" using H by (simp add: SHMEM_MIN_SIZE_def k_def)
  then obtain info where c: "zbx_shmem_create garbage base k d p oom = Some info"
    using zbx_shmem_create_eq [OF _ k(1,2) assms(4,5)] by blast
  have "total_size info = (n + 7) div 8 * 8" using zbx_shmem_create_correct [OF r k(1) c] unfolding first last' by simp
  then show ?thesis using c e shmem_session.created [OF c r] by simp
qed

theorem shmem_create_min_serves_witness:
  "\<exists>info. zbx_shmem_create_min (\<lambda>_. 0) 4096 1000 3 5 False = Some info \<and> total_size info = 1000 \<and> shmem_session info Map.empty"
  using shmem_create_min_serves [of 4096 1000 3 5 "\<lambda>_. 0" False] by (simp add: SHMEM_MAX_SIZE_def)

text \<open>The smallest size that \<open>zbx_shmem_create\<close> accepts does not hold the bookkeeping: what is left of the
  size wraps around, and the chunk that is written reaches far beyond the segment.\<close>

theorem shmem_create_too_small:
  assumes "SHMEM_MIN_SIZE \<le> n" "n \<le> 330" "base + n < 2 ^ 60" "d < 2 ^ 60" "p < 2 ^ 60"
  shows "\<exists>info. zbx_shmem_create garbage base n d p oom = Some info \<and> 2 ^ 63 \<le> total_size info"
proof -
  define lo hi where "lo = first_chunk base d p" and "hi = end_of_chunks base n"
  have n: "n \<le> SHMEM_MAX_SIZE" "128 \<le> n" using assms(1,2) by (simp_all add: SHMEM_MAX_SIZE_def SHMEM_MIN_SIZE_def)
  have lo: "base + 330 \<le> lo" "lo \<le> base + 344 + d + p" unfolding lo_def first_chunk_def by linarith+
  have hi: "hi < base + n" "base \<le> hi" unfolding hi_def end_of_chunks_def using n by linarith+
  have "lo \<le> 2 ^ 62" using lo(2) assms(3,4,5) by simp
  moreover have "hi < lo" using lo hi assms(2) by simp
  ultimately have s: "sub64 hi lo = 2 ^ 64 - (lo - hi)" "lo - hi \<le> 2 ^ 62" by (simp_all add: sub64_def)
  have "sub64 (sub64 hi lo) 16 = 2 ^ 64 - (lo - hi) - 16" unfolding s(1) by (rule sub64_eq) (use s(2) \<open>hi < lo\<close> in simp_all)
  then have "2 ^ 63 \<le> sub64 (sub64 hi lo) 16" using s(2) by simp
  then show ?thesis
    using zbx_shmem_create_eq [OF assms(1) n(1) assms(3,4,5), of garbage oom]
    by (simp add: lo_def hi_def mem_one_chunk_def Let_def set_bucket_def mem_set_chunk_size_def mem_set_prev_chunk_def
        mem_set_next_chunk_def set_cell_def)
qed

theorem shmem_create_too_small_witness:
  "\<exists>info. zbx_shmem_create (\<lambda>_. 0) 4096 128 0 0 False = Some info \<and> 2 ^ 63 \<le> total_size info"
  using shmem_create_too_small [of 128 4096 0 0 "\<lambda>_. 0" False] by (simp add: SHMEM_MIN_SIZE_def)

end
