(* ===== verification/Utf8.thy ===== *)
theory Utf8
  imports C_String
begin

text \<open>
  UTF-8 texts of \<open>src/src/libs/zbxstr/str.c\<close>: counting and cutting by characters, the check of a text and
  the replacement of what is not valid in it, against the encoding of Unicode.
\<close>

subsection \<open>Bytes\<close>

text \<open>A \<open>char\<close> under a bit mask.\<close>

definition byte :: "char \<Rightarrow> u8" where
  "byte c = of_char c"

definition continuation :: "char \<Rightarrow> bool" where
  "continuation c \<longleftrightarrow> byte c AND 0xc0 = 0x80"

subsection \<open>Counting and cutting\<close>

definition zbx_utf8_char_len :: "string \<Rightarrow> nat" where
  "zbx_utf8_char_len text =
     (if byte (cur text) AND 0x80 = 0 then 1
      else if byte (cur text) AND 0xe0 = 0xc0 then 2
      else if byte (cur text) AND 0xf0 = 0xe0 then 3
      else if byte (cur text) AND 0xf8 = 0xf0 then 4
      else 0)"

fun zbx_strlen_utf8 :: "string \<Rightarrow> nat" where
  "zbx_strlen_utf8 [] = 0"
| "zbx_strlen_utf8 (c # text) = (if \<not> continuation c then 1 else 0) + zbx_strlen_utf8 text"

fun zbx_strshift_utf8 :: "string \<Rightarrow> nat \<Rightarrow> string" where
  "zbx_strshift_utf8 [] num = []"
| "zbx_strshift_utf8 (c # text) num =
     (if 0 < num then zbx_strshift_utf8 text (if \<not> continuation (cur text) then num - 1 else num)
      else c # text)"

function strlen_nchars_loop :: "string \<Rightarrow> nat \<Rightarrow> nat \<Rightarrow> nat" where
  "strlen_nchars_loop text utf8_maxlen sz =
     (let csz = zbx_utf8_char_len text in
      if text \<noteq> [] \<and> 0 < utf8_maxlen \<and> 0 \<noteq> csz then
        if length text < csz then sz
        else strlen_nchars_loop (drop csz text) (utf8_maxlen - 1) (sz + csz)
      else sz)"
  by pat_completeness auto
termination by (relation "measure (\<lambda>(t, n, s). n)") auto

declare strlen_nchars_loop.simps [simp del]

definition zbx_strlen_utf8_nchars :: "string \<Rightarrow> nat \<Rightarrow> nat" where
  "zbx_strlen_utf8_nchars text utf8_maxlen = strlen_nchars_loop text utf8_maxlen 0"

text \<open>The loop of \<open>strlen_utf8_nbytes\<close> that steps back to the start of a character.\<close>

fun step_back :: "string \<Rightarrow> nat \<Rightarrow> nat" where
  "step_back text 0 = 0"
| "step_back text (Suc sz) = (if continuation (cat text (Suc sz)) then step_back text sz else Suc sz)"

definition strlen_utf8_nbytes :: "string \<Rightarrow> nat \<Rightarrow> nat" where
  "strlen_utf8_nbytes text maxlen =
     (let sz = length text in if maxlen < sz then step_back text maxlen else sz)"

text \<open>The buffer has \<open>length dst\<close> bytes; \<open>size - 1\<close> wraps around for the size 0.\<close>

definition zbx_strlcpy_utf8 :: "string \<Rightarrow> string \<Rightarrow> nat \<Rightarrow> (string \<times> nat) res" where
  "zbx_strlcpy_utf8 dst src size' =
     (let size' = strlen_utf8_nbytes src (if size' = 0 then 2 ^ 64 - 1 else size' - 1) in
      if length dst < size' + 1 then Inl Out_Of_Bounds
      else Inr (take size' src @ NUL # drop (size' + 1) dst, size'))"

fun charcount_loop :: "string \<Rightarrow> nat \<Rightarrow> nat" where
  "charcount_loop (c # text) (Suc maxlen) = (if \<not> continuation c then 1 else 0) + charcount_loop text maxlen"
| "charcount_loop text maxlen = 0"

definition zbx_charcount_utf8_nbytes :: "string \<Rightarrow> nat \<Rightarrow> nat" where
  "zbx_charcount_utf8_nbytes text maxlen = charcount_loop text (strlen_utf8_nbytes text maxlen)"

subsection \<open>Validation\<close>

text \<open>The number of bytes that have to follow the first byte of a sequence.\<close>

definition expecting_bytes :: "char \<Rightarrow> nat" where
  "expecting_bytes c =
     (if byte c AND 0xe0 = 0xc0 then 1
      else if byte c AND 0xf0 = 0xe0 then 2
      else if byte c AND 0xf8 = 0xf0 then 3
      else if byte c AND 0xfc = 0xf8 then 4
      else if byte c AND 0xfe = 0xfc then 5
      else 0)"

fun continuations :: "nat \<Rightarrow> string \<Rightarrow> bool" where
  "continuations 0 text = SUCCEED"
| "continuations (Suc n) text = (if \<not> continuation (cur text) then FAIL else continuations n (tl text))"

definition overlong :: "string \<Rightarrow> bool" where
  "overlong utf8 \<longleftrightarrow>
     byte (cat utf8 0) AND 0xfe = 0xc0 \<or>
     byte (cat utf8 0) = 0xe0 \<and> byte (cat utf8 1) AND 0x20 = 0 \<or>
     byte (cat utf8 0) = 0xf0 \<and> byte (cat utf8 1) AND 0x30 = 0 \<or>
     byte (cat utf8 0) = 0xf8 \<and> byte (cat utf8 1) AND 0x38 = 0 \<or>
     byte (cat utf8 0) = 0xfc \<and> byte (cat utf8 1) AND 0x3c = 0"

definition utf32_start :: "char \<Rightarrow> u32" where
  "utf32_start c =
     (if byte c AND 0xe0 = 0xc0 then ucast (byte c AND 0x1f)
      else if byte c AND 0xf0 = 0xe0 then ucast (byte c AND 0x0f)
      else if byte c AND 0xf8 = 0xf0 then ucast (byte c AND 0x07)
      else if byte c AND 0xfc = 0xf8 then ucast (byte c AND 0x03)
      else if byte c AND 0xfe = 0xfc then ucast (byte c AND 0x01)
      else 0)"

definition utf32_value :: "string \<Rightarrow> nat \<Rightarrow> u32" where
  "utf32_value utf8 mb_len =
     foldl (\<lambda>utf32 i. push_bit 6 utf32 + ucast (byte (cat utf8 i) AND 0x3f)) (utf32_start (cat utf8 0)) [1..<mb_len]"

function zbx_is_utf8 :: "string \<Rightarrow> bool" where
  "zbx_is_utf8 text =
     (if text = [] then SUCCEED
      else if byte (cur text) AND 0x80 = 0 then zbx_is_utf8 (tl text)
      else if byte (cur text) AND 0xc0 = 0x80 \<or> byte (cur text) AND 0xfe = 0xfe then FAIL
      else
        let expecting = expecting_bytes (cur text); mb_len = expecting + 1 in
        if \<not> continuations expecting (tl text) then FAIL
        else if overlong text then FAIL
        else let utf32 = utf32_value text mb_len in
          if utf32 > 0x10ffff \<or> utf32 AND 0xf800 = 0xd800 then FAIL
          else zbx_is_utf8 (drop mb_len text))"
  by pat_completeness auto
termination by (relation "measure length") auto

declare zbx_is_utf8.simps [simp del]

subsection \<open>Replacement\<close>

text \<open>The loop that copies the continuation bytes of a sequence: how many, and whether they are all there.\<close>

fun copy_continuations :: "nat \<Rightarrow> string \<Rightarrow> nat \<times> bool" where
  "copy_continuations 0 text = (0, SUCCEED)"
| "copy_continuations (Suc n) text =
     (if \<not> continuation (cur text) then (0, FAIL)
      else let (k, ret) = copy_continuations n (tl text) in (k + 1, ret))"

definition iscntrl :: "char \<Rightarrow> bool" where
  "iscntrl c \<longleftrightarrow> code c < 32 \<or> code c = 127"

text \<open>What the loop writes. It takes a byte for each byte it writes, or more, so \<open>out\<close> never passes \<open>text\<close>
  and the bytes read are those of the input.\<close>

function replace_invalid_utf8_impl :: "string \<Rightarrow> bool \<Rightarrow> string" where
  "replace_invalid_utf8_impl text replace_nonprintable =
     (if text = [] then []
      else if byte (cur text) AND 0x80 = 0 then
        (if \<not> replace_nonprintable \<or> \<not> iscntrl (cur text) then cur text else CHR ''.'')
          # replace_invalid_utf8_impl (tl text) replace_nonprintable
      else if byte (cur text) AND 0xc0 = 0x80 \<or> byte (cur text) AND 0xfe = 0xfe then
        CHR ''?'' # replace_invalid_utf8_impl (tl text) replace_nonprintable
      else
        let (copied, ret) = copy_continuations (expecting_bytes (cur text)) (tl text);
            mb_len = copied + 1;
            utf8 = take mb_len text;
            ret = ret \<and> \<not> overlong utf8;
            utf32 = utf32_value utf8 mb_len;
            ret = ret \<and> \<not> (utf32 > 0x10ffff \<or> utf32 AND 0xf800 = 0xd800) \<and>
                  \<not> (replace_nonprintable \<and> 0x80 \<le> utf32 \<and> 0x9f \<ge> utf32)
        in (if \<not> ret then [CHR ''?''] else utf8) @
           replace_invalid_utf8_impl (drop mb_len text) replace_nonprintable)"
  by pat_completeness auto
termination by (relation "measure (length \<circ> fst)") auto

declare replace_invalid_utf8_impl.simps [simp del]

definition zbx_replace_invalid_utf8 :: "string \<Rightarrow> string" where
  "zbx_replace_invalid_utf8 text = replace_invalid_utf8_impl text False"

definition zbx_replace_invalid_utf8_and_nonprintable :: "string \<Rightarrow> string" where
  "zbx_replace_invalid_utf8_and_nonprintable text = replace_invalid_utf8_impl text True"

end
