(* ===== verification/Utf8_Spec.thy ===== *)
theory Utf8_Spec
  imports Utf8
begin

text \<open>
  The encoding of Unicode code points as UTF-8, and the routines of \<open>Utf8\<close> against it: which texts the
  check accepts, what the replacement makes of any text, and what the routines count and cut.
\<close>

subsection \<open>Bytes by their codes\<close>

lemma unat_take_bit_mod: "unat (take_bit n x) = unat x mod 2 ^ n" for x :: "'a::len word"
  by (subst unsigned_take_bit_eq) (simp only: take_bit_eq_mod)

lemma unat_and_field:
  fixes w :: "'a::len word"
  assumes "k + n \<le> LENGTH('a)"
  shows "unat (w AND push_bit k (mask n)) = unat w div 2 ^ k mod 2 ^ n * 2 ^ k"
proof -
  have "w AND push_bit k (mask n) = push_bit k (take_bit n (drop_bit k w))"
    by (rule bit_eqI) (auto simp: bit_simps)
  moreover have "unat w div 2 ^ k mod 2 ^ n * 2 ^ k < 2 ^ LENGTH('a)"
  proof -
    have "unat w div 2 ^ k mod 2 ^ n < 2 ^ n" by simp
    then have "unat w div 2 ^ k mod 2 ^ n * 2 ^ k < 2 ^ n * 2 ^ k" by (simp add: mult_less_mono1)
    also have "(2::nat) ^ n * 2 ^ k = 2 ^ (k + n)" by (simp add: power_add)
    also have "(2::nat) ^ (k + n) \<le> 2 ^ LENGTH('a)" using assms by (rule power_increasing) simp
    finally show ?thesis .
  qed
  ultimately show ?thesis
    by (simp only: unat_push_bit unat_drop_bit unat_take_bit_mod mod_less)
qed

lemma code_less [simp]: "code c < 256"
  by (simp add: code_def)

lemma unat_byte: "unat (byte c) = code c"
proof -
  have "byte c = of_nat (code c)" by (simp add: byte_def code_def of_nat_of_char)
  then show ?thesis by (simp add: unat_of_nat)
qed

lemma fields:
  "(0x80::u8) = push_bit 7 (mask 1)" "(0xc0::u8) = push_bit 6 (mask 2)" "(0xe0::u8) = push_bit 5 (mask 3)"
  "(0xf0::u8) = push_bit 4 (mask 4)" "(0xf8::u8) = push_bit 3 (mask 5)" "(0xfc::u8) = push_bit 2 (mask 6)"
  "(0xfe::u8) = push_bit 1 (mask 7)" "(0x20::u8) = push_bit 5 (mask 1)" "(0x30::u8) = push_bit 4 (mask 2)"
  "(0x38::u8) = push_bit 3 (mask 3)" "(0x3c::u8) = push_bit 2 (mask 4)" "(0x1f::u8) = push_bit 0 (mask 5)"
  "(0x0f::u8) = push_bit 0 (mask 4)" "(0x07::u8) = push_bit 0 (mask 3)" "(0x03::u8) = push_bit 0 (mask 2)"
  "(0x01::u8) = push_bit 0 (mask 1)" "(0x3f::u8) = push_bit 0 (mask 6)"
  by (simp_all add: mask_numeral push_bit_eq_mult numeral_eq_Suc mask_Suc_exp)

lemma len8: "LENGTH(8) = 8"
  by simp

lemma byte_field:
  assumes "m = push_bit k (mask n)" "k + n \<le> 8"
  shows "unat (byte c AND m) = code c div 2 ^ k mod 2 ^ n * 2 ^ k"
  unfolding assms(1) using unat_and_field [of k n "byte c"] assms(2) by (simp only: unat_byte len8)

lemma byte_fields:
  "unat (byte c AND 0x80) = code c div 128 mod 2 * 128" "unat (byte c AND 0xc0) = code c div 64 mod 4 * 64"
  "unat (byte c AND 0xe0) = code c div 32 mod 8 * 32" "unat (byte c AND 0xf0) = code c div 16 mod 16 * 16"
  "unat (byte c AND 0xf8) = code c div 8 mod 32 * 8" "unat (byte c AND 0xfc) = code c div 4 mod 64 * 4"
  "unat (byte c AND 0xfe) = code c div 2 mod 128 * 2" 
  by (simp_all only: byte_field [OF fields(1)] byte_field [OF fields(2)] byte_field [OF fields(3)] byte_field [OF fields(4)]
      byte_field [OF fields(5)] byte_field [OF fields(6)] byte_field [OF fields(7)]) simp_all

lemma byte_low:
  "unat (byte c AND 0x20) = code c div 32 mod 2 * 32" "unat (byte c AND 0x30) = code c div 16 mod 4 * 16"
  "unat (byte c AND 0x38) = code c div 8 mod 8 * 8" "unat (byte c AND 0x3c) = code c div 4 mod 16 * 4"
  by (simp_all only: byte_field [OF fields(8)] byte_field [OF fields(9)] byte_field [OF fields(10)] byte_field [OF fields(11)]) simp_all

lemma byte_values:
  "unat (byte c AND 0x1f) = code c mod 32" "unat (byte c AND 0x0f) = code c mod 16"
  "unat (byte c AND 0x07) = code c mod 8" "unat (byte c AND 0x03) = code c mod 4"
  "unat (byte c AND 0x01) = code c mod 2" "unat (byte c AND 0x3f) = code c mod 64"
  using byte_field [OF fields(12)] byte_field [OF fields(13)] byte_field [OF fields(14)] byte_field [OF fields(15)]
    byte_field [OF fields(16)] byte_field [OF fields(17)] by simp_all


lemma byte_eq:
  assumes "m = push_bit k (mask n)" "k + n = 8" "unat d = b * 2 ^ k"
  shows "byte c AND m = d \<longleftrightarrow> b * 2 ^ k \<le> code c \<and> code c < (b + 1) * 2 ^ k"
proof -
  have "2 ^ n * (2::nat) ^ k = 256" using assms(2) by (simp add: power_add [symmetric] add.commute)
  then have "code c div 2 ^ k < 2 ^ n" by (simp add: div_less_iff_less_mult)
  then have "unat (byte c AND m) = code c div 2 ^ k * 2 ^ k" using byte_field [OF assms(1)] assms(2) by simp
  then have "byte c AND m = d \<longleftrightarrow> code c div 2 ^ k = b" unfolding word_unat_eq_iff assms(3) by simp
  also have "\<dots> \<longleftrightarrow> b * 2 ^ k \<le> code c \<and> code c < (b + 1) * 2 ^ k"
  proof
    assume "code c div 2 ^ k = b"
    then show "b * 2 ^ k \<le> code c \<and> code c < (b + 1) * 2 ^ k"
      using div_mult_mod_eq [of "code c" "2 ^ k"] mod_less_divisor [of "2 ^ k" "code c"] by (auto simp del: mod_less_divisor)
  qed (auto intro: div_nat_eqI simp: mult.commute)
  finally show ?thesis .
qed

lemma byte_masks:
  "byte c AND 0x80 = 0 \<longleftrightarrow> code c < 128"
  "byte c AND 0xc0 = 0x80 \<longleftrightarrow> 128 \<le> code c \<and> code c < 192"
  "byte c AND 0xe0 = 0xc0 \<longleftrightarrow> 192 \<le> code c \<and> code c < 224"
  "byte c AND 0xf0 = 0xe0 \<longleftrightarrow> 224 \<le> code c \<and> code c < 240"
  "byte c AND 0xf8 = 0xf0 \<longleftrightarrow> 240 \<le> code c \<and> code c < 248"
  "byte c AND 0xfc = 0xf8 \<longleftrightarrow> 248 \<le> code c \<and> code c < 252"
  "byte c AND 0xfe = 0xfc \<longleftrightarrow> 252 \<le> code c \<and> code c < 254"
  "byte c AND 0xfe = 0xfe \<longleftrightarrow> 254 \<le> code c"
  "byte c AND 0xfe = 0xc0 \<longleftrightarrow> 192 \<le> code c \<and> code c < 194"
  "byte c = 0xe0 \<longleftrightarrow> code c = 224" "byte c = 0xf0 \<longleftrightarrow> code c = 240"
  "byte c = 0xf8 \<longleftrightarrow> code c = 248" "byte c = 0xfc \<longleftrightarrow> code c = 252"
proof -
  show "byte c AND 0x80 = 0 \<longleftrightarrow> code c < 128" using byte_eq [OF fields(1), of 0 0 c] code_less [of c] by simp
  show "byte c AND 0xc0 = 0x80 \<longleftrightarrow> 128 \<le> code c \<and> code c < 192" using byte_eq [OF fields(2), of "0x80" 2 c] code_less [of c] by simp
  show "byte c AND 0xe0 = 0xc0 \<longleftrightarrow> 192 \<le> code c \<and> code c < 224" using byte_eq [OF fields(3), of "0xc0" 6 c] code_less [of c] by simp
  show "byte c AND 0xf0 = 0xe0 \<longleftrightarrow> 224 \<le> code c \<and> code c < 240" using byte_eq [OF fields(4), of "0xe0" 14 c] code_less [of c] by simp
  show "byte c AND 0xf8 = 0xf0 \<longleftrightarrow> 240 \<le> code c \<and> code c < 248" using byte_eq [OF fields(5), of "0xf0" 30 c] code_less [of c] by simp
  show "byte c AND 0xfc = 0xf8 \<longleftrightarrow> 248 \<le> code c \<and> code c < 252" using byte_eq [OF fields(6), of "0xf8" 62 c] code_less [of c] by simp
  show "byte c AND 0xfe = 0xfc \<longleftrightarrow> 252 \<le> code c \<and> code c < 254" using byte_eq [OF fields(7), of "0xfc" 126 c] code_less [of c] by simp
  show "byte c AND 0xfe = 0xfe \<longleftrightarrow> 254 \<le> code c" using byte_eq [OF fields(7), of "0xfe" 127 c] code_less [of c] by simp
  show "byte c AND 0xfe = 0xc0 \<longleftrightarrow> 192 \<le> code c \<and> code c < 194" using byte_eq [OF fields(7), of "0xc0" 96 c] code_less [of c] by simp
qed (simp_all add: word_unat_eq_iff unat_byte)

lemma continuation_code: "continuation c \<longleftrightarrow> 128 \<le> code c \<and> code c < 192"
  by (simp add: continuation_def byte_masks)

lemma code_char_of [simp]: "n < 256 \<Longrightarrow> code (char_of n) = n" for n :: nat
  by (simp add: code_def)

lemma char_of_code [simp]: "char_of (code c) = c"
  by (simp add: code_def)

lemma not_continuation_NUL [simp]: "\<not> continuation NUL"
  by (simp add: continuation_code)

subsection \<open>The value of a sequence\<close>

lemma continuations_iff: "continuations n s \<longleftrightarrow> n \<le> length s \<and> list_all continuation (take n s)"
proof (induction n arbitrary: s)
  case (Suc n)
  then show ?case by (cases s) auto
qed simp



lemma copy_continuations_le: "fst (copy_continuations n s) \<le> n \<and> fst (copy_continuations n s) \<le> length s"
proof (induction n s rule: copy_continuations.induct)
  case (2 n s)
  then show ?case by (cases s) (auto split: prod.splits)
qed simp

definition lead_bits :: "char \<Rightarrow> nat" where
  "lead_bits c = (let a = code c in
     if a < 224 then a - 192 else if a < 240 then a - 224 else if a < 248 then a - 240 else if a < 252 then a - 248 else a - 252)"

lemma mod_minus: "k * m \<le> n \<Longrightarrow> n < k * m + m \<Longrightarrow> n mod m = n - k * m" for n :: nat
proof -
  assume n: "k * m \<le> n" "n < k * m + m"
  then have "n mod m = ((n - k * m) + k * m) mod m" by simp
  also have "\<dots> = (n - k * m) mod m" by (rule mod_mult_self1)
  also have "\<dots> = n - k * m" using n by (intro mod_less) linarith
  finally show ?thesis .
qed

lemma utf32_start_value:
  assumes "192 \<le> code c" "code c < 254"
  shows "unat (utf32_start c) = lead_bits c"
proof -
  have start: "utf32_start c = (if code c < 224 then ucast (byte c AND 0x1f) else if code c < 240 then ucast (byte c AND 0x0f)
    else if code c < 248 then ucast (byte c AND 0x07) else if code c < 252 then ucast (byte c AND 0x03) else ucast (byte c AND 0x01))"
    unfolding utf32_start_def byte_masks using assms by simp
  consider "code c < 224" | "224 \<le> code c" "code c < 240" | "240 \<le> code c" "code c < 248"
    | "248 \<le> code c" "code c < 252" | "252 \<le> code c" by linarith
  then show ?thesis
  proof cases
    case 1
    then show ?thesis using mod_minus [of 6 32 "code c"] assms by (simp add: start lead_bits_def unat_ucast_up byte_values)
  next
    case 2
    then show ?thesis using mod_minus [of 14 16 "code c"] by (simp add: start lead_bits_def unat_ucast_up byte_values)
  next
    case 3
    then show ?thesis using mod_minus [of 30 8 "code c"] by (simp add: start lead_bits_def unat_ucast_up byte_values)
  next
    case 4
    then show ?thesis using mod_minus [of 62 4 "code c"] by (simp add: start lead_bits_def unat_ucast_up byte_values)
  next
    case 5
    then show ?thesis using mod_minus [of 126 2 "code c"] assms by (simp add: start lead_bits_def unat_ucast_up byte_values)
  qed
qed

lemma expecting_value:
  "192 \<le> code c \<Longrightarrow> code c < 254 \<Longrightarrow> expecting_bytes c =
    (if code c < 224 then 1 else if code c < 240 then 2 else if code c < 248 then 3 else if code c < 252 then 4 else 5)"
  by (auto simp: expecting_bytes_def byte_masks)

lemma utf32_value_foldl:
  assumes "length cs = n"
  shows "utf32_value (c # cs @ s) (n + 1) = foldl (\<lambda>v d. push_bit 6 v + ucast (byte d AND 0x3f)) (utf32_start c) cs"
proof -
  have "map (cat (c # cs @ s)) [1..<n + 1] = cs"
    using assms by (intro nth_equalityI) (auto simp: cat_def nth_append simp del: upt_Suc)
  moreover have "utf32_value (c # cs @ s) (n + 1) =
      foldl (\<lambda>v d. push_bit 6 v + ucast (byte d AND 0x3f)) (utf32_start c) (map (cat (c # cs @ s)) [1..<n + 1])"
    unfolding utf32_value_def foldl_map cat_0 cur.simps ..
  ultimately show ?thesis by simp
qed

lemma unat_foldl_bits:
  assumes "unat v < 2 ^ k" "k + 6 * length cs \<le> 32"
  shows "unat (foldl (\<lambda>v d. push_bit 6 v + ucast (byte d AND 0x3f)) (v::u32) cs) = foldl (\<lambda>v d. v * 64 + code d mod 64) (unat v) cs"
  using assms
proof (induction cs arbitrary: v k)
  case (Cons d cs)
  let ?v = "push_bit 6 v + ucast (byte d AND 0x3f) :: u32"
  have le: "(2::nat) ^ (k + 6) \<le> 2 ^ 32" using Cons.prems(2) by (intro power_increasing) auto
  have small: "unat v * 64 + code d mod 64 < 2 ^ (k + 6)"
  proof -
    have "(unat v + 1) * 64 \<le> 2 ^ k * 64" using Cons.prems(1) by (intro mult_le_mono1) simp
    moreover have "code d mod 64 < 64" by simp
    ultimately show ?thesis unfolding power_add by simp
  qed
  have "unat (push_bit 6 v) = unat v * 64" using small le by (subst unat_push_bit) simp
  then have u: "unat ?v = unat v * 64 + code d mod 64"
    using small le by (subst unat_word_ariths) (simp add: unat_ucast_up byte_values)
  show ?case using Cons.IH [of ?v "k + 6"] Cons.prems(2) small u by simp
qed simp

subsection \<open>The encoding\<close>

definition utf8_encode :: "nat \<Rightarrow> string" where
  "utf8_encode cp =
     (if cp < 0x80 then [char_of cp]
      else if cp < 0x800 then [char_of (192 + cp div 64), char_of (128 + cp mod 64)]
      else if cp < 0x10000 then [char_of (224 + cp div 4096), char_of (128 + cp div 64 mod 64), char_of (128 + cp mod 64)]
      else [char_of (240 + cp div 262144), char_of (128 + cp div 4096 mod 64), char_of (128 + cp div 64 mod 64), char_of (128 + cp mod 64)])"

text \<open>The code points that the check accepts. Unicode excludes the surrogates \<open>0xd800\<close> to \<open>0xdfff\<close> only; the
  code tests the lower 16 bits, and so refuses the same range in every plane.\<close>

definition accepted_code_point :: "nat \<Rightarrow> bool" where
  "accepted_code_point cp \<longleftrightarrow> cp < 0x110000 \<and> \<not> (0xd800 \<le> cp mod 0x10000 \<and> cp mod 0x10000 < 0xe000)"

definition unicode_scalar :: "nat \<Rightarrow> bool" where
  "unicode_scalar cp \<longleftrightarrow> cp < 0x110000 \<and> \<not> (0xd800 \<le> cp \<and> cp < 0xe000)"

lemma surrogate_bits: "w AND 0xf800 = 0xd800 \<longleftrightarrow> unat w div 2048 mod 32 = 27" for w :: u32
proof -
  have "(0xf800 :: u32) = push_bit 11 (mask 5)" by (simp add: mask_numeral push_bit_eq_mult numeral_eq_Suc mask_Suc_exp)
  then have "unat (w AND 0xf800) = unat w div 2048 mod 32 * 2048" using unat_and_field [of 11 5 w] by simp
  then show ?thesis by (simp add: word_unat_eq_iff)
qed

lemma surrogate_range:
  "0xd800 \<le> cp mod 0x10000 \<and> cp mod 0x10000 < 0xe000 \<longleftrightarrow> cp div 2048 mod 32 = 27" for cp :: nat
proof -
  have "cp mod 0x10000 = cp div 2048 mod 32 * 2048 + cp mod 2048"
    using mod_mult2_eq [of cp 2048 32] by simp
  moreover have "cp mod 2048 < 2048" by simp
  ultimately show ?thesis by linarith
qed

lemma utf32_nat:
  assumes "192 \<le> code c" "code c < 254" "length cs = expecting_bytes c"
  shows "unat (utf32_value (c # cs @ s) (expecting_bytes c + 1)) = foldl (\<lambda>v d. v * 64 + code d mod 64) (lead_bits c) cs"
proof -
  have "lead_bits c < 2 ^ (6 - expecting_bytes c)" "expecting_bytes c \<le> 5" "1 \<le> expecting_bytes c"
    using assms(1,2) by (auto simp: expecting_value lead_bits_def)
  then have "unat (utf32_start c) < 2 ^ (6 - expecting_bytes c)" "6 - expecting_bytes c + 6 * length cs \<le> 32"
    using utf32_start_value [OF assms(1,2)] assms(3) by auto
  then show ?thesis
    using unat_foldl_bits utf32_start_value [OF assms(1,2)] utf32_value_foldl [OF assms(3)] by simp
qed

lemma overlong_simps:
  "overlong (c # b # s) \<longleftrightarrow> 192 \<le> code c \<and> code c < 194 \<or> code c = 224 \<and> code b div 32 mod 2 = 0 \<or>
     code c = 240 \<and> code b div 16 mod 4 = 0 \<or> code c = 248 \<and> code b div 8 mod 8 = 0 \<or> code c = 252 \<and> code b div 4 mod 16 = 0"
proof -
  have low: "byte b AND 0x20 = 0 \<longleftrightarrow> code b div 32 mod 2 = 0" "byte b AND 0x30 = 0 \<longleftrightarrow> code b div 16 mod 4 = 0"
    "byte b AND 0x38 = 0 \<longleftrightarrow> code b div 8 mod 8 = 0" "byte b AND 0x3c = 0 \<longleftrightarrow> code b div 4 mod 16 = 0"
    by (simp_all add: word_unat_eq_iff byte_low)
  show ?thesis by (simp add: overlong_def byte_masks cat_def low)
qed

text \<open>A sequence of the length its first byte announces, and the checks on it.\<close>

definition complete :: "char \<Rightarrow> string \<Rightarrow> bool" where
  "complete c cs \<longleftrightarrow> 192 \<le> code c \<and> code c < 254 \<and> length cs = expecting_bytes c \<and> list_all continuation cs"

definition passes :: "char \<Rightarrow> string \<Rightarrow> bool" where
  "passes c cs \<longleftrightarrow> \<not> overlong (c # cs) \<and>
     (let v = utf32_value (c # cs) (length cs + 1) in \<not> (v > 0x10ffff \<or> v AND 0xf800 = 0xd800))"

definition seq_value :: "char \<Rightarrow> string \<Rightarrow> nat" where
  "seq_value c cs = foldl (\<lambda>v d. v * 64 + code d mod 64) (lead_bits c) cs"

lemma passes_iff:
  assumes "complete c cs"
  shows "passes c cs \<longleftrightarrow> \<not> overlong (c # cs) \<and> accepted_code_point (seq_value c cs)"
    and "unat (utf32_value (c # cs) (length cs + 1)) = seq_value c cs"
proof -
  have u: "unat (utf32_value (c # cs) (length cs + 1)) = seq_value c cs"
    using utf32_nat [of c cs "[]"] assms by (simp add: complete_def seq_value_def)
  then show "unat (utf32_value (c # cs) (length cs + 1)) = seq_value c cs" .
  show "passes c cs \<longleftrightarrow> \<not> overlong (c # cs) \<and> accepted_code_point (seq_value c cs)"
    unfolding passes_def Let_def accepted_code_point_def surrogate_range surrogate_bits word_less_nat_alt u by auto
qed

text \<open>A continuation byte carries six bits.\<close>

lemma continuation_bits: "continuation b \<Longrightarrow> code b = 128 + code b mod 64"
  using mod_minus [of 2 64 "code b"] by (simp add: continuation_code)

lemma char_of_bits: "continuation b \<Longrightarrow> char_of (128 + code b mod 64) = b"
  using continuation_bits [of b] by (metis char_of_code)

lemma encode_shift:
  "x < 64 \<Longrightarrow> (v * 64 + x) div 64 = v" "x < 64 \<Longrightarrow> (v * 64 + x) mod 64 = x" for v x :: nat
  by simp_all

lemma length_cases:
  "length cs = Suc 0 \<longleftrightarrow> (\<exists>a. cs = [a])" "length cs = 2 \<longleftrightarrow> (\<exists>a b. cs = [a, b])" "length cs = 3 \<longleftrightarrow> (\<exists>a b c. cs = [a, b, c])"
  "length cs = 4 \<longleftrightarrow> (\<exists>a b c d. cs = [a, b, c, d])" "length cs = 5 \<longleftrightarrow> (\<exists>a b c d e. cs = [a, b, c, d, e])"
  by (auto simp: numeral_eq_Suc length_Suc_conv)

lemma div_bits: "continuation b \<Longrightarrow> code b div 32 mod 2 = 0 \<longleftrightarrow> code b mod 64 < 32"
  "continuation b \<Longrightarrow> code b div 16 mod 4 = 0 \<longleftrightarrow> code b mod 64 < 16"
  "continuation b \<Longrightarrow> code b div 8 mod 8 = 0 \<longleftrightarrow> code b mod 64 < 8"
  "continuation b \<Longrightarrow> code b div 4 mod 16 = 0 \<longleftrightarrow> code b mod 64 < 4"
proof -
  have gen: "code b div k mod m = 0 \<longleftrightarrow> code b mod 64 < k" if "k * m = 64" for k m
  proof -
    have "code b div k mod m = code b mod 64 div k" using mod_mult2_eq [of "code b" k m] that by (cases "k = 0") auto
    moreover have "0 < k" using that by (cases k) auto
    ultimately show ?thesis by (simp add: div_eq_0_iff)
  qed
  show "code b div 32 mod 2 = 0 \<longleftrightarrow> code b mod 64 < 32" "code b div 16 mod 4 = 0 \<longleftrightarrow> code b mod 64 < 16"
    "code b div 8 mod 8 = 0 \<longleftrightarrow> code b mod 64 < 8" "code b div 4 mod 16 = 0 \<longleftrightarrow> code b mod 64 < 4"
    by (rule gen; simp)+
qed

lemma sequence_encodes:
  assumes "complete c cs" "\<not> overlong (c # cs)" "seq_value c cs < 0x110000"
  shows "utf8_encode (seq_value c cs) = c # cs \<and> 128 \<le> seq_value c cs"
proof -
  have c: "192 \<le> code c" "code c < 254" and len: "length cs = expecting_bytes c" and cont: "list_all continuation cs"
    using assms(1) by (auto simp: complete_def)
  consider "code c < 224" | "224 \<le> code c" "code c < 240" | "240 \<le> code c" "code c < 248"
    | "248 \<le> code c" "code c < 252" | "252 \<le> code c" by linarith
  then show ?thesis
  proof cases
    case 1
    then obtain x where cs: "cs = [x]" using len c by (auto simp: expecting_value length_cases)
    define l m where "l = code c - 192" and "m = code x mod 64"
    have b: "c = char_of (192 + l)" "x = char_of (128 + m)" "m < 64" "2 \<le> l" "l < 32"
      using c 1 cont assms(2) char_of_bits [of x] by (auto simp: l_def m_def cs overlong_simps)
    have v: "seq_value c cs = l * 64 + m" using 1 by (simp add: seq_value_def lead_bits_def cs l_def m_def)
    show ?thesis using b unfolding v by (simp add: utf8_encode_def cs encode_shift)
  next
    case 2
    then obtain x y where cs: "cs = [x, y]" using len c by (auto simp: expecting_value length_cases)
    define l m n where "l = code c - 224" and "m = code x mod 64" and "n = code y mod 64"
    have b: "c = char_of (224 + l)" "x = char_of (128 + m)" "m < 64" "y = char_of (128 + n)" "n < 64" "l < 16" "l = 0 \<longrightarrow> 32 \<le> m"
      using 2 cont assms(2) char_of_bits [of x] char_of_bits [of y] by (auto simp: l_def m_def n_def cs overlong_simps div_bits)
    define V where "V = (l * 64 + m) * 64 + n"
    have v: "seq_value c cs = V" using 2 by (simp add: seq_value_def lead_bits_def cs l_def m_def n_def V_def)
    have d: "V mod 64 = n" "V div 64 = l * 64 + m" unfolding V_def using b(5) by (simp_all only: encode_shift)
    have e: "V div 4096 = l" "V div 64 mod 64 = m" using b(3) div_mult2_eq [of V 64 64] by (simp_all add: d encode_shift)
    have "0x800 \<le> V \<and> V < 0x10000" unfolding V_def using b(3,5,6,7) by (cases "l = 0") simp_all
    then show ?thesis using b(1,2,4) unfolding v by (simp add: utf8_encode_def cs d(1) e)
  next
    case 3
    then obtain x y z where cs: "cs = [x, y, z]" using len c by (auto simp: expecting_value length_cases)
    define l m n k where "l = code c - 240" and "m = code x mod 64" and "n = code y mod 64" and "k = code z mod 64"
    have b: "c = char_of (240 + l)" "x = char_of (128 + m)" "m < 64" "y = char_of (128 + n)" "n < 64" "z = char_of (128 + k)" "k < 64"
      "l < 8" "l = 0 \<longrightarrow> 16 \<le> m"
      using 3 cont assms(2) char_of_bits [of x] char_of_bits [of y] char_of_bits [of z]
      by (auto simp: l_def m_def n_def k_def cs overlong_simps div_bits)
    define V where "V = ((l * 64 + m) * 64 + n) * 64 + k"
    have v: "seq_value c cs = V" using 3 by (simp add: seq_value_def lead_bits_def cs l_def m_def n_def k_def V_def)
    have d: "V mod 64 = k" "V div 64 = (l * 64 + m) * 64 + n" unfolding V_def using b(7) by (simp_all only: encode_shift)
    have e: "V div 4096 = l * 64 + m" "V div 64 mod 64 = n"
      using b(5) div_mult2_eq [of V 64 64] by (simp_all only: d encode_shift mult_numeral_left_semiring_numeral numeral_times_numeral) simp_all
    have f: "V div 262144 = l" "V div 4096 mod 64 = m" using b(3) div_mult2_eq [of V 4096 64] by (simp_all add: e encode_shift)
    have "0x10000 \<le> V" unfolding V_def using b(3,5,7,9) by (cases "l = 0") simp_all
    then show ?thesis using b(1,2,4,6) unfolding v by (simp add: utf8_encode_def cs d(1) e(2) f)
  next
    case 4
    then obtain x y z u where cs: "cs = [x, y, z, u]" using len c by (auto simp: expecting_value length_cases)
    have "code c = 248 \<longrightarrow> 8 \<le> code x mod 64" using 4 cont assms(2) by (auto simp: cs overlong_simps div_bits)
    then show ?thesis using 4 assms(3) by (cases "code c = 248") (auto simp: seq_value_def lead_bits_def cs)
  next
    case 5
    then obtain x y z u w where cs: "cs = [x, y, z, u, w]" using len c by (auto simp: expecting_value length_cases)
    have "code c = 252 \<longrightarrow> 4 \<le> code x mod 64" using 5 cont assms(2) by (auto simp: cs overlong_simps div_bits)
    then show ?thesis using 5 assms(3) by (cases "code c = 252") (auto simp: seq_value_def lead_bits_def cs)
  qed
qed

lemma code_continuation [simp]: "code (char_of (128 + n mod 64)) = 128 + n mod 64" for n :: nat
proof -
  have "n mod 64 < 64" by simp
  then show ?thesis by (intro code_char_of) linarith
qed

lemma continuation_char_of [simp]: "continuation (char_of (128 + n mod 64))" for n :: nat
proof -
  have "n mod 64 < 64" by simp
  then show ?thesis unfolding continuation_code code_continuation by simp
qed

lemma bits_of_offset [simp]: "(128 + n mod 64) mod 64 = n mod 64" for n :: nat
  using mod_minus [of 2 64 "128 + n mod 64"] by simp

lemmas div_bits_of_offset [simp] = div_bits [OF continuation_char_of, unfolded code_continuation bits_of_offset]

lemma split_64: "n div 64 * 64 + n mod 64 = n" for n :: nat
  by simp

lemma encode_sequence:
  assumes "128 \<le> cp" "cp < 0x110000"
  obtains c cs where "utf8_encode cp = c # cs" "complete c cs" "\<not> overlong (c # cs)" "seq_value c cs = cp"
proof -
  let ?b = "\<lambda>n. char_of (128 + n mod 64) :: char"
  consider "cp < 0x800" | "0x800 \<le> cp" "cp < 0x10000" | "0x10000 \<le> cp" by linarith
  then show ?thesis
  proof cases
    case 1
    have q: "2 \<le> cp div 64" "cp div 64 < 32" using assms(1) 1 by simp_all
    show ?thesis
    proof (rule that)
      show "utf8_encode cp = char_of (192 + cp div 64) # [?b cp]" using 1 assms(1) by (simp add: utf8_encode_def)
      show "complete (char_of (192 + cp div 64)) [?b cp]" using q by (simp add: complete_def expecting_value)
      show "\<not> overlong [char_of (192 + cp div 64), ?b cp]" using q by (simp add: overlong_simps)
      show "seq_value (char_of (192 + cp div 64)) [?b cp] = cp"
        using q by (simp add: seq_value_def lead_bits_def split_64)
    qed
  next
    case 2
    have q: "cp div 4096 < 16" using 2 by simp
    have d: "cp div 64 div 64 = cp div 4096" using div_mult2_eq [of cp 64 64] by simp
    have o: "\<not> (cp div 4096 = 0 \<and> cp div 64 mod 64 < 32)"
    proof
      assume "cp div 4096 = 0 \<and> cp div 64 mod 64 < 32"
      then have "cp div 64 < 32" using split_64 [of "cp div 64"] by (simp add: d)
      then show False using 2 by simp
    qed
    show ?thesis
    proof (rule that)
      show "utf8_encode cp = char_of (224 + cp div 4096) # [?b (cp div 64), ?b cp]" using 2 by (simp add: utf8_encode_def)
      show "complete (char_of (224 + cp div 4096)) [?b (cp div 64), ?b cp]" using q by (simp add: complete_def expecting_value)
      show "\<not> overlong [char_of (224 + cp div 4096), ?b (cp div 64), ?b cp]"
        using q o by (simp add: overlong_simps)
      show "seq_value (char_of (224 + cp div 4096)) [?b (cp div 64), ?b cp] = cp"
        using q split_64 [of "cp div 64"] split_64 [of cp] by (simp add: seq_value_def lead_bits_def d)
    qed
  next
    case 3
    have q: "cp div 262144 < 5" using assms(2) by simp
    have d: "cp div 64 div 64 = cp div 4096" "cp div 4096 div 64 = cp div 262144"
      using div_mult2_eq [of cp 64 64] div_mult2_eq [of cp 4096 64] by simp_all
    have o: "\<not> (cp div 262144 = 0 \<and> cp div 4096 mod 64 < 16)"
    proof
      assume "cp div 262144 = 0 \<and> cp div 4096 mod 64 < 16"
      then have "cp div 4096 < 16" using split_64 [of "cp div 4096"] by (simp add: d)
      then show False using 3 by simp
    qed
    show ?thesis
    proof (rule that)
      show "utf8_encode cp = char_of (240 + cp div 262144) # [?b (cp div 4096), ?b (cp div 64), ?b cp]"
        using 3 by (simp add: utf8_encode_def)
      show "complete (char_of (240 + cp div 262144)) [?b (cp div 4096), ?b (cp div 64), ?b cp]"
        using q by (simp add: complete_def expecting_value)
      show "\<not> overlong [char_of (240 + cp div 262144), ?b (cp div 4096), ?b (cp div 64), ?b cp]"
        using q o by (simp add: overlong_simps)
      show "seq_value (char_of (240 + cp div 262144)) [?b (cp div 4096), ?b (cp div 64), ?b cp] = cp"
        using q split_64 [of "cp div 4096"] split_64 [of "cp div 64"] split_64 [of cp]
        by (simp add: seq_value_def lead_bits_def d)
    qed
  qed
qed

subsection \<open>The check of a text\<close>

lemma complete_len: "complete c cs \<Longrightarrow> 1 \<le> length cs"
  by (auto simp: complete_def expecting_value)

lemma passes_append:
  assumes "complete c cs"
  shows "overlong (c # cs @ s) = overlong (c # cs)"
    and "utf32_value (c # cs @ s) (length cs + 1) = utf32_value (c # cs) (length cs + 1)"
proof -
  obtain b bs where "cs = b # bs" using complete_len [OF assms] by (cases cs) auto
  then show "overlong (c # cs @ s) = overlong (c # cs)" by (simp add: overlong_simps)
  show "utf32_value (c # cs @ s) (length cs + 1) = utf32_value (c # cs) (length cs + 1)"
    using utf32_value_foldl [of cs "length cs" c s] utf32_value_foldl [of cs "length cs" c "[]"] by simp
qed

lemma lead_range: "192 \<le> code c \<and> code c < 254 \<longleftrightarrow> \<not> code c < 128 \<and> \<not> (128 \<le> code c \<and> code c < 192) \<and> \<not> 254 \<le> code c"
  by linarith

lemma is_utf8_Nil [simp]: "zbx_is_utf8 []"
  by (simp add: zbx_is_utf8.simps)

lemma is_utf8_ascii: "code c < 128 \<Longrightarrow> zbx_is_utf8 (c # s) = zbx_is_utf8 s"
  by (subst zbx_is_utf8.simps) (simp add: byte_masks)

lemma is_utf8_sequence:
  assumes "complete c cs"
  shows "zbx_is_utf8 (c # cs @ s) \<longleftrightarrow> passes c cs \<and> zbx_is_utf8 s"
proof -
  have n: "expecting_bytes c = length cs" "192 \<le> code c" "code c < 254" "list_all continuation cs"
    using assms by (auto simp: complete_def)
  have "continuations (length cs) (cs @ s)" using n(4) by (simp add: continuations_iff)
  then show ?thesis using n(2,3) passes_append [OF assms, of s]
    by (subst zbx_is_utf8.simps) (simp add: byte_masks n(1) passes_def Let_def)
qed

lemma is_utf8_broken:
  assumes "\<not> code c < 128" "\<not> (\<exists>cs r. s = cs @ r \<and> complete c cs)"
  shows "\<not> zbx_is_utf8 (c # s)"
proof (cases "192 \<le> code c \<and> code c < 254")
  case True
  have "\<not> continuations (expecting_bytes c) s"
  proof
    assume "continuations (expecting_bytes c) s"
    then have "complete c (take (expecting_bytes c) s)" using True by (simp add: complete_def continuations_iff)
    then show False using assms(2) append_take_drop_id by metis
  qed
  then show ?thesis using True by (subst zbx_is_utf8.simps) (simp add: byte_masks)
next
  case False
  then have "\<not> code c < 128" "128 \<le> code c \<and> code c < 192 \<or> 254 \<le> code c" using lead_range [of c] assms(1) by auto
  then show ?thesis by (subst zbx_is_utf8.simps) (auto simp: byte_masks)
qed

lemma encode_ascii: "cp < 128 \<Longrightarrow> utf8_encode cp = [char_of cp]"
  by (simp add: utf8_encode_def)

lemma is_utf8_encode:
  assumes "cp < 0x110000"
  shows "zbx_is_utf8 (utf8_encode cp @ s) \<longleftrightarrow> accepted_code_point cp \<and> zbx_is_utf8 s"
proof (cases "cp < 128")
  case True
  then show ?thesis by (simp add: encode_ascii is_utf8_ascii accepted_code_point_def)
next
  case False
  then obtain c cs where e: "utf8_encode cp = c # cs" "complete c cs" "\<not> overlong (c # cs)" "seq_value c cs = cp"
    using encode_sequence [OF _ assms] by (auto simp: not_less)
  then show ?thesis using is_utf8_sequence [OF e(2), of s] passes_iff [OF e(2)] by simp
qed

lemma is_utf8_concat: "list_all accepted_code_point cps \<Longrightarrow> zbx_is_utf8 (concat (map utf8_encode cps))"
proof (induction cps)
  case (Cons cp cps)
  then show ?case using is_utf8_encode [of cp "concat (map utf8_encode cps)"] by (simp add: accepted_code_point_def)
qed simp

lemma is_utf8_decode: "zbx_is_utf8 s \<Longrightarrow> \<exists>cps. list_all accepted_code_point cps \<and> s = concat (map utf8_encode cps)"
proof (induction "length s" arbitrary: s rule: less_induct)
  case less
  show ?case
  proof (cases s)
    case Nil
    then show ?thesis by (intro exI [of _ "[]"]) simp
  next
    case (Cons c t)
    obtain cp r where "accepted_code_point cp" "s = utf8_encode cp @ r" "zbx_is_utf8 r" "length r < length s"
    proof (cases "code c < 128")
      case True
      then show ?thesis using that [of "code c" t] less.prems Cons
        by (simp add: encode_ascii is_utf8_ascii accepted_code_point_def)
    next
      case False
      then obtain cs r where t: "t = cs @ r" "complete c cs" using is_utf8_broken less.prems Cons by blast
      then have p: "passes c cs" "zbx_is_utf8 r" using is_utf8_sequence less.prems Cons by auto
      then have "accepted_code_point (seq_value c cs)" "utf8_encode (seq_value c cs) = c # cs"
        using passes_iff [OF t(2)] sequence_encodes [OF t(2)] by (auto simp: accepted_code_point_def)
      then show ?thesis using that [of "seq_value c cs" r] t p Cons by simp
    qed
    moreover from this obtain cps where "list_all accepted_code_point cps" "r = concat (map utf8_encode cps)"
      using less.hyps by blast
    ultimately show ?thesis by (intro exI [of _ "cp # cps"]) simp
  qed
qed

subsection \<open>Replacement\<close>


lemma replace_Nil [simp]: "replace_invalid_utf8_impl [] np = []"
  by (simp add: replace_invalid_utf8_impl.simps)


lemma take_complete: "complete c cs \<Longrightarrow> take (length cs + 1) (c # cs @ s) = c # cs"
  by simp



















lemma utf8_encode_ne [simp]: "utf8_encode cp \<noteq> []"
  by (simp add: utf8_encode_def)









subsection \<open>Counting and cutting\<close>

definition utf8_text :: "nat list \<Rightarrow> string" where
  "utf8_text cps = concat (map utf8_encode cps)"

lemma utf8_text_simps [simp]:
  "utf8_text [] = []" "utf8_text (cp # cps) = utf8_encode cp @ utf8_text cps" "utf8_text (xs @ ys) = utf8_text xs @ utf8_text ys"
  by (simp_all add: utf8_text_def)

lemma char_len_code:
  "zbx_utf8_char_len (c # s) = (if code c < 128 then 1 else if 192 \<le> code c \<and> code c < 224 then 2
     else if 224 \<le> code c \<and> code c < 240 then 3 else if 240 \<le> code c \<and> code c < 248 then 4 else 0)"
  by (simp add: zbx_utf8_char_len_def byte_masks)

lemma encode_shape:
  assumes "cp < 0x110000"
  obtains c cs where "utf8_encode cp = c # cs" "\<not> continuation c" "list_all continuation cs" "\<And>s. zbx_utf8_char_len (c # s) = Suc (length cs)"
proof (cases "cp < 128")
  case True
  then show ?thesis using that [of "char_of cp" "[]"] by (simp add: encode_ascii continuation_code char_len_code)
next
  case False
  then obtain c cs where e: "utf8_encode cp = c # cs" "complete c cs" "\<not> overlong (c # cs)" "seq_value c cs = cp"
    using encode_sequence [OF _ assms] by (auto simp: not_less)
  have "length cs \<le> 3" using e(1) by (auto simp: utf8_encode_def split: if_splits)
  then show ?thesis using that [of c cs] e by (auto simp: complete_def continuation_code char_len_code expecting_value split: if_splits)
qed

lemma cur_utf8_text: "list_all (\<lambda>cp. cp < 0x110000) cps \<Longrightarrow> \<not> continuation (cur (utf8_text cps))"
  by (cases cps) (auto elim!: encode_shape)

lemma strlen_continuations: "list_all continuation cs \<Longrightarrow> zbx_strlen_utf8 (cs @ s) = zbx_strlen_utf8 s"
  by (induction cs) auto

lemma strlen_text: "list_all (\<lambda>cp. cp < 0x110000) cps \<Longrightarrow> zbx_strlen_utf8 (utf8_text cps) = length cps"
  by (induction cps) (auto elim!: encode_shape simp: strlen_continuations)

lemma strshift_0 [simp]: "zbx_strshift_utf8 s 0 = s"
  by (cases s) simp_all

lemma strshift_character:
  assumes "list_all continuation cs" "\<not> continuation (cur s)" "0 < n"
  shows "zbx_strshift_utf8 (c # cs @ s) n = zbx_strshift_utf8 s (n - 1)"
  using assms by (induction cs arbitrary: c) auto

lemma strshift_text:
  "list_all (\<lambda>cp. cp < 0x110000) cps \<Longrightarrow> zbx_strshift_utf8 (utf8_text cps) n = utf8_text (drop n cps)"
proof (induction cps arbitrary: n)
  case (Cons cp cps)
  then obtain c cs where "utf8_encode cp = c # cs" "list_all continuation cs" by (auto elim: encode_shape)
  then show ?case using Cons strshift_character [of cs "utf8_text cps" n c] cur_utf8_text [of cps] by (cases n) auto
qed simp

lemma nchars_text:
  "list_all (\<lambda>cp. cp < 0x110000) cps \<Longrightarrow> strlen_nchars_loop (utf8_text cps) n sz = sz + length (utf8_text (take n cps))"
proof (induction cps arbitrary: n sz)
  case (Cons cp cps)
  then obtain c cs where e: "utf8_encode cp = c # cs" "\<And>s. zbx_utf8_char_len (c # s) = Suc (length cs)" by (auto elim: encode_shape)
  show ?case
  proof (cases n)
    case (Suc m)
    then show ?thesis using Cons e by (subst strlen_nchars_loop.simps) (simp add: Let_def)
  qed (simp add: strlen_nchars_loop.simps Let_def)
qed (simp add: strlen_nchars_loop.simps)

lemma step_back_append:
  "\<not> continuation (cur s) \<Longrightarrow> e \<noteq> [] \<Longrightarrow> step_back (e @ s) (length e + j) = length e + step_back s j"
proof (induction j)
  case 0
  then obtain k where "length e = Suc k" by (cases e) auto
  then show ?case using 0 by (cases s) (simp_all add: cat_def nth_append)
next
  case (Suc j)
  have "cat (e @ s) (Suc (length e + j)) = cat s (Suc j)" by (simp add: cat_def nth_append)
  then show ?case using Suc by simp
qed

lemma step_back_in_character: "list_all continuation cs \<Longrightarrow> m \<le> length cs \<Longrightarrow> step_back (c # cs @ s) m = 0"
  by (induction m) (auto simp: cat_def nth_append list_all_length)

text \<open>The number of characters of a text that fit into \<open>m\<close> bytes.\<close>

fun fitting :: "nat list \<Rightarrow> nat \<Rightarrow> nat" where
  "fitting [] m = 0"
| "fitting (cp # cps) m = (if length (utf8_encode cp) \<le> m then Suc (fitting cps (m - length (utf8_encode cp))) else 0)"

lemma fitting_le: "fitting cps m \<le> length cps"
  by (induction cps m rule: fitting.induct) auto

lemma fitting_fits: "length (utf8_text (take (fitting cps m) cps)) \<le> m"
  by (induction cps m rule: fitting.induct) auto

lemma fitting_maximal: "fitting cps m < length cps \<Longrightarrow> m < length (utf8_text (take (fitting cps m + 1) cps))"
  by (induction cps m rule: fitting.induct) auto

lemma fitting_all: "length (utf8_text cps) \<le> m \<Longrightarrow> fitting cps m = length cps"
  by (induction cps m rule: fitting.induct) auto

lemma step_back_text:
  "list_all (\<lambda>cp. cp < 0x110000) cps \<Longrightarrow> m < length (utf8_text cps) \<Longrightarrow>
    step_back (utf8_text cps) m = length (utf8_text (take (fitting cps m) cps))"
proof (induction cps arbitrary: m)
  case (Cons cp cps)
  obtain c cs where e: "utf8_encode cp = c # cs" "list_all continuation cs" using Cons.prems by (auto elim: encode_shape)
  show ?case
  proof (cases "m < length (utf8_encode cp)")
    case True
    then show ?thesis using step_back_in_character [OF e(2), of m c] by (simp add: e(1))
  next
    case False
    then show ?thesis
      using Cons step_back_append [of "utf8_text cps" "utf8_encode cp" "m - length (utf8_encode cp)"] cur_utf8_text [of cps] e(1)
      by auto
  qed
qed simp

lemma nbytes_text:
  assumes "list_all (\<lambda>cp. cp < 0x110000) cps"
  shows "strlen_utf8_nbytes (utf8_text cps) m = length (utf8_text (take (fitting cps m) cps))"
  using step_back_text [OF assms, of m] fitting_all [of cps m] by (auto simp: strlen_utf8_nbytes_def Let_def)

lemma charcount_take: "n \<le> length s \<Longrightarrow> charcount_loop s n = zbx_strlen_utf8 (take n s)"
proof (induction s arbitrary: n)
  case (Cons c s)
  then show ?case by (cases n) auto
qed simp

lemma take_text: "utf8_text (take k cps) = take (length (utf8_text (take k cps))) (utf8_text cps)"
  using utf8_text_simps(3) [of "take k cps" "drop k cps"] by simp





subsection \<open>Properties\<close>

text \<open>C25: \<open>zbx_is_utf8\<close> accepts exactly the texts that encode code points below \<open>0x110000\<close> whose lower 16 bits
  are not in the range of the surrogates, with no overlong and no broken sequence. Every surrogate is refused, but so
  are 2048 valid code points of every other plane, such as U+1D800.\<close>

theorem is_utf8_correct:
  "(zbx_is_utf8 s \<longleftrightarrow> (\<exists>cps. list_all accepted_code_point cps \<and> s = utf8_text cps)) \<and>
   (accepted_code_point cp \<longleftrightarrow> unicode_scalar cp \<and> \<not> (0xd800 \<le> cp mod 0x10000 \<and> cp mod 0x10000 < 0xe000)) \<and>
   unicode_scalar 0x1d800 \<and> \<not> zbx_is_utf8 (utf8_encode 0x1d800)"
proof -
  have "accepted_code_point cp \<longleftrightarrow> unicode_scalar cp \<and> \<not> (0xd800 \<le> cp mod 0x10000 \<and> cp mod 0x10000 < 0xe000)"
    by (auto simp: accepted_code_point_def unicode_scalar_def)
  moreover have "\<not> accepted_code_point 0x1d800" "unicode_scalar 0x1d800" by (simp_all add: accepted_code_point_def unicode_scalar_def)
  moreover from this have "\<not> zbx_is_utf8 (utf8_encode 0x1d800)" using is_utf8_encode [of "0x1d800" "[]"] by simp
  moreover have "zbx_is_utf8 s \<longleftrightarrow> (\<exists>cps. list_all accepted_code_point cps \<and> s = utf8_text cps)"
    using is_utf8_concat is_utf8_decode [of s] unfolding utf8_text_def by blast
  ultimately show ?thesis by blast
qed



text \<open>C27: On an encoded text the routines count, skip and cut whole characters: the length is the number of characters,
  a shift drops characters, a limit in characters keeps that many, and a limit in bytes keeps as many characters as fit and
  one more would not; the bounded copy writes exactly them and the terminator.\<close>

theorem utf8_cut_correct:
  assumes "list_all (\<lambda>cp. cp < 0x110000) cps" "m < length dst"
  shows "zbx_strlen_utf8 (utf8_text cps) = length cps \<and>
    zbx_strshift_utf8 (utf8_text cps) n = utf8_text (drop n cps) \<and>
    zbx_strlen_utf8_nchars (utf8_text cps) n = length (utf8_text (take n cps)) \<and>
    (\<exists>k \<le> length cps. zbx_strlcpy_utf8 dst (utf8_text cps) (m + 1) =
        Inr (utf8_text (take k cps) @ NUL # drop (length (utf8_text (take k cps)) + 1) dst, length (utf8_text (take k cps))) \<and>
      zbx_charcount_utf8_nbytes (utf8_text cps) m = k \<and>
      length (utf8_text (take k cps)) \<le> m \<and> (k = length cps \<or> m < length (utf8_text (take (k + 1) cps))))"
proof -
  define k where "k = fitting cps m"
  have k: "k \<le> length cps" "length (utf8_text (take k cps)) \<le> m" "k = length cps \<or> m < length (utf8_text (take (k + 1) cps))"
    using fitting_le [of cps m] fitting_fits [of cps m] fitting_maximal [of cps m] unfolding k_def by (auto simp: le_less)
  have nb: "strlen_utf8_nbytes (utf8_text cps) m = length (utf8_text (take k cps))" using nbytes_text [OF assms(1)] by (simp add: k_def)
  have part: "take (length (utf8_text (take k cps))) (utf8_text cps) = utf8_text (take k cps)"
    "length (utf8_text (take k cps)) \<le> length (utf8_text cps)"
    using utf8_text_simps(3) [of "take k cps" "drop k cps"] by simp_all
  have "zbx_strlcpy_utf8 dst (utf8_text cps) (m + 1) =
      Inr (utf8_text (take k cps) @ NUL # drop (length (utf8_text (take k cps)) + 1) dst, length (utf8_text (take k cps)))"
    using assms(2) k(2) by (simp add: zbx_strlcpy_utf8_def nb part Let_def)
  moreover have "zbx_charcount_utf8_nbytes (utf8_text cps) m = k"
    using strlen_text [of "take k cps"] k(1) assms(1) charcount_take [OF part(2)]
    by (simp add: zbx_charcount_utf8_nbytes_def nb part list_all_length)
  ultimately show ?thesis
    using strlen_text [OF assms(1)] strshift_text [OF assms(1)] nchars_text [OF assms(1), of n 0] k
    by (auto simp: zbx_strlen_utf8_nchars_def)
qed

theorem utf8_cut_correct_witness:
  "zbx_strlen_utf8 (utf8_text [0x41, 0x20ac, 0x1f600]) = 3 \<and>
   zbx_strlen_utf8_nchars (utf8_text [0x41, 0x20ac, 0x1f600]) 2 = 4 \<and>
   zbx_charcount_utf8_nbytes (utf8_text [0x41, 0x20ac, 0x1f600]) 6 = 2"
proof -
  have ok: "list_all (\<lambda>cp. cp < 0x110000) [0x41, 0x20ac, 0x1f600::nat]" "6 < length (replicate 10 NUL)" by simp_all
  have len: "length (utf8_text (take k [0x41, 0x20ac, 0x1f600])) = (if k = 0 then 0 else if k = 1 then 1 else if k = 2 then 4 else 8)" for k
    by (cases k; cases "k - 1"; cases "k - 2") (auto simp: utf8_encode_def)
  have "zbx_charcount_utf8_nbytes (utf8_text [0x41, 0x20ac, 0x1f600]) 6 = 2"
    using utf8_cut_correct [OF ok, of 2] unfolding len by (auto split: if_splits)
  then show ?thesis using utf8_cut_correct [OF ok, of 2] unfolding len by simp
qed

end
