(* ===== verification/Json.thy ===== *)
theory Json
  imports Utf8_Spec
begin

text \<open>
  JSON of \<open>src/src/libs/zbxjson\<close>: the validating parser of \<open>json_parser.c\<close>, and the escaping of strings of
  \<open>json.c\<close>. A parser returns the number of characters it took, or the message of the error with the text where it
  is; the code returns 0 for an error. The parser is modelled without the tree it can build (\<open>obj\<close>, \<open>str\<close> and
  \<open>number\<close> are \<open>NULL\<close>), as \<open>zbx_json_validate\<close> and \<open>zbx_json_open\<close> use it.
\<close>

subsection \<open>Decoding of escapes\<close>

definition ZBX_WHITESPACE :: string where
  "ZBX_WHITESPACE = [CHR '' '', CHR 0x09, CHR 0x0D, CHR 0x0A]"

fun SKIP_WHITESPACE :: "string \<Rightarrow> string" where
  "SKIP_WHITESPACE [] = []"
| "SKIP_WHITESPACE (c # src) = (if c \<in> set ZBX_WHITESPACE then SKIP_WHITESPACE src else c # src)"

definition zbx_is_valid_json_hex :: "string \<Rightarrow> bool" where
  "zbx_is_valid_json_hex p \<longleftrightarrow> isxdigit (cat p 0) \<and> isxdigit (cat p 1) \<and> isxdigit (cat p 2) \<and> isxdigit (cat p 3)"

definition zbx_hex2num :: "char \<Rightarrow> u32" where
  "zbx_hex2num c =
     (if code (CHR ''a'') \<le> code c then of_nat (code c - code (CHR ''a'') + 10)
      else if code (CHR ''A'') \<le> code c then of_nat (code c - code (CHR ''A'') + 10)
      else of_nat (code c - code (CHR ''0'')))"

definition hex_number :: "string \<Rightarrow> u32" where
  "hex_number p = push_bit 12 (zbx_hex2num (cat p 0)) + push_bit 8 (zbx_hex2num (cat p 1)) +
     push_bit 4 (zbx_hex2num (cat p 2)) + zbx_hex2num (cat p 3)"

definition uchar :: "u32 \<Rightarrow> char" where
  "uchar w = char_of (unat w)"

text \<open>The characters of the escapes of one letter.\<close>

definition simple_escape :: "char \<Rightarrow> char option" where
  "simple_escape c =
     (if c = CHR 0x22 then Some (CHR 0x22)
      else if c = CHR 0x5C then Some (CHR 0x5C)
      else if c = CHR ''/'' then Some (CHR ''/'')
      else if c = CHR ''b'' then Some (CHR 0x08)
      else if c = CHR ''f'' then Some (CHR 0x0C)
      else if c = CHR ''n'' then Some (CHR 0x0A)
      else if c = CHR ''r'' then Some (CHR 0x0D)
      else if c = CHR ''t'' then Some (CHR 0x09)
      else None)"

text \<open>The bytes and the text after the escape, or \<open>None\<close> where the code returns 0.\<close>

definition zbx_json_decode_character :: "string \<Rightarrow> (string \<times> string) option" where
  "zbx_json_decode_character p =
     (case simple_escape (cur p) of
        Some b \<Rightarrow> Some ([b], tl p)
      | None \<Rightarrow>
          if cur p = CHR ''u'' then
            let p = tl p in
            if \<not> zbx_is_valid_json_hex p then None
            else
              let num = hex_number p; p = drop 4 p in
              if 0x007f \<ge> num then Some ([uchar num], p)
              else if 0x07ff \<ge> num then
                Some ([uchar (0xc0 OR (drop_bit 6 num AND 0x1f)), uchar (0x80 OR (num AND 0x3f))], p)
              else if 0xd7ff \<ge> num \<or> 0xe000 \<le> num then
                Some ([uchar (0xe0 OR (drop_bit 12 num AND 0x0f)), uchar (0x80 OR (drop_bit 6 num AND 0x3f)),
                       uchar (0x80 OR (num AND 0x3f))], p)
              else if 0xd800 \<le> num \<and> num \<le> 0xdbff then
                if cur p \<noteq> CHR 0x5C \<or> cur (tl p) \<noteq> CHR ''u'' \<or> \<not> zbx_is_valid_json_hex (drop 2 p) then None
                else
                  let p = drop 2 p; num_lo = hex_number p; p = drop 4 p in
                  if num_lo < 0xdc00 \<or> 0xdfff < num_lo then None
                  else
                    let uc = 0x010000 + push_bit 10 (num AND 0x03ff) + (num_lo AND 0x03ff) in
                    Some ([uchar (0xf0 OR (drop_bit 18 uc AND 0x07)), uchar (0x80 OR (drop_bit 12 uc AND 0x3f)),
                           uchar (0x80 OR (drop_bit 6 uc AND 0x3f)), uchar (0x80 OR (uc AND 0x3f))], p)
              else None
          else None)"

lemma decode_character_shorter:
  "zbx_json_decode_character p = Some (bs, r) \<Longrightarrow> p \<noteq> [] \<Longrightarrow> length r < length p"
  by (cases p) (auto simp: zbx_json_decode_character_def Let_def split: option.splits if_splits)

subsection \<open>The parser\<close>

text \<open>The message of \<open>json_error\<close> and the text it quotes; \<open>Past_Terminator\<close> is a pointer that is moved over the
  terminator.\<close>

datatype json_error = json_error string "string option" | Past_Terminator

text \<open>The text that is given to the caller. \<open>%128s\<close> is a least width, not a limit.\<close>

fun json_error_text :: "json_error \<Rightarrow> string" where
  "json_error_text (json_error message (Some ptr)) =
     (if 128 < length ptr then message @ '' at: '' @ CHR 0x27 # ptr @ ''...'' @ [CHR 0x27]
      else message @ '' at: '' @ CHR 0x27 # ptr @ [CHR 0x27])"
| "json_error_text (json_error message None) = message"
| "json_error_text Past_Terminator = []"

lemma json_error_text_not_cut: "length ptr \<le> length (json_error_text (json_error message (Some ptr)))"
  by simp

function parse_string_loop :: "string \<Rightarrow> json_error + string" where
  "parse_string_loop ptr =
     (if cur ptr = CHR 0x22 then Inr ptr
      else if ptr = [] then Inl (json_error ''unexpected end of string data'' None)
      else if cur ptr = CHR 0x5C then
        let escape_start = ptr; ptr = tl ptr in
        if ptr = [] then Inl (json_error ''invalid escape sequence in string'' (Some escape_start))
        else if cur ptr \<in> set (CHR 0x22 # CHR 0x5C # ''/bfnrt'') then parse_string_loop (tl ptr)
        else if cur ptr = CHR ''u'' then
          (case zbx_json_decode_character ptr of
             None \<Rightarrow> Inl (json_error ''invalid escape sequence in string'' (Some escape_start))
           | Some (uc, ptr) \<Rightarrow> parse_string_loop ptr)
        else Inl (json_error ''invalid escape sequence in string data'' (Some escape_start))
      else if code (cur ptr) \<le> 0x1f then Inl (json_error ''invalid control character in string data'' (Some ptr))
      else parse_string_loop (tl ptr))"
  by pat_completeness auto
termination
  by (relation "measure length") (auto dest!: decode_character_shorter)

declare parse_string_loop.simps [simp del]

text \<open>\<open>json_copy_string\<close>: the loop with the bytes written so far, which are at most \<open>size\<close>; the result is the decoded text and
  the text behind the closing quotation mark, or \<open>None\<close> for \<open>NULL\<close>.\<close>

function copy_string_loop :: "string \<Rightarrow> string \<Rightarrow> nat \<Rightarrow> (string \<times> string) option" where
  "copy_string_loop p out size' =
     (if p = [] then None
      else if cur p = CHR 0x5C then
        (if tl p = [] then None
         else case zbx_json_decode_character (tl p) of
             None \<Rightarrow> None
           | Some (uc, p) \<Rightarrow>
               if size' \<le> length out + length uc then None
               else let out = out @ uc in if length out = size' then None else copy_string_loop p out size')
      else if cur p = CHR 0x22 then Some (out, tl p)
      else let out = out @ [cur p]; p = tl p in if length out = size' then None else copy_string_loop p out size')"
  by pat_completeness auto
termination
proof (relation "measure (\<lambda>(p, out, n). length p)", goal_cases)
  case (2 p out size' a uc q)
  then show ?case using decode_character_shorter [of "tl p" uc q] by (cases p) auto
qed auto

declare copy_string_loop.simps [simp del]

definition json_copy_string :: "string \<Rightarrow> nat \<Rightarrow> (string \<times> string) option" where
  "json_copy_string p size' = (if size' = 0 then None else copy_string_loop (tl p) [] size')"

text \<open>Pointers are suffixes, so a difference of pointers is a difference of lengths.\<close>

definition json_parse_string :: "string \<Rightarrow> json_error + nat" where
  "json_parse_string start =
     (case parse_string_loop (tl start) of
        Inl e \<Rightarrow> Inl e
      | Inr ptr \<Rightarrow> Inr (length start - length ptr + 1))"

text \<open>The digits and the point of a number: the text behind them and the count of digits before the point.\<close>

fun number_loop :: "string \<Rightarrow> bool \<Rightarrow> nat \<Rightarrow> string \<times> nat" where
  "number_loop [] point digit = ([], digit)"
| "number_loop (c # ptr) point digit =
     (if c = CHR ''.'' then
        if point then (c # ptr, digit) else number_loop ptr True digit
      else if \<not> isdigit c then (c # ptr, digit)
      else number_loop ptr point (if \<not> point then digit + 1 else digit))"

definition json_parse_number :: "string \<Rightarrow> json_error + nat" where
  "json_parse_number start =
     (let ptr = (if cur start = CHR ''-'' then tl start else start);
          first_digit = cur ptr;
          (ptr, digit) = number_loop ptr False 0 in
      if digit = 0 then Inl (json_error ''invalid numeric value format'' (Some start))
      else if first_digit = CHR ''0'' \<and> 1 < digit then Inl (json_error ''invalid numeric value format'' (Some start))
      else if cur ptr = CHR ''e'' \<or> cur ptr = CHR ''E'' then
        let ptr = tl ptr in
        if ptr = [] then Inl (json_error ''unexpected end of numeric value'' None)
        else if (cur ptr = CHR ''+'' \<or> cur ptr = CHR ''-'') \<and> tl ptr = [] then
          Inl (json_error ''unexpected end of numeric value'' None)
        else
          let ptr = (if cur ptr = CHR ''+'' \<or> cur ptr = CHR ''-'' then tl ptr else ptr) in
          if \<not> isdigit (cur ptr) then Inl (json_error ''invalid power value of number in E notation'' (Some ptr))
          else Inr (length start - length (dropWhile isdigit (tl ptr)))
      else Inr (length start - length ptr))"

fun literal_loop :: "string \<Rightarrow> string \<Rightarrow> bool" where
  "literal_loop ptr [] = True"
| "literal_loop ptr (c # text) = (if cur ptr \<noteq> c then False else literal_loop (tl ptr) text)"

definition json_parse_literal :: "string \<Rightarrow> string \<Rightarrow> json_error + nat" where
  "json_parse_literal start text =
     (if literal_loop start text then Inr (length text) else Inl (json_error ''invalid literal value'' (Some start)))"

definition ZBX_MAX_JSON_DEPTH :: nat where
  "ZBX_MAX_JSON_DEPTH = 64"

text \<open>A character in quotation marks, for the messages.\<close>

definition quoted_char :: "char \<Rightarrow> string" where
  "quoted_char c = [CHR 0x27, c, CHR 0x27]"

lemma skip_whitespace_le: "length (SKIP_WHITESPACE s) \<le> length s"
  by (induction s) auto

lemma skip_drop_le: "length (SKIP_WHITESPACE (drop b p)) \<le> length p"
  using skip_whitespace_le [of "drop b p"] by simp

lemma skip_drop_tl: "cur (SKIP_WHITESPACE (drop b p)) \<noteq> NUL \<Longrightarrow> length (SKIP_WHITESPACE (drop b p)) - 1 < length p"
  using skip_drop_le [of b p] by (cases "SKIP_WHITESPACE (drop b p)") auto

lemma next_member_shorter:
  assumes "cur (SKIP_WHITESPACE (drop b (tl (SKIP_WHITESPACE (drop a p))))) = CHR '',''" "cur (SKIP_WHITESPACE (drop a p)) = CHR '':''"
  shows "length (SKIP_WHITESPACE (tl (SKIP_WHITESPACE (drop b (tl (SKIP_WHITESPACE (drop a p))))))) < length p"
  using skip_whitespace_le [of "tl (SKIP_WHITESPACE (drop b (tl (SKIP_WHITESPACE (drop a p)))))"]
    skip_drop_tl [of b "tl (SKIP_WHITESPACE (drop a p))"] skip_drop_tl [of a p] assms by simp

function (sequential)
  json_parse_value :: "string \<Rightarrow> nat \<Rightarrow> json_error + nat" and
  json_parse_array :: "string \<Rightarrow> nat \<Rightarrow> json_error + nat" and
  array_loop :: "string \<Rightarrow> nat \<Rightarrow> json_error + string" and
  json_parse_object :: "string \<Rightarrow> nat \<Rightarrow> json_error + nat" and
  object_loop :: "string \<Rightarrow> nat \<Rightarrow> json_error + string"
where
  "json_parse_value start depth =
     (if ZBX_MAX_JSON_DEPTH < depth then Inl (json_error ''JSON depth exceeds 64'' (Some start))
      else
        let depth = depth + 1; ptr = SKIP_WHITESPACE start;
            len =
              (if ptr = [] then Inl (json_error ''unexpected end of object value'' None)
               else if cur ptr = CHR 0x22 then json_parse_string ptr
               else if cur ptr = CHR 0x7B then json_parse_object ptr depth
               else if cur ptr = CHR ''['' then json_parse_array ptr depth
               else if cur ptr = CHR ''t'' then json_parse_literal ptr ''true''
               else if cur ptr = CHR ''f'' then json_parse_literal ptr ''false''
               else if cur ptr = CHR ''n'' then json_parse_literal ptr ''null''
               else if isdigit (cur ptr) \<or> cur ptr = CHR ''-'' then json_parse_number ptr
               else Inl (json_error ''invalid JSON object value starting character'' (Some ptr)))
        in case len of Inl e \<Rightarrow> Inl e | Inr len \<Rightarrow> Inr (length start - length ptr + len))"
| "json_parse_array [] depth = Inl Past_Terminator"
| "json_parse_array (c # rest) depth =
     (let ptr = SKIP_WHITESPACE rest in
      if cur ptr \<noteq> CHR '']'' then
        (case array_loop ptr depth of
           Inl e \<Rightarrow> Inl e
         | Inr ptr' \<Rightarrow>
             if cur ptr' \<noteq> CHR '']'' then
               Inl (json_error (''invalid array format, expected closing character '' @ quoted_char (CHR '']'')) (Some ptr'))
             else Inr (length (c # rest) - length ptr' + 1))
      else Inr (length (c # rest) - length ptr + 1))"
| "array_loop ptr depth =
     (case json_parse_value ptr depth of
        Inl e \<Rightarrow> Inl e
      | Inr len \<Rightarrow>
          let ptr' = SKIP_WHITESPACE (drop len ptr) in
          if cur ptr' \<noteq> CHR '','' then Inr ptr' else array_loop (tl ptr') depth)"
| "json_parse_object start depth =
     (case SKIP_WHITESPACE start of
        [] \<Rightarrow> Inl Past_Terminator
      | c # rest \<Rightarrow>
          let ptr = SKIP_WHITESPACE rest in
          if cur ptr \<noteq> CHR 0x7D then
            (case object_loop ptr depth of
               Inl e \<Rightarrow> Inl e
             | Inr ptr' \<Rightarrow>
                 if cur ptr' \<noteq> CHR 0x7D then
                   Inl (json_error (''invalid object format, expected closing character '' @ quoted_char (CHR 0x7D)) (Some ptr'))
                 else Inr (length start - length ptr' + 1))
          else Inr (length start - length ptr + 1))"
| "object_loop ptr depth =
     (if cur ptr \<noteq> CHR 0x22 then Inl (json_error ''invalid object name'' (Some ptr))
      else case json_parse_string ptr of
        Inl e \<Rightarrow> Inl e
      | Inr len \<Rightarrow>
          let ptr1 = SKIP_WHITESPACE (drop len ptr) in
          if cur ptr1 \<noteq> CHR '':'' then Inl (json_error ''invalid object name/value separator'' (Some ptr1))
          else
            let ptr2 = tl ptr1 in
            case json_parse_value ptr2 depth of
              Inl e \<Rightarrow> Inl e
            | Inr len \<Rightarrow>
                let ptr3 = SKIP_WHITESPACE (drop len ptr2) in
                if cur ptr3 \<noteq> CHR '','' then Inr ptr3 else object_loop (SKIP_WHITESPACE (tl ptr3)) depth)"
  by pat_completeness auto

termination
proof (relation "measure (\<lambda>x. case x of
    Inl (Inl (s, d)) \<Rightarrow> 3 * length s + 1
  | Inl (Inr (s, d)) \<Rightarrow> 3 * length s
  | Inr (Inl (s, d)) \<Rightarrow> 3 * length s + 2
  | Inr (Inr (Inl (s, d))) \<Rightarrow> 3 * length s
  | Inr (Inr (Inr (s, d))) \<Rightarrow> 3 * length s + 2)", goal_cases)
  case (2 start depth)
  then show ?case using skip_whitespace_le [of start] by simp
next
  case (3 start depth)
  then show ?case using skip_whitespace_le [of start] by simp
next
  case (4 c rest depth)
  then show ?case using skip_whitespace_le [of rest] by simp
next
  case (6 ptr depth)
  then show ?case using skip_drop_tl by fastforce
next
  case (7 start depth c rest)
  then show ?case using skip_whitespace_le [of start] skip_whitespace_le [of rest] by simp
next
  case (8 ptr depth b x xa)
  then have "length xa < length ptr" using skip_drop_tl [of b ptr] by simp
  then show ?case by simp
next
  case (9 ptr depth)
  then show ?case using next_member_shorter by fastforce
qed (auto)

declare json_parse_value.simps [simp del] array_loop.simps [simp del] json_parse_object.simps [simp del] object_loop.simps [simp del]

text \<open>The length of the text without the spaces around it.\<close>

definition zbx_json_validate :: "string \<Rightarrow> json_error + nat" where
  "zbx_json_validate start =
     (let start = SKIP_WHITESPACE start;
          len =
            (if cur start = CHR 0x7B then json_parse_object start 0
             else if cur start = CHR ''['' then json_parse_array start 0
             else Inl (json_error (''invalid object format, expected opening character '' @ quoted_char (CHR 0x7B) @ '' or '' @
               quoted_char (CHR ''['')) (Some start)))
      in case len of
           Inl e \<Rightarrow> Inl e
         | Inr len \<Rightarrow>
             let start = SKIP_WHITESPACE (drop len start) in
             if start \<noteq> [] then Inl (json_error ''invalid character following JSON object'' (Some start)) else Inr len)"

end
