(* ===== verification/Json_Spec.thy ===== *)
theory Json_Spec
  imports Json
begin

text \<open>
  The grammar of JSON texts and the validating parser against it: the parser takes exactly the texts of the grammar,
  down to the depth it allows.
\<close>

subsection \<open>Escaped characters\<close>

definition hexv :: "char \<Rightarrow> char \<Rightarrow> char \<Rightarrow> char \<Rightarrow> nat" where
  "hexv a b c d = ((hex_value a * 16 + hex_value b) * 16 + hex_value c) * 16 + hex_value d"

lemma hex2num: "isxdigit c \<Longrightarrow> zbx_hex2num c = of_nat (hex_value c)"
proof -
  assume "isxdigit c"
  then have "isdigit c \<or> 65 \<le> code c \<and> code c \<le> 70 \<or> 97 \<le> code c \<and> code c \<le> 102" by (simp add: isxdigit_def)
  moreover have "code (CHR ''a'') = 97" "code (CHR ''A'') = 65" by (simp_all add: code_def)
  ultimately show ?thesis by (auto simp: zbx_hex2num_def hex_value_def isdigit_def add.commute)
qed

lemma hexv_less: "isxdigit a \<Longrightarrow> isxdigit b \<Longrightarrow> isxdigit c \<Longrightarrow> isxdigit d \<Longrightarrow> hexv a b c d < 65536"
  using hex_value_less [of a] hex_value_less [of b] hex_value_less [of c] hex_value_less [of d] by (simp add: hexv_def)

lemma unat_hex_number:
  assumes "isxdigit a" "isxdigit b" "isxdigit c" "isxdigit d"
  shows "unat (hex_number (a # b # c # d # s)) = hexv a b c d"
proof -
  have "hex_number (a # b # c # d # s) = of_nat (hexv a b c d)"
    using assms by (simp add: hex_number_def cat_def hex2num hexv_def push_bit_eq_mult algebra_simps)
  then show ?thesis using hexv_less [OF assms] by (simp add: unat_of_nat)
qed

lemma valid_hex_Cons: "zbx_is_valid_json_hex (a # b # c # d # s) \<longleftrightarrow> isxdigit a \<and> isxdigit b \<and> isxdigit c \<and> isxdigit d"
  by (simp add: zbx_is_valid_json_hex_def cat_def)

lemma valid_hex_split: "zbx_is_valid_json_hex s \<Longrightarrow> \<exists>a b c d t. s = a # b # c # d # t"
  by (cases s; cases "tl s"; cases "tl (tl s)"; cases "tl (tl (tl s))") (auto simp: zbx_is_valid_json_hex_def cat_def)

definition high_surrogate :: "nat \<Rightarrow> bool" where
  "high_surrogate n \<longleftrightarrow> 0xd800 \<le> n \<and> n < 0xdc00"

definition low_surrogate :: "nat \<Rightarrow> bool" where
  "low_surrogate n \<longleftrightarrow> 0xdc00 \<le> n \<and> n < 0xe000"

definition surrogate_pair :: "nat \<Rightarrow> nat \<Rightarrow> nat" where
  "surrogate_pair h l = 0x10000 + (h - 0xd800) * 0x400 + (l - 0xdc00)"

lemma or_field:
  fixes a z m :: u32
  assumes "a AND m = 0"
  shows "a OR (z AND m) = a + (z AND m)"
proof -
  have "a AND (z AND m) = z AND (a AND m)" by (simp only: and.left_commute)
  then have "a AND (z AND m) = 0" using assms by simp
  then show ?thesis using word_plus_and_or [of a "z AND m"] by simp
qed

lemma masks32:
  fixes w :: u32
  shows "unat (w AND 0x1f) = unat w mod 32" "unat (w AND 0x3f) = unat w mod 64" "unat (w AND 0x0f) = unat w mod 16"
    "unat (w AND 0x07) = unat w mod 8" "unat (w AND 0x03ff) = unat w mod 1024"
proof -
  have m: "(0x1f::u32) = push_bit 0 (mask 5)" "(0x3f::u32) = push_bit 0 (mask 6)" "(0x0f::u32) = push_bit 0 (mask 4)"
    "(0x07::u32) = push_bit 0 (mask 3)" "(0x03ff::u32) = push_bit 0 (mask 10)"
    by (simp_all add: mask_numeral numeral_eq_Suc mask_Suc_exp)
  show "unat (w AND 0x1f) = unat w mod 32" unfolding m(1) by (subst unat_and_field) simp_all
  show "unat (w AND 0x3f) = unat w mod 64" unfolding m(2) by (subst unat_and_field) simp_all
  show "unat (w AND 0x0f) = unat w mod 16" unfolding m(3) by (subst unat_and_field) simp_all
  show "unat (w AND 0x07) = unat w mod 8" unfolding m(4) by (subst unat_and_field) simp_all
  show "unat (w AND 0x03ff) = unat w mod 1024" unfolding m(5) by (subst unat_and_field) simp_all
qed

lemma uchar_fields:
  fixes w :: u32
  shows "uchar (0xc0 OR (w AND 0x1f)) = char_of (192 + unat w mod 32)" "uchar (0xe0 OR (w AND 0x0f)) = char_of (224 + unat w mod 16)"
    "uchar (0xf0 OR (w AND 0x07)) = char_of (240 + unat w mod 8)" "uchar (0x80 OR (w AND 0x3f)) = char_of (128 + unat w mod 64)"
proof -
  have add: "unat (a OR (w AND m)) = unat a + unat (w AND m)" if "a AND m = 0" "unat a + unat (w AND m) < 2 ^ 32" for a m :: u32
    unfolding or_field [OF that(1)] using that(2) by (subst unat_word_ariths) simp
  have "unat w mod 32 < 32" "unat w mod 16 < 16" "unat w mod 8 < 8" "unat w mod 64 < 64" by simp_all
  then show "uchar (0xc0 OR (w AND 0x1f)) = char_of (192 + unat w mod 32)" "uchar (0xe0 OR (w AND 0x0f)) = char_of (224 + unat w mod 16)"
    "uchar (0xf0 OR (w AND 0x07)) = char_of (240 + unat w mod 8)" "uchar (0x80 OR (w AND 0x3f)) = char_of (128 + unat w mod 64)"
    unfolding uchar_def by (subst add; simp add: masks32)+
qed

lemma pair_value:
  fixes h l :: u32
  assumes "high_surrogate (unat h)" "low_surrogate (unat l)"
  shows "unat (0x010000 + push_bit 10 (h AND 0x03ff) + (l AND 0x03ff)) = surrogate_pair (unat h) (unat l)"
proof -
  have m: "unat h mod 1024 = unat h - 0xd800" "unat l mod 1024 = unat l - 0xdc00"
    using assms mod_minus [of 54 1024 "unat h"] mod_minus [of 55 1024 "unat l"] by (auto simp: high_surrogate_def low_surrogate_def)
  have "unat h - 0xd800 < 1024" "unat l - 0xdc00 < 1024" using assms by (auto simp: high_surrogate_def low_surrogate_def)
  then have "unat (push_bit 10 (h AND 0x03ff)) = (unat h - 0xd800) * 1024" by (subst unat_push_bit) (simp add: masks32 m)
  then show ?thesis using \<open>unat h - 0xd800 < 1024\<close> \<open>unat l - 0xdc00 < 1024\<close>
    by (simp add: unat_word_ariths masks32 m surrogate_pair_def)
qed

text \<open>The escape \<open>\u\<close> with the digits of a code point, or of a pair of surrogates.\<close>

lemma decode_bmp:
  assumes "isxdigit a" "isxdigit b" "isxdigit c" "isxdigit d" "\<not> high_surrogate (hexv a b c d)" "\<not> low_surrogate (hexv a b c d)"
  shows "zbx_json_decode_character (CHR ''u'' # a # b # c # d # r) = Some (utf8_encode (hexv a b c d), r)"
proof -
  define w where "w = hex_number (a # b # c # d # r)"
  have w: "unat w = hexv a b c d" "hexv a b c d < 65536" using assms by (simp_all add: w_def unat_hex_number hexv_less)
  have s: "simple_escape (CHR ''u'') = None" by (simp add: simple_escape_def)
  have le: "0x7f \<ge> w \<longleftrightarrow> hexv a b c d < 0x80" "0x7ff \<ge> w \<longleftrightarrow> hexv a b c d < 0x800"
    "0xd7ff \<ge> w \<or> 0xe000 \<le> w \<longleftrightarrow> \<not> high_surrogate (hexv a b c d) \<and> \<not> low_surrogate (hexv a b c d)"
    by (auto simp: word_le_nat_alt w high_surrogate_def low_surrogate_def)
  have v: "hexv a b c d < 0x800 \<Longrightarrow> hexv a b c d div 64 mod 32 = hexv a b c d div 64" "hexv a b c d div 4096 < 16"
    using w(2) by simp_all
  have "zbx_json_decode_character (CHR ''u'' # a # b # c # d # r) =
     (if hexv a b c d < 0x80 then Some ([uchar w], r)
      else if hexv a b c d < 0x800 then
        Some ([uchar (0xc0 OR (drop_bit 6 w AND 0x1f)), uchar (0x80 OR (w AND 0x3f))], r)
      else Some ([uchar (0xe0 OR (drop_bit 12 w AND 0x0f)), uchar (0x80 OR (drop_bit 6 w AND 0x3f)), uchar (0x80 OR (w AND 0x3f))], r))"
    using assms unfolding zbx_json_decode_character_def Let_def
    by (simp add: s valid_hex_Cons w_def [symmetric] le)
  also have "\<dots> = Some (utf8_encode (hexv a b c d), r)"
    using v w(2) by (simp add: uchar_fields unat_drop_bit w utf8_encode_def) (simp add: uchar_def w)
  finally show ?thesis .
qed

lemma decode_low:
  assumes "isxdigit a" "isxdigit b" "isxdigit c" "isxdigit d" "low_surrogate (hexv a b c d)"
  shows "zbx_json_decode_character (CHR ''u'' # a # b # c # d # r) = None"
proof -
  have s: "simple_escape (CHR ''u'') = None" by (simp add: simple_escape_def)
  show ?thesis using assms unfolding zbx_json_decode_character_def Let_def
    by (simp add: s valid_hex_Cons word_le_nat_alt unat_hex_number low_surrogate_def)
qed

lemma decode_high:
  assumes "isxdigit a" "isxdigit b" "isxdigit c" "isxdigit d" "high_surrogate (hexv a b c d)"
  shows "zbx_json_decode_character (CHR ''u'' # a # b # c # d # r) =
    (if cur r \<noteq> CHR 0x5C \<or> cur (tl r) \<noteq> CHR ''u'' \<or> \<not> zbx_is_valid_json_hex (drop 2 r) then None
     else if \<not> low_surrogate (unat (hex_number (drop 2 r))) then None
     else Some (utf8_encode (surrogate_pair (hexv a b c d) (unat (hex_number (drop 2 r)))), drop 6 r))"
proof -
  define w where "w = hex_number (a # b # c # d # r)"
  define l where "l = hex_number (drop 2 r)"
  have w: "unat w = hexv a b c d" using assms by (simp add: w_def unat_hex_number)
  have s: "simple_escape (CHR ''u'') = None" by (simp add: simple_escape_def)
  have le: "\<not> 0x7f \<ge> w" "\<not> 0x7ff \<ge> w" "\<not> (0xd7ff \<ge> w \<or> 0xe000 \<le> w)" "0xd800 \<le> w \<and> w \<le> 0xdbff"
    using assms(5) by (auto simp: word_le_nat_alt w high_surrogate_def)
  have lo: "l < 0xdc00 \<or> 0xdfff < l \<longleftrightarrow> \<not> low_surrogate (unat l)"
    by (auto simp: word_less_nat_alt low_surrogate_def)
  have pair: "Some ([uchar (0xf0 OR (drop_bit 18 uc AND 0x07)), uchar (0x80 OR (drop_bit 12 uc AND 0x3f)),
      uchar (0x80 OR (drop_bit 6 uc AND 0x3f)), uchar (0x80 OR (uc AND 0x3f))], x) =
      Some (utf8_encode (surrogate_pair (hexv a b c d) (unat l)), x)"
    if low: "low_surrogate (unat l)" and uc: "uc = 0x010000 + push_bit 10 (w AND 0x03ff) + (l AND 0x03ff)" for uc :: u32 and x :: string
  proof -
    define v where "v = surrogate_pair (hexv a b c d) (unat l)"
    have u: "unat uc = v" using pair_value [of w l] assms(5) low by (simp add: w uc v_def)
    have "0x10000 \<le> v" unfolding v_def surrogate_pair_def by simp
    have "v < 0x110000" using assms(5) low unfolding v_def surrogate_pair_def high_surrogate_def low_surrogate_def by linarith
    then have "v div 262144 mod 8 = v div 262144" by simp
    then show ?thesis using \<open>0x10000 \<le> v\<close> unfolding v_def [symmetric] by (simp add: uchar_fields unat_drop_bit u utf8_encode_def)
  qed
  have "zbx_json_decode_character (CHR ''u'' # a # b # c # d # r) =
     (if cur r \<noteq> CHR 0x5C \<or> cur (tl r) \<noteq> CHR ''u'' \<or> \<not> zbx_is_valid_json_hex (drop 2 r) then None
      else let p = drop 2 r; num_lo = hex_number p; p = drop 4 p in
        if num_lo < 0xdc00 \<or> 0xdfff < num_lo then None
        else let uc = 0x010000 + push_bit 10 (w AND 0x03ff) + (num_lo AND 0x03ff) in
          Some ([uchar (0xf0 OR (drop_bit 18 uc AND 0x07)), uchar (0x80 OR (drop_bit 12 uc AND 0x3f)),
                 uchar (0x80 OR (drop_bit 6 uc AND 0x3f)), uchar (0x80 OR (uc AND 0x3f))], p))"
    using assms(1-4) le unfolding zbx_json_decode_character_def
    by (simp add: s valid_hex_Cons w_def [symmetric] Let_def)
  also have "\<dots> = (if cur r \<noteq> CHR 0x5C \<or> cur (tl r) \<noteq> CHR ''u'' \<or> \<not> zbx_is_valid_json_hex (drop 2 r) then None
     else if \<not> low_surrogate (unat l) then None
     else Some (utf8_encode (surrogate_pair (hexv a b c d) (unat l)), drop 6 r))"
    unfolding Let_def l_def [symmetric] lo using pair [OF _ refl, of "drop 6 r"] by simp
  finally show ?thesis unfolding l_def .
qed

subsection \<open>The grammar\<close>

text \<open>The characters of a string, with the text they stand for.\<close>

inductive json_chars :: "string \<Rightarrow> string \<Rightarrow> bool" where
  Chars_Nil: "json_chars [] []"
| Chars_Plain: "c \<noteq> CHR 0x22 \<Longrightarrow> c \<noteq> CHR 0x5C \<Longrightarrow> 0x1f < code c \<Longrightarrow> json_chars s v \<Longrightarrow> json_chars (c # s) (c # v)"
| Chars_Escape: "simple_escape e = Some c \<Longrightarrow> json_chars s v \<Longrightarrow> json_chars (CHR 0x5C # e # s) (c # v)"
| Chars_Unicode: "list_all isxdigit [a, b, c, d] \<Longrightarrow> \<not> high_surrogate (hexv a b c d) \<Longrightarrow> \<not> low_surrogate (hexv a b c d) \<Longrightarrow>
    json_chars s v \<Longrightarrow> json_chars (CHR 0x5C # CHR ''u'' # a # b # c # d # s) (utf8_encode (hexv a b c d) @ v)"
| Chars_Pair: "list_all isxdigit [a, b, c, d, e, f, g, h] \<Longrightarrow> high_surrogate (hexv a b c d) \<Longrightarrow> low_surrogate (hexv e f g h) \<Longrightarrow>
    json_chars s v \<Longrightarrow> json_chars (CHR 0x5C # CHR ''u'' # a # b # c # d # CHR 0x5C # CHR ''u'' # e # f # g # h # s)
      (utf8_encode (surrogate_pair (hexv a b c d) (hexv e f g h)) @ v)"

definition json_string :: "string \<Rightarrow> bool" where
  "json_string t \<longleftrightarrow> (\<exists>s v. t = CHR 0x22 # s @ [CHR 0x22] \<and> json_chars s v)"

definition digits :: "string \<Rightarrow> bool" where
  "digits s \<longleftrightarrow> s \<noteq> [] \<and> list_all isdigit s"

text \<open>Numbers as the parser takes them: unlike in RFC 8259 the digits after the point may be missing.\<close>

definition json_number :: "string \<Rightarrow> bool" where
  "json_number t \<longleftrightarrow> (\<exists>m i f x. t = m @ i @ f @ x \<and> m \<in> {[], ''-''} \<and>
     digits i \<and> (hd i = CHR ''0'' \<longrightarrow> length i = 1) \<and>
     (f = [] \<or> (\<exists>ds. f = CHR ''.'' # ds \<and> list_all isdigit ds)) \<and>
     (x = [] \<or> (\<exists>e g ds. x = e # g @ ds \<and> e \<in> {CHR ''e'', CHR ''E''} \<and> g \<in> {[], ''+'', ''-''} \<and> digits ds)))"

definition json_space :: "string \<Rightarrow> bool" where
  "json_space s \<longleftrightarrow> list_all (\<lambda>c. c \<in> set ZBX_WHITESPACE) s"

text \<open>Values, the elements of an array and the members of an object, with at most so many containers around the
  innermost value.\<close>

inductive json_value :: "nat \<Rightarrow> string \<Rightarrow> bool"
  and json_container :: "nat \<Rightarrow> string \<Rightarrow> bool"
  and json_elements :: "nat \<Rightarrow> string \<Rightarrow> bool"
  and json_members :: "nat \<Rightarrow> string \<Rightarrow> bool"
where
  Value_String: "json_string t \<Longrightarrow> json_value (Suc d) t"
| Value_Number: "json_number t \<Longrightarrow> json_value (Suc d) t"
| Value_Literal: "t \<in> {''true'', ''false'', ''null''} \<Longrightarrow> json_value (Suc d) t"
| Value_Container: "json_container d t \<Longrightarrow> json_value (Suc d) t"
| Empty_Array: "json_space w \<Longrightarrow> json_container d (CHR ''['' # w @ '']'')"
| Array: "json_elements d es \<Longrightarrow> json_container d (CHR ''['' # es @ '']'')"
| Empty_Object: "json_space w \<Longrightarrow> json_container d (CHR 0x7B # w @ [CHR 0x7D])"
| Object: "json_members d ms \<Longrightarrow> json_container d (CHR 0x7B # ms @ [CHR 0x7D])"
| Element: "json_space w1 \<Longrightarrow> json_value d t \<Longrightarrow> json_space w2 \<Longrightarrow> json_elements d (w1 @ t @ w2)"
| Elements: "json_space w1 \<Longrightarrow> json_value d t \<Longrightarrow> json_space w2 \<Longrightarrow> json_elements d es \<Longrightarrow>
    json_elements d (w1 @ t @ w2 @ CHR '','' # es)"
| Member: "json_space w1 \<Longrightarrow> json_string k \<Longrightarrow> json_space w2 \<Longrightarrow> json_space w3 \<Longrightarrow> json_value d t \<Longrightarrow> json_space w4 \<Longrightarrow>
    json_members d (w1 @ k @ w2 @ CHR '':'' # w3 @ t @ w4)"
| Members: "json_space w1 \<Longrightarrow> json_string k \<Longrightarrow> json_space w2 \<Longrightarrow> json_space w3 \<Longrightarrow> json_value d t \<Longrightarrow> json_space w4 \<Longrightarrow>
    json_members d ms \<Longrightarrow> json_members d (w1 @ k @ w2 @ CHR '':'' # w3 @ t @ w4 @ CHR '','' # ms)"

text \<open>A document is an array or an object between spaces.\<close>

definition json_document :: "nat \<Rightarrow> string \<Rightarrow> bool" where
  "json_document n s \<longleftrightarrow>
     (\<exists>w1 t w2. s = w1 @ t @ w2 \<and> json_space w1 \<and> json_space w2 \<and> json_container (ZBX_MAX_JSON_DEPTH + 1) t \<and> n = length t)"

subsection \<open>Tokens\<close>

lemma simple_escape_iff: "simple_escape e \<noteq> None \<longleftrightarrow> e \<in> set (CHR 0x22 # CHR 0x5C # ''/bfnrt'')"
  by (auto simp: simple_escape_def)

lemma simple_escape_u [simp]: "simple_escape (CHR ''u'') = None"
  by (simp add: simple_escape_def)

lemma decode_u_split:
  assumes "zbx_json_decode_character (CHR ''u'' # p) = Some (bs, r)"
  shows "\<exists>t. p = t @ r \<and> (\<forall>s v. json_chars s v \<longrightarrow> json_chars (CHR 0x5C # CHR ''u'' # t @ s) (bs @ v))"
proof -
  have "zbx_is_valid_json_hex p" using assms by (auto simp: zbx_json_decode_character_def Let_def split: if_splits)
  then obtain a b c d q where p: "p = a # b # c # d # q" and x: "isxdigit a" "isxdigit b" "isxdigit c" "isxdigit d"
    using valid_hex_split valid_hex_Cons by metis
  show ?thesis
  proof (cases "high_surrogate (hexv a b c d)")
    case True
    have q: "cur q = CHR 0x5C" "cur (tl q) = CHR ''u''" "zbx_is_valid_json_hex (drop 2 q)" "low_surrogate (unat (hex_number (drop 2 q)))"
      "bs = utf8_encode (surrogate_pair (hexv a b c d) (unat (hex_number (drop 2 q))))" "r = drop 6 q"
      using assms decode_high [OF x True, of q] by (auto simp: p split: if_splits)
    obtain e f g h q' where d: "drop 2 q = e # f # g # h # q'" and y: "isxdigit e" "isxdigit f" "isxdigit g" "isxdigit h"
      using q(3) valid_hex_split valid_hex_Cons by metis
    have "q = CHR 0x5C # CHR ''u'' # drop 2 q" using q(1,2) by (cases q; cases "tl q") auto
    then have qq: "q = CHR 0x5C # CHR ''u'' # e # f # g # h # q'" by (simp only: d)
    have "r = q'" using q(6) by (simp add: qq)
    moreover have "bs = utf8_encode (surrogate_pair (hexv a b c d) (hexv e f g h))" "low_surrogate (hexv e f g h)"
      using q(4,5) unat_hex_number [OF y, of q'] by (simp_all only: d)
    ultimately show ?thesis using Chars_Pair [of a b c d e f g h] x y True
      by (intro exI [of _ "[a, b, c, d, CHR 0x5C, CHR ''u'', e, f, g, h]"]) (simp add: p qq)
  next
    case False
    then have "\<not> low_surrogate (hexv a b c d)" using assms decode_low [OF x, of q] by (auto simp: p)
    moreover from this have "bs = utf8_encode (hexv a b c d)" "r = q" using assms decode_bmp [OF x False, of q] by (simp_all add: p)
    ultimately show ?thesis using Chars_Unicode [of a b c d] x False
      by (intro exI [of _ "[a, b, c, d]"]) (simp add: p)
  qed
qed

lemma string_loop_quote: "cur q = CHR 0x22 \<Longrightarrow> parse_string_loop q = Inr q"
  by (simp add: parse_string_loop.simps)

lemma string_loop_plain:
  "c \<noteq> CHR 0x22 \<Longrightarrow> c \<noteq> CHR 0x5C \<Longrightarrow> 0x1f < code c \<Longrightarrow> parse_string_loop (c # s) = parse_string_loop s"
  by (subst parse_string_loop.simps) simp

lemma string_loop_escape: "simple_escape e = Some c \<Longrightarrow> parse_string_loop (CHR 0x5C # e # s) = parse_string_loop s"
  using simple_escape_iff [of e] by (subst parse_string_loop.simps) (simp add: Let_def)

lemma string_loop_u:
  "zbx_json_decode_character (CHR ''u'' # p) = Some (bs, r) \<Longrightarrow> parse_string_loop (CHR 0x5C # CHR ''u'' # p) = parse_string_loop r"
  by (subst parse_string_loop.simps) (simp add: Let_def)

lemma string_loop_bad:
  "simple_escape e = None \<Longrightarrow> e \<noteq> CHR ''u'' \<Longrightarrow> parse_string_loop (CHR 0x5C # e # s) \<noteq> Inr q"
  "zbx_json_decode_character (CHR ''u'' # p) = None \<Longrightarrow> parse_string_loop (CHR 0x5C # CHR ''u'' # p) \<noteq> Inr q"
  "c \<noteq> CHR 0x22 \<Longrightarrow> c \<noteq> CHR 0x5C \<Longrightarrow> code c \<le> 0x1f \<Longrightarrow> parse_string_loop (c # s) \<noteq> Inr q"
  using simple_escape_iff [of e] by (subst parse_string_loop.simps, simp add: Let_def)+

lemma string_loop_complete: "json_chars s v \<Longrightarrow> cur q = CHR 0x22 \<Longrightarrow> parse_string_loop (s @ q) = Inr q"
proof (induction rule: json_chars.induct)
  case (Chars_Unicode a b c d s v)
  then show ?case using string_loop_u [OF decode_bmp [of a b c d "s @ q"]] by simp
next
  case (Chars_Pair a b c d e f g h s v)
  have "zbx_json_decode_character (CHR ''u'' # a # b # c # d # CHR 0x5C # CHR ''u'' # e # f # g # h # s @ q) =
      Some (utf8_encode (surrogate_pair (hexv a b c d) (hexv e f g h)), s @ q)"
    using Chars_Pair.hyps by (subst decode_high) (simp_all add: valid_hex_Cons unat_hex_number)
  from string_loop_u [OF this] show ?case using Chars_Pair by simp
qed (simp_all add: string_loop_quote string_loop_plain string_loop_escape)

lemma string_loop_sound: "parse_string_loop p = Inr q \<Longrightarrow> \<exists>s v. p = s @ q \<and> cur q = CHR 0x22 \<and> json_chars s v"
proof (induction "length p" arbitrary: p rule: less_induct)
  case less
  consider "cur p = CHR 0x22" | c r where "p = c # r" "c \<noteq> CHR 0x22" "c \<noteq> CHR 0x5C" "0x1f < code c"
    | e c r where "p = CHR 0x5C # e # r" "simple_escape e = Some c"
    | r bs t where "p = CHR 0x5C # CHR ''u'' # r" "zbx_json_decode_character (CHR ''u'' # r) = Some (bs, t)"
  proof (cases p)
    case Nil
    then show ?thesis using less.prems by (simp add: parse_string_loop.simps)
  next
    case (Cons c r)
    show ?thesis
    proof (cases "c = CHR 0x5C")
      case True
      then obtain e r' where r: "r = e # r'"
        using less.prems Cons by (cases r) (simp_all add: parse_string_loop.simps)
      show ?thesis
      proof (cases "simple_escape e")
        case None
        then have "e = CHR ''u''" using string_loop_bad(1) [of e r' q] less.prems by (auto simp: Cons True r)
        moreover from this have "zbx_json_decode_character (CHR ''u'' # r') \<noteq> None"
          using string_loop_bad(2) [of r' q] less.prems unfolding Cons True r by blast
        ultimately show ?thesis using that(4) Cons True r by (cases "zbx_json_decode_character (CHR ''u'' # r')") auto
      qed (use that(3) Cons True r in auto)
    next
      case False
      then show ?thesis using less.prems Cons that(1,2) string_loop_bad(3) [of c r q] by (cases "c = CHR 0x22"; cases "code c \<le> 0x1f") auto
    qed
  qed
  then show ?case
  proof cases
    case 1
    then show ?thesis using less.prems string_loop_quote [of p] Chars_Nil by auto
  next
    case 2
    then obtain s v where "r = s @ q" "cur q = CHR 0x22" "json_chars s v"
      using less.hyps [of r] less.prems string_loop_plain [of c r] by auto
    then show ?thesis using 2 Chars_Plain [of c s v] by - (rule exI [of _ "c # s"], rule exI [of _ "c # v"], auto)
  next
    case 3
    then obtain s v where "r = s @ q" "cur q = CHR 0x22" "json_chars s v"
      using less.hyps [of r] less.prems string_loop_escape [of e c r] by auto
    then show ?thesis using 3 Chars_Escape [of e c s v] by - (rule exI [of _ "CHR 0x5C # e # s"], rule exI [of _ "c # v"], auto)
  next
    case 4
    then obtain u where u: "r = u @ t" "\<forall>s v. json_chars s v \<longrightarrow> json_chars (CHR 0x5C # CHR ''u'' # u @ s) (bs @ v)"
      using decode_u_split by blast
    then obtain s v where "t = s @ q" "cur q = CHR 0x22" "json_chars s v"
      using less.hyps [of t] less.prems string_loop_u [OF 4(2)] 4(1) by auto
    then show ?thesis using 4 u by - (rule exI [of _ "CHR 0x5C # CHR ''u'' # u @ s"], rule exI [of _ "bs @ v"], auto)
  qed
qed

lemma parse_string_iff:
  assumes "cur p = CHR 0x22"
  shows "json_parse_string p = Inr n \<longleftrightarrow> (\<exists>t r. p = t @ r \<and> json_string t \<and> n = length t)"
proof
  obtain p' where p: "p = CHR 0x22 # p'" using assms by (cases p) auto
  {
    assume "json_parse_string p = Inr n"
    then obtain q where q: "parse_string_loop p' = Inr q" "n = length p - length q + 1"
      by (auto simp: json_parse_string_def p split: sum.splits)
    then obtain s v where s: "p' = s @ q" "cur q = CHR 0x22" "json_chars s v" using string_loop_sound by blast
    then obtain r where "q = CHR 0x22 # r" by (cases q) auto
    then show "\<exists>t r. p = t @ r \<and> json_string t \<and> n = length t"
      using s q(2) by (intro exI [of _ "CHR 0x22 # s @ [CHR 0x22]"] exI [of _ r]) (auto simp: p json_string_def)
  next
    assume "\<exists>t r. p = t @ r \<and> json_string t \<and> n = length t"
    then obtain s v r where s: "p' = s @ CHR 0x22 # r" "json_chars s v" "n = length s + 2" by (auto simp: p json_string_def)
    then show "json_parse_string p = Inr n"
      using string_loop_complete [OF s(2), of "CHR 0x22 # r"] by (simp add: json_parse_string_def p)
  }
qed

lemma number_loop_point: "number_loop s True d = (dropWhile isdigit s, d)"
  by (induction s) auto

lemma number_loop_eq:
  "number_loop s False d =
    (let i = takeWhile isdigit s; r = dropWhile isdigit s in
     (if cur r = CHR ''.'' then dropWhile isdigit (tl r) else r, d + length i))"
  by (induction s arbitrary: d) (auto simp: number_loop_point Let_def)

lemma digits_split: "takeWhile isdigit s \<noteq> [] \<Longrightarrow> digits (takeWhile isdigit s)"
  by (auto simp: digits_def list_all_iff dest: set_takeWhileD)

lemma take_digits: "list_all isdigit i \<Longrightarrow> \<not> isdigit (cur r) \<Longrightarrow> takeWhile isdigit (i @ r) = i \<and> dropWhile isdigit (i @ r) = r"
  by (induction i) (cases r; auto)+

text \<open>What may follow a number: anything but a character that would continue it.\<close>

definition number_end :: "string \<Rightarrow> bool" where
  "number_end r \<longleftrightarrow> \<not> isdigit (cur r) \<and> cur r \<notin> set ''.eE''"

definition parse_exponent :: "string \<Rightarrow> string option" where
  "parse_exponent ptr =
     (if cur ptr \<in> set ''eE'' then
        let ptr = tl ptr; ptr = (if cur ptr \<in> set ''+-'' then tl ptr else ptr) in
        if isdigit (cur ptr) then Some (dropWhile isdigit (tl ptr)) else None
      else Some ptr)"

lemma parse_number_loop:
  assumes "number_loop (if cur s = CHR ''-'' then tl s else s) False 0 = (r, k)"
  shows "json_parse_number s = Inr n \<longleftrightarrow>
    k \<noteq> 0 \<and> \<not> (cur (if cur s = CHR ''-'' then tl s else s) = CHR ''0'' \<and> 1 < k) \<and>
    (\<exists>q. parse_exponent r = Some q \<and> n = length s - length q)"
proof (cases "cur r = CHR ''e'' \<or> cur r = CHR ''E''")
  case True
  show ?thesis
  proof (cases "tl r")
    case Nil
    then show ?thesis using True unfolding json_parse_number_def Let_def assms by (simp add: parse_exponent_def)
  next
    case (Cons c t)
    show ?thesis
    proof (cases "c = CHR ''+'' \<or> c = CHR ''-''")
      case sign: True
      then have "parse_exponent r = (if isdigit (cur t) then Some (dropWhile isdigit (tl t)) else None)"
        using True Cons by (auto simp: parse_exponent_def)
      then show ?thesis using True sign unfolding json_parse_number_def Let_def assms
        by (cases "t = []") (auto simp: Cons)
    next
      case False
      then have "parse_exponent r = (if isdigit c then Some (dropWhile isdigit t) else None)"
        using True Cons by (auto simp: parse_exponent_def)
      then show ?thesis using True False unfolding json_parse_number_def Let_def assms by (auto simp: Cons)
    qed
  qed
next
  case False
  then show ?thesis unfolding json_parse_number_def Let_def assms by (auto simp: parse_exponent_def)
qed

definition json_fraction :: "string \<Rightarrow> bool" where
  "json_fraction f \<longleftrightarrow> f = [] \<or> (\<exists>ds. f = CHR ''.'' # ds \<and> list_all isdigit ds)"

definition json_exponent :: "string \<Rightarrow> bool" where
  "json_exponent x \<longleftrightarrow> x = [] \<or> (\<exists>e g ds. x = e # g @ ds \<and> e \<in> {CHR ''e'', CHR ''E''} \<and> g \<in> {[], ''+'', ''-''} \<and> digits ds)"

lemma json_number_parts:
  "json_number t \<longleftrightarrow> (\<exists>m i f x. t = m @ i @ f @ x \<and> m \<in> {[], ''-''} \<and> digits i \<and> (hd i = CHR ''0'' \<longrightarrow> length i = 1) \<and>
     json_fraction f \<and> json_exponent x)"
  by (simp add: json_number_def json_fraction_def json_exponent_def)

lemma digits_Cons: "digits (c # ds) \<longleftrightarrow> isdigit c \<and> list_all isdigit ds"
  by (simp add: digits_def)

lemma all_digits_take: "list_all isdigit (takeWhile isdigit s)"
  by (auto simp: list_all_iff dest: set_takeWhileD)

lemma parse_exponent_sound:
  assumes "parse_exponent r = Some q"
  shows "\<exists>x. r = x @ q \<and> json_exponent x"
proof (cases "cur r \<in> set ''eE''")
  case True
  then obtain e t where r: "r = e # t" "e \<in> {CHR ''e'', CHR ''E''}" by (cases r) auto
  define g where "g = (if cur t \<in> set ''+-'' then [cur t] else [])"
  define u where "u = (if cur t \<in> set ''+-'' then tl t else t)"
  have t: "t = g @ u" by (cases t) (auto simp: g_def u_def)
  have u: "isdigit (cur u)" "q = dropWhile isdigit (tl u)"
    using assms r True by (auto simp: parse_exponent_def u_def Let_def split: if_splits)
  then obtain c v where c: "u = c # v" "isdigit c" by (cases u) auto
  have "r = (e # g @ c # takeWhile isdigit v) @ q" using r t c u(2) by simp
  moreover have "digits (c # takeWhile isdigit v)" by (simp add: digits_Cons c all_digits_take)
  moreover have "g \<in> {[], ''+'', ''-''}" by (auto simp: g_def)
  ultimately show ?thesis using r(2) unfolding json_exponent_def by blast
next
  case False
  then show ?thesis using assms by (auto simp: parse_exponent_def json_exponent_def)
qed

lemma parse_exponent_complete:
  assumes "json_exponent x" "number_end r"
  shows "parse_exponent (x @ r) = Some r"
proof (cases "x = []")
  case True
  then show ?thesis using assms(2) by (simp add: parse_exponent_def number_end_def)
next
  case False
  then obtain e g es where e: "x = e # g @ es" "e \<in> {CHR ''e'', CHR ''E''}" "g \<in> {[], ''+'', ''-''}" "digits es"
    using assms(1) unfolding json_exponent_def by blast
  then obtain c ds where "es = c # ds" by (cases es) (auto simp: digits_def)
  with e have x: "x = e # g @ c # ds" "e \<in> {CHR ''e'', CHR ''E''}" "g \<in> {[], ''+'', ''-''}" "isdigit c" "list_all isdigit ds"
    by (simp_all add: digits_Cons)
  have "c \<noteq> CHR ''+''" "c \<noteq> CHR ''-''" using x(4) by auto
  then show ?thesis using x take_digits [OF x(5), of r] assms(2) by (auto simp: parse_exponent_def number_end_def)
qed

lemma parse_number_sound:
  assumes "json_parse_number s = Inr n"
  shows "\<exists>t r. s = t @ r \<and> json_number t \<and> n = length t"
proof -
  define m where "m = (if cur s = CHR ''-'' then ''-'' else [])"
  define u where "u = (if cur s = CHR ''-'' then tl s else s)"
  have s: "s = m @ u" by (cases s) (auto simp: m_def u_def)
  define i where "i = takeWhile isdigit u"
  define v where "v = dropWhile isdigit u"
  define f where "f = (if cur v = CHR ''.'' then CHR ''.'' # takeWhile isdigit (tl v) else [])"
  define w where "w = (if cur v = CHR ''.'' then dropWhile isdigit (tl v) else v)"
  have "u = i @ v" by (simp add: i_def v_def)
  moreover have "v = f @ w" by (cases v) (simp_all add: f_def w_def)
  ultimately have u: "u = i @ f @ w" by simp
  have "number_loop u False 0 = (w, length i)" by (simp add: number_loop_eq Let_def i_def w_def v_def)
  then have p: "length i \<noteq> 0" "\<not> (cur u = CHR ''0'' \<and> 1 < length i)" "\<exists>q. parse_exponent w = Some q \<and> n = length s - length q"
    using parse_number_loop [of s w "length i" n] assms by (auto simp: u_def)
  then obtain q x where x: "w = x @ q" "json_exponent x" "n = length s - length q" using parse_exponent_sound by blast
  have "cur u = hd i" using p(1) by (cases u) (auto simp: i_def split: if_splits)
  then have "hd i = CHR ''0'' \<longrightarrow> length i = 1" using p(1,2) by (cases "length i") auto
  moreover have "digits i" using p(1) all_digits_take [of u] by (simp add: digits_def i_def)
  moreover have "json_fraction f" using all_digits_take [of "tl v"] by (simp add: json_fraction_def f_def)
  moreover have "m \<in> {[], ''-''}" by (simp add: m_def)
  ultimately have "json_number (m @ i @ f @ x)" using x(2) unfolding json_number_parts by blast
  then show ?thesis using x s u by (intro exI [of _ "m @ i @ f @ x"] exI [of _ q]) auto
qed

lemma parse_number_complete:
  assumes "json_number t" "number_end r"
  shows "json_parse_number (t @ r) = Inr (length t)"
proof -
  obtain m i f x where t: "t = m @ i @ f @ x" "m \<in> {[], ''-''}" "digits i" "hd i = CHR ''0'' \<longrightarrow> length i = 1" "json_fraction f" "json_exponent x"
    using assms(1) by (auto simp: json_number_parts)
  obtain c j where i: "i = c # j" "isdigit c" "list_all isdigit j" using t(3) by (auto simp: digits_def neq_Nil_conv)
  define u where "u = i @ f @ x @ r"
  have c: "c \<noteq> CHR ''-''" using i(2) by auto
  then have u: "(if cur (t @ r) = CHR ''-'' then tl (t @ r) else t @ r) = u" using t(1,2) i(1) by (auto simp: u_def)
  have xr: "\<not> isdigit (cur (x @ r))" "cur (x @ r) \<noteq> CHR ''.''"
    using t(6) assms(2) by (auto simp: json_exponent_def number_end_def)
  have "\<not> isdigit (cur (f @ x @ r))" using t(5) xr by (auto simp: json_fraction_def)
  then have split: "takeWhile isdigit u = i" "dropWhile isdigit u = f @ x @ r"
    using take_digits [of i "f @ x @ r"] i by (simp_all add: u_def)
  have "(if cur (f @ x @ r) = CHR ''.'' then dropWhile isdigit (tl (f @ x @ r)) else f @ x @ r) = x @ r"
  proof (cases "f = []")
    case False
    then obtain ds where "f = CHR ''.'' # ds" "list_all isdigit ds" using t(5) by (auto simp: json_fraction_def)
    then show ?thesis using take_digits [of ds "x @ r"] xr by simp
  qed (use xr in simp)
  then have "number_loop u False 0 = (x @ r, length i)" by (simp add: number_loop_eq Let_def split)
  moreover have "\<not> (cur u = CHR ''0'' \<and> 1 < length i)" using t(4) i(1) by (auto simp: u_def)
  ultimately show ?thesis
    using parse_number_loop [of "t @ r" "x @ r" "length i" "length t"] parse_exponent_complete [OF t(6) assms(2)] i(1) by (simp add: u)
qed

subsection \<open>The parser takes the grammar\<close>

lemma skip_split: "\<exists>w. s = w @ SKIP_WHITESPACE s \<and> json_space w"
proof (induction s)
  case (Cons c s)
  then obtain w where w: "s = w @ SKIP_WHITESPACE s" "json_space w" by blast
  show ?case
  proof (cases "c \<in> set ZBX_WHITESPACE")
    case True
    then show ?thesis using w by (intro exI [of _ "c # w"]) (simp add: json_space_def)
  next
    case False
    then show ?thesis by (intro exI [of _ "[]"]) (simp add: json_space_def)
  qed
qed (simp add: json_space_def)

lemma skip_space [simp]: "json_space w \<Longrightarrow> SKIP_WHITESPACE (w @ r) = SKIP_WHITESPACE r"
  by (induction w) (auto simp: json_space_def)

lemma skip_id: "cur r \<notin> set ZBX_WHITESPACE \<Longrightarrow> SKIP_WHITESPACE r = r"
  by (cases r) auto

lemma space_append [simp]: "json_space (a @ b) \<longleftrightarrow> json_space a \<and> json_space b"
  by (simp add: json_space_def)

lemma space_Nil [simp]: "json_space []"
  by (simp add: json_space_def)

lemma members_space: "json_members d ms \<Longrightarrow> json_space w \<Longrightarrow> json_members d (w @ ms)"
proof (induction rule: json_members.cases)
  case (Member w1 k w2 w3 d t w4)
  then show ?case using json_value_json_container_json_elements_json_members.Member [of "w @ w1" k w2 w3 d t w4] by simp
next
  case (Members w1 k w2 w3 d t w4 ms)
  then show ?case using json_value_json_container_json_elements_json_members.Members [of "w @ w1" k w2 w3 d t w4 ms] by simp
qed

lemma elements_space: "json_elements d es \<Longrightarrow> json_space w \<Longrightarrow> json_elements d (w @ es)"
proof (induction rule: json_elements.cases)
  case (Element w1 d t w2)
  then show ?case using json_value_json_container_json_elements_json_members.Element [of "w @ w1" d t w2] by simp
next
  case (Elements w1 d t w2 es)
  then show ?case using json_value_json_container_json_elements_json_members.Elements [of "w @ w1" d t w2 es] by simp
qed

lemma literal_loop_iff: "NUL \<notin> set l \<Longrightarrow> literal_loop s l \<longleftrightarrow> (\<exists>r. s = l @ r)"
proof (induction l arbitrary: s)
  case (Cons c l)
  then show ?case by (cases s) auto
qed simp

lemma parse_literal_iff:
  "NUL \<notin> set l \<Longrightarrow> json_parse_literal s l = Inr n \<longleftrightarrow> (\<exists>r. s = l @ r \<and> n = length l)"
  by (auto simp: json_parse_literal_def literal_loop_iff)

text \<open>What a successful call of each function has taken.\<close>

definition took_value :: "string \<Rightarrow> nat \<Rightarrow> json_error + nat \<Rightarrow> bool" where
  "took_value s k res \<longleftrightarrow> (\<forall>n. res = Inr n \<longrightarrow> (\<exists>w t r. s = w @ t @ r \<and> json_space w \<and> json_value (65 - k) t \<and> n = length (w @ t)))"

definition took_container :: "string \<Rightarrow> nat \<Rightarrow> json_error + nat \<Rightarrow> bool" where
  "took_container s k res \<longleftrightarrow> (\<forall>n. res = Inr n \<longrightarrow> (\<exists>t r. s = t @ r \<and> json_container (65 - k) t \<and> n = length t))"

definition took_list :: "(nat \<Rightarrow> string \<Rightarrow> bool) \<Rightarrow> string \<Rightarrow> nat \<Rightarrow> json_error + string \<Rightarrow> bool" where
  "took_list G s k res \<longleftrightarrow> (\<forall>q. res = Inr q \<longrightarrow> (\<exists>t. s = t @ q \<and> G (65 - k) t))"

lemma took_valueI:
  assumes "k \<le> 64" "SKIP_WHITESPACE s = t @ r" "json_value (65 - k) t"
  shows "took_value s k (Inr (length s - length (SKIP_WHITESPACE s) + length t))"
proof -
  obtain w where w: "s = w @ t @ r" "json_space w" using skip_split [of s] assms(2) by auto
  then show ?thesis using assms(2,3) unfolding took_value_def by (intro allI impI exI [of _ w] exI [of _ t] exI [of _ r]) simp
qed

text \<open>The dispatch of \<open>json_parse_value\<close> on the first character.\<close>

definition first_value :: "string \<Rightarrow> nat \<Rightarrow> json_error + nat" where
  "first_value ptr depth =
     (if ptr = [] then Inl (json_error ''unexpected end of object value'' None)
      else if cur ptr = CHR 0x22 then json_parse_string ptr
      else if cur ptr = CHR 0x7B then json_parse_object ptr depth
      else if cur ptr = CHR ''['' then json_parse_array ptr depth
      else if cur ptr = CHR ''t'' then json_parse_literal ptr ''true''
      else if cur ptr = CHR ''f'' then json_parse_literal ptr ''false''
      else if cur ptr = CHR ''n'' then json_parse_literal ptr ''null''
      else if isdigit (cur ptr) \<or> cur ptr = CHR ''-'' then json_parse_number ptr
      else Inl (json_error ''invalid JSON object value starting character'' (Some ptr)))"

lemma parse_value_eq:
  "json_parse_value start depth =
     (if 64 < depth then Inl (json_error ''JSON depth exceeds 64'' (Some start))
      else case first_value (SKIP_WHITESPACE start) (depth + 1) of
        Inl e \<Rightarrow> Inl e
      | Inr len \<Rightarrow> Inr (length start - length (SKIP_WHITESPACE start) + len))"
  by (subst json_parse_value.simps) (simp only: Let_def first_value_def ZBX_MAX_JSON_DEPTH_def)

lemma first_value_sound:
  assumes "first_value p (Suc k) = Inr n" "k \<le> 64"
    and "cur p = CHR 0x7B \<Longrightarrow> took_container p (Suc k) (json_parse_object p (Suc k))"
    and "cur p = CHR ''['' \<Longrightarrow> took_container p (Suc k) (json_parse_array p (Suc k))"
  shows "\<exists>t r. p = t @ r \<and> json_value (65 - k) t \<and> n = length t"
proof -
  have d: "65 - k = Suc (65 - Suc k)" using assms(2) by simp
  consider "cur p = CHR 0x22" "json_parse_string p = Inr n"
    | "cur p = CHR 0x7B" "json_parse_object p (Suc k) = Inr n" | "cur p = CHR ''[''" "json_parse_array p (Suc k) = Inr n"
    | l where "l \<in> {''true'', ''false'', ''null''}" "json_parse_literal p l = Inr n" | "json_parse_number p = Inr n"
    using assms(1) unfolding first_value_def by (auto split: if_splits)
  then show ?thesis
  proof cases
    case 1
    then show ?thesis unfolding d using parse_string_iff Value_String by blast
  next
    case 2
    then show ?thesis unfolding d using assms(3) Value_Container unfolding took_container_def by blast
  next
    case 3
    then show ?thesis unfolding d using assms(4) Value_Container unfolding took_container_def by blast
  next
    case 4
    moreover from this have "NUL \<notin> set l" by auto
    ultimately show ?thesis unfolding d using parse_literal_iff Value_Literal by blast
  next
    case 5
    then show ?thesis unfolding d using parse_number_sound Value_Number by blast
  qed
qed

lemma took_containerI: "s = t @ r \<Longrightarrow> json_container (65 - k) t \<Longrightarrow> n = length t \<Longrightarrow> took_container s k (Inr n)"
  unfolding took_container_def by blast

lemma took_fail [simp]: "took_value s k (Inl e)" "took_container s k (Inl e)" "took_list G s k (Inl e)"
  by (simp_all add: took_value_def took_container_def took_list_def)

lemma cur_split: "cur s = c \<Longrightarrow> c \<noteq> NUL \<Longrightarrow> s = c # tl s"
  by (cases s) auto

lemma array_sound:
  assumes "cur (SKIP_WHITESPACE rest) \<noteq> CHR '']'' \<Longrightarrow>
    took_list json_elements (SKIP_WHITESPACE rest) k (array_loop (SKIP_WHITESPACE rest) k)"
  shows "took_container (CHR ''['' # rest) k (json_parse_array (CHR ''['' # rest) k)"
proof -
  obtain w where w: "rest = w @ SKIP_WHITESPACE rest" "json_space w" using skip_split by blast
  define p where "p = SKIP_WHITESPACE rest"
  have rest: "rest = w @ p" using w(1) by (simp only: p_def)
  show ?thesis
  proof (cases "cur p = CHR '']''")
    case True
    then have p: "p = CHR '']'' # tl p" by (rule cur_split) simp
    have "json_parse_array (CHR ''['' # rest) k = Inr (length (CHR ''['' # rest) - length p + 1)"
      using True by (simp add: Let_def p_def)
    moreover have "length (CHR ''['' # rest) - length p + 1 = length (CHR ''['' # w @ '']'')" by (simp add: rest)
    moreover have "CHR ''['' # rest = (CHR ''['' # w @ '']'') @ tl p" using p rest by simp
    ultimately show ?thesis using took_containerI Empty_Array [OF w(2)] by metis
  next
    case False
    show ?thesis
    proof (cases "array_loop p k")
      case (Inl e)
      then show ?thesis using False by (simp add: p_def)
    next
      case (Inr q)
      then obtain es where es: "p = es @ q" "json_elements (65 - k) es"
        using assms False by (auto simp: took_list_def p_def)
      show ?thesis
      proof (cases "cur q = CHR '']''")
        case True
        then have q: "q = CHR '']'' # tl q" by (rule cur_split) simp
        have "json_parse_array (CHR ''['' # rest) k = Inr (length (CHR ''['' # rest) - length q + 1)"
          using True False Inr by (simp add: Let_def p_def)
        moreover have "length (CHR ''['' # rest) - length q + 1 = length (CHR ''['' # (w @ es) @ '']'')" by (simp add: rest es(1))
        moreover have "CHR ''['' # rest = (CHR ''['' # (w @ es) @ '']'') @ tl q" using q rest es(1) by simp
        ultimately show ?thesis using took_containerI Array [OF elements_space [OF es(2) w(2)]] by metis
      next
        case no: False
        then show ?thesis using False Inr by (simp add: p_def)
      qed
    qed
  qed
qed

lemma object_sound:
  assumes "cur (SKIP_WHITESPACE rest) \<noteq> CHR 0x7D \<Longrightarrow>
    took_list json_members (SKIP_WHITESPACE rest) k (object_loop (SKIP_WHITESPACE rest) k)"
  shows "took_container (CHR 0x7B # rest) k (json_parse_object (CHR 0x7B # rest) k)"
proof -
  obtain w where w: "rest = w @ SKIP_WHITESPACE rest" "json_space w" using skip_split by blast
  define p where "p = SKIP_WHITESPACE rest"
  have rest: "rest = w @ p" using w(1) by (simp only: p_def)
  have skip: "SKIP_WHITESPACE (CHR 0x7B # rest) = CHR 0x7B # rest" by (simp add: ZBX_WHITESPACE_def)
  note step = json_parse_object.simps [of "CHR 0x7B # rest" k, unfolded skip list.case Let_def]
  show ?thesis
  proof (cases "cur p = CHR 0x7D")
    case True
    then have p: "p = CHR 0x7D # tl p" by (rule cur_split) simp
    have "json_parse_object (CHR 0x7B # rest) k = Inr (length (CHR 0x7B # rest) - length p + 1)"
      using True by (simp add: step p_def)
    moreover have "length (CHR 0x7B # rest) - length p + 1 = length (CHR 0x7B # w @ [CHR 0x7D])" by (simp add: rest)
    moreover have "CHR 0x7B # rest = (CHR 0x7B # w @ [CHR 0x7D]) @ tl p" using p rest by simp
    ultimately show ?thesis using took_containerI Empty_Object [OF w(2)] by metis
  next
    case False
    show ?thesis
    proof (cases "object_loop p k")
      case (Inl e)
      then show ?thesis using False by (simp add: step p_def)
    next
      case (Inr q)
      then obtain ms where ms: "p = ms @ q" "json_members (65 - k) ms"
        using assms False by (auto simp: took_list_def p_def)
      show ?thesis
      proof (cases "cur q = CHR 0x7D")
        case True
        then have q: "q = CHR 0x7D # tl q" by (rule cur_split) simp
        have "json_parse_object (CHR 0x7B # rest) k = Inr (length (CHR 0x7B # rest) - length q + 1)"
          using True False Inr by (simp add: step p_def)
        moreover have "length (CHR 0x7B # rest) - length q + 1 = length (CHR 0x7B # (w @ ms) @ [CHR 0x7D])" by (simp add: rest ms(1))
        moreover have "CHR 0x7B # rest = (CHR 0x7B # (w @ ms) @ [CHR 0x7D]) @ tl q" using q rest ms(1) by simp
        ultimately show ?thesis using took_containerI Object [OF members_space [OF ms(2) w(2)]] by metis
      next
        case no: False
        then show ?thesis using False Inr by (simp add: step p_def)
      qed
    qed
  qed
qed

lemma value_depth: "k \<le> 64 \<Longrightarrow> 65 - k = Suc (65 - (k + 1))" for k :: nat
  by simp

lemma took_listI: "s = t @ q \<Longrightarrow> G (65 - k) t \<Longrightarrow> took_list G s k (Inr q)"
  unfolding took_list_def by blast

lemma elements_sound:
  assumes "took_value ptr k (json_parse_value ptr k)"
    and "\<And>len. json_parse_value ptr k = Inr len \<Longrightarrow> cur (SKIP_WHITESPACE (drop len ptr)) = CHR '','' \<Longrightarrow>
      took_list json_elements (tl (SKIP_WHITESPACE (drop len ptr))) k (array_loop (tl (SKIP_WHITESPACE (drop len ptr))) k)"
  shows "took_list json_elements ptr k (array_loop ptr k)"
proof (cases "json_parse_value ptr k")
  case (Inl e)
  then show ?thesis by (simp add: array_loop.simps)
next
  case (Inr len)
  then obtain w t r where t: "ptr = w @ t @ r" "json_space w" "json_value (65 - k) t" "len = length (w @ t)"
    using assms(1) by (auto simp: took_value_def)
  obtain w2 where w2: "r = w2 @ SKIP_WHITESPACE r" "json_space w2" using skip_split by blast
  have r: "drop len ptr = r" using t(1,4) by simp
  show ?thesis
  proof (cases "cur (SKIP_WHITESPACE r) = CHR '',''")
    case False
    then have "array_loop ptr k = Inr (SKIP_WHITESPACE r)" by (subst array_loop.simps) (simp add: Inr r Let_def)
    moreover have "ptr = (w @ t @ w2) @ SKIP_WHITESPACE r" using t(1) w2(1) by simp
    ultimately show ?thesis using Element [OF t(2,3) w2(2)] took_listI by metis
  next
    case True
    then have c: "SKIP_WHITESPACE r = CHR '','' # tl (SKIP_WHITESPACE r)" by (rule cur_split) simp
    have eq: "array_loop ptr k = array_loop (tl (SKIP_WHITESPACE r)) k" using True by (subst array_loop.simps) (simp add: Inr r Let_def)
    show ?thesis
    proof (cases "array_loop (tl (SKIP_WHITESPACE r)) k")
      case loop: (Inr q)
      then obtain es where es: "tl (SKIP_WHITESPACE r) = es @ q" "json_elements (65 - k) es"
        using assms(2) [OF Inr] True by (auto simp: r took_list_def)
      have "ptr = (w @ t @ w2 @ CHR '','' # es) @ q" using t(1) w2(1) c es(1) by simp
      then show ?thesis using Elements [OF t(2,3) w2(2) es(2)] took_listI eq loop by metis
    qed (simp add: eq)
  qed
qed

lemma members_sound:
  assumes "\<And>len. cur ptr = CHR 0x22 \<Longrightarrow> json_parse_string ptr = Inr len \<Longrightarrow> cur (SKIP_WHITESPACE (drop len ptr)) = CHR '':'' \<Longrightarrow>
      took_value (tl (SKIP_WHITESPACE (drop len ptr))) k (json_parse_value (tl (SKIP_WHITESPACE (drop len ptr))) k)"
    and "\<And>len ptr2 n. cur ptr = CHR 0x22 \<Longrightarrow> json_parse_string ptr = Inr len \<Longrightarrow> cur (SKIP_WHITESPACE (drop len ptr)) = CHR '':'' \<Longrightarrow>
      ptr2 = tl (SKIP_WHITESPACE (drop len ptr)) \<Longrightarrow> json_parse_value ptr2 k = Inr n \<Longrightarrow> cur (SKIP_WHITESPACE (drop n ptr2)) = CHR '','' \<Longrightarrow>
      took_list json_members (SKIP_WHITESPACE (tl (SKIP_WHITESPACE (drop n ptr2)))) k
        (object_loop (SKIP_WHITESPACE (tl (SKIP_WHITESPACE (drop n ptr2)))) k)"
  shows "took_list json_members ptr k (object_loop ptr k)"
proof (cases "cur ptr = CHR 0x22 \<and> (\<exists>len. json_parse_string ptr = Inr len \<and> cur (SKIP_WHITESPACE (drop len ptr)) = CHR '':'')")
  case False
  then have "\<exists>e. object_loop ptr k = Inl e"
    by (subst object_loop.simps) (auto simp: Let_def split: sum.splits)
  then show ?thesis by auto
next
  case True
  then obtain len where len: "cur ptr = CHR 0x22" "json_parse_string ptr = Inr len" "cur (SKIP_WHITESPACE (drop len ptr)) = CHR '':''" by blast
  then obtain key r where key: "ptr = key @ r" "json_string key" "len = length key" using parse_string_iff by blast
  obtain w2 where w2: "r = w2 @ SKIP_WHITESPACE r" "json_space w2" using skip_split by blast
  define p2 where "p2 = tl (SKIP_WHITESPACE r)"
  have r: "drop len ptr = r" using key by simp
  have colon: "SKIP_WHITESPACE r = CHR '':'' # p2" using cur_split [OF len(3)] by (simp add: r p2_def)
  have eq: "object_loop ptr k = (case json_parse_value p2 k of Inl e \<Rightarrow> Inl e | Inr n \<Rightarrow>
      let ptr3 = SKIP_WHITESPACE (drop n p2) in
      if cur ptr3 \<noteq> CHR '','' then Inr ptr3 else object_loop (SKIP_WHITESPACE (tl ptr3)) k)"
    by (subst object_loop.simps) (simp add: len r colon Let_def)
  show ?thesis
  proof (cases "json_parse_value p2 k")
    case (Inl e)
    then show ?thesis by (simp add: eq)
  next
    case (Inr n)
    then obtain w3 t u where t: "p2 = w3 @ t @ u" "json_space w3" "json_value (65 - k) t" "n = length (w3 @ t)"
      using assms(1) [OF len] by (auto simp: took_value_def r p2_def)
    obtain w4 where w4: "u = w4 @ SKIP_WHITESPACE u" "json_space w4" using skip_split by blast
    have u: "drop n p2 = u" using t(1,4) by simp
    show ?thesis
    proof (cases "cur (SKIP_WHITESPACE u) = CHR '',''")
      case False
      then have "object_loop ptr k = Inr (SKIP_WHITESPACE u)" by (simp add: eq Inr u Let_def)
      moreover have "ptr = ([] @ key @ w2 @ CHR '':'' # w3 @ t @ w4) @ SKIP_WHITESPACE u" using key(1) w2(1) colon t(1) w4(1) by simp
      ultimately show ?thesis using Member [OF space_Nil key(2) w2(2) t(2,3) w4(2)] took_listI by metis
    next
      case comma: True
      then have c: "SKIP_WHITESPACE u = CHR '','' # tl (SKIP_WHITESPACE u)" by (rule cur_split) simp
      obtain w5 where w5: "tl (SKIP_WHITESPACE u) = w5 @ SKIP_WHITESPACE (tl (SKIP_WHITESPACE u))" "json_space w5" using skip_split by blast
      define p3 where "p3 = SKIP_WHITESPACE (tl (SKIP_WHITESPACE u))"
      have eq2: "object_loop ptr k = object_loop p3 k" using comma by (simp add: eq Inr u Let_def p3_def)
      show ?thesis
      proof (cases "object_loop p3 k")
        case loop: (Inr q)
        have here: "p2 = tl (SKIP_WHITESPACE (drop len ptr))" by (simp add: p2_def r)
        have next_char: "cur (SKIP_WHITESPACE (drop n p2)) = CHR '',''" using comma by (simp only: u)
        from assms(2) [OF len here Inr next_char] obtain ms where ms: "p3 = ms @ q" "json_members (65 - k) ms"
          using loop by (auto simp: took_list_def u p3_def)
        have "ptr = ([] @ key @ w2 @ CHR '':'' # w3 @ t @ w4 @ CHR '','' # (w5 @ ms)) @ q"
          using key(1) w2(1) colon t(1) w4(1) c w5(1) ms(1) by (simp add: p3_def)
        then show ?thesis
          using Members [OF space_Nil key(2) w2(2) t(2,3) w4(2) members_space [OF ms(2) w5(2)]] took_listI eq2 loop by metis
      qed (simp add: eq2)
    qed
  qed
qed

lemma parser_sound:
  "took_value s k (json_parse_value s k)"
  "cur a = CHR ''['' \<Longrightarrow> took_container a j (json_parse_array a j)"
  "took_list json_elements b l (array_loop b l)"
  "cur p = CHR 0x7B \<Longrightarrow> took_container p m (json_parse_object p m)"
  "took_list json_members e i (object_loop e i)"
proof (induction s k and a j and b l and p m and e i
    rule: json_parse_value_json_parse_array_array_loop_json_parse_object_object_loop.induct)
  case (1 start depth)
  show ?case
  proof (cases "depth \<le> 64 \<and> SKIP_WHITESPACE start \<noteq> []")
    case True
    let ?p = "SKIP_WHITESPACE start"
    have IH: "cur ?p = CHR 0x7B \<Longrightarrow> took_container ?p (Suc depth) (json_parse_object ?p (Suc depth))"
      "cur ?p = CHR ''['' \<Longrightarrow> took_container ?p (Suc depth) (json_parse_array ?p (Suc depth))"
      using 1 True by (simp_all add: ZBX_MAX_JSON_DEPTH_def)
    show ?thesis
    proof (cases "first_value ?p (Suc depth)")
      case (Inl e)
      then show ?thesis using True by (simp add: parse_value_eq)
    next
      case (Inr len)
      then obtain t r where "?p = t @ r" "json_value (65 - depth) t" "len = length t" using first_value_sound [OF Inr _ IH] True by blast
      then show ?thesis using took_valueI [of depth start t r] True Inr by (simp add: parse_value_eq)
    qed
  next
    case False
    then show ?thesis by (auto simp: parse_value_eq first_value_def)
  qed
next
  case (2 depth)
  then show ?case by simp
next
  case (3 c rest depth)
  then have c: "c = CHR ''[''" by simp
  show ?case unfolding c by (rule array_sound) (use 3 in simp)
next
  case (4 ptr depth)
  show ?case by (rule elements_sound) (use 4 in auto)
next
  case (5 start depth)
  then obtain rest where s: "start = CHR 0x7B # rest" by (cases start) auto
  have "SKIP_WHITESPACE start = CHR 0x7B # rest" by (simp add: s ZBX_WHITESPACE_def)
  then show ?case unfolding s by (intro object_sound) (use 5 s in auto)
next
  case (6 ptr depth)
  show ?case by (rule members_sound) (use 6 in auto)
qed

subsection \<open>The grammar is taken by the parser\<close>

definition value_end :: "string \<Rightarrow> bool" where
  "value_end r \<longleftrightarrow> r = [] \<or> cur r \<in> set ZBX_WHITESPACE \<or> cur r \<in> {CHR '','', CHR '']'', CHR 0x7D}"

lemma value_end_number: "value_end r \<Longrightarrow> number_end r"
  by (auto simp: value_end_def number_end_def ZBX_WHITESPACE_def isdigit_def code_def)

lemma value_end_space: "json_space w \<Longrightarrow> value_end q \<Longrightarrow> value_end (w @ q)"
  by (cases w) (auto simp: value_end_def json_space_def)

definition takes_value :: "nat \<Rightarrow> string \<Rightarrow> bool" where
  "takes_value d t \<longleftrightarrow> cur t \<notin> set ZBX_WHITESPACE \<and> cur t \<noteq> CHR '']'' \<and> t \<noteq> [] \<and>
     (\<forall>k w r. 65 - k = d \<longrightarrow> json_space w \<longrightarrow> value_end r \<longrightarrow> json_parse_value (w @ t @ r) k = Inr (length w + length t))"

definition takes_container :: "nat \<Rightarrow> string \<Rightarrow> bool" where
  "takes_container d t \<longleftrightarrow> t \<noteq> [] \<and>
     (cur t = CHR ''['' \<and> (\<forall>k r. 65 - k = d \<longrightarrow> json_parse_array (t @ r) k = Inr (length t)) \<or>
      cur t = CHR 0x7B \<and> (\<forall>k r. 65 - k = d \<longrightarrow> json_parse_object (t @ r) k = Inr (length t)))"

definition takes_elements :: "nat \<Rightarrow> string \<Rightarrow> bool" where
  "takes_elements d es \<longleftrightarrow> (\<forall>k q. 65 - k = d \<longrightarrow> cur q = CHR '']'' \<longrightarrow>
     array_loop (es @ q) k = Inr q \<and> array_loop (SKIP_WHITESPACE (es @ q)) k = Inr q \<and> cur (SKIP_WHITESPACE (es @ q)) \<noteq> CHR '']'')"

definition takes_members :: "nat \<Rightarrow> string \<Rightarrow> bool" where
  "takes_members d ms \<longleftrightarrow> (\<forall>k q. 65 - k = d \<longrightarrow> cur q = CHR 0x7D \<longrightarrow>
     object_loop (SKIP_WHITESPACE (ms @ q)) k = Inr q \<and> cur (SKIP_WHITESPACE (ms @ q)) \<noteq> CHR 0x7D)"

lemma cur_append [simp]: "t \<noteq> [] \<Longrightarrow> cur (t @ r) = cur t"
  by (cases t) auto

lemma takes_valueI:
  assumes "t \<noteq> []" "cur t \<notin> set ZBX_WHITESPACE" "cur t \<noteq> CHR '']''"
    and "\<And>k r. 65 - k = Suc d \<Longrightarrow> value_end r \<Longrightarrow> first_value (t @ r) (Suc k) = Inr (length t)"
  shows "takes_value (Suc d) t"
proof -
  have "json_parse_value (w @ t @ r) k = Inr (length w + length t)" if "65 - k = Suc d" "json_space w" "value_end r" for k w r
  proof -
    have "SKIP_WHITESPACE (w @ t @ r) = t @ r" using that(2) assms(1,2) by (simp add: skip_id)
    then show ?thesis using assms(4) [OF that(1,3)] that(1) by (simp add: parse_value_eq)
  qed
  then show ?thesis using assms(1-3) unfolding takes_value_def by blast
qed

lemma number_head: "json_number t \<Longrightarrow> t \<noteq> [] \<and> (isdigit (cur t) \<or> cur t = CHR ''-'')"
  unfolding json_number_parts by (fastforce simp: digits_def neq_Nil_conv)

lemma digit_not_space: "isdigit c \<or> c = CHR ''-'' \<Longrightarrow> c \<notin> set ZBX_WHITESPACE \<and> c \<noteq> CHR '']'' \<and> c \<noteq> CHR 0x22 \<and> c \<noteq> CHR 0x7B \<and>
    c \<noteq> CHR ''['' \<and> c \<noteq> CHR ''t'' \<and> c \<noteq> CHR ''f'' \<and> c \<noteq> CHR ''n''"
  by (auto simp: ZBX_WHITESPACE_def isdigit_def code_def)

lemma takes_tokens:
  "json_string t \<Longrightarrow> takes_value (Suc d) t"
  "json_number t \<Longrightarrow> takes_value (Suc d) t"
  "t \<in> {''true'', ''false'', ''null''} \<Longrightarrow> takes_value (Suc d) t"
  "takes_container d t \<Longrightarrow> takes_value (Suc d) t"
proof -
  show "takes_value (Suc d) t" if t: "json_string t"
  proof (rule takes_valueI)
    have c: "cur t = CHR 0x22" "t \<noteq> []" using t by (auto simp: json_string_def)
    then show "t \<noteq> []" "cur t \<notin> set ZBX_WHITESPACE" "cur t \<noteq> CHR '']''" by (simp_all add: ZBX_WHITESPACE_def)
    show "first_value (t @ r) (Suc k) = Inr (length t)" for k r
      using parse_string_iff [of "t @ r" "length t"] c t by (auto simp: first_value_def)
  qed
  show "takes_value (Suc d) t" if t: "json_number t"
  proof (rule takes_valueI)
    note head = number_head [OF t] digit_not_space [of "cur t"]
    then show "t \<noteq> []" "cur t \<notin> set ZBX_WHITESPACE" "cur t \<noteq> CHR '']''" by auto
    show "first_value (t @ r) (Suc k) = Inr (length t)" if "value_end r" for k r
      using parse_number_complete [OF t value_end_number [OF that]] head by (auto simp: first_value_def)
  qed
  show "takes_value (Suc d) t" if t: "t \<in> {''true'', ''false'', ''null''}"
  proof (rule takes_valueI)
    show "t \<noteq> []" "cur t \<notin> set ZBX_WHITESPACE" "cur t \<noteq> CHR '']''" using t by (auto simp: ZBX_WHITESPACE_def)
    have "NUL \<notin> set t" using t by auto
    then have "json_parse_literal (t @ r) t = Inr (length t)" for r using parse_literal_iff by blast
    then show "first_value (t @ r) (Suc k) = Inr (length t)" for k r using t unfolding first_value_def by auto
  qed
  show "takes_value (Suc d) t" if t: "takes_container d t"
  proof (rule takes_valueI)
    have c: "t \<noteq> []" "cur t = CHR ''['' \<or> cur t = CHR 0x7B" using t by (auto simp: takes_container_def)
    then show "t \<noteq> []" "cur t \<notin> set ZBX_WHITESPACE" "cur t \<noteq> CHR '']''" by (auto simp: ZBX_WHITESPACE_def)
    show "first_value (t @ r) (Suc k) = Inr (length t)" if "65 - k = Suc d" for k r
    proof -
      have d: "65 - Suc k = d" using that by simp
      from t show ?thesis unfolding takes_container_def
      proof (elim conjE disjE)
        assume "cur t = CHR ''[''" "\<forall>k r. 65 - k = d \<longrightarrow> json_parse_array (t @ r) k = Inr (length t)"
        then show ?thesis using d c(1) by (simp add: first_value_def)
      next
        assume "cur t = CHR 0x7B" "\<forall>k r. 65 - k = d \<longrightarrow> json_parse_object (t @ r) k = Inr (length t)"
        then show ?thesis using d c(1) by (simp add: first_value_def)
      qed
    qed
  qed
qed

lemma takes_elements_one:
  assumes "json_space w1" "takes_value d t" "json_space w2"
  shows "takes_elements d (w1 @ t @ w2)"
proof -
  have t: "t \<noteq> []" "cur t \<notin> set ZBX_WHITESPACE" "cur t \<noteq> CHR '']''" using assms(2) by (auto simp: takes_value_def)
  have "array_loop (w @ t @ w2 @ q) k = Inr q" if "65 - k = d" "cur q = CHR '']''" "json_space w" for w k q
  proof -
    have v: "value_end (w2 @ q)" using assms(3) that(2) by (intro value_end_space) (simp_all add: value_end_def)
    then have "json_parse_value (w @ t @ w2 @ q) k = Inr (length w + length t)" using assms(2) that by (simp add: takes_value_def)
    moreover have "SKIP_WHITESPACE (w2 @ q) = q" using assms(3) that(2) by (simp add: skip_id ZBX_WHITESPACE_def)
    ultimately show ?thesis using that(2) by (subst array_loop.simps) (simp add: Let_def)
  qed
  note loop = this this [of _ _ "[]", simplified]
  have "SKIP_WHITESPACE (w1 @ t @ w2 @ q) = t @ w2 @ q" for q using t assms(1) by (simp add: skip_id)
  then show ?thesis using loop assms(1) t unfolding takes_elements_def by simp
qed

lemma takes_elements_more:
  assumes "json_space w1" "takes_value d t" "json_space w2" "takes_elements d es"
  shows "takes_elements d (w1 @ t @ w2 @ CHR '','' # es)"
proof -
  have t: "t \<noteq> []" "cur t \<notin> set ZBX_WHITESPACE" "cur t \<noteq> CHR '']''" using assms(2) by (auto simp: takes_value_def)
  have "array_loop (w @ t @ w2 @ CHR '','' # es @ q) k = Inr q" if "65 - k = d" "cur q = CHR '']''" "json_space w" for w k q
  proof -
    have v: "value_end (w2 @ CHR '','' # es @ q)" using assms(3) by (intro value_end_space) (simp_all add: value_end_def)
    then have "json_parse_value (w @ t @ w2 @ CHR '','' # es @ q) k = Inr (length w + length t)" using assms(2) that by (simp add: takes_value_def)
    moreover have "SKIP_WHITESPACE (w2 @ CHR '','' # es @ q) = CHR '','' # es @ q" using assms(3) by (simp add: ZBX_WHITESPACE_def)
    ultimately show ?thesis using that(1,2) assms(4) by (subst array_loop.simps) (simp add: Let_def takes_elements_def)
  qed
  note loop = this this [of _ _ "[]", simplified]
  have "SKIP_WHITESPACE (w1 @ t @ w2 @ CHR '','' # es @ q) = t @ w2 @ CHR '','' # es @ q" for q using t assms(1) by (simp add: skip_id)
  then show ?thesis using loop assms(1) t unfolding takes_elements_def by simp
qed

text \<open>One member, up to the text behind its value.\<close>

lemma object_loop_member:
  assumes "json_string key" "json_space w2" "json_space w3" "takes_value d t" "json_space w4" "65 - k = d" "value_end q"
    "cur q \<notin> set ZBX_WHITESPACE"
  shows "object_loop (key @ w2 @ CHR '':'' # w3 @ t @ w4 @ q) k =
    (if cur q \<noteq> CHR '','' then Inr q else object_loop (SKIP_WHITESPACE (tl q)) k)"
proof -
  let ?s = "key @ w2 @ CHR '':'' # w3 @ t @ w4 @ q"
  have c: "cur ?s = CHR 0x22" using assms(1) by (auto simp: json_string_def)
  then have p: "json_parse_string ?s = Inr (length key)" using parse_string_iff [of ?s] assms(1) by blast
  have "SKIP_WHITESPACE (w2 @ CHR '':'' # w3 @ t @ w4 @ q) = CHR '':'' # w3 @ t @ w4 @ q" using assms(2) by (simp add: ZBX_WHITESPACE_def)
  moreover have "json_parse_value (w3 @ t @ w4 @ q) k = Inr (length w3 + length t)"
    using assms(3-7) value_end_space [OF assms(5,7)] by (simp add: takes_value_def)
  moreover have "SKIP_WHITESPACE (w4 @ q) = q" using assms(5,8) by (simp add: skip_id)
  ultimately show ?thesis using c p by (subst object_loop.simps) (simp add: Let_def)
qed

lemma skip_member: "json_string key \<Longrightarrow> json_space w \<Longrightarrow> SKIP_WHITESPACE (w @ key @ s) = key @ s \<and> cur (key @ s) = CHR 0x22"
  by (auto simp: json_string_def ZBX_WHITESPACE_def)

lemma takes_members_one:
  assumes "json_space w1" "json_string key" "json_space w2" "json_space w3" "takes_value d t" "json_space w4"
  shows "takes_members d (w1 @ key @ w2 @ CHR '':'' # w3 @ t @ w4)"
proof -
  have "object_loop (key @ w2 @ CHR '':'' # w3 @ t @ w4 @ q) k = Inr q" if "65 - k = d" "cur q = CHR 0x7D" for k q
    using object_loop_member [OF assms(2-6) that(1), of q] that(2) by (simp add: value_end_def ZBX_WHITESPACE_def)
  then show ?thesis using skip_member [OF assms(2,1)] unfolding takes_members_def by simp
qed

lemma takes_members_more:
  assumes "json_space w1" "json_string key" "json_space w2" "json_space w3" "takes_value d t" "json_space w4" "takes_members d ms"
  shows "takes_members d (w1 @ key @ w2 @ CHR '':'' # w3 @ t @ w4 @ CHR '','' # ms)"
proof -
  have "object_loop (key @ w2 @ CHR '':'' # w3 @ t @ w4 @ CHR '','' # ms @ q) k = Inr q" if "65 - k = d" "cur q = CHR 0x7D" for k q
    using object_loop_member [OF assms(2-6) that(1), of "CHR '','' # ms @ q"] that assms(7)
    by (simp add: value_end_def ZBX_WHITESPACE_def takes_members_def)
  then show ?thesis using skip_member [OF assms(2,1)] unfolding takes_members_def by simp
qed

lemma takes_array:
  "json_space w \<Longrightarrow> takes_container d (CHR ''['' # w @ '']'')"
  "takes_elements d es \<Longrightarrow> takes_container d (CHR ''['' # es @ '']'')"
proof -
  assume w: "json_space w"
  have "SKIP_WHITESPACE (w @ CHR '']'' # r) = CHR '']'' # r" for r using w by (simp add: ZBX_WHITESPACE_def)
  then show "takes_container d (CHR ''['' # w @ '']'')" by (simp add: takes_container_def Let_def)
next
  assume es: "takes_elements d es"
  have "json_parse_array (CHR ''['' # es @ CHR '']'' # r) k = Inr (length es + 2)" if "65 - k = d" for k r
  proof -
    have "array_loop (SKIP_WHITESPACE (es @ CHR '']'' # r)) k = Inr (CHR '']'' # r)" "cur (SKIP_WHITESPACE (es @ CHR '']'' # r)) \<noteq> CHR '']''"
      using es that unfolding takes_elements_def by (metis cur.simps(2))+
    then show ?thesis by (simp add: Let_def)
  qed
  then show "takes_container d (CHR ''['' # es @ '']'')" by (simp add: takes_container_def)
qed

lemma takes_object:
  "json_space w \<Longrightarrow> takes_container d (CHR 0x7B # w @ [CHR 0x7D])"
  "takes_members d ms \<Longrightarrow> takes_container d (CHR 0x7B # ms @ [CHR 0x7D])"
proof -
  have brace: "SKIP_WHITESPACE (CHR 0x7B # s) = CHR 0x7B # s" for s by (simp add: ZBX_WHITESPACE_def)
  {
    assume w: "json_space w"
    have "SKIP_WHITESPACE (w @ CHR 0x7D # r) = CHR 0x7D # r" for r using w by (simp add: ZBX_WHITESPACE_def)
    then show "takes_container d (CHR 0x7B # w @ [CHR 0x7D])"
      by (simp add: takes_container_def json_parse_object.simps Let_def brace del: SKIP_WHITESPACE.simps)
  next
    assume ms: "takes_members d ms"
    have "json_parse_object (CHR 0x7B # ms @ CHR 0x7D # r) k = Inr (length ms + 2)" if "65 - k = d" for k r
    proof -
      have "object_loop (SKIP_WHITESPACE (ms @ CHR 0x7D # r)) k = Inr (CHR 0x7D # r)" "cur (SKIP_WHITESPACE (ms @ CHR 0x7D # r)) \<noteq> CHR 0x7D"
        using ms that unfolding takes_members_def by (metis cur.simps(2))+
      then show ?thesis by (simp add: json_parse_object.simps Let_def brace del: SKIP_WHITESPACE.simps)
    qed
    then show "takes_container d (CHR 0x7B # ms @ [CHR 0x7D])" by (simp add: takes_container_def)
  }
qed

lemma parser_complete:
  "json_value d t \<Longrightarrow> takes_value d t"
  "json_container d' t' \<Longrightarrow> takes_container d' t'"
  "json_elements e es \<Longrightarrow> takes_elements e es"
  "json_members e' ms \<Longrightarrow> takes_members e' ms"
  by (induction d t and d' t' and e es and e' ms rule: json_value_json_container_json_elements_json_members.inducts)
    (rule takes_tokens takes_array takes_object takes_elements_one takes_elements_more takes_members_one takes_members_more; assumption)+

lemma json_validate_iff: "zbx_json_validate s = Inr n \<longleftrightarrow>
    (\<exists>w1 t w2. s = w1 @ t @ w2 \<and> json_space w1 \<and> json_space w2 \<and> json_container (ZBX_MAX_JSON_DEPTH + 1) t \<and> n = length t)"
proof
  assume v: "zbx_json_validate s = Inr n"
  define p where "p = SKIP_WHITESPACE s"
  obtain w1 where w1: "s = w1 @ p" "json_space w1" using skip_split [of s] by (auto simp: p_def)
  have "(cur p = CHR 0x7B \<and> json_parse_object p 0 = Inr n \<or> cur p = CHR ''['' \<and> json_parse_array p 0 = Inr n) \<and> SKIP_WHITESPACE (drop n p) = []"
    using v unfolding zbx_json_validate_def Let_def p_def [symmetric] by (auto split: if_splits sum.splits)
  then obtain t r where t: "p = t @ r" "json_container 65 t" "n = length t" "SKIP_WHITESPACE r = []"
    using parser_sound(2) [of p 0] parser_sound(4) [of p 0] by (auto simp: took_container_def)
  moreover have "json_space r" using skip_split [of r] t(4) by auto
  ultimately show "\<exists>w1 t w2. s = w1 @ t @ w2 \<and> json_space w1 \<and> json_space w2 \<and> json_container (ZBX_MAX_JSON_DEPTH + 1) t \<and> n = length t"
    using w1 by (auto simp: ZBX_MAX_JSON_DEPTH_def)
next
  assume "\<exists>w1 t w2. s = w1 @ t @ w2 \<and> json_space w1 \<and> json_space w2 \<and> json_container (ZBX_MAX_JSON_DEPTH + 1) t \<and> n = length t"
  then obtain w1 t w2 where s: "s = w1 @ t @ w2" "json_space w1" "json_space w2" "json_container 65 t" "n = length t"
    by (auto simp: ZBX_MAX_JSON_DEPTH_def)
  have t: "takes_container 65 t" using parser_complete(2) [OF s(4)] .
  have c: "t \<noteq> []" "cur t = CHR ''['' \<or> cur t = CHR 0x7B" using t by (auto simp: takes_container_def)
  then have p: "SKIP_WHITESPACE s = t @ w2" using s(1,2) by (auto simp: skip_id ZBX_WHITESPACE_def)
  have e: "SKIP_WHITESPACE w2 = []" using skip_space [OF s(3), of "[]"] by simp
  from t show "zbx_json_validate s = Inr n" unfolding takes_container_def
  proof (elim conjE disjE)
    assume "cur t = CHR ''[''" "\<forall>k r. 65 - k = 65 \<longrightarrow> json_parse_array (t @ r) k = Inr (length t)"
    then show ?thesis using c(1) e s(5) by (simp add: zbx_json_validate_def p Let_def)
  next
    assume "cur t = CHR 0x7B" "\<forall>k r. 65 - k = 65 \<longrightarrow> json_parse_object (t @ r) k = Inr (length t)"
    then show ?thesis using c(1) e s(5) by (simp add: zbx_json_validate_def p Let_def)
  qed
qed

text \<open>C28: the validating parser accepts exactly the texts that are an array or an object of the JSON grammar between
  spaces, with the depth limited, and gives the length of the text without these spaces; every other text is an error.
  The grammar is that of RFC 8259 but for the digits after a decimal point, which may be missing.\<close>

theorem json_validate_correct: "zbx_json_validate s = Inr n \<longleftrightarrow> json_document n s"
  unfolding json_document_def by (rule json_validate_iff)

text \<open>The digits after the point may be missing.\<close>

lemma json_number_without_fraction: "zbx_json_validate ''[1.]'' = Inr 4"
  by code_simp

subsection \<open>Decoding of strings\<close>

text \<open>Every sequence stands for at least one byte, so the end of the buffer is noticed at each step.\<close>

lemma copy_loop_quote: "copy_string_loop (CHR 0x22 # r) out n = Some (out, r)"
  by (subst copy_string_loop.simps) simp

lemma copy_loop_plain:
  "c \<noteq> CHR 0x22 \<Longrightarrow> c \<noteq> CHR 0x5C \<Longrightarrow> copy_string_loop (c # s) out n =
    (if length out + 1 = n then None else copy_string_loop s (out @ [c]) n)"
  by (subst copy_string_loop.simps) (simp add: Let_def)

lemma copy_loop_escape:
  "zbx_json_decode_character p = Some (bs, q) \<Longrightarrow> p \<noteq> [] \<Longrightarrow> copy_string_loop (CHR 0x5C # p) out n =
    (if n \<le> length out + length bs then None else copy_string_loop q (out @ bs) n)"
  by (subst copy_string_loop.simps) (simp add: Let_def)

lemma decode_simple: "simple_escape e = Some c \<Longrightarrow> zbx_json_decode_character (e # s) = Some ([c], s)"
  by (simp add: zbx_json_decode_character_def)

lemma copy_loop_chars:
  "json_chars s v \<Longrightarrow> length out < n \<Longrightarrow>
    copy_string_loop (s @ CHR 0x22 # r) out n = (if length out + length v < n then Some (out @ v, r) else None)"
proof (induction arbitrary: out rule: json_chars.induct)
  case Chars_Nil
  then show ?case by (simp add: copy_loop_quote)
next
  case (Chars_Plain c s v)
  show ?case using Chars_Plain.prems Chars_Plain.IH [of "out @ [c]"] by (auto simp: copy_loop_plain [OF Chars_Plain.hyps(1,2)])
next
  case (Chars_Escape e c s v)
  show ?case
    using Chars_Escape.prems Chars_Escape.IH [of "out @ [c]"] copy_loop_escape [OF decode_simple [OF Chars_Escape.hyps(1)]] by auto
next
  case (Chars_Unicode a b c d s v)
  have "zbx_json_decode_character (CHR ''u'' # a # b # c # d # s @ CHR 0x22 # r) = Some (utf8_encode (hexv a b c d), s @ CHR 0x22 # r)"
    using Chars_Unicode.hyps by (intro decode_bmp) auto
  from copy_loop_escape [OF this, of out n] show ?case
    using Chars_Unicode.prems Chars_Unicode.IH [of "out @ utf8_encode (hexv a b c d)"] by auto
next
  case (Chars_Pair a b c d e f g h s v)
  let ?v = "surrogate_pair (hexv a b c d) (hexv e f g h)"
  have "zbx_json_decode_character (CHR ''u'' # a # b # c # d # CHR 0x5C # CHR ''u'' # e # f # g # h # s @ CHR 0x22 # r) =
      Some (utf8_encode ?v, s @ CHR 0x22 # r)"
    using Chars_Pair.hyps by (subst decode_high) (simp_all add: valid_hex_Cons unat_hex_number)
  from copy_loop_escape [OF this, of out n] show ?case
    using Chars_Pair.prems Chars_Pair.IH [of "out @ utf8_encode ?v"] by auto
qed

lemma copy_string_chars:
  "json_chars s v \<Longrightarrow> json_copy_string (CHR 0x22 # s @ CHR 0x22 # r) n = (if length v < n then Some (v, r) else None)"
  using copy_loop_chars [of s v "[]" n r] by (simp add: json_copy_string_def)

end
