(* ===== verification/Json_Writer.thy ===== *)
theory Json_Writer
  imports Json_Spec
begin

text \<open>
  The writer of JSON texts of \<open>src/src/libs/zbxjson/json.c\<close>: a buffer with the text of all containers that are
  open, their closing brackets included, and the offset where the next item goes. The list of the cells of the buffer
  is as long as \<open>buffer_allocated\<close>; a write outside of it is a fault.
\<close>

subsection \<open>Data\<close>

datatype zbx_json_type =
  ZBX_JSON_TYPE_UNKNOWN | ZBX_JSON_TYPE_STRING | ZBX_JSON_TYPE_INT | ZBX_JSON_TYPE_ARRAY | ZBX_JSON_TYPE_OBJECT
| ZBX_JSON_TYPE_NULL | ZBX_JSON_TYPE_TRUE | ZBX_JSON_TYPE_FALSE | ZBX_JSON_TYPE_NUMBER

datatype zbx_json_status = ZBX_JSON_EMPTY | ZBX_JSON_COMMA

definition ZBX_JSON_STAT_BUF_LEN :: nat where
  "ZBX_JSON_STAT_BUF_LEN = 4096"

record zbx_json =
  jbuffer :: string
  buffer_offset :: nat
  buffer_size :: nat
  jstatus :: zbx_json_status
  jlevel :: nat

subsection \<open>Escaping\<close>

text \<open>The characters that are written with a letter after a backslash.\<close>

definition escape_letter :: "char \<Rightarrow> char option" where
  "escape_letter c =
     (if c = CHR 0x22 then Some (CHR 0x22)
      else if c = CHR 0x5C then Some (CHR 0x5C)
      else if c = CHR 0x08 then Some (CHR ''b'')
      else if c = CHR 0x0C then Some (CHR ''f'')
      else if c = CHR 0x0A then Some (CHR ''n'')
      else if c = CHR 0x0D then Some (CHR ''r'')
      else if c = CHR 0x09 then Some (CHR ''t'')
      else None)"

text \<open>The size of the escaped text, and where the limit is exceeded: the position behind the first character that does not
  fit and the size in front of it.\<close>

fun stringsize_loop :: "string \<Rightarrow> nat \<Rightarrow> nat \<Rightarrow> nat \<Rightarrow> (nat \<times> nat) option \<Rightarrow> nat \<times> (nat \<times> nat) option" where
  "stringsize_loop [] sptr len max_size lim = (len, lim)"
| "stringsize_loop (c # s) sptr len max_size lim =
     (let cur_len = len;
          len = len + (if escape_letter c \<noteq> None then 2 else if code c \<le> 0x1f then 6 else 1);
          lim = (if lim = None \<and> 0 \<noteq> max_size \<and> max_size < len then Some (sptr + 1, cur_len) else lim)
      in stringsize_loop s (sptr + 1) len max_size lim)"

text \<open>The loop that steps back to the start of a cut character.\<close>

fun cutoff_loop :: "string \<Rightarrow> nat \<Rightarrow> nat \<Rightarrow> nat \<times> nat" where
  "cutoff_loop s str_cutoff 0 = (str_cutoff, 0)"
| "cutoff_loop s str_cutoff (Suc len_cutoff) =
     (if continuation (cat s (str_cutoff - 1)) then cutoff_loop s (str_cutoff - 1) len_cutoff else (str_cutoff, Suc len_cutoff))"

text \<open>The size, the full length and the number of characters to write, where 0 stands for all of them. The code subtracts
  the pointer \<open>string\<close> for this number, so a limit is only meant with a string that is not null.\<close>

definition zbx_json_stringsize_limit :: "string option \<Rightarrow> zbx_json_type \<Rightarrow> nat \<Rightarrow> nat \<times> nat \<times> nat" where
  "zbx_json_stringsize_limit string type max_size =
     (let s = (case string of Some s \<Rightarrow> s | None \<Rightarrow> ''null'');
          (len, lim) = stringsize_loop s 0 0 max_size None;
          full_len = len;
          quotes = (if string \<noteq> None \<and> type = ZBX_JSON_TYPE_STRING then 2 else 0);
          len = len + quotes
      in case lim of
           None \<Rightarrow> (len, full_len, 0)
         | Some (str_cutoff, len_cutoff) \<Rightarrow>
             let (str_cutoff, len_cutoff) = cutoff_loop s str_cutoff (len_cutoff + quotes)
             in (len_cutoff, full_len, str_cutoff - 1))"

definition zbx_json_stringsize :: "string option \<Rightarrow> zbx_json_type \<Rightarrow> nat" where
  "zbx_json_stringsize string type = fst (zbx_json_stringsize_limit string type 0)"

definition zbx_num2hex :: "u8 \<Rightarrow> char" where
  "zbx_num2hex c = (if c \<ge> 10 then char_of (unat (c + 0x57)) else char_of (unat (c + 0x30)))"

definition escape_char :: "char \<Rightarrow> string" where
  "escape_char c =
     (case escape_letter c of
        Some l \<Rightarrow> [CHR 0x5C, l]
      | None \<Rightarrow>
          if code c \<le> 0x1f then
            [CHR 0x5C, CHR ''u'', CHR ''0'', CHR ''0'', zbx_num2hex (drop_bit 4 (byte c) AND 0xf), zbx_num2hex (byte c AND 0xf)]
          else [c])"

fun insstring_loop :: "string \<Rightarrow> string" where
  "insstring_loop [] = []"
| "insstring_loop (c # s) = escape_char c @ insstring_loop s"

text \<open>What is written at \<open>p\<close>; of a string that is cut only its first \<open>str_len\<close> characters.\<close>

definition zbx_json_insstring_limit :: "string option \<Rightarrow> zbx_json_type \<Rightarrow> nat \<Rightarrow> string" where
  "zbx_json_insstring_limit string type str_len =
     (let s = (case string of Some s \<Rightarrow> s | None \<Rightarrow> ''null'');
          quote = (if string \<noteq> None \<and> type = ZBX_JSON_TYPE_STRING then [CHR 0x22] else [])
      in quote @ insstring_loop (if str_len = 0 then s else take str_len s) @ quote)"

definition zbx_json_insstring :: "string option \<Rightarrow> zbx_json_type \<Rightarrow> string" where
  "zbx_json_insstring string type = zbx_json_insstring_limit string type 0"

definition zbx_json_escape :: "string \<Rightarrow> string" where
  "zbx_json_escape string =
     (if zbx_json_stringsize (Some string) ZBX_JSON_TYPE_UNKNOWN = 0 then string
      else zbx_json_insstring (Some string) ZBX_JSON_TYPE_UNKNOWN)"

subsection \<open>The buffer\<close>

text \<open>The size is doubled until it is enough.\<close>

function json_grow :: "nat \<Rightarrow> nat \<Rightarrow> nat" where
  "json_grow need allocated =
     (if allocated < need then json_grow need (if allocated = 0 then 1024 else allocated * 2) else allocated)"
  by pat_completeness auto
termination by (relation "measure (\<lambda>(n, a). n + 1 - a)") auto

declare json_grow.simps [simp del]

text \<open>The contents of new cells do not matter.\<close>

definition zbx_json_realloc :: "zbx_json \<Rightarrow> nat \<Rightarrow> zbx_json" where
  "zbx_json_realloc j need =
     (let n = json_grow need (length (jbuffer j))
      in j\<lparr>jbuffer := jbuffer j @ replicate (n - length (jbuffer j)) NUL\<rparr>)"

text \<open>\<open>memmove\<close> of the rest of the text and the terminator, and the writes at \<open>psrc\<close>.\<close>

definition json_move :: "string \<Rightarrow> nat \<Rightarrow> nat \<Rightarrow> nat \<Rightarrow> string res" where
  "json_move buf dst src n =
     (if length buf < dst + n \<or> length buf < src + n then Inl Out_Of_Bounds else Inr (memmove_list buf dst src n))"

definition json_put :: "string \<Rightarrow> nat \<Rightarrow> string \<Rightarrow> string res" where
  "json_put buf pos s =
     (if length buf < pos + length s then Inl Out_Of_Bounds else Inr (take pos buf @ s @ drop (pos + length s) buf))"

definition comma_part :: "zbx_json \<Rightarrow> string" where
  "comma_part j = (if jstatus j = ZBX_JSON_COMMA then '','' else [])"

definition name_part :: "string option \<Rightarrow> string" where
  "name_part name = (if name \<noteq> None then zbx_json_insstring name ZBX_JSON_TYPE_STRING @ '':'' else [])"

definition name_size :: "zbx_json \<Rightarrow> string option \<Rightarrow> nat" where
  "name_size j name = (if jstatus j = ZBX_JSON_COMMA then 1 else 0) +
     (if name \<noteq> None then zbx_json_stringsize name ZBX_JSON_TYPE_STRING + 1 else 0)"

definition json_addobject :: "zbx_json \<Rightarrow> string option \<Rightarrow> bool \<Rightarrow> zbx_json res" where
  "json_addobject j name object =
     (let len = 2 + name_size j name;
          j = zbx_json_realloc j (buffer_size j + len + 1)
      in rbind (json_move (jbuffer j) (buffer_offset j + len) (buffer_offset j) (buffer_size j - buffer_offset j + 1)) (\<lambda>buf.
         let part = comma_part j @ name_part name @ [if object then CHR 0x7B else CHR ''['']
         in rbind (json_put buf (buffer_offset j) (part @ [if object then CHR 0x7D else CHR '']''])) (\<lambda>buf.
            Inr (j\<lparr>jbuffer := buf, buffer_offset := buffer_offset j + length part, buffer_size := buffer_size j + len,
                   jlevel := jlevel j + 1, jstatus := ZBX_JSON_EMPTY\<rparr>))))"

definition zbx_json_addobject :: "zbx_json \<Rightarrow> string option \<Rightarrow> zbx_json res" where
  "zbx_json_addobject j name = json_addobject j name True"

definition zbx_json_addarray :: "zbx_json \<Rightarrow> string option \<Rightarrow> zbx_json res" where
  "zbx_json_addarray j name = json_addobject j name False"

text \<open>The terminator of the empty buffer needs a cell.\<close>

definition json_start :: "nat \<Rightarrow> zbx_json" where
  "json_start allocate =
     \<lparr>jbuffer = replicate (if ZBX_JSON_STAT_BUF_LEN < allocate then allocate else ZBX_JSON_STAT_BUF_LEN) NUL,
      buffer_offset = 0, buffer_size = 0, jstatus = ZBX_JSON_EMPTY, jlevel = 0\<rparr>"

definition zbx_json_init :: "nat \<Rightarrow> zbx_json res" where
  "zbx_json_init allocate = zbx_json_addobject (json_start allocate) None"

definition zbx_json_initarray :: "nat \<Rightarrow> zbx_json res" where
  "zbx_json_initarray allocate = zbx_json_addarray (json_start allocate) None"

definition zbx_json_setempty :: "zbx_json \<Rightarrow> zbx_json" where
  "zbx_json_setempty j = j\<lparr>jbuffer := (jbuffer j)[0 := NUL], buffer_offset := 0, buffer_size := 0,
     jstatus := ZBX_JSON_EMPTY, jlevel := 0\<rparr>"

definition zbx_json_clean :: "zbx_json \<Rightarrow> zbx_json res" where
  "zbx_json_clean j = zbx_json_addobject (zbx_json_setempty j) None"

text \<open>The item is followed by the rest of the text; the result has the full length of the escaped string.\<close>

definition zbx_json_addstring_limit ::
  "zbx_json \<Rightarrow> string option \<Rightarrow> string option \<Rightarrow> zbx_json_type \<Rightarrow> nat \<Rightarrow> (zbx_json \<times> nat) res" where
  "zbx_json_addstring_limit j name string type max_size =
     (let (size', orig_len, str_len) = zbx_json_stringsize_limit string type max_size;
          len = name_size j name + size';
          j = zbx_json_realloc j (buffer_size j + len + 1)
      in rbind (json_move (jbuffer j) (buffer_offset j + len) (buffer_offset j) (buffer_size j - buffer_offset j + 1)) (\<lambda>buf.
         let part = comma_part j @ name_part name @ zbx_json_insstring_limit string type str_len
         in rbind (json_put buf (buffer_offset j) part) (\<lambda>buf.
            Inr (j\<lparr>jbuffer := buf, buffer_offset := buffer_offset j + length part, buffer_size := buffer_size j + len,
                   jstatus := ZBX_JSON_COMMA\<rparr>, orig_len))))"

definition zbx_json_addstring :: "zbx_json \<Rightarrow> string option \<Rightarrow> string option \<Rightarrow> zbx_json_type \<Rightarrow> zbx_json res" where
  "zbx_json_addstring j name string type = rbind (zbx_json_addstring_limit j name string type 0) (\<lambda>(j, n). Inr j)"

definition zbx_json_addraw :: "zbx_json \<Rightarrow> string option \<Rightarrow> string \<Rightarrow> zbx_json res" where
  "zbx_json_addraw j name data =
     (let len = name_size j name + length data;
          j = zbx_json_realloc j (buffer_size j + len + 1)
      in rbind (json_move (jbuffer j) (buffer_offset j + len) (buffer_offset j) (buffer_size j - buffer_offset j + 1)) (\<lambda>buf.
         let part = comma_part j @ name_part name @ data
         in rbind (json_put buf (buffer_offset j) part) (\<lambda>buf.
            Inr (j\<lparr>jbuffer := buf, buffer_offset := buffer_offset j + length part, buffer_size := buffer_size j + len,
                   jstatus := ZBX_JSON_COMMA\<rparr>))))"

definition zbx_json_close :: "zbx_json \<Rightarrow> zbx_json \<times> bool" where
  "zbx_json_close j =
     (if jlevel j = 1 then (j, FAIL)
      else (j\<lparr>jlevel := jlevel j - 1, buffer_offset := buffer_offset j + 1, jstatus := ZBX_JSON_COMMA\<rparr>, SUCCEED))"

subsection \<open>Escaped texts\<close>

lemma num2hex:
  assumes "unat w < 16"
  shows "isxdigit (zbx_num2hex w) \<and> hex_value (zbx_num2hex w) = unat w"
proof (cases "w \<ge> 10")
  case True
  then have "10 \<le> unat w" by (simp add: word_le_nat_alt)
  moreover have "unat (w + 0x57) = unat w + 0x57" using assms by (subst unat_word_ariths) simp
  ultimately show ?thesis using assms True by (simp add: zbx_num2hex_def isxdigit_def isdigit_def hex_value_def)
next
  case False
  then have "unat w < 10" by (simp add: word_le_nat_alt not_le)
  moreover have "unat (w + 0x30) = unat w + 0x30" using assms by (subst unat_word_ariths) simp
  ultimately show ?thesis using False by (simp add: zbx_num2hex_def isxdigit_def isdigit_def hex_value_def)
qed

lemma escape_letter_simple: "escape_letter c = Some l \<Longrightarrow> simple_escape l = Some c"
  by (auto simp: escape_letter_def simple_escape_def split: if_splits)

lemma isxdigit_0: "isxdigit (CHR ''0'')" "hex_value (CHR ''0'') = 0"
  by (simp_all add: isxdigit_def isdigit_def hex_value_def)

lemma escape_char_chars:
  assumes "json_chars s v"
  shows "json_chars (escape_char c @ s) (c # v)"
proof (cases "escape_letter c")
  case (Some l)
  then show ?thesis using Chars_Escape [OF escape_letter_simple assms] by (simp add: escape_char_def)
next
  case None
  then have c: "c \<noteq> CHR 0x22" "c \<noteq> CHR 0x5C" by (auto simp: escape_letter_def)
  show ?thesis
  proof (cases "code c \<le> 0x1f")
    case True
    define h l where "h = drop_bit 4 (byte c) AND 0xf" and "l = byte c AND 0xf"
    have "unat h = code c div 16 mod 16"
      using unat_and_field [of 0 4 "drop_bit 4 (byte c)"] by (simp add: h_def mask_numeral unat_drop_bit unat_byte)
    then have h: "unat h = code c div 16" "unat h < 16" using True by simp_all
    have l: "unat l = code c mod 16" using byte_values(2) [of c] by (simp add: l_def)
    have x: "isxdigit (zbx_num2hex h)" "isxdigit (zbx_num2hex l)" "hex_value (zbx_num2hex h) = code c div 16" "hex_value (zbx_num2hex l) = code c mod 16"
      using num2hex [OF h(2)] num2hex [of l] h(1) l by simp_all
    have v: "hexv (CHR ''0'') (CHR ''0'') (zbx_num2hex h) (zbx_num2hex l) = code c" by (simp add: hexv_def isxdigit_0 x)
    have "escape_char c = [CHR 0x5C, CHR ''u'', CHR ''0'', CHR ''0'', zbx_num2hex h, zbx_num2hex l]"
      using None True by (simp add: escape_char_def h_def l_def)
    moreover have "utf8_encode (code c) = [c]" using True by (simp add: encode_ascii)
    ultimately show ?thesis
      using Chars_Unicode [of "CHR ''0''" "CHR ''0''" "zbx_num2hex h" "zbx_num2hex l", OF _ _ _ assms] x(1,2) True
      by (simp add: v isxdigit_0 high_surrogate_def low_surrogate_def)
  next
    case False
    then show ?thesis using Chars_Plain [OF c _ assms] None by (simp add: escape_char_def)
  qed
qed

lemma insstring_chars: "json_chars (insstring_loop s) s"
  by (induction s) (simp_all add: Chars_Nil escape_char_chars)

abbreviation quoted :: "string \<Rightarrow> string" where
  "quoted s \<equiv> zbx_json_insstring (Some s) ZBX_JSON_TYPE_STRING"

lemma quoted_eq: "quoted s = CHR 0x22 # insstring_loop s @ [CHR 0x22]"
  by (simp add: zbx_json_insstring_def zbx_json_insstring_limit_def Let_def)

lemma quoted_string: "json_string (quoted s)"
  using insstring_chars unfolding json_string_def quoted_eq by blast

lemma length_escape_char:
  "length (escape_char c) = (if escape_letter c \<noteq> None then 2 else if code c \<le> 0x1f then 6 else 1)"
  by (auto simp: escape_char_def split: option.splits)

lemma stringsize_loop_plain: "stringsize_loop s p len 0 None = (len + length (insstring_loop s), None)"
  by (induction s arbitrary: p len) (auto simp: Let_def length_escape_char)

lemma stringsize_limit_plain:
  "zbx_json_stringsize_limit string type 0 =
    (length (zbx_json_insstring string type), length (insstring_loop (case string of Some s \<Rightarrow> s | None \<Rightarrow> ''null'')), 0)"
  by (auto simp: zbx_json_stringsize_limit_def stringsize_loop_plain Let_def zbx_json_insstring_def zbx_json_insstring_limit_def)

lemma stringsize_plain: "zbx_json_stringsize string type = length (zbx_json_insstring string type)"
  by (simp add: zbx_json_stringsize_def stringsize_limit_plain)

lemma name_size_eq: "name_size j name = length (comma_part j @ name_part name)"
  by (simp add: name_size_def comma_part_def name_part_def stringsize_plain)

text \<open>With a limit below the size of the first character the number of characters to write is 0, which stands for the whole text:
  four bytes are written where two are reserved.\<close>

lemma stringsize_limit_too_small:
  "zbx_json_stringsize_limit (Some [CHR 0xC3, CHR 0xA9]) ZBX_JSON_TYPE_STRING 1 = (2, 2, 0)"
  "length (zbx_json_insstring_limit (Some [CHR 0xC3, CHR 0xA9]) ZBX_JSON_TYPE_STRING 0) = 4"
  by code_simp+

subsection \<open>Insertion into the buffer\<close>

lemma json_grow_ge: "need \<le> json_grow need a \<and> a \<le> json_grow need a"
proof (induction need a rule: json_grow.induct)
  case (1 need a)
  then show ?case by (subst (1 2) json_grow.simps) (auto split: if_splits)
qed

definition json_text :: "zbx_json \<Rightarrow> string" where
  "json_text j = take (buffer_size j) (jbuffer j)"

text \<open>The text and its terminator are in the buffer, and the offset is in the text.\<close>

definition json_inv :: "zbx_json \<Rightarrow> bool" where
  "json_inv j \<longleftrightarrow> buffer_offset j \<le> buffer_size j \<and> buffer_size j < length (jbuffer j) \<and> jbuffer j ! buffer_size j = NUL"

lemma json_text_length [simp]: "json_inv j \<Longrightarrow> length (json_text j) = buffer_size j"
  by (simp add: json_inv_def json_text_def)

lemma json_realloc:
  assumes "json_inv j"
  shows "json_inv (zbx_json_realloc j n)" "json_text (zbx_json_realloc j n) = json_text j" "n \<le> length (jbuffer (zbx_json_realloc j n))"
    "buffer_offset (zbx_json_realloc j n) = buffer_offset j" "buffer_size (zbx_json_realloc j n) = buffer_size j"
    "jstatus (zbx_json_realloc j n) = jstatus j" "jlevel (zbx_json_realloc j n) = jlevel j"
  using assms json_grow_ge [of n "length (jbuffer j)"]
  by (auto simp: zbx_json_realloc_def json_inv_def json_text_def nth_append Let_def)

lemma json_insert:
  assumes inv: "json_inv j" and room: "buffer_size j + length s + 1 \<le> length (jbuffer j)"
  obtains buf1 buf where
    "json_move (jbuffer j) (buffer_offset j + length s) (buffer_offset j) (buffer_size j - buffer_offset j + 1) = Inr buf1"
    "json_put buf1 (buffer_offset j) s = Inr buf"
    "take (buffer_size j + length s) buf = take (buffer_offset j) (json_text j) @ s @ drop (buffer_offset j) (json_text j)"
    "buffer_size j + length s < length buf" "buf ! (buffer_size j + length s) = NUL"
proof -
  let ?o = "buffer_offset j" and ?n = "buffer_size j" and ?b = "jbuffer j"
  have o: "?o \<le> ?n" "?n < length ?b" "?b ! ?n = NUL" using inv by (auto simp: json_inv_def)
  define buf1 where "buf1 = memmove_list ?b (?o + length s) ?o (?n - ?o + 1)"
  have l1: "length buf1 = length ?b" unfolding buf1_def using o room by (intro length_memmove_list) auto
  define buf where "buf = take ?o buf1 @ s @ drop (?o + length s) buf1"
  have l: "length buf = length ?b" using o room l1 by (simp add: buf_def)
  have move: "json_move ?b (?o + length s) ?o (?n - ?o + 1) = Inr buf1" using o room by (simp add: json_move_def buf1_def)
  have put: "json_put buf1 ?o s = Inr buf" using o room l1 by (simp add: json_put_def buf_def)
  have nth1: "buf1 ! i = (if ?o + length s \<le> i \<and> i < ?o + length s + (?n - ?o + 1) then ?b ! (?o + (i - (?o + length s))) else ?b ! i)"
    if "i < length ?b" for i
    unfolding buf1_def using o room that by (intro nth_memmove_list) auto
  have tail: "buf ! i = ?b ! (i - length s)" if "?o + length s \<le> i" "i \<le> ?n + length s" for i
  proof -
    have "\<not> i - ?o < length s" using that(1) by linarith
    then show ?thesis using that o room l1 nth1 [of i] by (simp add: buf_def nth_append)
  qed
  have head: "buf ! i = ?b ! i" if "i < ?o" for i using that o room l1 nth1 [of i] by (simp add: buf_def nth_append)
  have mid: "buf ! (?o + i) = s ! i" if "i < length s" for i using that o l1 by (simp add: buf_def nth_append)
  have "take (?n + length s) buf = take ?o (json_text j) @ s @ drop ?o (json_text j)"
  proof (rule nth_equalityI)
    show "length (take (?n + length s) buf) = length (take ?o (json_text j) @ s @ drop ?o (json_text j))"
      using o room l inv by simp
    fix i assume "i < length (take (?n + length s) buf)"
    then have i: "i < ?n + length s" by simp
    consider "i < ?o" | "?o \<le> i" "i < ?o + length s" | "?o + length s \<le> i" by linarith
    then show "take (?n + length s) buf ! i = (take ?o (json_text j) @ s @ drop ?o (json_text j)) ! i"
    proof cases
      case 1
      then show ?thesis using i o head inv by (simp add: nth_append json_text_def)
    next
      case 2
      then have "i - ?o < length s" by linarith
      then show ?thesis using 2 i o mid [of "i - ?o"] inv by (simp add: nth_append json_text_def)
    next
      case 3
      then have "\<not> i - ?o < length s" by linarith
      then show ?thesis using 3 i o tail [OF 3] inv by (simp add: nth_append json_text_def)
    qed
  qed
  moreover have "buf ! (?n + length s) = NUL" using tail [of "?n + length s"] o by simp
  ultimately show ?thesis using that [OF move put] room l by simp
qed

end
