(* ===== verification/Json_Session.thy ===== *)
theory Json_Session
  imports Json_Writer
begin

text \<open>
  Sessions of the JSON writer: every sequence of calls writes the text of the tree that the calls build, without
  a write outside the buffer, and the validating parser accepts that text if the calls named the members of objects and
  only them.
\<close>

subsection \<open>Trees\<close>

text \<open>A \<open>Node\<close> is an object (\<open>True\<close>) or an array with its children; a child may have a name.\<close>

datatype json_tree = Text string | Raw string | Node bool "(string option \<times> json_tree) list"

definition open_char :: "bool \<Rightarrow> char" where
  "open_char object = (if object then CHR 0x7B else CHR ''['')"

definition close_char :: "bool \<Rightarrow> char" where
  "close_char object = (if object then CHR 0x7D else CHR '']'')"

fun render :: "json_tree \<Rightarrow> string" where
  "render (Text s) = quoted s"
| "render (Raw s) = s"
| "render (Node object cs) = open_char object # join_with (CHR '','') (map (\<lambda>(n, t). name_part n @ render t) cs) @ [close_char object]"

abbreviation render_child :: "string option \<times> json_tree \<Rightarrow> string" where
  "render_child \<equiv> \<lambda>(n, t). name_part n @ render t"

subsection \<open>Open containers\<close>

text \<open>The open containers from the innermost to the outermost: whether it is an object, its children so far, its own name.\<close>

type_synonym frame = "bool \<times> (string option \<times> json_tree) list \<times> string option"

fun add_child :: "string option \<Rightarrow> json_tree \<Rightarrow> frame list \<Rightarrow> frame list" where
  "add_child n t ((ob, cs, nm) # fs) = (ob, cs @ [(n, t)], nm) # fs"
| "add_child n t [] = []"

fun close_frame :: "frame list \<Rightarrow> frame list" where
  "close_frame ((ob, cs, nm) # f # fs) = add_child nm (Node ob cs) (f # fs)"
| "close_frame fs = fs"

lemma length_add_child [simp]: "length (add_child n t fs) = length fs"
  by (cases "(n, t, fs)" rule: add_child.cases) auto

lemma length_close_frame: "length (close_frame fs) = (if 2 \<le> length fs then length fs - 1 else length fs)"
  by (cases fs rule: close_frame.cases) auto

text \<open>The whole tree, if everything is closed.\<close>

function whole :: "frame list \<Rightarrow> json_tree" where
  "whole fs = (if 2 \<le> length fs then whole (close_frame fs) else case fs of (ob, cs, nm) # _ \<Rightarrow> Node ob cs | [] \<Rightarrow> Raw [])"
  by pat_completeness auto
termination by (relation "measure length") (auto simp: length_close_frame)

declare whole.simps [simp del]

subsection \<open>The text in front of the offset and behind it\<close>

definition comma_if :: "'a list \<Rightarrow> string" where
  "comma_if cs = (if cs = [] then [] else '','')"

fun before :: "frame list \<Rightarrow> string" where
  "before [] = []"
| "before [(ob, cs, nm)] = open_char ob # join_with (CHR '','') (map render_child cs)"
| "before ((ob, cs, nm) # f # fs) = before (f # fs) @ comma_if (fst (snd f)) @ name_part nm @
     open_char ob # join_with (CHR '','') (map render_child cs)"

definition behind :: "frame list \<Rightarrow> string" where
  "behind fs = map (\<lambda>f. close_char (fst f)) fs"

lemma join_snoc: "join_with c (xs @ [y]) = (if xs = [] then y else join_with c xs @ c # y)"
proof (induction xs)
  case (Cons x xs)
  then show ?case by (cases xs) auto
qed simp

lemma before_add_child: "fs \<noteq> [] \<Longrightarrow> before (add_child n t fs) = before fs @ comma_if (fst (snd (hd fs))) @ name_part n @ render t"
  by (cases fs rule: before.cases) (auto simp: join_snoc comma_if_def)

lemma behind_add_child: "behind (add_child n t fs) = behind fs"
  by (cases "(n, t, fs)" rule: add_child.cases) (auto simp: behind_def)

lemma before_close: "2 \<le> length fs \<Longrightarrow> before (close_frame fs) = before fs @ [close_char (fst (hd fs))]"
proof (cases fs rule: close_frame.cases)
  case (1 ob cs nm f fs')
  then show ?thesis by (simp add: before_add_child)
qed auto

lemma behind_close: "2 \<le> length fs \<Longrightarrow> behind fs = close_char (fst (hd fs)) # behind (close_frame fs)"
  by (cases fs rule: close_frame.cases) (auto simp: behind_add_child, auto simp: behind_def)

lemma text_whole: "fs \<noteq> [] \<Longrightarrow> before fs @ behind fs = render (whole fs)"
proof (induction fs rule: whole.induct)
  case (1 fs)
  show ?case
  proof (cases "2 \<le> length fs")
    case True
    then have "close_frame fs \<noteq> []" using length_close_frame [of fs] by auto
    then show ?thesis using 1(1) [OF True] before_close [OF True] behind_close [OF True] True by (simp add: whole.simps [of fs])
  next
    case False
    then obtain ob cs nm where "fs = [(ob, cs, nm)]" using 1(2) by (cases fs; cases "tl fs") auto
    then show ?thesis by (simp add: whole.simps behind_def)
  qed
qed

subsection \<open>The calls\<close>

datatype json_op =
  Add_Object "string option" | Add_Array "string option" | Add_String "string option" "string option" zbx_json_type
| Add_Raw "string option" string | Close_Level

fun json_step :: "zbx_json \<Rightarrow> json_op \<Rightarrow> zbx_json res" where
  "json_step j (Add_Object n) = zbx_json_addobject j n"
| "json_step j (Add_Array n) = zbx_json_addarray j n"
| "json_step j (Add_String n s t) = zbx_json_addstring j n s t"
| "json_step j (Add_Raw n s) = zbx_json_addraw j n s"
| "json_step j Close_Level = Inr (fst (zbx_json_close j))"

definition json_run :: "zbx_json res \<Rightarrow> json_op list \<Rightarrow> zbx_json res" where
  "json_run = foldl (\<lambda>r op. rbind r (\<lambda>j. json_step j op))"

fun tree_step :: "frame list \<Rightarrow> json_op \<Rightarrow> frame list" where
  "tree_step fs (Add_Object n) = (True, [], n) # fs"
| "tree_step fs (Add_Array n) = (False, [], n) # fs"
| "tree_step fs (Add_String n s t) =
     add_child n (if t = ZBX_JSON_TYPE_STRING \<and> s \<noteq> None then Text (the s) else Raw (zbx_json_insstring s t)) fs"
| "tree_step fs (Add_Raw n s) = add_child n (Raw s) fs"
| "tree_step fs Close_Level = close_frame fs"

definition built :: "bool \<Rightarrow> json_op list \<Rightarrow> json_tree" where
  "built object ops = whole (foldl tree_step [(object, [], None)] ops)"

text \<open>The buffer holds the text of the open containers, and the offset is behind the last item.\<close>

definition represents :: "zbx_json \<Rightarrow> frame list \<Rightarrow> bool" where
  "represents j fs \<longleftrightarrow> json_inv j \<and> fs \<noteq> [] \<and> json_text j = before fs @ behind fs \<and> buffer_offset j = length (before fs) \<and>
     jlevel j = length fs \<and> (jstatus j = ZBX_JSON_COMMA \<longleftrightarrow> fst (snd (hd fs)) \<noteq> [])"

lemma represents_parts:
  assumes "represents j fs"
  shows "take (buffer_offset j) (json_text j) = before fs" "drop (buffer_offset j) (json_text j) = behind fs"
    "comma_part j = comma_if (fst (snd (hd fs)))" "json_inv j" "fs \<noteq> []"
  using assms by (auto simp: represents_def comma_part_def comma_if_def)


lemma comma_part_realloc: "json_inv j \<Longrightarrow> comma_part (zbx_json_realloc j n) = comma_part j"
  by (simp add: comma_part_def json_realloc)

text \<open>What all insertions share: after the text of the open containers and in front of their closing brackets.\<close>

lemma insert_represented:
  assumes r: "represents j fs" and s: "s = comma_part j @ item"
  obtains buf1 buf where
    "json_move (jbuffer (zbx_json_realloc j (buffer_size j + length s + 1))) (buffer_offset j + length s) (buffer_offset j)
       (buffer_size j - buffer_offset j + 1) = Inr buf1"
    "json_put buf1 (buffer_offset j) s = Inr buf"
    "take (buffer_size j + length s) buf = before fs @ comma_if (fst (snd (hd fs))) @ item @ behind fs"
    "buffer_size j + length s < length buf" "buf ! (buffer_size j + length s) = NUL"
    "buffer_offset j + length s = length (before fs @ comma_if (fst (snd (hd fs))) @ item)"
proof -
  note p = represents_parts [OF r]
  let ?j = "zbx_json_realloc j (buffer_size j + length s + 1)"
  note q = json_realloc [OF p(4), of "buffer_size j + length s + 1"]
  have "buffer_size ?j + length s + 1 \<le> length (jbuffer ?j)" using q(3,5) by simp
  from json_insert [OF q(1) this] obtain buf1 buf where
    "json_move (jbuffer ?j) (buffer_offset j + length s) (buffer_offset j) (buffer_size j - buffer_offset j + 1) = Inr buf1"
    "json_put buf1 (buffer_offset j) s = Inr buf"
    "take (buffer_size j + length s) buf = take (buffer_offset j) (json_text j) @ s @ drop (buffer_offset j) (json_text j)"
    "buffer_size j + length s < length buf" "buf ! (buffer_size j + length s) = NUL"
    unfolding q(2,4,5) by metis
  moreover have "take (buffer_offset j) (json_text j) @ s @ drop (buffer_offset j) (json_text j) =
      before fs @ comma_if (fst (snd (hd fs))) @ item @ behind fs"
    using p s by simp
  moreover have "buffer_offset j + length s = length (before fs @ comma_if (fst (snd (hd fs))) @ item)"
    using r p(3) s by (simp add: represents_def)
  ultimately show ?thesis using that by metis
qed


lemma rbind_Inr: "x = Inr y \<Longrightarrow> rbind x f = f y"
  by simp

lemma addobject_represented:
  assumes r: "represents j fs"
  shows "\<exists>j'. json_addobject j name ob = Inr j' \<and> represents j' ((ob, [], name) # fs)"
proof -
  note p = represents_parts [OF r]
  define s where "s = comma_part j @ name_part name @ [open_char ob, close_char ob]"
  have len: "2 + name_size j name = length s" by (simp add: s_def name_size_eq)
  obtain buf1 buf where b:
    "json_move (jbuffer (zbx_json_realloc j (buffer_size j + length s + 1))) (buffer_offset j + length s) (buffer_offset j)
       (buffer_size j - buffer_offset j + 1) = Inr buf1"
    "json_put buf1 (buffer_offset j) s = Inr buf"
    "take (buffer_size j + length s) buf =
       before fs @ comma_if (fst (snd (hd fs))) @ (name_part name @ [open_char ob, close_char ob]) @ behind fs"
    "buffer_size j + length s < length buf" "buf ! (buffer_size j + length s) = NUL"
    "buffer_offset j + length s = length (before fs @ comma_if (fst (snd (hd fs))) @ name_part name @ [open_char ob, close_char ob])"
    using insert_represented [OF r s_def] by metis
  note q = json_realloc [OF p(4), of "buffer_size j + length s + 1"]
  define j' where "j' = (zbx_json_realloc j (buffer_size j + length s + 1))
    \<lparr>jbuffer := buf, buffer_offset := buffer_offset j + (length s - 1), buffer_size := buffer_size j + length s,
     jlevel := jlevel j + 1, jstatus := ZBX_JSON_EMPTY\<rparr>"
  have parts: "(comma_part j @ name_part name @ [if ob then CHR 0x7B else CHR ''['']) @ [if ob then CHR 0x7D else CHR '']''] = s"
    by (simp add: s_def open_char_def close_char_def)
  then have lpart: "length (comma_part j @ name_part name @ [if ob then CHR 0x7B else CHR ''['']) = length s - 1" by (metis butlast_snoc length_butlast)
  have "json_addobject j name ob = Inr j'"
    unfolding json_addobject_def Let_def len q(4-7) comma_part_realloc [OF p(4)] rbind_Inr [OF b(1)] parts rbind_Inr [OF b(2)]
      lpart j'_def ..
  moreover obtain f fs' where fs: "fs = f # fs'" using p(5) by (cases fs) auto
  have before: "before ((ob, [], name) # fs) = before fs @ comma_if (fst (snd (hd fs))) @ name_part name @ [open_char ob]"
    by (simp add: fs)
  have "represents j' ((ob, [], name) # fs)"
    unfolding represents_def before
    using b(3-6) r p(4) by (auto simp: j'_def json_inv_def json_text_def behind_def represents_def s_def)
  ultimately show ?thesis by blast
qed

lemma put_represented:
  assumes r: "represents j fs" and s: "s = comma_part j @ name_part name @ render t"
  shows "\<exists>buf1 buf.
    json_move (jbuffer (zbx_json_realloc j (buffer_size j + length s + 1))) (buffer_offset j + length s) (buffer_offset j)
       (buffer_size j - buffer_offset j + 1) = Inr buf1 \<and>
    json_put buf1 (buffer_offset j) s = Inr buf \<and>
    represents ((zbx_json_realloc j (buffer_size j + length s + 1))
      \<lparr>jbuffer := buf, buffer_offset := buffer_offset j + length s, buffer_size := buffer_size j + length s,
       jstatus := ZBX_JSON_COMMA\<rparr>) (add_child name t fs)"
proof -
  note p = represents_parts [OF r]
  obtain buf1 buf where b:
    "json_move (jbuffer (zbx_json_realloc j (buffer_size j + length s + 1))) (buffer_offset j + length s) (buffer_offset j)
       (buffer_size j - buffer_offset j + 1) = Inr buf1"
    "json_put buf1 (buffer_offset j) s = Inr buf"
    "take (buffer_size j + length s) buf = before fs @ comma_if (fst (snd (hd fs))) @ (name_part name @ render t) @ behind fs"
    "buffer_size j + length s < length buf" "buf ! (buffer_size j + length s) = NUL"
    "buffer_offset j + length s = length (before fs @ comma_if (fst (snd (hd fs))) @ name_part name @ render t)"
    using insert_represented [OF r s] by metis
  note q = json_realloc [OF p(4), of "buffer_size j + length s + 1"]
  have ne: "fst (snd (hd (add_child name t fs))) \<noteq> [] \<and> add_child name t fs \<noteq> []"
    using p(5) by (cases "(name, t, fs)" rule: add_child.cases) auto
  have "represents ((zbx_json_realloc j (buffer_size j + length s + 1))
      \<lparr>jbuffer := buf, buffer_offset := buffer_offset j + length s, buffer_size := buffer_size j + length s,
       jstatus := ZBX_JSON_COMMA\<rparr>) (add_child name t fs)"
    unfolding represents_def before_add_child [OF p(5)] behind_add_child length_add_child
    using b(3-6) r ne q by (auto simp: json_inv_def json_text_def represents_def)
  then show ?thesis using b(1,2) by blast
qed

lemma addstring_represented:
  assumes r: "represents j fs"
  shows "\<exists>j'. zbx_json_addstring j name string type = Inr j' \<and> represents j' (add_child name
    (if type = ZBX_JSON_TYPE_STRING \<and> string \<noteq> None then Text (the string) else Raw (zbx_json_insstring string type)) fs)"
proof -
  note p = represents_parts [OF r]
  let ?t = "if type = ZBX_JSON_TYPE_STRING \<and> string \<noteq> None then Text (the string) else Raw (zbx_json_insstring string type)"
  define s where "s = comma_part j @ name_part name @ render ?t"
  have item: "zbx_json_insstring_limit string type 0 = render ?t" by (auto simp: zbx_json_insstring_def)
  have len: "name_size j name + length (zbx_json_insstring string type) = length s"
    by (simp add: s_def name_size_eq item zbx_json_insstring_def)
  obtain buf1 buf where b:
    "json_move (jbuffer (zbx_json_realloc j (buffer_size j + length s + 1))) (buffer_offset j + length s) (buffer_offset j)
       (buffer_size j - buffer_offset j + 1) = Inr buf1"
    "json_put buf1 (buffer_offset j) s = Inr buf"
    "represents ((zbx_json_realloc j (buffer_size j + length s + 1))
      \<lparr>jbuffer := buf, buffer_offset := buffer_offset j + length s, buffer_size := buffer_size j + length s,
       jstatus := ZBX_JSON_COMMA\<rparr>) (add_child name ?t fs)"
    using put_represented [OF r s_def] by blast
  note q = json_realloc [OF p(4), of "buffer_size j + length s + 1"]
  have "zbx_json_addstring j name string type = Inr ((zbx_json_realloc j (buffer_size j + length s + 1))
      \<lparr>jbuffer := buf, buffer_offset := buffer_offset j + length s, buffer_size := buffer_size j + length s,
       jstatus := ZBX_JSON_COMMA\<rparr>)"
    unfolding zbx_json_addstring_def zbx_json_addstring_limit_def stringsize_limit_plain Let_def prod.case len q(4-7)
      comma_part_realloc [OF p(4)] item s_def [symmetric] rbind_Inr [OF b(1)] rbind_Inr [OF b(2)] by simp
  then show ?thesis using b(3) by blast
qed

lemma addraw_represented:
  assumes r: "represents j fs"
  shows "\<exists>j'. zbx_json_addraw j name data = Inr j' \<and> represents j' (add_child name (Raw data) fs)"
proof -
  note p = represents_parts [OF r]
  define s where "s = comma_part j @ name_part name @ data"
  have s: "s = comma_part j @ name_part name @ render (Raw data)" by (simp add: s_def)
  have len: "name_size j name + length data = length s" by (simp add: s_def name_size_eq)
  obtain buf1 buf where b:
    "json_move (jbuffer (zbx_json_realloc j (buffer_size j + length s + 1))) (buffer_offset j + length s) (buffer_offset j)
       (buffer_size j - buffer_offset j + 1) = Inr buf1"
    "json_put buf1 (buffer_offset j) s = Inr buf"
    "represents ((zbx_json_realloc j (buffer_size j + length s + 1))
      \<lparr>jbuffer := buf, buffer_offset := buffer_offset j + length s, buffer_size := buffer_size j + length s,
       jstatus := ZBX_JSON_COMMA\<rparr>) (add_child name (Raw data) fs)"
    using put_represented [OF r s] by blast
  note q = json_realloc [OF p(4), of "buffer_size j + length s + 1"]
  have "zbx_json_addraw j name data = Inr ((zbx_json_realloc j (buffer_size j + length s + 1))
      \<lparr>jbuffer := buf, buffer_offset := buffer_offset j + length s, buffer_size := buffer_size j + length s,
       jstatus := ZBX_JSON_COMMA\<rparr>)"
    unfolding zbx_json_addraw_def Let_def len q(4-7) comma_part_realloc [OF p(4)] s_def [symmetric]
      rbind_Inr [OF b(1)] rbind_Inr [OF b(2)] ..
  then show ?thesis using b(3) by blast
qed


lemma close_represented:
  assumes r: "represents j fs"
  shows "represents (fst (zbx_json_close j)) (close_frame fs)"
proof (cases "2 \<le> length fs")
  case True
  then obtain ob cs nm f fs' where fs: "fs = (ob, cs, nm) # f # fs'" by (cases fs rule: close_frame.cases) auto
  have same: "before (close_frame fs) @ behind (close_frame fs) = before fs @ behind fs"
    using before_close [OF True] behind_close [OF True] by simp
  have inv: "json_inv j" "json_text j = before fs @ behind fs" "buffer_offset j = length (before fs)" "jlevel j = length fs"
    using r by (auto simp: represents_def)
  have "length (behind fs) = length fs" by (simp add: behind_def)
  then have "buffer_offset j + 1 \<le> buffer_size j" using inv True json_text_length [OF inv(1)] by simp
  moreover have "fst (snd (hd (close_frame fs))) \<noteq> [] \<and> close_frame fs \<noteq> []" by (cases f) (simp add: fs)
  moreover have "length (before (close_frame fs)) = buffer_offset j + 1" using before_close [OF True] inv(3) by simp
  ultimately show ?thesis
    using inv True unfolding represents_def same
    by (simp add: zbx_json_close_def json_inv_def json_text_def length_close_frame)
next
  case False
  then have "close_frame fs = fs" by (cases fs rule: close_frame.cases) auto
  moreover have "jlevel j = 1" using False r by (cases fs; cases "tl fs") (auto simp: represents_def)
  ultimately show ?thesis using r by (simp add: zbx_json_close_def)
qed

lemma step_represented:
  assumes "represents j fs"
  shows "\<exists>j'. json_step j op = Inr j' \<and> represents j' (tree_step fs op)"
proof (cases op)
  case (Add_Object n)
  then show ?thesis using addobject_represented [OF assms, of n True] by (simp add: zbx_json_addobject_def)
next
  case (Add_Array n)
  then show ?thesis using addobject_represented [OF assms, of n False] by (simp add: zbx_json_addarray_def)
next
  case (Add_String n s t)
  then show ?thesis using addstring_represented [OF assms, of n s t] by simp
next
  case (Add_Raw n s)
  then show ?thesis using addraw_represented [OF assms, of n s] by simp
next
  case Close_Level
  then show ?thesis using close_represented [OF assms] by simp
qed

lemma run_represented: "represents j fs \<Longrightarrow> \<exists>j'. json_run (Inr j) ops = Inr j' \<and> represents j' (foldl tree_step fs ops)"
proof (induction ops arbitrary: j fs)
  case (Cons op ops)
  obtain j' where "json_step j op = Inr j'" "represents j' (tree_step fs op)" using step_represented [OF Cons.prems] by blast
  then show ?case using Cons.IH [of j'] by (simp add: json_run_def)
qed (simp add: json_run_def)

text \<open>The first call on an empty buffer.\<close>

lemma start_represented:
  assumes inv: "json_inv j" and e: "buffer_size j = 0" "jstatus j = ZBX_JSON_EMPTY" "jlevel j = 0"
  shows "\<exists>j'. json_addobject j None ob = Inr j' \<and> represents j' [(ob, [], None)]"
proof -
  let ?s = "[open_char ob, close_char ob]" and ?j = "zbx_json_realloc j (buffer_size j + 2 + 1)"
  note q = json_realloc [OF inv, of "buffer_size j + 2 + 1"]
  have o: "buffer_offset j = 0" "json_text j = []" using inv e(1) by (simp_all add: json_inv_def json_text_def)
  have len: "2 + name_size j None = 2" by (simp add: name_size_def e)
  have "buffer_size ?j + length ?s + 1 \<le> length (jbuffer ?j)" using q(3,5) by simp
  from json_insert [OF q(1) this] obtain buf1 buf where
    "json_move (jbuffer ?j) (buffer_offset j + length ?s) (buffer_offset j) (buffer_size j - buffer_offset j + 1) = Inr buf1"
    "json_put buf1 (buffer_offset j) ?s = Inr buf"
    "take (buffer_size j + length ?s) buf = take (buffer_offset j) (json_text j) @ ?s @ drop (buffer_offset j) (json_text j)"
    "buffer_size j + length ?s < length buf" "buf ! (buffer_size j + length ?s) = NUL"
    unfolding q(2,4,5) by metis
  then have b:
    "json_move (jbuffer ?j) (buffer_offset j + 2) (buffer_offset j) (buffer_size j - buffer_offset j + 1) = Inr buf1"
    "json_put buf1 (buffer_offset j) ?s = Inr buf"
    "take 2 buf = ?s" "2 < length buf" "buf ! 2 = NUL"
    by (simp_all add: o e(1) numeral_2_eq_2)
  define j' where "j' = ?j\<lparr>jbuffer := buf, buffer_offset := buffer_offset j + 1, buffer_size := buffer_size j + 2,
     jlevel := jlevel j + 1, jstatus := ZBX_JSON_EMPTY\<rparr>"
  have parts: "(comma_part j @ name_part None @ [if ob then CHR 0x7B else CHR ''['']) @ [if ob then CHR 0x7D else CHR '']''] = ?s"
    "length (comma_part j @ name_part None @ [if ob then CHR 0x7B else CHR ''['']) = 1"
    using e(2) by (simp_all add: open_char_def close_char_def comma_part_def name_part_def)
  have "json_addobject j None ob = Inr j'"
    unfolding json_addobject_def Let_def len q(4-7) comma_part_realloc [OF inv] rbind_Inr [OF b(1)] parts(1) rbind_Inr [OF b(2)]
      parts(2) j'_def ..
  moreover have "represents j' [(ob, [], None)]"
    using b(3-5) e(3) by (simp add: j'_def represents_def json_inv_def json_text_def behind_def o e(1) numeral_2_eq_2)
  ultimately show ?thesis by blast
qed

lemma json_start_inv: "json_inv (json_start n)" "buffer_size (json_start n) = 0" "jstatus (json_start n) = ZBX_JSON_EMPTY"
    "jlevel (json_start n) = 0"
  by (auto simp: json_start_def json_inv_def ZBX_JSON_STAT_BUF_LEN_def)

lemma init_represented:
  "\<exists>j. zbx_json_init n = Inr j \<and> represents j [(True, [], None)]"
  "\<exists>j. zbx_json_initarray n = Inr j \<and> represents j [(False, [], None)]"
  using start_represented [OF json_start_inv, of n True] start_represented [OF json_start_inv, of n False]
  by (simp_all add: zbx_json_init_def zbx_json_initarray_def zbx_json_addobject_def zbx_json_addarray_def)

lemma clean_represented:
  assumes "represents j fs"
  shows "\<exists>j'. zbx_json_clean j = Inr j' \<and> represents j' [(True, [], None)]"
proof -
  have "json_inv j" using assms by (simp add: represents_def)
  then have "json_inv (zbx_json_setempty j)" by (cases "jbuffer j") (auto simp: zbx_json_setempty_def json_inv_def)
  then show ?thesis
    using start_represented [of "zbx_json_setempty j" True] by (simp add: zbx_json_clean_def zbx_json_addobject_def zbx_json_setempty_def)
qed


subsection \<open>Texts of trees\<close>

text \<open>The members of objects have names and the elements of arrays have none, raw texts are values, and there are at most so
  many containers around each other.\<close>

fun valid_tree :: "nat \<Rightarrow> json_tree \<Rightarrow> bool" where
  "valid_tree d (Text s) = (0 < d)"
| "valid_tree d (Raw s) = json_value d s"
| "valid_tree 0 (Node object cs) = False"
| "valid_tree (Suc d) (Node object cs) = list_all (\<lambda>(n, t). (n \<noteq> None) = object \<and> valid_tree d t) cs"

lemma no_space [simp]: "json_space []"
  by (simp add: json_space_def)

lemma elements_joined:
  assumes "cs \<noteq> []" "\<And>t. t \<in> set cs \<Longrightarrow> json_value d t"
  shows "json_elements d (join_with (CHR '','') cs)"
  using assms
proof (induction cs rule: induct_list012)
  case (2 t)
  then show ?case using Element [of "[]" d t "[]"] by simp
next
  case (3 t u cs)
  then show ?case using Elements [of "[]" d t "[]"] by simp
qed simp

lemma members_joined:
  assumes "cs \<noteq> []" "\<And>n t. (n, t) \<in> set cs \<Longrightarrow> json_value d t"
  shows "json_members d (join_with (CHR '','') (map (\<lambda>(n, t). name_part (Some n) @ t) cs))"
  using assms
proof (induction cs rule: induct_list012)
  case (2 c)
  obtain n t where "c = (n, t)" by (cases c)
  then show ?case using Member [of "[]" "quoted n" "[]" "[]" d t "[]"] 2 by (simp add: name_part_def quoted_string)
next
  case (3 c c' cs)
  obtain n t where c: "c = (n, t)" by (cases c)
  let ?ms = "join_with (CHR '','') (map (\<lambda>(n, t). name_part (Some n) @ t) (c' # cs))"
  have "json_members d ?ms" "json_value d t" using 3 c by auto
  from Members [of "[]" "quoted n" "[]" "[]" d t "[]", OF _ quoted_string _ _ this(2) _ this(1)]
  have "json_members d (name_part (Some n) @ t @ CHR '','' # ?ms)" by (simp add: name_part_def)
  then show ?case by (simp add: c)
qed simp

lemma render_object:
  assumes "\<And>n t. (n, t) \<in> set cs \<Longrightarrow> n \<noteq> None \<and> json_value d (render t)"
  shows "json_container d (render (Node True cs))"
proof (cases "cs = []")
  case True
  then show ?thesis using Empty_Object [of "[]" d] by (simp add: open_char_def close_char_def)
next
  case False
  let ?cs = "map (\<lambda>(n, t). (the n, render t)) cs"
  have "map render_child cs = map (\<lambda>(n, t). name_part (Some n) @ t) ?cs" using assms by auto
  moreover have "json_members d (join_with (CHR '','') (map (\<lambda>(n, t). name_part (Some n) @ t) ?cs))"
    using False assms by (intro members_joined) auto
  ultimately have "json_members d (join_with (CHR '','') (map render_child cs))" by metis
  from Object [OF this] show ?thesis by (simp add: open_char_def close_char_def)
qed

lemma render_array:
  assumes "\<And>n t. (n, t) \<in> set cs \<Longrightarrow> n = None \<and> json_value d (render t)"
  shows "json_container d (render (Node False cs))"
proof (cases "cs = []")
  case True
  then show ?thesis using Empty_Array [of "[]" d] by (simp add: open_char_def close_char_def)
next
  case False
  have "map render_child cs = map (\<lambda>(n, t). render t) cs" using assms by (auto simp: name_part_def)
  moreover have "json_elements d (join_with (CHR '','') (map (\<lambda>(n, t). render t) cs))"
    using False assms by (intro elements_joined) auto
  ultimately have "json_elements d (join_with (CHR '','') (map render_child cs))" by metis
  from Array [OF this] show ?thesis by (simp add: open_char_def close_char_def)
qed

lemma render_node:
  assumes "\<And>n t. (n, t) \<in> set cs \<Longrightarrow> (n \<noteq> None) = ob \<and> json_value d (render t)"
  shows "json_container d (render (Node ob cs))"
  using assms render_object [of cs d] render_array [of cs d] by (cases ob) auto

lemma valid_render: "valid_tree d t \<Longrightarrow> json_value d (render t)"
proof (induction d t rule: valid_tree.induct)
  case (1 d s)
  then show ?case using Value_String [OF quoted_string] by (cases d) auto
next
  case (4 d ob cs)
  have "(n \<noteq> None) = ob \<and> json_value d (render t)" if "(n, t) \<in> set cs" for n t
    using 4 that by (auto simp: list_all_iff)
  then show ?case by (intro Value_Container render_node) auto
qed auto

lemma whole_node: "fs \<noteq> [] \<Longrightarrow> \<exists>ob cs. whole fs = Node ob cs"
proof (induction fs rule: whole.induct)
  case (1 fs)
  show ?case
  proof (cases "2 \<le> length fs")
    case True
    then have "close_frame fs \<noteq> []" using length_close_frame [of fs] by auto
    then show ?thesis using 1(1) [OF True] True by (simp add: whole.simps [of fs])
  next
    case False
    then obtain ob cs nm where "fs = [(ob, cs, nm)]" using 1(2) by (cases fs; cases "tl fs") auto
    then show ?thesis by (simp add: whole.simps)
  qed
qed

lemma valid_whole_container: "fs \<noteq> [] \<Longrightarrow> valid_tree (Suc d) (whole fs) \<Longrightarrow> json_container d (render (whole fs))"
proof -
  assume "fs \<noteq> []" "valid_tree (Suc d) (whole fs)"
  moreover obtain ob cs where w: "whole fs = Node ob cs" using whole_node [OF \<open>fs \<noteq> []\<close>] by blast
  ultimately have "(n \<noteq> None) = ob \<and> json_value d (render t)" if "(n, t) \<in> set cs" for n t
    using that valid_render by (auto simp: list_all_iff)
  then show ?thesis unfolding w by (intro render_node) auto
qed


subsection \<open>Sessions\<close>

definition json_open :: "bool \<Rightarrow> nat \<Rightarrow> zbx_json res" where
  "json_open object allocate = (if object then zbx_json_init allocate else zbx_json_initarray allocate)"

lemma open_represented: "\<exists>j. json_open object n = Inr j \<and> represents j [(object, [], None)]"
  using init_represented by (simp add: json_open_def)

lemma session_represented:
  "\<exists>j. json_run (json_open object n) ops = Inr j \<and> represents j (foldl tree_step [(object, [], None)] ops)"
proof -
  obtain j where "json_open object n = Inr j" "represents j [(object, [], None)]" using open_represented by blast
  then show ?thesis using run_represented [of j "[(object, [], None)]" ops] by simp
qed

lemma represented_text: "represents j fs \<Longrightarrow> json_text j = render (whole fs)"
  by (simp add: represents_def text_whole)

text \<open>C29: every sequence of calls after \<open>zbx_json_init\<close> or \<open>zbx_json_initarray\<close>, whatever size is allocated at first,
  runs without a write outside the buffer, and the buffer then holds the text of the tree of the containers, strings
  and raw items that the calls added, each open container closed, with a terminator behind it.\<close>

theorem json_session_correct:
  "\<exists>j. json_run (json_open object n) ops = Inr j \<and> json_text j = render (built object ops) \<and>
     buffer_size j < length (jbuffer j) \<and> jbuffer j ! buffer_size j = NUL"
proof -
  let ?fs = "foldl tree_step [(object, [], None)] ops"
  obtain j where j: "json_run (json_open object n) ops = Inr j" "represents j ?fs" using session_represented by blast
  have "json_text j = render (built object ops)" using represented_text [OF j(2)] by (simp add: built_def)
  moreover have "json_inv j" using j(2) by (simp add: represents_def)
  ultimately show ?thesis using j(1) by (auto simp: json_inv_def)
qed

text \<open>C31: reading back what was written for a string gives that string, whatever follows it in the text, if there is room for
  it and its terminator in a buffer of \<open>n\<close> bytes, and fails otherwise.\<close>

theorem json_string_roundtrip:
  "json_copy_string (zbx_json_insstring (Some s) ZBX_JSON_TYPE_STRING @ r) n = (if length s < n then Some (s, r) else None)"
  using copy_string_chars [OF insstring_chars] by (simp add: quoted_eq)

text \<open>C30: the validating parser accepts the whole text of the buffer if the calls gave names to the members of objects and
  to nothing else, the raw items are values, and the containers are at most as deep as the parser allows.\<close>

theorem json_session_valid:
  assumes "valid_tree (ZBX_MAX_JSON_DEPTH + 2) (built object ops)"
  shows "\<exists>j. json_run (json_open object n) ops = Inr j \<and> zbx_json_validate (json_text j) = Inr (buffer_size j)"
proof -
  let ?fs = "foldl tree_step [(object, [], None)] ops"
  obtain j where j: "json_run (json_open object n) ops = Inr j" "represents j ?fs" using session_represented by blast
  note r = represented_text [OF j(2)] represents_parts(5) [OF j(2)] json_text_length [OF represents_parts(4) [OF j(2)]]
  have "json_container (ZBX_MAX_JSON_DEPTH + 1) (json_text j)"
    using valid_whole_container [OF r(2)] assms r(1) by (simp add: built_def)
  then have "zbx_json_validate (json_text j) = Inr (length (json_text j))"
    unfolding json_validate_iff by (intro exI [of _ "[]"] exI [of _ "json_text j"]) simp
  then show ?thesis using j(1) r(3) by auto
qed

definition sample_session :: "json_op list" where
  "sample_session =
     [Add_String (Some ''key'') (Some (''a'' @ [CHR 0x22])) ZBX_JSON_TYPE_STRING, Add_Array (Some ''data''),
      Add_Raw None ''null'', Add_Object None, Close_Level, Close_Level, Close_Level,
      Add_String (Some ''t'') (Some ''true'') ZBX_JSON_TYPE_TRUE]"

lemma sample_built: "built True sample_session = Node True
  [(Some ''key'', Text (''a'' @ [CHR 0x22])), (Some ''data'', Node False [(None, Raw ''null''), (None, Node True [])]),
   (Some ''t'', Raw ''true'')]"
  by (simp add: built_def sample_session_def whole.simps zbx_json_insstring_def zbx_json_insstring_limit_def escape_char_def
      escape_letter_def code_def)

lemma sample_text: "render (built True sample_session) =
  [CHR 0x7B, CHR 0x22] @ ''key'' @ [CHR 0x22, CHR '':'', CHR 0x22, CHR ''a'', CHR 0x5C, CHR 0x22, CHR 0x22, CHR '','', CHR 0x22] @
  ''data'' @ [CHR 0x22] @ '':[null,'' @ [CHR 0x7B, CHR 0x7D] @ ''],'' @ [CHR 0x22, CHR ''t'', CHR 0x22] @ '':true'' @ [CHR 0x7D]"
  by (simp add: sample_built open_char_def close_char_def name_part_def zbx_json_insstring_def zbx_json_insstring_limit_def
      escape_char_def escape_letter_def code_def Let_def)

lemma literal_value: "t \<in> {''true'', ''false'', ''null''} \<Longrightarrow> 0 < d \<Longrightarrow> json_value d t"
  using Value_Literal [of t "d - 1"] by simp

lemma json_session_valid_witness:
  "\<exists>j. json_run (json_open True 0) sample_session = Inr j \<and> zbx_json_validate (json_text j) = Inr (buffer_size j)"
  by (rule json_session_valid) (simp add: sample_built ZBX_MAX_JSON_DEPTH_def numeral_eq_Suc literal_value)

end
