(* ===== verification/Spec2Isabelle.thy ===== *)
theory Spec2Isabelle
  imports Param_Spec Ip_Lists Queue_Ptr Hashmap Binary_Heap Hashset Linked_List Int128 Vector Numbers Base64 Serialize
    Iprange_Parse Portrange Shmem_Stats Utf8_Spec Json_Session
begin

text \<open>
  Verification library of the Zabbix base libraries (\<open>src/src/libs\<close>): the containers, the shared memory
  allocator and the text codecs that the server, the proxy and the agents are built on.

  \<^bold>\<open>The parts of the program and how they interact.\<close> The daemons keep their state, the configuration cache
  above all, in tables made of the containers of \<open>zbxalgo\<close>. A container takes its memory from
  callbacks; in the caches these are the calls of the shared memory allocator \<open>zbxshmem\<close>, so that the worker
  processes share one segment. The tables are hash sets of records, the timer queues are binary heaps that find an
  element by key through a hash map, the work queues are ring buffers and linked lists, rows and results are
  vectors. Item keys, lists of hosts, address ranges and numbers arrive as text and are taken apart by
  \<open>zbxparam\<close>, \<open>zbxip\<close>, \<open>zbxnum\<close>, \<open>zbxcrypto\<close> and \<open>zbxserialize\<close>, checked as UTF-8 by \<open>zbxstr\<close>, and written and validated as JSON by \<open>zbxjson\<close>. Sums of 64-bit counters are kept in 128 bits.

  \<^bold>\<open>Conventions\<close> (theory \<open>Prelude\<close>, strings in \<open>C_String\<close>). A status code is a \<open>bool\<close>. A routine
  that may exit, follow a null pointer, leave an array or divide by zero returns \<open>fault + 'a\<close>, so that the absence of
  the fault is part of a theorem. A C array is a list, a C string the list of the characters before its terminator, a
  pointer into it a suffix. Unsigned integers whose wrap-around matters are words (\<open>u8\<close>, \<open>u32\<close>,
  \<open>u64\<close>), or natural numbers reduced modulo \<open>2 ^ 64\<close> in the allocator; indices and sizes are natural
  numbers. Each call that can run out of memory takes a flag or an address that says whether it did. Hash and comparison
  callbacks are arguments; their contracts are the locales \<open>hash_contract\<close> and \<open>compare_func\<close>, which are
  interpreted on the default functions of \<open>algodefs.c\<close>.

  \<^bold>\<open>The theories\<close>, each with its source:
  \<^item> \<open>Algo_Defs\<close>, \<open>algodefs.c\<close>: \<open>zbx_hash_modfnv\<close>, the 64-bit mixer, the default comparisons,
    \<open>next_prime\<close>, \<open>zbx_isqrt32\<close>. The comparisons are orderings, all but the one of doubles; the tag comparison
    is a lexicographic tie of two orderings (\<open>compare_tie\<close>, with a \<open>sublocale\<close>).
  \<^item> \<open>Buckets\<close>, \<open>Hashmap\<close>, \<open>Hashset\<close>, from \<open>hashmap.c\<close> and \<open>hashset.c\<close>: slots
    are lists of entries, and every operation, rehashing included, is given on them as in the code, where rehashing is done in place.
    The invariant says that every entry is in the slot of its hash and that the counters are right; the hash map refines a
    finite map through the locale \<open>index_map\<close>, the hash set refines a set of values; an iteration that removes
    entries on its way visits each entry once; a failed allocation leaves the contents as they were.
  \<^item> \<open>Binary_Heap\<close>, \<open>binaryheap.c\<close>: the array, the sifting loops and the key index, which is a hash map. In
    every reachable heap (\<open>heap_reach\<close>) the minimum is found and the index holds the position of every key;
    filling and draining sorts.
  \<^item> \<open>Linked_List\<close>, \<open>linked_list.c\<close>: items on a store of addresses; sessions refine plain lists.
  \<^item> \<open>Vector\<close>, the macros of \<open>zbxalgo.h\<close>: storage calls refine lists, sort and uniq, the searches, the set
    difference of sorted vectors in place. \<open>qsort\<close> is an insertion sort: any sort that meets the contract
    differs from it in the order of equal elements only.
  \<^item> \<open>Queue_Ptr\<close>, \<open>queue.c\<close>: a ring buffer with one spare cell; the locales \<open>fifo\<close> and
    \<open>resizable_fifo\<close> state what a client may rely on.
  \<^item> \<open>Int128\<close>, \<open>int128.c\<close>: sums, products and quotients of 128-bit integers are exact; the loops of the
    division are partial functions that are shown to return.
  \<^item> \<open>Shmem\<close>, \<open>memalloc.c\<close>: the segment is a store of eight-byte cells, chunks carry their sizes on both
    ends, free chunks are linked in buckets. \<open>Shmem_Inv\<close> has the invariant of a store with its chunks and free
    lists, \<open>Shmem_Heap\<close> the layout of the segment, allocation and release, \<open>Shmem_Realloc\<close> and
    \<open>Shmem_Resize\<close> the reallocation with its four ways to resize, \<open>Shmem_Client\<close> creation and the sessions
    of a client who writes into its chunks, \<open>Shmem_Sessions\<close> and \<open>Shmem_Stats\<close> what holds of them: chunks
    are disjoint and keep their data, no memory is lost, the statistics are right. The searches through the
    free lists are partial functions; the invariant bounds their length. The search over the buckets
    takes their number, 30, as fuel, which is all it can visit.
  \<^item> \<open>Numbers\<close>, \<open>num.c\<close>: the recognisers of decimal, hexadecimal and floating point numbers against grammars,
    and the trimming in place.
  \<^item> \<open>Base64\<close>, \<open>base64.c\<close>: encoder, decoder, validator; round trip and grammar (\<open>base64_text\<close>).
  \<^item> \<open>Serialize\<close>, \<open>serialize.c\<close>: the compact form of 31-bit integers.
  \<^item> \<open>Param\<close>, \<open>Param_Spec\<close>, \<open>param.c\<close>: the state machine that takes a parameter out of a list, in its
    copying, measuring and counting forms, and quoting; the forms agree, and lists round trip.
  \<^item> \<open>Iprange\<close>, \<open>Iprange_Parse\<close>, \<open>Portrange\<close>, \<open>iprange.c\<close>: parsing, masks, printing and walks. A walk
    over overlapping ranges is a partial function; for port ranges it is shown to end.
  \<^item> \<open>Ip\<close>, \<open>Ip_Spec\<close>, \<open>Ip_Lists\<close>, \<open>ip.c\<close>: the recognisers of addresses against their grammar, the search
    of an address in a list, the elements of the \<open>ServerActive\<close> parameter.
  \<^item> \<open>Utf8\<close>, \<open>Utf8_Spec\<close>, from \<open>zbxstr/str.c\<close>: counting and cutting of UTF-8 texts by characters, the check of a
    text and the replacement of its invalid parts, against the encoding of code points (\<open>utf8_encode\<close>).
  \<^item> \<open>Json\<close>, \<open>Json_Spec\<close>, \<open>Json_Writer\<close>, \<open>Json_Session\<close>, from \<open>zbxjson/json_parser.c\<close> and
    \<open>zbxjson/json.c\<close>: the validating parser, sound and complete for a grammar (\<open>json_document\<close>), with suffixes of the
    text for the pointers and the depth limit of 64; the decoding of strings, against \<open>json_chars\<close>; the writer,
    whose buffer holds the text of the open containers (\<open>represents\<close>), so that every sequence of calls writes the text of a
    tree (\<open>render\<close>) and the parser accepts it. Not modelled: the tree that the parser can build, the navigation in a
    text, JSONPath, and \<open>zbx_json_init_with\<close>.

  \<^bold>\<open>Bounds.\<close> Loops over lists are recursions on the list, other loops have a measure; where a loop is not shown to
    end for all inputs it is a \<open>partial_function\<close>, and the theorems say that it returns. Three loops take fuel: the one over
  the buckets, the one over the groups of an address, of which there are four or eight, and the one that prints the
  digits of a 32-bit number, of which there are at most 32. Sizes
    are assumed below \<open>2 ^ 60\<close> or \<open>2 ^ 64\<close> where an addition of the code would wrap around beyond
    any memory.

  \<^bold>\<open>Not modelled.\<close> Floating point arithmetic (\<open>prediction.c\<close>, the conversions of \<open>num.c\<close>), since the library
  has no IEEE numbers; logging; the calls of the operating system behind the shared memory segment; the macro
  expansion of item keys through callbacks. The daemons, the configuration cache, the database layer, the pollers and the
  network code rest on SQL, sockets, TLS and third-party libraries that are not part of the sources; the
  JavaScript engine is third-party code.
\<close>

end
